(* ===== verification/Go_Prelude.thy ===== *)
theory Go_Prelude
  imports Main "HOL-Library.Word" "HOL-Library.List_Lexorder" "HOL-Library.Product_Lexorder"
begin

unbundle bit_operations_syntax

text \<open>
  The part of the Go language and of its standard library that the modelled packages use:
  machine integers as words, byte slices as lists of bytes, error values, \<open>bytes.Compare\<close>,
  \<open>bytes.IndexByte\<close>, \<open>sort.Search\<close> and big-endian integers, with the generic lemmas
  the component theories share.

  Conventions.
  \<^item> \<open>int64\<close>, \<open>int32\<close>, \<open>uint64\<close>, \<open>uint32\<close> and \<open>byte\<close> are
    words of that width, so that \<open>+\<close> and \<open>-\<close> wrap around as in Go. A signed
    comparison is a comparison of \<^const>\<open>sint\<close>, an unsigned one of the words themselves.
  \<^item> A slice length or an index (Go's 64-bit \<open>int\<close>) is a \<^typ>\<open>nat\<close> or an \<^typ>\<open>int\<close>.
  \<^item> A function that may fail returns \<^typ>\<open>'e + 'a\<close>, with \<^const>\<open>Inl\<close> for the
    returned error, the panic or the \<open>log.Fatalf\<close>.
\<close>

section \<open>Types\<close>

type_synonym byte = "8 word"
type_synonym bytes = "byte list"
type_synonym int64 = "64 word"
type_synonym int32 = "32 word"
type_synonym uint64 = "64 word"
type_synonym uint32 = "32 word"

text \<open>
  How a Go function ends without a result: it returns an error (\<open>errors.Errorf\<close>), an
  assertion error (\<open>errors.AssertionFailedf\<close>), it panics, or it stops the process
  (\<open>log.Fatalf\<close>). The string names the failing check.
\<close>

datatype go_error =
    Errorf string
  | AssertionFailedf string
  | GoPanic string
  | LogFatalf string

abbreviation index_out_of_range :: go_error where
  "index_out_of_range \<equiv> GoPanic ''index out of range''"

text \<open>The sequencing of fallible calls: \<open>if err != nil { return err }\<close>.\<close>

definition res_bind :: "'e + 'a \<Rightarrow> ('a \<Rightarrow> 'e + 'b) \<Rightarrow> 'e + 'b" where
  "res_bind m f = (case m of Inl e \<Rightarrow> Inl e | Inr a \<Rightarrow> f a)"

lemma res_bind_simps [simp]:
  "res_bind (Inl e) f = Inl e" "res_bind (Inr a) f = f a"
  by (simp_all add: res_bind_def)

lemma res_bind_Inr [simp]: "res_bind m f = Inr b \<longleftrightarrow> (\<exists>a. m = Inr a \<and> f a = Inr b)"
  by (cases m) auto

lemma res_bind_Inl: "res_bind m f = Inl e \<longleftrightarrow> m = Inl e \<or> (\<exists>a. m = Inr a \<and> f a = Inl e)"
  by (cases m) auto

lemma res_bind_cong [fundef_cong]:
  "m = m' \<Longrightarrow> (\<And>a. m' = Inr a \<Longrightarrow> f a = g a) \<Longrightarrow> res_bind m f = res_bind m' g"
  by (cases m') auto

text \<open>The slice expression \<open>b[k:]\<close> and the index expression \<open>b[k]\<close>, which panic out of range.\<close>

definition slice_from :: "nat \<Rightarrow> bytes \<Rightarrow> go_error + bytes" where
  "slice_from k b = (if k \<le> length b then Inr (drop k b) else Inl (GoPanic ''slice bounds out of range''))"

definition index_at :: "bytes \<Rightarrow> nat \<Rightarrow> go_error + byte" where
  "index_at b k = (if k < length b then Inr (b ! k) else Inl index_out_of_range)"

lemma slice_from_Inr [simp]: "slice_from k b = Inr r \<longleftrightarrow> k \<le> length b \<and> r = drop k b"
  by (auto simp: slice_from_def)

lemma index_at_Inr [simp]: "index_at b k = Inr c \<longleftrightarrow> k < length b \<and> c = b ! k"
  by (auto simp: index_at_def)

lemma slice_from_append [simp]: "slice_from (length xs) (xs @ ys) = Inr ys"
  by simp

named_theorems word_conv \<open>conversions of machine words to integers\<close>
named_theorems codec_simps \<open>the byte layout of the encoders\<close>

section \<open>Signed machine integers\<close>

lemma sint_add_in_range:
  fixes a b :: "'a::len word"
  assumes "- (2 ^ (LENGTH('a) - 1)) \<le> sint a + sint b" "sint a + sint b < 2 ^ (LENGTH('a) - 1)"
  shows "sint (a + b) = sint a + sint b"
  using assms by (simp add: sint_word_ariths signed_take_bit_int_eq_self)

lemma sint_diff_in_range:
  fixes a b :: "'a::len word"
  assumes "- (2 ^ (LENGTH('a) - 1)) \<le> sint a - sint b" "sint a - sint b < 2 ^ (LENGTH('a) - 1)"
  shows "sint (a - b) = sint a - sint b"
  using assms by (simp add: sint_word_ariths signed_take_bit_int_eq_self)

lemma sint_eq_iff: "sint (a :: 'a::len word) = sint b \<longleftrightarrow> a = b"
  by (simp add: word_eq_iff_signed [where ?'a = int])

lemma unat_of_nat_small: "n < 2 ^ LENGTH('a) \<Longrightarrow> unat (of_nat n :: 'a::len word) = n"
  by (simp add: unsigned_of_nat take_bit_nat_eq_self)

lemma sint64_range: "- 9223372036854775808 \<le> sint (a :: int64) \<and> sint a \<le> 9223372036854775807"
  using sint_ge [of a] sint_lt [of a] by simp

lemma sint32_range: "- 2147483648 \<le> sint (a :: int32) \<and> sint a \<le> 2147483647"
  using sint_ge [of a] sint_lt [of a] by simp

lemma half_range: "(2 :: int) ^ (LENGTH('a) - 1) \<le> 2 ^ LENGTH('a::len)"
  by (rule power_increasing) auto

lemma uint_of_nonneg: "0 \<le> sint (w :: 'a::len word) \<Longrightarrow> uint w = sint w"
  unfolding uint_sint using sint_lt [of w] half_range [where 'a = 'a]
  by (intro take_bit_int_eq_self) linarith+

lemma uint_of_neg:
  fixes w :: "'a::len word"
  assumes "sint w < 0" shows "uint w = sint w + 2 ^ LENGTH('a)"
proof -
  have "(sint w + 2 ^ LENGTH('a)) mod 2 ^ LENGTH('a) = sint w + 2 ^ LENGTH('a)"
    using assms sint_ge [of w] half_range [where 'a = 'a] by (intro mod_pos_pos_trivial) linarith+
  then show ?thesis by (simp add: uint_sint take_bit_eq_mod)
qed

lemma sint64_add:
  "- 9223372036854775808 \<le> sint a + sint b \<Longrightarrow> sint a + sint b \<le> 9223372036854775807 \<Longrightarrow>
   sint (a + b :: int64) = sint a + sint b"
  by (rule sint_add_in_range) auto

lemma sint32_add:
  "- 2147483648 \<le> sint a + sint b \<Longrightarrow> sint a + sint b \<le> 2147483647 \<Longrightarrow>
   sint (a + b :: int32) = sint a + sint b"
  by (rule sint_add_in_range) auto

lemma sint64_diff:
  "- 9223372036854775808 \<le> sint a - sint b \<Longrightarrow> sint a - sint b \<le> 9223372036854775807 \<Longrightarrow>
   sint (a - b :: int64) = sint a - sint b"
  by (rule sint_diff_in_range) auto

lemma sint32_diff:
  "- 2147483648 \<le> sint a - sint b \<Longrightarrow> sint a - sint b \<le> 2147483647 \<Longrightarrow>
   sint (a - b :: int32) = sint a - sint b"
  by (rule sint_diff_in_range) auto

abbreviation MaxInt64 :: int64 where "MaxInt64 \<equiv> 0x7fffffffffffffff"
abbreviation MinInt64 :: int64 where "MinInt64 \<equiv> 0x8000000000000000"
abbreviation MaxInt32 :: int32 where "MaxInt32 \<equiv> 0x7fffffff"
abbreviation MinInt32 :: int32 where "MinInt32 \<equiv> 0x80000000"

lemma sint_word_of_int_in64:
  "- 9223372036854775808 \<le> z \<Longrightarrow> z \<le> 9223372036854775807 \<Longrightarrow> sint (word_of_int z :: int64) = z"
  by (simp add: sint_sbintrunc' signed_take_bit_int_eq_self)

lemma sint_word_of_int_in32:
  "- 2147483648 \<le> z \<Longrightarrow> z \<le> 2147483647 \<Longrightarrow> sint (word_of_int z :: int32) = z"
  by (simp add: sint_sbintrunc' signed_take_bit_int_eq_self)

lemma sint64_of_nat: "n < 2 ^ 63 \<Longrightarrow> sint (of_nat n :: int64) = int n"
  by (simp add: sint_uint unsigned_of_nat take_bit_nat_eq_self signed_take_bit_int_eq_self)

lemma sint64_uminus: "n \<noteq> MinInt64 \<Longrightarrow> sint (- n) = - sint n"
  using sint64_diff [of 0 n] sint64_range [of n] sint_eq_iff [of n MinInt64] by simp

lemma of_nat_unat_eq: "unat w = n \<Longrightarrow> w = of_nat n"
  by auto

text \<open>Go's integer division on \<open>int64\<close> truncates towards zero.\<close>

definition trunc_div :: "int \<Rightarrow> int \<Rightarrow> int" where
  "trunc_div a b = (if (a < 0) = (b < 0) then \<bar>a\<bar> div \<bar>b\<bar> else - (\<bar>a\<bar> div \<bar>b\<bar>))"

definition int64_div :: "int64 \<Rightarrow> int64 \<Rightarrow> int64" where
  "int64_div a b = word_of_int (trunc_div (sint a) (sint b))"

lemma trunc_div_nonneg: "0 \<le> a \<Longrightarrow> 0 < b \<Longrightarrow> trunc_div a b = a div b"
  by (simp add: trunc_div_def)

lemma trunc_div_mono:
  assumes "a \<le> c" "0 < b" shows "trunc_div a b \<le> trunc_div c b"
proof (cases "0 \<le> a")
  case True
  with assms show ?thesis by (simp add: trunc_div_nonneg zdiv_mono1)
next
  case False
  show ?thesis
  proof (cases "0 \<le> c")
    case True
    with False assms have "0 \<le> - a div b" "0 \<le> c div b"
      by (simp_all add: pos_imp_zdiv_nonneg_iff)
    with False True assms show ?thesis
      by (simp add: trunc_div_def)
  next
    case nonneg: False
    with False assms show ?thesis
      by (simp add: trunc_div_def zdiv_mono1)
  qed
qed

lemma trunc_div_nonneg_cases:
  assumes "0 < k" "0 \<le> a"
  obtains q r where "trunc_div a k = q" "a = q * k + r" "0 \<le> q" "0 \<le> r" "r < k" "q \<le> q * k"
proof (rule that [of "a div k" "a mod k"])
  show q: "0 \<le> a div k" using assms by (simp add: pos_imp_zdiv_nonneg_iff)
  show "a div k \<le> a div k * k" using mult_left_mono [of 1 k, OF _ q] assms by simp
qed (use assms in \<open>simp_all add: trunc_div_nonneg\<close>)

lemma trunc_div_neg: "0 < k \<Longrightarrow> trunc_div (- a) k = - trunc_div a k"
  by (auto simp: trunc_div_def)

lemma trunc_div_rem:
  assumes "0 < k"
  obtains q r where "trunc_div a k = q" "a = q * k + r" "\<bar>r\<bar> < k" "\<bar>q\<bar> \<le> \<bar>a\<bar>"
    "0 \<le> a \<longrightarrow> 0 \<le> q \<and> 0 \<le> r" "a \<le> 0 \<longrightarrow> q \<le> 0 \<and> r \<le> 0"
proof (cases "0 \<le> a")
  case True
  then obtain q r where "trunc_div a k = q" "a = q * k + r" "0 \<le> q" "0 \<le> r" "r < k" "q \<le> q * k"
    using trunc_div_nonneg_cases [OF assms] by blast
  moreover have "q = 0 \<and> r = 0" if "a \<le> 0"
    using calculation that by linarith
  ultimately show ?thesis using True by (intro that [of q r]) linarith+
next
  case False
  then obtain q r where "trunc_div (- a) k = q" "- a = q * k + r" "0 \<le> q" "0 \<le> r" "r < k" "q \<le> q * k"
    using trunc_div_nonneg_cases [OF assms, of "- a"] by auto
  moreover have "trunc_div a k = - trunc_div (- a) k" using trunc_div_neg [OF assms, of "- a"] by simp
  ultimately show ?thesis using False by (intro that [of "- q" "- r"]) (linarith | simp)+
qed

lemma sint_int64_div:
  assumes "0 < sint k"
  shows "sint (int64_div a k) = trunc_div (sint a) (sint k)"
proof -
  obtain q where q: "trunc_div (sint a) (sint k) = q" "\<bar>q\<bar> \<le> \<bar>sint a\<bar>" "0 \<le> sint a \<longrightarrow> 0 \<le> q"
    "sint a \<le> 0 \<longrightarrow> q \<le> 0"
    using trunc_div_rem [OF assms] by metis
  then have "- 9223372036854775808 \<le> q" "q \<le> 9223372036854775807"
    using sint64_range [of a] by linarith+
  then show ?thesis using q(1) by (simp only: int64_div_def sint_word_of_int_in64)
qed

lemma int_div_less_iff: "0 < k \<Longrightarrow> m div k < n \<longleftrightarrow> m < n * (k :: int)"
proof -
  assume k: "0 < k"
  have m: "m = m div k * k + m mod k" "0 \<le> m mod k" "m mod k < k" using k by simp_all
  have "m div k * k + k \<le> n * k" if "m div k < n"
    using mult_right_mono [of "m div k + 1" n k] that k by (simp add: algebra_simps)
  moreover have "n * k \<le> m div k * k" if "n \<le> m div k" using that k by (intro mult_right_mono) auto
  ultimately show ?thesis using m by linarith
qed

section \<open>Three-way comparison\<close>

text \<open>
  A Go comparison function returns a negative number, zero or a positive number. The contract
  of such a function is that it is a total preorder; it is stated once, and every comparison
  function of the development that is the comparison of some key in a linear order
  (\<open>keyed_comparator\<close>) satisfies it.
\<close>

locale comparator =
  fixes cmp :: "'a \<Rightarrow> 'a \<Rightarrow> int"
  assumes cmp_antisym: "cmp b a = - cmp a b"
    and cmp_trans: "cmp a b \<le> 0 \<Longrightarrow> cmp b c \<le> 0 \<Longrightarrow> cmp a c \<le> 0"
begin

lemma cmp_refl: "cmp a a = 0"
  using cmp_antisym [of a a] by simp

lemma cmp_total: "cmp a b \<le> 0 \<or> cmp b a \<le> 0"
  using cmp_antisym [of a b] by auto

lemma cmp_less_asym: "cmp a b < 0 \<Longrightarrow> \<not> cmp b a < 0"
  using cmp_antisym [of a b] by auto

lemma cmp_less_trans: "cmp a b < 0 \<Longrightarrow> cmp b c \<le> 0 \<Longrightarrow> cmp a c < 0"
  using cmp_trans [of a b c] cmp_trans [of b c a] cmp_antisym [of a b] cmp_antisym [of a c]
  by linarith

lemma cmp_eq_trans: "cmp a b = 0 \<Longrightarrow> cmp b c = 0 \<Longrightarrow> cmp a c = 0"
  using cmp_trans [of a b c] cmp_trans [of c b a] cmp_antisym [of b a] cmp_antisym [of c b]
    cmp_antisym [of c a] by auto

end

definition three_way :: "'k::linorder \<Rightarrow> 'k \<Rightarrow> int" where
  "three_way a b = (if a < b then - 1 else if b < a then 1 else 0)"

lemma three_way_simps [simp]:
  "three_way a b < 0 \<longleftrightarrow> a < b"
  "three_way a b \<le> 0 \<longleftrightarrow> a \<le> b"
  "three_way a b = 0 \<longleftrightarrow> a = b"
  "0 < three_way a b \<longleftrightarrow> b < a"
  "0 \<le> three_way a b \<longleftrightarrow> b \<le> a"
  by (auto simp: three_way_def)

lemma three_way_minus: "- three_way a b = three_way b a"
  by (auto simp: three_way_def)

locale keyed_comparator =
  fixes cmp :: "'a \<Rightarrow> 'a \<Rightarrow> int"
    and key :: "'a \<Rightarrow> 'k::linorder"
  assumes cmp_key: "cmp a b = three_way (key a) (key b)"
begin

lemma cmp_zero_iff: "cmp a b = 0 \<longleftrightarrow> key a = key b"
  by (simp add: cmp_key)

lemma cmp_neg_iff: "cmp a b < 0 \<longleftrightarrow> key a < key b"
  by (simp add: cmp_key)

end

sublocale keyed_comparator \<subseteq> comparator cmp
  by unfold_locales (auto simp: cmp_key three_way_minus)

text \<open>\<open>bytes.Compare\<close>: lexicographic, a prefix sorts first.\<close>

fun bytes_compare :: "bytes \<Rightarrow> bytes \<Rightarrow> int" where
  "bytes_compare [] [] = 0"
| "bytes_compare [] (y # ys) = - 1"
| "bytes_compare (x # xs) [] = 1"
| "bytes_compare (x # xs) (y # ys) =
     (if x < y then - 1 else if y < x then 1 else bytes_compare xs ys)"

lemma bytes_compare_conv [simp]: "bytes_compare a b = three_way a b"
  by (induction a b rule: bytes_compare.induct) (auto simp: three_way_def)

interpretation bytes_cmp: keyed_comparator bytes_compare "\<lambda>b. b"
  by unfold_locales simp

section \<open>Slices\<close>

text \<open>\<open>bytes.IndexByte\<close>; \<^const>\<open>None\<close> is the result \<open>-1\<close>.\<close>

fun index_byte :: "bytes \<Rightarrow> byte \<Rightarrow> nat option" where
  "index_byte [] c = None"
| "index_byte (x # xs) c = (if x = c then Some 0 else map_option Suc (index_byte xs c))"

lemma index_byte_None: "index_byte xs c = None \<longleftrightarrow> c \<notin> set xs"
  by (induction xs) auto

lemma index_byte_Some:
  "index_byte xs c = Some i \<Longrightarrow> i < length xs \<and> xs ! i = c \<and> c \<notin> set (take i xs)"
  by (induction xs arbitrary: i) (auto split: if_splits)

lemma index_byte_append: "c \<notin> set xs \<Longrightarrow> index_byte (xs @ c # ys) c = Some (length xs)"
  by (induction xs) auto

text \<open>
  \<open>sort.Search n f\<close>: the binary search of the standard library over the indices \<open>0..<n\<close>.
\<close>

function search_loop :: "(nat \<Rightarrow> bool) \<Rightarrow> nat \<Rightarrow> nat \<Rightarrow> nat" where
  "search_loop f i j =
     (if i < j then
        let h = (i + j) div 2
        in if \<not> f h then search_loop f (h + 1) j else search_loop f i h
      else i)"
  by pat_completeness auto
termination
  by (relation "measure (\<lambda>(f, i, j). j - i)") auto

declare search_loop.simps [simp del]

definition sort_search :: "nat \<Rightarrow> (nat \<Rightarrow> bool) \<Rightarrow> nat" where
  "sort_search n f = search_loop f 0 n"

text \<open>
  For a predicate that stays true once it is true, the search returns the first index
  where it holds, and the upper bound when there is none.
\<close>

lemma search_loop_bounds: "i \<le> j \<Longrightarrow> i \<le> search_loop f i j \<and> search_loop f i j \<le> j"
proof (induction f i j rule: search_loop.induct)
  case (1 f i j)
  show ?case
  proof (cases "i < j")
    case True
    let ?h = "(i + j) div 2"
    have h: "i \<le> ?h" "?h + 1 \<le> j" using True by auto
    show ?thesis
    proof (cases "f ?h")
      case False
      with "1.IH"(1) [OF True refl] h True show ?thesis
        by (subst (1 2) search_loop.simps) (auto simp: Let_def)
    next
      case fh: True
      with "1.IH"(2) [OF True refl] h True show ?thesis
        by (subst (1 2) search_loop.simps) (auto simp: Let_def)
    qed
  next
    case False
    with "1.prems" show ?thesis by (simp add: search_loop.simps)
  qed
qed

definition stays_true :: "nat \<Rightarrow> (nat \<Rightarrow> bool) \<Rightarrow> bool" where
  "stays_true n f \<longleftrightarrow> (\<forall>a b. a \<le> b \<and> b < n \<and> f a \<longrightarrow> f b)"

lemma stays_trueD: "stays_true n f \<Longrightarrow> f a \<Longrightarrow> a \<le> b \<Longrightarrow> b < n \<Longrightarrow> f b"
  unfolding stays_true_def by blast

lemma search_loop_first:
  assumes "i \<le> j" "j \<le> n" "stays_true n f" "\<forall>k. k < i \<longrightarrow> \<not> f k" "\<forall>k. j \<le> k \<and> k < n \<longrightarrow> f k"
  shows "(\<forall>k. k < search_loop f i j \<longrightarrow> \<not> f k) \<and>
    (\<forall>k. search_loop f i j \<le> k \<and> k < n \<longrightarrow> f k)"
  using assms
proof (induction f i j rule: search_loop.induct)
  case (1 f i j)
  let ?h = "(i + j) div 2"
  note st = "1.prems"(3) and below = "1.prems"(4) and above = "1.prems"(5)
  show ?case
  proof (cases "i < j")
    case True
    then have h: "i \<le> ?h" "?h < j" "?h \<le> n" "?h + 1 \<le> j" "?h < n" using "1.prems"(2) by auto
    show ?thesis
    proof (cases "f ?h")
      case fh: True
      then have up: "\<forall>k. ?h \<le> k \<and> k < n \<longrightarrow> f k"
        using stays_trueD [OF st] by simp
      from fh have nn: "\<not> \<not> f ?h" by simp
      from True fh have eq: "search_loop f i j = search_loop f i ?h"
        by (subst search_loop.simps) (simp add: Let_def)
      show ?thesis
        unfolding eq by (rule "1.IH"(2) [OF True refl nn h(1) h(3) st below up])
    next
      case False
      have less: "\<forall>k. k < ?h + 1 \<longrightarrow> \<not> f k"
      proof (intro allI impI notI)
        fix k assume "k < ?h + 1" "f k"
        then have "k \<le> ?h" by simp
        from stays_trueD [OF st \<open>f k\<close> this h(5)] have "f ?h" .
        with False show False by simp
      qed
      from True False have eq: "search_loop f i j = search_loop f (?h + 1) j"
        by (subst search_loop.simps) (simp add: Let_def)
      show ?thesis
        unfolding eq by (rule "1.IH"(1) [OF True refl False h(4) "1.prems"(2) st less above])
    qed
  next
    case False
    then have "search_loop f i j = i" by (simp add: search_loop.simps [of f i j])
    with False "1.prems"(1) below above show ?thesis by auto
  qed
qed

lemma sort_search_le: "sort_search n f \<le> n"
  using search_loop_bounds [of 0 n f] by (simp add: sort_search_def)

lemma sort_search_spec:
  assumes "stays_true n f"
  shows "(\<forall>k. k < sort_search n f \<longrightarrow> \<not> f k) \<and> (\<forall>k. sort_search n f \<le> k \<and> k < n \<longrightarrow> f k)"
  unfolding sort_search_def by (rule search_loop_first [OF _ _ assms]) auto

lemma sort_search_before: "stays_true n f \<Longrightarrow> k < sort_search n f \<Longrightarrow> \<not> f k"
  using sort_search_spec by blast

lemma sort_search_after: "stays_true n f \<Longrightarrow> sort_search n f \<le> k \<Longrightarrow> k < n \<Longrightarrow> f k"
  using sort_search_spec by blast

lemma sort_search_eqI:
  assumes "stays_true n f" "i \<le> n" "\<And>k. k < i \<Longrightarrow> \<not> f k" "i < n \<Longrightarrow> f i"
  shows "sort_search n f = i"
proof (cases "sort_search n f" i rule: linorder_cases)
  case less
  with assms(2) have "f (sort_search n f)"
    by (intro sort_search_after [OF assms(1) order_refl]) simp
  with assms(3) [OF less] show ?thesis by contradiction
next
  case greater
  then have "i < n" using sort_search_le [of n f] by (rule less_le_trans)
  from sort_search_before [OF assms(1) greater] assms(4) [OF this] show ?thesis
    by contradiction
qed

text \<open>
  The usual predicate: the keys of a list sorted by \<open>g\<close> reach a bound.
\<close>

lemma stays_true_sorted:
  assumes "sorted (map g xs)"
  shows "stays_true (length xs) (\<lambda>i. (c :: 'k::linorder) \<le> g (xs ! i))"
  unfolding stays_true_def
proof (intro allI impI)
  fix a b assume *: "a \<le> b \<and> b < length xs \<and> c \<le> g (xs ! a)"
  then have "map g xs ! a \<le> map g xs ! b"
    using assms by (intro sorted_nth_mono) auto
  with * show "c \<le> g (xs ! b)" by auto
qed

lemma sort_search_sorted:
  fixes c :: "'k::linorder"
  assumes "sorted (map g xs)"
  defines "i \<equiv> sort_search (length xs) (\<lambda>i. c \<le> g (xs ! i))"
  shows "i \<le> length xs" "\<forall>x \<in> set (take i xs). g x < c" "\<forall>x \<in> set (drop i xs). c \<le> g x"
proof -
  note st = stays_true_sorted [OF assms(1), of c]
  show "i \<le> length xs" by (simp add: i_def sort_search_le)
  show "\<forall>x \<in> set (take i xs). g x < c"
    using sort_search_before [OF st] by (auto simp: i_def in_set_conv_nth not_le)
  show "\<forall>x \<in> set (drop i xs). c \<le> g x"
    using sort_search_after [OF st] by (auto simp: i_def in_set_conv_nth)
qed

end
