(* ===== verification/Big_Endian.thy ===== *)
theory Big_Endian
  imports Go_Prelude
begin

section \<open>Big-endian integers\<close>

text \<open>
  The bytes \<open>byte(v >> 8*(n-1)), ..., byte(v >> 8), byte(v)\<close> of a word, most significant
  first, and the loop \<open>v = (v << 8) | t\<close> that reads them back.
\<close>

fun be_bytes :: "nat \<Rightarrow> 'a::len word \<Rightarrow> bytes" where
  "be_bytes 0 v = []"
| "be_bytes (Suc n) v = ucast (drop_bit (8 * n) v) # be_bytes n v"

definition be_fold :: "bytes \<Rightarrow> 'a::len word" where
  "be_fold bs = foldl (\<lambda>v t. push_bit 8 v OR ucast t) 0 bs"

text \<open>The natural number a byte string denotes.\<close>

definition be_nat :: "bytes \<Rightarrow> nat" where
  "be_nat bs = foldl (\<lambda>v t. v * 256 + unat t) 0 bs"

lemma be_nat_foldl: "foldl (\<lambda>v t. v * 256 + unat (t::byte)) n bs = n * 256 ^ length bs + be_nat bs"
proof (induction bs arbitrary: n)
  case Nil
  then show ?case by (simp add: be_nat_def)
next
  case (Cons b bs)
  from Cons [of "unat b"] Cons [of "n * 256 + unat b"] show ?case
    by (simp add: be_nat_def algebra_simps)
qed

lemma be_nat_Nil [simp]: "be_nat [] = 0"
  by (simp add: be_nat_def)

lemma be_nat_Cons [simp]: "be_nat (b # bs) = unat b * 256 ^ length bs + be_nat bs"
  using be_nat_foldl [of "unat b" bs] by (simp add: be_nat_def)

lemma unat_byte_less [simp]: "unat (b :: byte) < 256"
  using unsigned_less [of b, where ?'a = nat] by simp

lemma be_nat_less: "be_nat bs < 256 ^ length bs"
proof (induction bs)
  case (Cons b bs)
  have "unat b * 256 ^ length bs + be_nat bs < (unat b + 1) * 256 ^ length bs"
    using Cons by simp
  also have "\<dots> \<le> 256 * 256 ^ length bs"
    using unat_byte_less [of b] by (intro mult_right_mono) (auto simp del: unat_byte_less)
  finally show ?case by simp
qed simp

text \<open>On strings of the same length the byte order is the numeric order.\<close>

lemma be_nat_mono: "length xs = length ys \<Longrightarrow> xs < ys \<longleftrightarrow> be_nat xs < be_nat ys"
proof (induction xs ys rule: list_induct2)
  case (Cons x xs y ys)
  have lex: "a * n + r < b * n + s \<longleftrightarrow> a < b \<or> a = b \<and> r < s"
    if "r < n" "s < n" for a b n r s :: nat
  proof -
    have "a * n + r < b * n + s" if "a < b"
    proof -
      have "a * n + r < (a + 1) * n" using \<open>r < n\<close> by simp
      also have "\<dots> \<le> b * n" using that by (intro mult_right_mono) auto
      finally show ?thesis by simp
    qed
    moreover have "b * n + s < a * n + r" if "b < a"
    proof -
      have "b * n + s < (b + 1) * n" using \<open>s < n\<close> by simp
      also have "\<dots> \<le> a * n" using that by (intro mult_right_mono) auto
      finally show ?thesis by simp
    qed
    ultimately show ?thesis by (cases a b rule: linorder_cases) auto
  qed
  show ?case
    using Cons be_nat_less [of xs] be_nat_less [of ys]
    by (simp add: lex word_less_nat_alt word_unat_eq_iff)
qed simp

lemma be_nat_inj: "length xs = length ys \<Longrightarrow> be_nat xs = be_nat ys \<Longrightarrow> xs = ys"
  using be_nat_mono [of xs ys] be_nat_mono [of ys xs] by (metis less_irrefl linorder_less_linear)

lemma length_be_bytes [simp]: "length (be_bytes n v) = n"
  by (induction n) auto

lemma unat_ucast_byte: "unat (ucast (v :: 'a::len word) :: byte) = unat v mod 256"
  by (simp add: unsigned_ucast_eq take_bit_eq_mod)

lemma be_nat_be_bytes: "be_nat (be_bytes n v) = unat v mod 256 ^ n"
proof (induction n)
  case (Suc n)
  have "be_nat (be_bytes (Suc n) v) = (unat v div 256 ^ n) mod 256 * 256 ^ n + unat v mod 256 ^ n"
    using Suc by (simp add: unat_ucast_byte unat_drop_bit_eq) (simp add: drop_bit_eq_div power_mult)
  also have "\<dots> = unat v mod (256 ^ n * 256)"
    using mod_mult2_eq [of "unat v" "256 ^ n" 256] by (simp only: mult.commute)
  finally show ?case by (simp only: power_Suc mult.commute)
qed simp

lemma be_bytes_cong: "unat v mod 256 ^ n = unat w mod 256 ^ n \<Longrightarrow> be_bytes n v = be_bytes n w"
  by (rule be_nat_inj) (simp_all add: be_nat_be_bytes)

lemma be_fold_step:
  fixes v :: "'a::len word"
  shows "push_bit 8 v OR ucast (t :: byte) = v * 256 + ucast t"
proof -
  have "push_bit 8 v AND ucast t = 0"
    by (rule bit_word_eqI) (auto simp: bit_simps dest: bit_imp_le_length)
  then have "push_bit 8 v + ucast t = push_bit 8 v OR ucast t"
    by (rule disjunctive_add_eq_or)
  then show ?thesis by (simp add: push_bit_eq_mult)
qed

lemma be_fold_be_nat: "(be_fold bs :: 'a::len word) = of_nat (be_nat bs)"
proof -
  have "foldl (\<lambda>v t. push_bit 8 v OR ucast t) (of_nat n :: 'a word) bs =
      of_nat (foldl (\<lambda>v t. v * 256 + unat t) n bs)" for n
  proof (induction bs arbitrary: n)
    case (Cons b bs)
    have "push_bit 8 (of_nat n) OR ucast b = (of_nat (n * 256 + unat b) :: 'a word)"
      by (simp add: be_fold_step)
    then show ?case using Cons [of "n * 256 + unat b"] by simp
  qed simp
  from this [of 0] show ?thesis by (simp add: be_fold_def be_nat_def)
qed

lemma be_fold_be_bytes:
  assumes "unat (v :: 'a::len word) < 256 ^ n"
  shows "be_fold (be_bytes n v) = v"
  using assms by (simp add: be_fold_be_nat be_nat_be_bytes)

lemma be_bytes_less_iff:
  assumes "unat v < 256 ^ n" "unat w < 256 ^ n"
  shows "be_bytes n v < be_bytes n w \<longleftrightarrow> v < w"
  using assms by (simp add: be_nat_mono be_nat_be_bytes word_less_nat_alt)

text \<open>Ones complement reverses the order of strings of the same length.\<close>

lemma unat_not: "unat (NOT (w :: 'a::len word)) = 2 ^ LENGTH('a) - 1 - unat w"
proof -
  have "NOT w = - 1 - w" by (simp add: not_eq_complement)
  moreover have "unat (- 1 - w) = unat (- 1 :: 'a word) - unat w"
    by (rule unat_sub) (rule word_order.extremum)
  ultimately show ?thesis by (simp add: unsigned_minus_1_eq_mask mask_eq_exp_minus_1)
qed

lemma word_not_less_iff: "NOT a < NOT b \<longleftrightarrow> b < (a :: 'a::len word)"
proof -
  have "unat a < 2 ^ LENGTH('a)" "unat b < 2 ^ LENGTH('a)" by simp_all
  then show ?thesis unfolding word_less_nat_alt unat_not by linarith
qed

lemma map_not_less_iff:
  "length xs = length ys \<Longrightarrow> map NOT xs < map NOT (ys :: bytes) \<longleftrightarrow> ys < xs"
  by (induction xs ys rule: list_induct2) (auto simp: word_not_less_iff)

lemma not_comp_not [simp]: "NOT \<circ> NOT = (id :: byte \<Rightarrow> byte)"
  by (simp add: fun_eq_iff)

lemma map_not_not [simp]: "map NOT (map NOT (xs :: bytes)) = xs"
  by (simp add: comp_def)

lemma be_bytes_not: "8 * n \<le> LENGTH('a) \<Longrightarrow> be_bytes n (NOT (v :: 'a::len word)) = map NOT (be_bytes n v)"
proof (induction n)
  case (Suc n)
  have "(ucast (drop_bit (8 * n) (NOT v)) :: byte) = NOT (ucast (drop_bit (8 * n) v))"
    using Suc.prems by (intro bit_word_eqI) (auto simp: bit_simps)
  with Suc show ?case by simp
qed simp

end
