(* ===== verification/Hlc_Timestamp.thy ===== *)
theory Hlc_Timestamp
  imports Go_Prelude
begin

text \<open>
  \<open>pkg/util/hlc/timestamp.go\<close>: hybrid logical timestamps, their order, successor and
  predecessor, ratcheting, printing and parsing. A timestamp is a signed 64-bit wall time, a
  signed 32-bit logical counter and the synthetic flag, which no comparison looks at; the
  order is therefore the lexicographic order of the pair \<open>ts_key\<close> of the two counters.
\<close>

section \<open>The type and its order\<close>

record Timestamp =
  WallTime :: int64
  Logical :: int32
  Synthetic :: bool

type_synonym ClockTimestamp = Timestamp

definition Timestamp_zero :: Timestamp where
  "Timestamp_zero = \<lparr>WallTime = 0, Logical = 0, Synthetic = False\<rparr>"

definition MaxTimestamp :: Timestamp where
  "MaxTimestamp = \<lparr>WallTime = MaxInt64, Logical = MaxInt32, Synthetic = False\<rparr>"

definition MinTimestamp_value :: Timestamp where
  "MinTimestamp_value = \<lparr>WallTime = 0, Logical = 1, Synthetic = False\<rparr>"

definition Timestamp_EqOrdering :: "Timestamp \<Rightarrow> Timestamp \<Rightarrow> bool" where
  "Timestamp_EqOrdering t s \<longleftrightarrow> WallTime t = WallTime s \<and> Logical t = Logical s"

definition Timestamp_Less :: "Timestamp \<Rightarrow> Timestamp \<Rightarrow> bool" where
  "Timestamp_Less t s \<longleftrightarrow> sint (WallTime t) < sint (WallTime s) \<or>
     (WallTime t = WallTime s \<and> sint (Logical t) < sint (Logical s))"

definition Timestamp_LessEq :: "Timestamp \<Rightarrow> Timestamp \<Rightarrow> bool" where
  "Timestamp_LessEq t s \<longleftrightarrow> sint (WallTime t) < sint (WallTime s) \<or>
     (WallTime t = WallTime s \<and> sint (Logical t) \<le> sint (Logical s))"

definition Timestamp_Compare :: "Timestamp \<Rightarrow> Timestamp \<Rightarrow> int" where
  "Timestamp_Compare t s =
     (if sint (WallTime t) > sint (WallTime s) then 1
      else if sint (WallTime t) < sint (WallTime s) then - 1
      else if sint (Logical t) > sint (Logical s) then 1
      else if sint (Logical t) < sint (Logical s) then - 1
      else 0)"

definition Timestamp_IsEmpty :: "Timestamp \<Rightarrow> bool" where
  "Timestamp_IsEmpty t \<longleftrightarrow> t = Timestamp_zero"

definition Timestamp_IsSet :: "Timestamp \<Rightarrow> bool" where
  "Timestamp_IsSet t \<longleftrightarrow> \<not> Timestamp_IsEmpty t"

text \<open>The key of the order, and the timestamps an HLC produces (no negative component).\<close>

definition ts_key :: "Timestamp \<Rightarrow> int \<times> int" where
  "ts_key t = (sint (WallTime t), sint (Logical t))"

definition ts_nonneg :: "Timestamp \<Rightarrow> bool" where
  "ts_nonneg t \<longleftrightarrow> 0 \<le> sint (WallTime t) \<and> 0 \<le> sint (Logical t)"

named_theorems ts_order \<open>the comparisons of timestamps as comparisons of their keys\<close>

lemma Timestamp_Less_key [ts_order]: "Timestamp_Less t s \<longleftrightarrow> ts_key t < ts_key s"
  by (auto simp: Timestamp_Less_def ts_key_def sint_eq_iff)

lemma Timestamp_LessEq_key [ts_order]: "Timestamp_LessEq t s \<longleftrightarrow> ts_key t \<le> ts_key s"
  by (auto simp: Timestamp_LessEq_def ts_key_def sint_eq_iff)

lemma Timestamp_EqOrdering_key [ts_order]: "Timestamp_EqOrdering t s \<longleftrightarrow> ts_key t = ts_key s"
  by (auto simp: Timestamp_EqOrdering_def ts_key_def sint_eq_iff)

lemma Timestamp_Compare_key: "Timestamp_Compare t s = three_way (ts_key t) (ts_key s)"
  by (auto simp: Timestamp_Compare_def ts_key_def three_way_def)

interpretation ts_cmp: keyed_comparator Timestamp_Compare ts_key
  by unfold_locales (rule Timestamp_Compare_key)

lemma ts_key_eq_iff:
  "Synthetic t = Synthetic s \<Longrightarrow> ts_key t = ts_key s \<longleftrightarrow> t = s"
  by (cases t; cases s) (auto simp: ts_key_def sint_eq_iff)

section \<open>Successor and predecessor\<close>

definition Timestamp_Add :: "Timestamp \<Rightarrow> int64 \<Rightarrow> int32 \<Rightarrow> Timestamp" where
  "Timestamp_Add t wallTime logical =
     \<lparr>WallTime = WallTime t + wallTime, Logical = Logical t + logical, Synthetic = Synthetic t\<rparr>"

definition Timestamp_WithSynthetic :: "Timestamp \<Rightarrow> bool \<Rightarrow> Timestamp" where
  "Timestamp_WithSynthetic t val = t\<lparr>Synthetic := val\<rparr>"

definition Timestamp_Next :: "Timestamp \<Rightarrow> go_error + Timestamp" where
  "Timestamp_Next t =
     (if Logical t = MaxInt32 then
        if WallTime t = MaxInt64 then Inl (GoPanic ''cannot take the next value to a max timestamp'')
        else Inr \<lparr>WallTime = WallTime t + 1, Logical = 0, Synthetic = Synthetic t\<rparr>
      else Inr \<lparr>WallTime = WallTime t, Logical = Logical t + 1, Synthetic = Synthetic t\<rparr>)"

definition Timestamp_Prev :: "Timestamp \<Rightarrow> go_error + Timestamp" where
  "Timestamp_Prev t =
     (if sint (Logical t) > 0 then
        Inr \<lparr>WallTime = WallTime t, Logical = Logical t - 1, Synthetic = Synthetic t\<rparr>
      else if sint (WallTime t) > 0 then
        Inr \<lparr>WallTime = WallTime t - 1, Logical = MaxInt32, Synthetic = Synthetic t\<rparr>
      else Inl (GoPanic ''cannot take the previous value to a zero timestamp''))"

definition Timestamp_FloorPrev :: "Timestamp \<Rightarrow> go_error + Timestamp" where
  "Timestamp_FloorPrev t =
     (if sint (Logical t) > 0 then
        Inr \<lparr>WallTime = WallTime t, Logical = Logical t - 1, Synthetic = Synthetic t\<rparr>
      else if sint (WallTime t) > 0 then
        Inr \<lparr>WallTime = WallTime t - 1, Logical = 0, Synthetic = Synthetic t\<rparr>
      else Inl (GoPanic ''cannot take the previous value to a zero timestamp''))"

definition Timestamp_WallPrev :: "Timestamp \<Rightarrow> Timestamp" where
  "Timestamp_WallPrev t = \<lparr>WallTime = WallTime t - 1, Logical = 0, Synthetic = Synthetic t\<rparr>"

lemma sint_ts_consts [simp]:
  "sint MaxInt64 = 9223372036854775807" "sint MinInt64 = - 9223372036854775808"
  "sint MaxInt32 = 2147483647" "sint MinInt32 = - 2147483648"
  by simp_all

lemma sint64_inc: "a \<noteq> MaxInt64 \<Longrightarrow> sint (a + 1) = sint a + 1"
  using sint64_range [of a] sint_eq_iff [of a MaxInt64] by (subst sint64_add) auto

lemma sint32_inc: "a \<noteq> MaxInt32 \<Longrightarrow> sint (a + 1) = sint a + 1"
  using sint32_range [of a] sint_eq_iff [of a MaxInt32] by (subst sint32_add) auto

lemma sint64_dec: "0 < sint a \<Longrightarrow> sint (a - 1 :: int64) = sint a - 1"
  using sint64_range [of a] by (subst sint64_diff) auto

lemma sint32_dec: "0 < sint a \<Longrightarrow> sint (a - 1 :: int32) = sint a - 1"
  using sint32_range [of a] by (subst sint32_diff) auto

lemma Timestamp_Next_cases:
  assumes "Timestamp_Next t = Inr s"
  obtains (tick) "Logical t \<noteq> MaxInt32" "ts_key s = (sint (WallTime t), sint (Logical t) + 1)"
    | (carry) "Logical t = MaxInt32" "WallTime t \<noteq> MaxInt64"
        "ts_key s = (sint (WallTime t) + 1, 0)"
  using assms
  by (auto simp: Timestamp_Next_def ts_key_def sint64_inc sint32_inc split: if_splits)

lemma Timestamp_Next_panics: "Timestamp_Next t = Inl e \<longleftrightarrow>
    ts_key t = ts_key MaxTimestamp \<and> e = GoPanic ''cannot take the next value to a max timestamp''"
  using sint_eq_iff [of "Logical t" MaxInt32] sint_eq_iff [of "WallTime t" MaxInt64]
  by (auto simp: Timestamp_Next_def ts_key_def MaxTimestamp_def split: if_splits)

lemma Timestamp_Next_greater:
  assumes "Timestamp_Next t = Inr s" shows "Timestamp_Less t s"
  using assms by (cases rule: Timestamp_Next_cases) (auto simp: ts_order, auto simp: ts_key_def)

lemma Timestamp_Next_least:
  assumes "Timestamp_Next t = Inr s" "ts_nonneg u" "Timestamp_Less t u"
  shows "Timestamp_LessEq s u"
  using assms(1)
proof (cases rule: Timestamp_Next_cases)
  case tick
  with assms(3) show ?thesis by (auto simp: ts_order) (auto simp: ts_key_def)
next
  case carry
  then have "sint (Logical t) = 2147483647" by simp
  with carry assms(2,3) sint32_range [of "Logical u"] show ?thesis
    by (auto simp: ts_order ts_nonneg_def) (auto simp: ts_key_def)
qed

lemma Timestamp_Prev_cases:
  assumes "Timestamp_Prev t = Inr s"
  obtains (tick) "0 < sint (Logical t)" "ts_key s = (sint (WallTime t), sint (Logical t) - 1)"
    | (borrow) "sint (Logical t) \<le> 0" "0 < sint (WallTime t)"
        "ts_key s = (sint (WallTime t) - 1, 2147483647)"
  using assms
  by (auto simp: Timestamp_Prev_def ts_key_def sint64_dec sint32_dec split: if_splits)

lemma Timestamp_Next_Synthetic: "Timestamp_Next t = Inr s \<Longrightarrow> Synthetic s = Synthetic t"
  by (auto simp: Timestamp_Next_def split: if_splits)

lemma Timestamp_Prev_Synthetic: "Timestamp_Prev t = Inr s \<Longrightarrow> Synthetic s = Synthetic t"
  by (auto simp: Timestamp_Prev_def split: if_splits)

lemma Timestamp_Next_Prev:
  assumes "ts_nonneg t" "Timestamp_Next t = Inr s" shows "Timestamp_Prev s = Inr t"
proof (cases "Logical t = MaxInt32")
  case True
  with assms have s: "s = \<lparr>WallTime = WallTime t + 1, Logical = 0, Synthetic = Synthetic t\<rparr>"
      "WallTime t \<noteq> MaxInt64"
    by (auto simp: Timestamp_Next_def split: if_splits)
  with assms(1) have "0 < sint (WallTime s)" by (simp add: sint64_inc ts_nonneg_def)
  with s True show ?thesis by (simp add: Timestamp_Prev_def)
next
  case False
  with assms have s: "s = \<lparr>WallTime = WallTime t, Logical = Logical t + 1, Synthetic = Synthetic t\<rparr>"
    by (auto simp: Timestamp_Next_def)
  with False assms(1) have "0 < sint (Logical s)" by (simp add: sint32_inc ts_nonneg_def)
  with s show ?thesis by (simp add: Timestamp_Prev_def)
qed

lemma Timestamp_Prev_Next:
  assumes "ts_nonneg s" "Timestamp_Prev s = Inr t" shows "Timestamp_Next t = Inr s"
proof (cases "0 < sint (Logical s)")
  case True
  with assms have t: "t = \<lparr>WallTime = WallTime s, Logical = Logical s - 1, Synthetic = Synthetic s\<rparr>"
    by (auto simp: Timestamp_Prev_def)
  have "sint (Logical t) = sint (Logical s) - 1" using t True by (simp add: sint32_dec)
  with sint32_range [of "Logical s"] have "Logical t \<noteq> MaxInt32" by auto
  with t show ?thesis by (simp add: Timestamp_Next_def)
next
  case False
  with assms have l: "Logical s = 0"
    using sint_eq_iff [of "Logical s" 0] by (simp add: ts_nonneg_def)
  from False assms have t: "t = \<lparr>WallTime = WallTime s - 1, Logical = MaxInt32, Synthetic = Synthetic s\<rparr>"
      and w: "0 < sint (WallTime s)"
    by (auto simp: Timestamp_Prev_def split: if_splits)
  have "sint (WallTime t) = sint (WallTime s) - 1" using t w by (simp add: sint64_dec)
  with sint64_range [of "WallTime s"] have "WallTime t \<noteq> MaxInt64" by auto
  with t l show ?thesis by (simp add: Timestamp_Next_def)
qed

lemma Timestamp_FloorPrev_less: "Timestamp_FloorPrev t = Inr s \<Longrightarrow> Timestamp_Less s t"
  by (auto simp: Timestamp_FloorPrev_def Timestamp_Less_def sint64_dec sint32_dec split: if_splits)

text \<open>
  \<open>Timestamp.Next\<close> panics exactly at the maximal timestamp; otherwise it returns
  the least timestamp with non-negative components that is above its argument, keeps the
  synthetic flag, and \<open>Prev\<close> undoes it.
\<close>

theorem Timestamp_Next_successor:
  "(\<exists>e. Timestamp_Next t = Inl e) = (ts_key t = ts_key MaxTimestamp) \<and>
   (Timestamp_Next t = Inr s \<longrightarrow>
      Timestamp_Less t s \<and> Synthetic s = Synthetic t \<and>
      (ts_nonneg u \<and> Timestamp_Less t u \<longrightarrow> Timestamp_LessEq s u) \<and>
      (ts_nonneg t \<longrightarrow> Timestamp_Prev s = Inr t))"
proof (intro conjI impI)
  show "(\<exists>e. Timestamp_Next t = Inl e) = (ts_key t = ts_key MaxTimestamp)"
    by (simp add: Timestamp_Next_panics)
qed (auto intro: Timestamp_Next_greater Timestamp_Next_least Timestamp_Next_Prev
    simp: Timestamp_Next_Synthetic)

theorem Timestamp_Next_successor_witness:
  "Timestamp_Next \<lparr>WallTime = 5, Logical = MaxInt32, Synthetic = True\<rparr> =
     Inr \<lparr>WallTime = 6, Logical = 0, Synthetic = True\<rparr> \<and>
   Timestamp_LessEq \<lparr>WallTime = 6, Logical = 0, Synthetic = True\<rparr> \<lparr>WallTime = 6, Logical = 3, Synthetic = False\<rparr> \<and>
   Timestamp_Prev \<lparr>WallTime = 6, Logical = 0, Synthetic = True\<rparr> =
     Inr \<lparr>WallTime = 5, Logical = MaxInt32, Synthetic = True\<rparr>"
proof -
  let ?t = "\<lparr>WallTime = 5, Logical = MaxInt32, Synthetic = True\<rparr>"
  let ?s = "\<lparr>WallTime = 6, Logical = 0, Synthetic = True\<rparr>"
  let ?u = "\<lparr>WallTime = 6, Logical = 3, Synthetic = False\<rparr>"
  have "Timestamp_Next ?t = Inr ?s" by (simp add: Timestamp_Next_def)
  moreover have "ts_nonneg ?t" "ts_nonneg ?u" "Timestamp_Less ?t ?u"
    by (simp_all add: ts_nonneg_def Timestamp_Less_def)
  ultimately show ?thesis using Timestamp_Next_successor [of ?t ?s ?u] by simp
qed

section \<open>Ratcheting\<close>

definition bothSynthetic :: "Timestamp \<Rightarrow> Timestamp \<Rightarrow> bool" where
  "bothSynthetic l r \<longleftrightarrow> Synthetic l \<and> Synthetic r"

text \<open>\<open>Forward\<close> updates its receiver: the model returns the new receiver and the result.\<close>

definition Timestamp_Forward :: "Timestamp \<Rightarrow> Timestamp \<Rightarrow> Timestamp \<times> bool" where
  "Timestamp_Forward t s =
     (if Timestamp_Less t s then (s, True)
      else if Timestamp_EqOrdering t s then (t\<lparr>Synthetic := bothSynthetic t s\<rparr>, False)
      else (t, False))"

definition Timestamp_Backward :: "Timestamp \<Rightarrow> Timestamp \<Rightarrow> Timestamp" where
  "Timestamp_Backward t s =
     (let syn = bothSynthetic t s;
          t' = (if Timestamp_Less s t then s else t)
      in t'\<lparr>Synthetic := syn\<rparr>)"

abbreviation ts_forward :: "Timestamp \<Rightarrow> Timestamp \<Rightarrow> Timestamp" where
  "ts_forward t s \<equiv> fst (Timestamp_Forward t s)"

lemma ts_key_update_Synthetic [simp]: "ts_key (t\<lparr>Synthetic := b\<rparr>) = ts_key t"
  by (simp add: ts_key_def)

lemma ts_key_forward [simp]: "ts_key (ts_forward t s) = max (ts_key t) (ts_key s)"
  by (auto simp: Timestamp_Forward_def ts_order max_def)

lemma snd_Forward [simp]: "snd (Timestamp_Forward t s) \<longleftrightarrow> ts_key t < ts_key s"
  by (auto simp: Timestamp_Forward_def ts_order)

lemma ts_key_backward [simp]: "ts_key (Timestamp_Backward t s) = min (ts_key t) (ts_key s)"
  by (auto simp: Timestamp_Backward_def Let_def ts_order min_def)

lemma Synthetic_forward:
  "Synthetic (ts_forward t s) \<longleftrightarrow>
     (if ts_key t < ts_key s then Synthetic s else if ts_key s < ts_key t then Synthetic t
      else Synthetic t \<and> Synthetic s)"
  by (auto simp: Timestamp_Forward_def ts_order bothSynthetic_def)

lemma ts_eqI: "ts_key t = ts_key s \<Longrightarrow> Synthetic t = Synthetic s \<Longrightarrow> t = s"
  using ts_key_eq_iff by blast

lemma forward_comm: "ts_forward t s = ts_forward s t"
  by (rule ts_eqI) (auto simp: Synthetic_forward max.commute)

lemma forward_assoc: "ts_forward (ts_forward t s) u = ts_forward t (ts_forward s u)"
  by (rule ts_eqI) (simp add: max.assoc, auto simp: Synthetic_forward max_def)

lemma forward_idem [simp]: "ts_forward t t = t"
  by (rule ts_eqI) (auto simp: Synthetic_forward)

text \<open>
  \<open>Forward\<close> and \<open>Backward\<close> are the join and the meet of the timestamp order:
  the result is the larger (smaller) of the two in the order, \<open>Forward\<close> reports whether the
  receiver moved, and \<open>Forward\<close> is commutative, associative and idempotent, the
  synthetic flag included, so the order in which a set of timestamps is folded into
  a receiver does not matter.
\<close>

theorem Forward_Backward_lattice:
  "ts_key (ts_forward t s) = max (ts_key t) (ts_key s) \<and>
   (snd (Timestamp_Forward t s) \<longleftrightarrow> Timestamp_Less t s) \<and>
   ts_key (Timestamp_Backward t s) = min (ts_key t) (ts_key s) \<and>
   ts_forward t s = ts_forward s t \<and>
   ts_forward (ts_forward t s) u = ts_forward t (ts_forward s u) \<and>
   ts_forward t t = t \<and>
   Timestamp_Backward t s = Timestamp_Backward s t"
proof -
  have "Timestamp_Backward t s = Timestamp_Backward s t"
    by (rule ts_eqI)
      (simp_all add: min.commute, auto simp: Timestamp_Backward_def Let_def bothSynthetic_def)
  then show ?thesis
    by (intro conjI forward_comm forward_assoc) (simp_all add: ts_order min.commute)
qed

section \<open>Conversions\<close>

record LegacyTimestamp =
  LegacyWallTime :: int64
  LegacyLogical :: int32
  LegacySynthetic :: "bool option"

definition Timestamp_ToLegacyTimestamp :: "Timestamp \<Rightarrow> LegacyTimestamp" where
  "Timestamp_ToLegacyTimestamp t =
     \<lparr>LegacyWallTime = WallTime t, LegacyLogical = Logical t,
      LegacySynthetic = (if Synthetic t then Some True else None)\<rparr>"

definition LegacyTimestamp_ToTimestamp :: "LegacyTimestamp \<Rightarrow> Timestamp" where
  "LegacyTimestamp_ToTimestamp t =
     \<lparr>WallTime = LegacyWallTime t, Logical = LegacyLogical t,
      Synthetic = (case LegacySynthetic t of Some b \<Rightarrow> b | None \<Rightarrow> False)\<rparr>"

definition Timestamp_TryToClockTimestamp :: "Timestamp \<Rightarrow> ClockTimestamp \<times> bool" where
  "Timestamp_TryToClockTimestamp t =
     (if Synthetic t then (Timestamp_zero, False) else (t, True))"

definition Timestamp_UnsafeToClockTimestamp :: "Timestamp \<Rightarrow> ClockTimestamp" where
  "Timestamp_UnsafeToClockTimestamp t = t\<lparr>Synthetic := False\<rparr>"

definition ClockTimestamp_ToTimestamp :: "ClockTimestamp \<Rightarrow> go_error + Timestamp" where
  "ClockTimestamp_ToTimestamp t =
     (if Synthetic t then Inl (GoPanic ''ClockTimestamp with Synthetic flag set'') else Inr t)"

lemma Legacy_roundtrip: "LegacyTimestamp_ToTimestamp (Timestamp_ToLegacyTimestamp t) = t"
  by (cases t) (simp add: LegacyTimestamp_ToTimestamp_def Timestamp_ToLegacyTimestamp_def)

end
