(* ===== verification/Hlc_Print.thy ===== *)
theory Hlc_Print
  imports Hlc_Timestamp
begin

text \<open>
  \<open>Timestamp.String\<close> and \<open>ParseTimestamp\<close> of \<open>pkg/util/hlc/timestamp.go\<close>, with
  the decimal conversions of \<open>strconv\<close> they call.
\<close>

section \<open>Decimal numbers\<close>

definition digit :: "nat \<Rightarrow> char" where
  "digit d = char_of (48 + d)"

definition is_digit :: "char \<Rightarrow> bool" where
  "is_digit c \<longleftrightarrow> 48 \<le> (of_char c :: nat) \<and> of_char c \<le> (57 :: nat)"

definition digit_val :: "char \<Rightarrow> nat" where
  "digit_val c = of_char c - 48"

text \<open>\<open>strconv.AppendUint(buf, n, 10)\<close> and \<open>strconv.AppendInt(buf, i, 10)\<close>.\<close>

fun dec_digits :: "nat \<Rightarrow> string" where
  "dec_digits n = (if n < 10 then [digit n] else dec_digits (n div 10) @ [digit (n mod 10)])"

declare dec_digits.simps [simp del]

definition dec_int :: "int \<Rightarrow> string" where
  "dec_int i = (if i < 0 then ''-'' @ dec_digits (nat (- i)) else dec_digits (nat i))"

definition parse_dec :: "string \<Rightarrow> nat" where
  "parse_dec s = foldl (\<lambda>v c. v * 10 + digit_val c) 0 s"

text \<open>
  \<open>strconv.ParseInt(s, 10, bits)\<close>: an optional sign and at least one digit, and the
  value must fit.
\<close>

definition strconv_ParseInt :: "string \<Rightarrow> nat \<Rightarrow> go_error + int" where
  "strconv_ParseInt s bits =
     (let neg = (s \<noteq> [] \<and> hd s = CHR ''-'');
          ds = (if s \<noteq> [] \<and> (hd s = CHR ''-'' \<or> hd s = CHR ''+'') then tl s else s);
          v = int (parse_dec ds)
      in if ds = [] \<or> \<not> list_all is_digit ds then Inl (Errorf ''invalid syntax'')
         else if \<not> neg \<and> 2 ^ (bits - 1) \<le> v \<or> neg \<and> 2 ^ (bits - 1) < v
           then Inl (Errorf ''value out of range'')
         else Inr (if neg then - v else v))"

lemma digit_props [simp]:
  assumes "d < 10" shows "is_digit (digit d)" "digit_val (digit d) = d"
proof -
  have "(of_char (char_of (48 + d)) :: nat) = 48 + d"
    using assms by (simp add: of_char_of)
  with assms show "is_digit (digit d)" "digit_val (digit d) = d"
    by (simp_all add: is_digit_def digit_def digit_val_def)
qed

lemma parse_dec_snoc [simp]: "parse_dec (s @ [c]) = parse_dec s * 10 + digit_val c"
  by (simp add: parse_dec_def)

lemma parse_dec_Nil [simp]: "parse_dec [] = 0"
  by (simp add: parse_dec_def)

lemma dec_digits_induct [case_names small large]:
  assumes "\<And>n. n < 10 \<Longrightarrow> P n [digit n]"
    and "\<And>n. 10 \<le> n \<Longrightarrow> P (n div 10) (dec_digits (n div 10)) \<Longrightarrow>
      P n (dec_digits (n div 10) @ [digit (n mod 10)])"
  shows "P n (dec_digits n)"
proof (induction n rule: dec_digits.induct)
  case (1 n)
  show ?case
    by (cases "n < 10") (use assms 1 in \<open>auto simp: dec_digits.simps [of n]\<close>)
qed

lemma parse_dec_digits [simp]: "parse_dec (dec_digits n) = n"
  by (rule dec_digits_induct [where P = "\<lambda>n s. parse_dec s = n"])
    (auto simp: parse_dec_snoc [of "[]", simplified])

lemma dec_digits_digits [simp]: "list_all is_digit (dec_digits n)"
  by (rule dec_digits_induct) auto

lemma dec_digits_nonempty [simp]: "dec_digits n \<noteq> []"
  by (subst dec_digits.simps) simp

lemma length_dec_digits: "n < 10 ^ k \<Longrightarrow> 0 < k \<Longrightarrow> length (dec_digits n) \<le> k"
proof (induction k arbitrary: n)
  case (Suc k)
  show ?case
  proof (cases "n < 10")
    case False
    with Suc.prems(1) have "k \<noteq> 0" by (cases k) auto
    moreover have "n div 10 < 10 ^ k" using Suc.prems(1) by (simp add: less_mult_imp_div_less)
    ultimately have "length (dec_digits (n div 10)) \<le> k" using Suc.IH by simp
    with False show ?thesis by (subst dec_digits.simps) simp
  qed (subst dec_digits.simps, simp)
qed simp

section \<open>Printing\<close>

text \<open>The nine statements that fill in the nanoseconds from the right.\<close>

fun nanos_digits :: "nat \<Rightarrow> nat \<Rightarrow> string" where
  "nanos_digits 0 ns = []"
| "nanos_digits (Suc k) ns = nanos_digits k (ns div 10) @ [digit (ns mod 10)]"

definition int64_neg :: "int64 \<Rightarrow> int64" where
  "int64_neg w = - w"

definition Timestamp_String :: "Timestamp \<Rightarrow> string" where
  "Timestamp_String t =
     (let w = WallTime t;
          wall = (if w = 0 then ''0,''
             else
               let sign = (if sint w < 0 then ''-'' else []);
                   w = (if sint w < 0 then int64_neg w else w);
                   s = unat (int64_div w 1000000000);
                   ns = unat (w - int64_div w 1000000000 * 1000000000)
               in sign @ dec_digits s @ ''.'' @ nanos_digits 9 ns @ '','')
      in wall @ dec_int (sint (Logical t)) @ (if Synthetic t then ''?'' else []))"

lemma nanos_digits_digits [simp]: "list_all is_digit (nanos_digits k ns)"
  by (induction k arbitrary: ns) auto

lemma length_nanos_digits [simp]: "length (nanos_digits k ns) = k"
  by (induction k arbitrary: ns) auto

lemma parse_nanos_digits: "parse_dec (nanos_digits k ns) = ns mod 10 ^ k"
proof (induction k arbitrary: ns)
  case (Suc k)
  have "ns mod (10 * 10 ^ k) = 10 * (ns div 10 mod 10 ^ k) + ns mod 10"
    by (rule mod_mult2_eq)
  with Suc show ?case by simp
qed simp

section \<open>Parsing\<close>

text \<open>
  \<open>timestampRegexp\<close>, as the groups it captures: sign, seconds, nanoseconds, logical and
  synthetic. Each group is followed by a character the group cannot contain, so the
  leftmost-first match takes the longest run of digits at every step.
\<close>

definition digit_run :: "nat \<Rightarrow> string \<Rightarrow> (string \<times> string) option" where
  "digit_run k s =
     (let ds = takeWhile is_digit s
      in if 1 \<le> length ds \<and> length ds \<le> k then Some (ds, dropWhile is_digit s) else None)"

definition timestampRegexp :: "string \<Rightarrow> (string \<times> string \<times> string \<times> string \<times> string) option" where
  "timestampRegexp str =
     (let (sign, r) = (case str of c # cs \<Rightarrow> if c = CHR ''-'' then (''-'', cs) else ([], str)
                       | [] \<Rightarrow> ([], str))
      in case digit_run 19 r of None \<Rightarrow> None | Some (secs, r) \<Rightarrow>
         case (case r of c # cs \<Rightarrow> if c = CHR ''.'' then digit_run 20 cs else Some ([], r)
               | [] \<Rightarrow> Some ([], r)) of None \<Rightarrow> None | Some (nanos, r) \<Rightarrow>
         case (case r of c # cs \<Rightarrow>
                 if c = CHR '','' then
                   case cs of d # ds \<Rightarrow>
                       if d = CHR ''-'' then map_option (\<lambda>(l, r). (CHR ''-'' # l, r)) (digit_run 10 ds)
                       else digit_run 10 cs
                   | [] \<Rightarrow> None
                 else Some ([], r)
               | [] \<Rightarrow> Some ([], r)) of None \<Rightarrow> None | Some (logical, r) \<Rightarrow>
         if r = [] then Some (sign, secs, nanos, logical, [])
         else if r = ''?'' then Some (sign, secs, nanos, logical, ''?'')
         else None)"

definition ParseTimestamp :: "string \<Rightarrow> go_error + Timestamp" where
  "ParseTimestamp str =
     (case timestampRegexp str of
        None \<Rightarrow> Inl (Errorf ''failed to parse as Timestamp'')
      | Some (sign, secs, nanosMatch, logicalMatch, syn) \<Rightarrow>
          (case strconv_ParseInt secs 64 of Inl e \<Rightarrow> Inl e | Inr seconds \<Rightarrow>
             (case (if nanosMatch \<noteq> [] then strconv_ParseInt nanosMatch 64 else Inr 0) of
                Inl e \<Rightarrow> Inl e | Inr nanos \<Rightarrow>
                  (let wallTime = word_of_int seconds * 1000000000 + word_of_int nanos;
                       wallTime = (if sign = ''-'' then wallTime * - 1 else wallTime)
                   in case (if logicalMatch \<noteq> [] then strconv_ParseInt logicalMatch 32 else Inr 0) of
                        Inl e \<Rightarrow> Inl e
                      | Inr logical \<Rightarrow>
                          Inr \<lparr>WallTime = wallTime, Logical = word_of_int logical,
                               Synthetic = (syn \<noteq> [])\<rparr>))))"

section \<open>The round trip\<close>

lemma is_digit_neq:
  "is_digit c \<Longrightarrow> c \<noteq> CHR ''-'' \<and> c \<noteq> CHR ''+'' \<and> c \<noteq> CHR ''.'' \<and> c \<noteq> CHR '','' \<and> c \<noteq> CHR ''?''"
  by (auto simp: is_digit_def)

lemma not_is_digit [simp]:
  "\<not> is_digit (CHR ''-'')" "\<not> is_digit (CHR ''.'')" "\<not> is_digit (CHR '','')" "\<not> is_digit (CHR ''?'')"
  using is_digit_neq by blast+

lemma digit_run_append:
  assumes "list_all is_digit ds" "1 \<le> length ds" "length ds \<le> k" "rest = [] \<or> \<not> is_digit (hd rest)"
  shows "digit_run k (ds @ rest) = Some (ds, rest)"
proof -
  have "takeWhile is_digit (ds @ rest) = ds" "dropWhile is_digit (ds @ rest) = rest"
    using assms(1,4) by (cases rest; auto simp: takeWhile_append dropWhile_append list_all_iff
        takeWhile_eq_all_conv [THEN iffD2] intro: dropWhile_eq_Nil_conv [THEN iffD2])+
  with assms(2,3) show ?thesis by (simp add: digit_run_def)
qed

lemma ParseInt_digits:
  assumes "list_all is_digit ds" "ds \<noteq> []" "int (parse_dec ds) < 2 ^ (bits - 1)"
  shows "strconv_ParseInt ds bits = Inr (int (parse_dec ds))"
proof -
  have "is_digit (hd ds)" using assms(1,2) by (cases ds) auto
  with is_digit_neq [OF this] assms show ?thesis by (simp add: strconv_ParseInt_def Let_def)
qed

lemma ParseInt_dec_int:
  assumes "- (2 ^ (bits - 1)) \<le> i" "i < 2 ^ (bits - 1)"
  shows "strconv_ParseInt (dec_int i) bits = Inr i"
proof (cases "i < 0")
  case True
  then have "dec_int i = CHR ''-'' # dec_digits (nat (- i))" by (simp add: dec_int_def)
  with True assms show ?thesis by (simp add: strconv_ParseInt_def Let_def)
next
  case False
  with assms show ?thesis by (simp add: dec_int_def ParseInt_digits)
qed

lemma length_dec_digits_10: "n \<le> 2147483648 \<Longrightarrow> length (dec_digits n) \<le> 10"
  by (rule length_dec_digits) auto

lemma length_dec_digits_19: "n \<le> 9223372036 \<Longrightarrow> length (dec_digits n) \<le> 19"
  by (rule order_trans [OF length_dec_digits [of n 10]]) auto

lemma length_pos_digits: "1 \<le> length (dec_digits n)"
  using dec_digits_nonempty [of n] by (cases "dec_digits n") auto

text \<open>The logical component and the synthetic mark, as the last two groups.\<close>

lemma regexp_logical:
  fixes l :: int32
  assumes "rest = [] \<or> rest = ''?''"
  shows "(case dec_int (sint l) @ rest of d # ds \<Rightarrow>
            if d = CHR ''-'' then map_option (\<lambda>(l, r). (CHR ''-'' # l, r)) (digit_run 10 ds)
            else digit_run 10 (dec_int (sint l) @ rest)
          | [] \<Rightarrow> None) = Some (dec_int (sint l), rest)"
proof (cases "sint l < 0")
  case True
  have "digit_run 10 (dec_digits (nat (- sint l)) @ rest) = Some (dec_digits (nat (- sint l)), rest)"
    using assms sint32_range [of l]
    by (intro digit_run_append length_pos_digits length_dec_digits_10) auto
  with True show ?thesis by (simp add: dec_int_def)
next
  case False
  let ?ds = "dec_digits (nat (sint l))"
  have run: "digit_run 10 (?ds @ rest) = Some (?ds, rest)"
    using assms sint32_range [of l]
    by (intro digit_run_append length_pos_digits length_dec_digits_10) auto
  obtain d ds where ds: "?ds = d # ds" using dec_digits_nonempty by (cases ?ds) auto
  have "is_digit d" using dec_digits_digits [of "nat (sint l)"] unfolding ds by simp
  with False run ds is_digit_neq show ?thesis by (auto simp: dec_int_def)
qed

lemma wall_parts:
  fixes w :: int64
  assumes a: "int a = sint w"
  shows "unat (int64_div w 1000000000) = a div 1000000000"
    and "unat (w - int64_div w 1000000000 * 1000000000) = a mod 1000000000"
    and "w = of_nat a"
proof -
  have "(of_int (sint w) :: int64) = w" by simp
  then show w: "w = of_nat a" unfolding a [symmetric] by simp
  have lt: "a < 2 ^ 63"
    using a sint64_range [of w] by auto
  have "sint (1000000000 :: int64) = int 1000000000" by simp
  then have "trunc_div (sint w) (sint (1000000000 :: int64)) = int a div int 1000000000"
    unfolding a [symmetric] by (simp add: trunc_div_nonneg)
  then have div: "int64_div w 1000000000 = of_nat (a div 1000000000)"
    unfolding int64_div_def by (simp only: zdiv_int [symmetric] of_int_of_nat_eq)
  have "a div 1000000000 \<le> a" by (rule div_le_dividend)
  with lt have "a div 1000000000 < 2 ^ LENGTH(64)" by simp
  then show "unat (int64_div w 1000000000) = a div 1000000000"
    unfolding div by (rule unat_of_nat_small)
  have "of_nat (a div 1000000000 * 1000000000 + a mod 1000000000) = w"
    unfolding div_mult_mod_eq w ..
  then have "w - int64_div w 1000000000 * 1000000000 = of_nat (a mod 1000000000)"
    unfolding div by (simp only: of_nat_add of_nat_mult of_nat_numeral) (simp add: algebra_simps)
  moreover have "a mod 1000000000 < 1000000000" by simp
  then have "a mod 1000000000 < 2 ^ LENGTH(64)" by simp
  ultimately show "unat (w - int64_div w 1000000000 * 1000000000) = a mod 1000000000"
    by (simp only: unat_of_nat_small)
qed

lemma regexp_wall:
  assumes "s \<le> 9223372036" "sign = [] \<or> sign = ''-''" "rest = [] \<or> rest = ''?''"
  shows "timestampRegexp (sign @ dec_digits s @ ''.'' @ nanos_digits 9 ns @ '','' @
      dec_int (sint (l :: int32)) @ rest) =
    Some (sign, dec_digits s, nanos_digits 9 ns, dec_int (sint l), rest)"
proof -
  let ?r2 = "dec_int (sint l) @ rest"
  let ?r1 = "nanos_digits 9 ns @ CHR '','' # ?r2"
  let ?r0 = "dec_digits s @ CHR ''.'' # ?r1"
  have run1: "digit_run 19 ?r0 = Some (dec_digits s, CHR ''.'' # ?r1)"
    by (rule digit_run_append) (use assms length_dec_digits_19 length_pos_digits in auto)
  have run2: "digit_run 20 ?r1 = Some (nanos_digits 9 ns, CHR '','' # ?r2)"
    by (rule digit_run_append) auto
  obtain d ds where ds: "dec_digits s = d # ds" by (cases "dec_digits s") auto
  have "is_digit d" using dec_digits_digits [of s] unfolding ds by simp
  then have "(case sign @ ?r0 of c # cs \<Rightarrow> if c = CHR ''-'' then (''-'', cs) else ([], sign @ ?r0)
      | [] \<Rightarrow> ([], sign @ ?r0)) = (sign, ?r0)"
    using assms(2) is_digit_neq by (auto simp: ds)
  then show ?thesis
    using assms(3) by (auto simp: timestampRegexp_def run1 run2 regexp_logical Let_def)
qed

lemma regexp_zero:
  assumes "rest = [] \<or> rest = ''?''"
  shows "timestampRegexp (''0,'' @ dec_int (sint (l :: int32)) @ rest) =
    Some ([], ''0'', [], dec_int (sint l), rest)"
proof -
  have "digit_run 19 (''0'' @ CHR '','' # dec_int (sint l) @ rest) =
      Some (''0'', CHR '','' # dec_int (sint l) @ rest)"
    by (rule digit_run_append) (auto simp: is_digit_def)
  then show ?thesis
    using assms by (auto simp: timestampRegexp_def regexp_logical Let_def)
qed

lemma dec_int_nonempty [simp]: "dec_int i \<noteq> []"
  by (simp add: dec_int_def)

lemma sint_ParseInt32: "strconv_ParseInt (dec_int (sint (l :: int32))) 32 = Inr (sint l)"
  using sint32_range [of l] by (intro ParseInt_dec_int) auto

lemma sint64_neg: "w \<noteq> MinInt64 \<Longrightarrow> sint (- w :: int64) = - sint w"
  using sint64_range [of w] sint_eq_iff [of w MinInt64] sint64_diff [of 0 w] by auto

text \<open>
  Parsing what \<open>Timestamp.String\<close> prints gives the timestamp back, for every
  timestamp whose wall time can be negated (all but the minimal \<open>int64\<close>).
\<close>

theorem ParseTimestamp_String:
  assumes "WallTime t \<noteq> MinInt64"
  shows "ParseTimestamp (Timestamp_String t) = Inr t"
proof (cases "WallTime t = 0")
  case True
  have "strconv_ParseInt ''0'' 64 = Inr 0"
    by (simp add: strconv_ParseInt_def is_digit_def parse_dec_def digit_val_def)
  with True show ?thesis
    by (cases t) (auto simp: Timestamp_String_def ParseTimestamp_def regexp_zero
        regexp_zero [where rest = "[]", simplified] regexp_zero [where rest = "''?''", simplified]
        sint_ParseInt32)
next
  case False
  let ?w = "WallTime t"
  define w where "w = (if sint ?w < 0 then - ?w else ?w)"
  have nn: "0 \<le> sint w"
    using assms by (auto simp: w_def sint64_neg)
  define a where "a = nat (sint w)"
  have "int a = sint w" using nn by (simp add: a_def)
  note parts = wall_parts [OF this]
  have bound: "a div 1000000000 \<le> 9223372036" "a mod 1000000000 < 1000000000"
    using sint64_range [of w] by (auto simp: a_def)
  let ?sign = "if sint ?w < 0 then ''-'' else []" and ?syn = "if Synthetic t then ''?'' else []"
  have str: "Timestamp_String t = ?sign @ dec_digits (a div 1000000000) @ ''.'' @
      nanos_digits 9 (a mod 1000000000) @ '','' @ dec_int (sint (Logical t)) @ ?syn"
    using False parts(1,2)
    by (cases "sint ?w < 0") (simp_all add: Timestamp_String_def Let_def int64_neg_def w_def)
  have re: "timestampRegexp (Timestamp_String t) = Some (?sign, dec_digits (a div 1000000000),
      nanos_digits 9 (a mod 1000000000), dec_int (sint (Logical t)), ?syn)"
    unfolding str using bound by (intro regexp_wall) auto
  have secs: "strconv_ParseInt (dec_digits (a div 1000000000)) 64 = Inr (int (a div 1000000000))"
    using bound by (subst ParseInt_digits) auto
  have "parse_dec (nanos_digits 9 (a mod 1000000000)) = a mod 1000000000"
    by (simp add: parse_nanos_digits)
  moreover have "nanos_digits 9 (a mod 1000000000) \<noteq> []"
    using length_nanos_digits [of 9 "a mod 1000000000"] by force
  ultimately have nanos: "nanos_digits 9 (a mod 1000000000) \<noteq> []"
      "strconv_ParseInt (nanos_digits 9 (a mod 1000000000)) 64 = Inr (int (a mod 1000000000))"
    using bound by (simp_all add: ParseInt_digits)
  have "of_nat (a div 1000000000 * 1000000000 + a mod 1000000000) = w"
    unfolding div_mult_mod_eq by (rule parts(3) [symmetric])
  then have sum: "of_nat (a div 1000000000) * 1000000000 + of_nat (a mod 1000000000) = w"
    by (simp only: of_nat_add of_nat_mult of_nat_numeral)
  have "(if ?sign = ''-'' then w * - 1 else w) = ?w"
    by (simp add: w_def)
  moreover have "\<lparr>WallTime = ?w, Logical = Logical t, Synthetic = (?syn \<noteq> [])\<rparr> = t"
    by (cases t) simp
  ultimately show ?thesis
    by (simp add: ParseTimestamp_def re secs nanos sint_ParseInt32 Let_def sum split del: if_split)
qed

theorem ParseTimestamp_String_witness:
  "ParseTimestamp (Timestamp_String \<lparr>WallTime = - 1000000007, Logical = 3, Synthetic = True\<rparr>) =
     Inr \<lparr>WallTime = - 1000000007, Logical = 3, Synthetic = True\<rparr>"
  by (rule ParseTimestamp_String) simp

end
