(* ===== verification/Hlc_Clock.thy ===== *)
theory Hlc_Clock
  imports Hlc_Timestamp
begin

text \<open>
  \<open>pkg/util/hlc/hlc.go\<close>: the hybrid logical clock. The state of a \<open>Clock\<close> is a
  record; an operation takes the value \<open>phys\<close> that its call of the physical clock returns
  and gives the new state, or the \<open>log.Fatalf\<close> that stops the process. The operations
  hold the mutex of the clock while they change it, so a run of the clock is a sequence of
  them; the one loop that is not protected by the mutex, the compare-and-swap loop that
  maintains \<open>lastPhysicalTime\<close>, is also modelled as an interleaving of its steps.
\<close>

section \<open>Manual clocks\<close>

record ManualClock =
  mc_nanos :: int64

definition NewManualClock :: "int64 \<Rightarrow> go_error + ManualClock" where
  "NewManualClock nanos =
     (if nanos = 0 then Inl (GoPanic ''zero clock is forbidden'') else Inr \<lparr>mc_nanos = nanos\<rparr>)"

definition ManualClock_UnixNano :: "ManualClock \<Rightarrow> int64" where
  "ManualClock_UnixNano m = mc_nanos m"

definition ManualClock_Increment :: "ManualClock \<Rightarrow> int64 \<Rightarrow> ManualClock" where
  "ManualClock_Increment m incr = m\<lparr>mc_nanos := mc_nanos m + incr\<rparr>"

definition ManualClock_Set :: "ManualClock \<Rightarrow> int64 \<Rightarrow> ManualClock" where
  "ManualClock_Set m nanos = m\<lparr>mc_nanos := nanos\<rparr>"

record HybridManualClock =
  hmc_nanos :: int64
  hmc_nanosAtPause :: int64

definition NewHybridManualClock :: HybridManualClock where
  "NewHybridManualClock = \<lparr>hmc_nanos = 0, hmc_nanosAtPause = 0\<rparr>"

text \<open>The argument \<open>unixNano\<close> is the reading of the machine's clock.\<close>

definition HybridManualClock_UnixNano :: "HybridManualClock \<Rightarrow> int64 \<Rightarrow> int64" where
  "HybridManualClock_UnixNano m unixNano =
     (if sint (hmc_nanosAtPause m) > 0 then hmc_nanos m + hmc_nanosAtPause m
      else hmc_nanos m + unixNano)"

definition HybridManualClock_Increment :: "HybridManualClock \<Rightarrow> int64 \<Rightarrow> HybridManualClock" where
  "HybridManualClock_Increment m nanos = m\<lparr>hmc_nanos := hmc_nanos m + nanos\<rparr>"

definition HybridManualClock_Forward :: "HybridManualClock \<Rightarrow> int64 \<Rightarrow> int64 \<Rightarrow> HybridManualClock" where
  "HybridManualClock_Forward m unixNano tsNanos =
     (let now = unixNano
      in if sint tsNanos < sint now then m
         else let aheadNanos = tsNanos - now
              in if sint aheadNanos > sint (hmc_nanos m) then m\<lparr>hmc_nanos := aheadNanos\<rparr> else m)"

definition HybridManualClock_Pause :: "HybridManualClock \<Rightarrow> int64 \<Rightarrow> HybridManualClock" where
  "HybridManualClock_Pause m unixNano = m\<lparr>hmc_nanosAtPause := unixNano\<rparr>"

definition HybridManualClock_Resume :: "HybridManualClock \<Rightarrow> HybridManualClock" where
  "HybridManualClock_Resume m = m\<lparr>hmc_nanosAtPause := 0\<rparr>"

section \<open>The clock\<close>

record Clock =
  maxOffset :: int64
  lastPhysicalTime :: int64
  monotonicityErrorsCount :: int32
  forwardClockJumpCheckEnabled :: int32
  clock_ts :: ClockTimestamp
  isMonitoringForwardClockJumps :: bool
  wallTimeUpperBound :: int64

definition NewClock :: "int64 \<Rightarrow> Clock" where
  "NewClock maxOff =
     \<lparr>maxOffset = maxOff, lastPhysicalTime = 0, monotonicityErrorsCount = 0,
      forwardClockJumpCheckEnabled = 0, clock_ts = Timestamp_zero,
      isMonitoringForwardClockJumps = False, wallTimeUpperBound = 0\<rparr>"

definition toleratedForwardClockJump :: "Clock \<Rightarrow> int64" where
  "toleratedForwardClockJump c = int64_div (maxOffset c) 2"

definition checkPhysicalClock :: "Clock \<Rightarrow> int64 \<Rightarrow> int64 \<Rightarrow> go_error + Clock" where
  "checkPhysicalClock c oldTime newTime =
     (if oldTime = 0 then Inr c
      else
        let interval = oldTime - newTime;
            c' = (if sint interval > sint (int64_div (maxOffset c) 10)
                  then c\<lparr>monotonicityErrorsCount := monotonicityErrorsCount c + 1\<rparr> else c)
        in if forwardClockJumpCheckEnabled c' \<noteq> 0 \<and>
              sint (toleratedForwardClockJump c') \<le> sint (- interval)
           then Inl (LogFatalf ''detected forward time jump'') else Inr c')"

text \<open>
  The compare-and-swap loop at its first iteration, which succeeds when no other goroutine
  interleaves; the interleavings are the subject of the section on the loop.
\<close>

definition getPhysicalClockAndCheck :: "Clock \<Rightarrow> int64 \<Rightarrow> go_error + Clock \<times> int64" where
  "getPhysicalClockAndCheck c phys =
     (let oldTime = lastPhysicalTime c; newTime = phys
      in res_bind (checkPhysicalClock (c\<lparr>lastPhysicalTime := newTime\<rparr>) oldTime newTime)
           (\<lambda>c'. Inr (c', newTime)))"

definition enforceWallTimeWithinBoundLocked :: "Clock \<Rightarrow> go_error + Clock" where
  "enforceWallTimeWithinBoundLocked c =
     (if wallTimeUpperBound c \<noteq> 0 \<and> sint (WallTime (clock_ts c)) > sint (wallTimeUpperBound c)
      then Inl (LogFatalf ''wall time is not allowed to be greater than upper bound'') else Inr c)"

definition NowAsClockTimestamp :: "Clock \<Rightarrow> int64 \<Rightarrow> go_error + Clock \<times> ClockTimestamp" where
  "NowAsClockTimestamp c phys =
     res_bind (getPhysicalClockAndCheck c phys) (\<lambda>(c, physicalClock).
       let ts = clock_ts c;
           c = (if sint (WallTime ts) \<ge> sint physicalClock
                then c\<lparr>clock_ts := ts\<lparr>Logical := Logical ts + 1\<rparr>\<rparr>
                else c\<lparr>clock_ts := ts\<lparr>WallTime := physicalClock, Logical := 0\<rparr>\<rparr>)
       in res_bind (enforceWallTimeWithinBoundLocked c) (\<lambda>c. Inr (c, clock_ts c)))"

definition Clock_Now :: "Clock \<Rightarrow> int64 \<Rightarrow> go_error + Clock \<times> Timestamp" where
  "Clock_Now c phys =
     res_bind (NowAsClockTimestamp c phys) (\<lambda>(c, now).
       res_bind (ClockTimestamp_ToTimestamp now) (\<lambda>ts. Inr (c, ts)))"

definition Clock_Update :: "Clock \<Rightarrow> ClockTimestamp \<Rightarrow> go_error + Clock" where
  "Clock_Update c rt =
     (if sint (WallTime rt) < sint (WallTime (clock_ts c)) then Inr c
      else
        let ts = clock_ts c;
            c = (if sint (WallTime rt) > sint (WallTime ts)
                 then c\<lparr>clock_ts := ts\<lparr>WallTime := WallTime rt, Logical := Logical rt\<rparr>\<rparr>
                 else if WallTime rt = WallTime ts \<and> sint (Logical rt) > sint (Logical ts)
                 then c\<lparr>clock_ts := ts\<lparr>Logical := Logical rt\<rparr>\<rparr>
                 else c)
        in enforceWallTimeWithinBoundLocked c)"

text \<open>
  \<open>UpdateAndCheckMaxOffset\<close> returns an error value and not only a state, and it changes the
  state (the last physical time) in that case too: the result is the new state with the
  error it returns, if any.
\<close>

definition errUntrustworthyRemoteWallTimeErr :: go_error where
  "errUntrustworthyRemoteWallTimeErr = Errorf ''remote wall time is too far ahead to be trustworthy''"

definition IsUntrustworthyRemoteWallTimeError :: "go_error \<Rightarrow> bool" where
  "IsUntrustworthyRemoteWallTimeError err \<longleftrightarrow> err = errUntrustworthyRemoteWallTimeErr"

definition UpdateAndCheckMaxOffset ::
  "Clock \<Rightarrow> int64 \<Rightarrow> ClockTimestamp \<Rightarrow> go_error + Clock \<times> go_error option" where
  "UpdateAndCheckMaxOffset c phys rt =
     res_bind (getPhysicalClockAndCheck c phys) (\<lambda>(c, physicalClock).
       let offset = WallTime rt - physicalClock
       in if sint (maxOffset c) > 0 \<and> sint offset > sint (maxOffset c)
          then Inr (c, Some errUntrustworthyRemoteWallTimeErr)
          else if sint physicalClock > sint (WallTime rt)
          then res_bind (Clock_Update c (Timestamp_zero\<lparr>WallTime := physicalClock\<rparr>)) (\<lambda>c. Inr (c, None))
          else res_bind (Clock_Update c rt) (\<lambda>c. Inr (c, None)))"

definition setForwardJumpCheckEnabled :: "Clock \<Rightarrow> bool \<Rightarrow> Clock" where
  "setForwardJumpCheckEnabled c b = c\<lparr>forwardClockJumpCheckEnabled := (if b then 1 else 0)\<rparr>"

definition setMonitoringClockJump :: "Clock \<Rightarrow> Clock \<times> bool" where
  "setMonitoringClockJump c =
     (c\<lparr>isMonitoringForwardClockJumps := True\<rparr>, isMonitoringForwardClockJumps c)"

text \<open>The parameter \<open>persistFn\<close> is the caller's function; it returns its error, if any.\<close>

definition persistHLCUpperBound ::
  "Clock \<Rightarrow> (int64 \<Rightarrow> go_error option) \<Rightarrow> int64 \<Rightarrow> Clock \<times> go_error option" where
  "persistHLCUpperBound c persistFn hlcUpperBound =
     (case persistFn hlcUpperBound of
        Some err \<Rightarrow> (c, Some err)
      | None \<Rightarrow> (c\<lparr>wallTimeUpperBound := hlcUpperBound\<rparr>, None))"

definition RefreshHLCUpperBound ::
  "Clock \<Rightarrow> int64 \<Rightarrow> (int64 \<Rightarrow> go_error option) \<Rightarrow> int64 \<Rightarrow> go_error + Clock \<times> go_error option" where
  "RefreshHLCUpperBound c phys persistFn delta =
     (if sint delta < 0 then Inr (c, Some (Errorf ''HLC upper bound delta should be positive''))
      else res_bind (Clock_Now c phys) (\<lambda>(c, now).
             Inr (persistHLCUpperBound c persistFn (WallTime now + delta))))"

definition ResetHLCUpperBound ::
  "Clock \<Rightarrow> (int64 \<Rightarrow> go_error option) \<Rightarrow> Clock \<times> go_error option" where
  "ResetHLCUpperBound c persistFn = persistHLCUpperBound c persistFn 0"

text \<open>
  The goroutine of \<open>StartMonitoringForwardClockJumps\<close>: one event is a value received on the
  channel (\<open>None\<close> when it is closed, which ends the loop) or a tick; the state is the clock,
  whether the ticker runs and whether the loop goes on. A tick of a stopped ticker does not
  occur.
\<close>

datatype monitor_event = CheckEnabledCh "bool option" | TickerC

definition monitor_step :: "Clock \<times> bool \<times> bool \<Rightarrow> monitor_event \<times> int64 \<Rightarrow> go_error + Clock \<times> bool \<times> bool" where
  "monitor_step st ev =
     (case (st, ev) of ((c, ticking, running), e, phys) \<Rightarrow>
       if \<not> running then Inr st
       else case e of
         CheckEnabledCh None \<Rightarrow> Inr (c, False, False)
       | CheckEnabledCh (Some enabled) \<Rightarrow>
           res_bind (if enabled then res_bind (getPhysicalClockAndCheck c phys) (\<lambda>(c, _). Inr c) else Inr c)
             (\<lambda>c. Inr (setForwardJumpCheckEnabled c enabled, enabled, True))
       | TickerC \<Rightarrow>
           if ticking then res_bind (getPhysicalClockAndCheck c phys) (\<lambda>(c, _). Inr (c, ticking, True))
           else Inr st)"

fun monitor_run :: "Clock \<times> bool \<times> bool \<Rightarrow> (monitor_event \<times> int64) list \<Rightarrow> go_error + Clock \<times> bool \<times> bool" where
  "monitor_run st [] = Inr st"
| "monitor_run st (ev # evs) = res_bind (monitor_step st ev) (\<lambda>st. monitor_run st evs)"

definition StartMonitoringForwardClockJumps ::
  "Clock \<Rightarrow> (monitor_event \<times> int64) list \<Rightarrow> go_error + Clock \<times> go_error option" where
  "StartMonitoringForwardClockJumps c evs =
     (case setMonitoringClockJump c of (c, alreadyMonitoring) \<Rightarrow>
        if alreadyMonitoring then Inr (c, Some (Errorf ''clock jumps are already being monitored''))
        else res_bind (monitor_run (c, False, True) evs) (\<lambda>(c, _, _). Inr (c, None)))"

text \<open>
  \<open>SleepUntil\<close>, with what the environment does at each iteration: the error of the context, the
  reading of the physical clock, and the cancellation during the sleep. \<open>Time_Sub\<close> is
  \<open>time.Time.Sub\<close> on times given in nanoseconds, which saturates. The result lists the
  durations slept and, unless the listed iterations all sleep, the value returned.
\<close>

definition Time_Sub :: "int64 \<Rightarrow> int64 \<Rightarrow> int" where
  "Time_Sub t u = max (sint MinInt64) (min (sint MaxInt64) (sint t - sint u))"

definition minSleep :: int where "minSleep = 25 * 1000"
definition maxSleep :: int where "maxSleep = 1000000000"

fun SleepUntil ::
  "Clock \<Rightarrow> Timestamp \<Rightarrow> (go_error option \<times> int64 \<times> go_error option) list \<Rightarrow>
   go_error + Clock \<times> int list \<times> go_error option option" where
  "SleepUntil c t [] = Inr (c, [], None)"
| "SleepUntil c t ((ctxErr, phys, ctxDone) # env) =
     (case ctxErr of
        Some err \<Rightarrow> Inr (c, [], Some (Some err))
      | None \<Rightarrow> res_bind (Clock_Now c phys) (\<lambda>(c, now).
          if Timestamp_LessEq t now then Inr (c, [], Some None)
          else
            let d = Time_Sub (WallTime now) (WallTime t);
                d = (if d < minSleep then minSleep else if d > maxSleep then maxSleep else d)
            in if \<not> d < 1000000 \<and> ctxDone \<noteq> None then Inr (c, [d], Some ctxDone)
               else res_bind (SleepUntil c t env) (\<lambda>(c, ds, r). Inr (c, d # ds, r))))"

text \<open>A run of a clock: the calls in the order of their critical sections.\<close>

datatype clock_call =
    OpNow int64
  | OpUpdate ClockTimestamp
  | OpUpdateAndCheck int64 ClockTimestamp
  | OpRefresh int64 "int64 \<Rightarrow> go_error option" int64
  | OpReset "int64 \<Rightarrow> go_error option"

fun clock_op :: "Clock \<Rightarrow> clock_call \<Rightarrow> go_error + Clock \<times> Timestamp list" where
  "clock_op c (OpNow phys) = res_bind (Clock_Now c phys) (\<lambda>(c, now). Inr (c, [now]))"
| "clock_op c (OpUpdate rt) = res_bind (Clock_Update c rt) (\<lambda>c. Inr (c, []))"
| "clock_op c (OpUpdateAndCheck phys rt) =
     res_bind (UpdateAndCheckMaxOffset c phys rt) (\<lambda>(c, _). Inr (c, []))"
| "clock_op c (OpRefresh phys persistFn delta) =
     res_bind (RefreshHLCUpperBound c phys persistFn delta) (\<lambda>(c, _). Inr (c, []))"
| "clock_op c (OpReset persistFn) = Inr (fst (ResetHLCUpperBound c persistFn), [])"

fun clock_run :: "Clock \<Rightarrow> clock_call list \<Rightarrow> go_error + Clock \<times> Timestamp list" where
  "clock_run c [] = Inr (c, [])"
| "clock_run c (op # ops) =
     res_bind (clock_op c op) (\<lambda>(c, out). res_bind (clock_run c ops) (\<lambda>(c, outs). Inr (c, out @ outs)))"

section \<open>What each operation does to the timestamp\<close>

abbreviation clock_key :: "Clock \<Rightarrow> int \<times> int" where
  "clock_key c \<equiv> ts_key (clock_ts c)"

lemma checkPhysicalClock_Inr:
  "checkPhysicalClock c old new = Inr c' \<Longrightarrow>
     clock_ts c' = clock_ts c \<and> maxOffset c' = maxOffset c \<and>
     wallTimeUpperBound c' = wallTimeUpperBound c \<and> lastPhysicalTime c' = lastPhysicalTime c"
  by (auto simp: checkPhysicalClock_def Let_def split: if_splits)

lemma getPhysicalClock_Inr:
  "getPhysicalClockAndCheck c phys = Inr (c', t) \<Longrightarrow>
     t = phys \<and> clock_ts c' = clock_ts c \<and> maxOffset c' = maxOffset c \<and>
     wallTimeUpperBound c' = wallTimeUpperBound c \<and> lastPhysicalTime c' = phys"
  by (auto simp: getPhysicalClockAndCheck_def Let_def dest!: checkPhysicalClock_Inr)

lemma enforce_Inr [simp]: "enforceWallTimeWithinBoundLocked c = Inr c' \<longleftrightarrow>
    c' = c \<and> (wallTimeUpperBound c = 0 \<or> sint (WallTime (clock_ts c)) \<le> sint (wallTimeUpperBound c))"
  by (auto simp: enforceWallTimeWithinBoundLocked_def)

definition clock_tick :: "ClockTimestamp \<Rightarrow> int64 \<Rightarrow> ClockTimestamp" where
  "clock_tick ts phys =
     (if sint (WallTime ts) \<ge> sint phys then ts\<lparr>Logical := Logical ts + 1\<rparr>
      else ts\<lparr>WallTime := phys, Logical := 0\<rparr>)"

lemma NowAsClockTimestamp_Inr:
  assumes "NowAsClockTimestamp c phys = Inr (c', now)"
  shows "now = clock_tick (clock_ts c) phys" "clock_ts c' = now" "maxOffset c' = maxOffset c"
    "wallTimeUpperBound c' = wallTimeUpperBound c" "lastPhysicalTime c' = phys"
    "wallTimeUpperBound c = 0 \<or> sint (WallTime now) \<le> sint (wallTimeUpperBound c)"
proof -
  obtain c1 where get: "getPhysicalClockAndCheck c phys = Inr (c1, phys)"
      and c': "c' = c1\<lparr>clock_ts := now\<rparr>" "now = clock_tick (clock_ts c1) phys"
        "wallTimeUpperBound c' = 0 \<or> sint (WallTime now) \<le> sint (wallTimeUpperBound c')"
    using assms by (fastforce simp: NowAsClockTimestamp_def clock_tick_def Let_def
        dest: getPhysicalClock_Inr split: if_splits)
  from getPhysicalClock_Inr [OF get] c'
  show "now = clock_tick (clock_ts c) phys" "clock_ts c' = now" "maxOffset c' = maxOffset c"
    "wallTimeUpperBound c' = wallTimeUpperBound c" "lastPhysicalTime c' = phys"
    "wallTimeUpperBound c = 0 \<or> sint (WallTime now) \<le> sint (wallTimeUpperBound c)"
    by simp_all
qed

lemma Clock_Now_Inr:
  assumes "Clock_Now c phys = Inr (c', now)"
  shows "NowAsClockTimestamp c phys = Inr (c', now)" "\<not> Synthetic now"
  using assms by (auto simp: Clock_Now_def ClockTimestamp_ToTimestamp_def split: if_splits)

lemma Synthetic_tick [simp]: "Synthetic (clock_tick ts phys) = Synthetic ts"
  by (simp add: clock_tick_def)

lemma clock_tick_greater:
  assumes "Logical ts \<noteq> MaxInt32 \<or> sint (WallTime ts) < sint phys"
  shows "ts_key ts < ts_key (clock_tick ts phys)" "sint phys \<le> sint (WallTime (clock_tick ts phys))"
  using assms by (auto simp: clock_tick_def ts_key_def sint32_inc)

lemma Clock_Update_Inr:
  assumes "Clock_Update c rt = Inr c'"
  shows "c' = c\<lparr>clock_ts := clock_ts c'\<rparr>" "clock_key c' = max (clock_key c) (ts_key rt)"
    "Synthetic (clock_ts c') = Synthetic (clock_ts c)"
  using assms by (auto simp: Clock_Update_def ts_key_def max_def Let_def sint_eq_iff split: if_splits)

text \<open>
  A reading of the clock that does not overflow the logical counter is strictly above
  every earlier state of the clock, is not behind the physical clock, becomes
  the state of the clock, and does not exceed the persisted upper bound.
\<close>

theorem NowAsClockTimestamp_monotone:
  assumes "NowAsClockTimestamp c phys = Inr (c', now)"
    and "Logical (clock_ts c) \<noteq> MaxInt32 \<or> sint (WallTime (clock_ts c)) < sint phys"
  shows "Timestamp_Less (clock_ts c) now \<and> sint phys \<le> sint (WallTime now) \<and> clock_ts c' = now \<and>
    (wallTimeUpperBound c = 0 \<or> sint (WallTime now) \<le> sint (wallTimeUpperBound c))"
  using NowAsClockTimestamp_Inr [OF assms(1)] clock_tick_greater [OF assms(2)]
  by (simp add: ts_order)

theorem NowAsClockTimestamp_monotone_witness:
  "\<exists>c' now. NowAsClockTimestamp (NewClock 500) 7 = Inr (c', now) \<and>
     Timestamp_Less (clock_ts (NewClock 500)) now \<and> sint (7 :: int64) \<le> sint (WallTime now)"
proof -
  have "\<exists>c' now. NowAsClockTimestamp (NewClock 500) 7 = Inr (c', now)"
    by (simp add: NowAsClockTimestamp_def getPhysicalClockAndCheck_def checkPhysicalClock_def
        NewClock_def Timestamp_zero_def)
  then obtain c' now where "NowAsClockTimestamp (NewClock 500) 7 = Inr (c', now)" by blast
  with NowAsClockTimestamp_monotone [OF this] show ?thesis
    by (auto simp: NewClock_def Timestamp_zero_def)
qed

section \<open>Runs of a clock\<close>

text \<open>
  The logical counter cannot overflow in a run whose calls are fewer than what is left of the
  counter, at the start and after each update.
\<close>

fun op_remote :: "clock_call \<Rightarrow> ClockTimestamp list" where
  "op_remote (OpUpdate rt) = [rt]"
| "op_remote (OpUpdateAndCheck phys rt) = [rt]"
| "op_remote _ = []"

definition run_fits :: "Clock \<Rightarrow> clock_call list \<Rightarrow> bool" where
  "run_fits c ops \<longleftrightarrow>
     (\<forall>l \<in> {0, Logical (clock_ts c)} \<union> Logical ` set (concat (map op_remote ops)).
        sint l + int (length ops) \<le> sint MaxInt32)"

lemma Logical_tick:
  assumes "sint (Logical ts) < sint MaxInt32"
  shows "sint (Logical (clock_tick ts phys)) \<in> {0, sint (Logical ts) + 1}"
proof -
  have "Logical ts \<noteq> MaxInt32" using assms by auto
  then show ?thesis by (auto simp: clock_tick_def sint32_inc)
qed

lemma run_fits_Cons:
  assumes "run_fits c (op # ops)" "l \<in> {0, Logical (clock_ts c)} \<union> Logical ` set (op_remote op)"
    and "sint (Logical (clock_ts c')) \<le> sint l + 1"
  shows "run_fits c' ops"
proof -
  have fits: "sint k + int (length ops) + 1 \<le> sint MaxInt32"
    if "k \<in> {0, Logical (clock_ts c)} \<union> Logical ` set (concat (map op_remote (op # ops)))" for k
    using assms(1) [unfolded run_fits_def, rule_format, OF that] by simp
  have old: "sint k + int (length ops) \<le> sint MaxInt32"
    if "k \<in> insert 0 (Logical ` set (concat (map op_remote ops)))" for k
    using that by (intro order_trans [OF _ fits [of k]]) auto
  have "sint l + int (length ops) + 1 \<le> sint MaxInt32"
    using assms(2) by (intro fits) auto
  with assms(3) have "sint (Logical (clock_ts c')) + int (length ops) \<le> sint MaxInt32"
    by linarith
  with old show ?thesis unfolding run_fits_def by blast
qed

lemma Clock_Update_Logical:
  "Clock_Update c rt = Inr c' \<Longrightarrow> Logical (clock_ts c') \<in> {Logical (clock_ts c), Logical rt}"
  by (auto simp: Clock_Update_def Let_def split: if_splits)

lemma UpdateAndCheck_cases:
  assumes "UpdateAndCheckMaxOffset c phys rt = Inr (c', err)"
  obtains (rejected) c1 where "getPhysicalClockAndCheck c phys = Inr (c1, phys)" "c' = c1"
      "err = Some errUntrustworthyRemoteWallTimeErr" "0 < sint (maxOffset c)"
      "sint (maxOffset c) < sint (WallTime rt - phys)"
    | (physical) c1 where "getPhysicalClockAndCheck c phys = Inr (c1, phys)"
      "Clock_Update c1 (Timestamp_zero\<lparr>WallTime := phys\<rparr>) = Inr c'" "err = None"
      "sint (WallTime rt) < sint phys"
      "\<not> (0 < sint (maxOffset c) \<and> sint (maxOffset c) < sint (WallTime rt - phys))"
    | (remote) c1 where "getPhysicalClockAndCheck c phys = Inr (c1, phys)"
      "Clock_Update c1 rt = Inr c'" "err = None" "sint phys \<le> sint (WallTime rt)"
      "\<not> (0 < sint (maxOffset c) \<and> sint (maxOffset c) < sint (WallTime rt - phys))"
proof -
  obtain c1 where get: "getPhysicalClockAndCheck c phys = Inr (c1, phys)"
    using assms by (auto simp: UpdateAndCheckMaxOffset_def dest: getPhysicalClock_Inr)
  with getPhysicalClock_Inr [OF get] assms that show ?thesis
    by (simp add: UpdateAndCheckMaxOffset_def Let_def not_less split: if_splits)
qed

lemma Refresh_cases:
  assumes "RefreshHLCUpperBound c phys persistFn delta = Inr (c', err)"
  obtains (same) "c' = c" | (now) c1 now where "Clock_Now c phys = Inr (c1, now)" "clock_ts c' = clock_ts c1"
  using assms by (auto simp: RefreshHLCUpperBound_def persistHLCUpperBound_def
      split: if_splits option.splits)

text \<open>One call: the timestamp does not go back, and what \<open>Now\<close> returns is above it.\<close>

lemma clock_op_step:
  assumes "clock_op c op = Inr (c', out)" "run_fits c (op # ops)"
  shows "clock_key c \<le> clock_key c' \<and> run_fits c' ops \<and>
    sorted_wrt (<) (map ts_key (clock_ts c # out)) \<and> (\<forall>t \<in> set out. ts_key t \<le> clock_key c')"
proof -
  note fits = assms(2) [unfolded run_fits_def]
  have lt: "sint (Logical (clock_ts c)) < sint MaxInt32" using fits by simp
  then have ne: "Logical (clock_ts c) \<noteq> MaxInt32" by auto
  have tick: "clock_key c < clock_key c1 \<and> clock_ts c1 = now \<and>
      sint (Logical (clock_ts c1)) \<in> {0, sint (Logical (clock_ts c)) + 1}"
    if "Clock_Now c phys = Inr (c1, now)" for phys c1 now
    using NowAsClockTimestamp_Inr [OF Clock_Now_Inr(1) [OF that]]
      clock_tick_greater(1) [of "clock_ts c" phys] ne Logical_tick [OF lt] by auto
  show ?thesis
  proof (cases op)
    case (OpNow phys)
    with assms(1) obtain now where now: "Clock_Now c phys = Inr (c', now)" "out = [now]" by auto
    have "run_fits c' ops"
      using tick [OF now(1)] run_fits_Cons [OF assms(2), of 0] run_fits_Cons [OF assms(2), of "Logical (clock_ts c)"]
      by auto
    with tick [OF now(1)] now(2) show ?thesis by auto
  next
    case (OpUpdate rt)
    with assms(1) have upd: "Clock_Update c rt = Inr c'" "out = []" by auto
    have "run_fits c' ops"
      by (rule run_fits_Cons [OF assms(2), of "Logical (clock_ts c')"])
        (use Clock_Update_Logical [OF upd(1)] OpUpdate in auto)
    with Clock_Update_Inr(2) [OF upd(1)] upd(2) show ?thesis by simp
  next
    case (OpUpdateAndCheck phys rt)
    with assms(1) obtain err where upd: "UpdateAndCheckMaxOffset c phys rt = Inr (c', err)" "out = []"
      by auto
    have *: "clock_key c \<le> clock_key c' \<and> Logical (clock_ts c') \<in> {0, Logical (clock_ts c), Logical rt}"
      using upd(1)
      by (cases rule: UpdateAndCheck_cases)
        (auto dest!: getPhysicalClock_Inr dest: Clock_Update_Inr(2) Clock_Update_Logical simp: Timestamp_zero_def)
    have "run_fits c' ops"
      by (rule run_fits_Cons [OF assms(2), of "Logical (clock_ts c')"]) (use * OpUpdateAndCheck in auto)
    with * upd(2) show ?thesis by simp
  next
    case (OpRefresh phys persistFn delta)
    with assms(1) obtain err where ref: "RefreshHLCUpperBound c phys persistFn delta = Inr (c', err)" "out = []"
      by auto
    have *: "clock_key c \<le> clock_key c' \<and>
        sint (Logical (clock_ts c')) \<in> {0, sint (Logical (clock_ts c)), sint (Logical (clock_ts c)) + 1}"
      using ref(1) by (cases rule: Refresh_cases) (auto dest: tick)
    then have "run_fits c' ops"
      using run_fits_Cons [OF assms(2), of 0] run_fits_Cons [OF assms(2), of "Logical (clock_ts c)"]
      by auto
    with * ref(2) show ?thesis by simp
  next
    case (OpReset persistFn)
    with assms(1) have *: "clock_ts c' = clock_ts c" "out = []"
      by (auto simp: ResetHLCUpperBound_def persistHLCUpperBound_def split: option.splits)
    moreover have "run_fits c' ops"
      by (rule run_fits_Cons [OF assms(2), of "Logical (clock_ts c')"]) (use * in auto)
    ultimately show ?thesis by simp
  qed
qed

lemma clock_run_sorted:
  assumes "clock_run c ops = Inr (c', outs)" "run_fits c ops"
  shows "clock_key c \<le> clock_key c' \<and> sorted_wrt (<) (map ts_key (clock_ts c # outs)) \<and>
    (\<forall>t \<in> set outs. ts_key t \<le> clock_key c')"
  using assms
proof (induction c ops arbitrary: outs rule: clock_run.induct)
  case (2 c op ops)
  from "2.prems"(1) obtain c1 out outs' where step: "clock_op c op = Inr (c1, out)"
      and rest: "clock_run c1 ops = Inr (c', outs')" and outs: "outs = out @ outs'" by auto
  note one = clock_op_step [OF step "2.prems"(2)]
  from "2.IH" [OF step refl rest] one
  have IH: "clock_key c1 \<le> clock_key c'" "sorted_wrt (<) (map ts_key (clock_ts c1 # outs'))"
    "\<forall>t \<in> set outs'. ts_key t \<le> clock_key c'" by auto
  have "\<forall>t \<in> set out. \<forall>u \<in> set outs'. ts_key t < ts_key u"
    using one IH(2) by fastforce
  with one IH show ?case unfolding outs by (force simp: sorted_wrt_append)
qed simp

text \<open>
  C4. In every run of a clock that does not exhaust the logical counter, the timestamps that
  \<open>Now\<close> returns are strictly increasing and above the initial timestamp of the clock, whatever
  the physical clock reads, and the clock ends at or above all of them.
\<close>

theorem clock_run_monotone:
  assumes "clock_run c ops = Inr (c', outs)" "run_fits c ops"
  shows "sorted_wrt Timestamp_Less (clock_ts c # outs) \<and>
    (\<forall>t \<in> set (clock_ts c # outs). Timestamp_LessEq t (clock_ts c'))"
proof -
  have less: "Timestamp_Less = (\<lambda>t u. ts_key t < ts_key u)"
    by (intro ext) (rule Timestamp_Less_key)
  show ?thesis
    unfolding less using clock_run_sorted [OF assms] by (simp add: Timestamp_LessEq_key sorted_wrt_map)
qed

lemma clock_demo_run:
  "\<exists>c' t1 t2. clock_run (NewClock 500)
     [OpNow 10, OpUpdate \<lparr>WallTime = 20, Logical = 4, Synthetic = False\<rparr>, OpNow 9] = Inr (c', [t1, t2])"
  by (simp add: Clock_Now_def NowAsClockTimestamp_def getPhysicalClockAndCheck_def
      checkPhysicalClock_def NewClock_def Timestamp_zero_def Clock_Update_def
      ClockTimestamp_ToTimestamp_def enforceWallTimeWithinBoundLocked_def)

lemma clock_demo_fits:
  "run_fits (NewClock 500)
     [OpNow 10, OpUpdate \<lparr>WallTime = 20, Logical = 4, Synthetic = False\<rparr>, OpNow 9]"
  by (simp add: run_fits_def NewClock_def Timestamp_zero_def)

theorem clock_run_monotone_witness:
  "\<exists>c' t1 t2. clock_run (NewClock 500)
     [OpNow 10, OpUpdate \<lparr>WallTime = 20, Logical = 4, Synthetic = False\<rparr>, OpNow 9] = Inr (c', [t1, t2]) \<and>
     Timestamp_Less t1 t2"
proof -
  obtain c' t1 t2 where run: "clock_run (NewClock 500)
     [OpNow 10, OpUpdate \<lparr>WallTime = 20, Logical = 4, Synthetic = False\<rparr>, OpNow 9] = Inr (c', [t1, t2])"
    using clock_demo_run by blast
  with clock_run_monotone [OF run clock_demo_fits] show ?thesis by auto
qed



text \<open>
  \<open>UpdateAndCheckMaxOffset\<close> rejects a remote timestamp exactly when its wall time is more than
  the maximal offset ahead of the physical clock, leaves the timestamp of the clock alone then,
  never moves the wall time further than the maximal offset ahead of the physical clock, and
  otherwise leaves the clock at or above the remote timestamp.
\<close>

theorem UpdateAndCheckMaxOffset_bounded:
  assumes run: "UpdateAndCheckMaxOffset c phys rt = Inr (c', err)"
    and pos: "0 < sint (maxOffset c)" "0 \<le> sint phys" "0 \<le> sint (WallTime rt)"
  shows "(err = None \<longleftrightarrow> sint (WallTime rt) \<le> sint phys + sint (maxOffset c)) \<and>
    (err = None \<longrightarrow> Timestamp_LessEq rt (clock_ts c')) \<and>
    (err \<noteq> None \<longrightarrow> clock_ts c' = clock_ts c) \<and>
    sint (WallTime (clock_ts c')) \<le> max (sint (WallTime (clock_ts c))) (sint phys + sint (maxOffset c))"
proof -
  have diff: "sint (WallTime rt - phys) = sint (WallTime rt) - sint phys"
    using pos sint64_range [of "WallTime rt"] sint64_range [of phys] by (intro sint64_diff) auto
  have wall: "fst (ts_key t) = sint (WallTime t)" for t by (simp add: ts_key_def)
  have fst_max: "fst (max p q) = max (fst p) (fst q)" for p q :: "int \<times> int"
    by (auto simp: max_def less_eq_prod_def)
  have upd: "sint (WallTime (clock_ts b)) = max (sint (WallTime (clock_ts a))) (sint (WallTime u)) \<and>
      ts_key u \<le> clock_key b" if "Clock_Update a u = Inr b" for a b u
    using arg_cong [where f = fst, OF Clock_Update_Inr(2) [OF that], unfolded fst_max wall]
      Clock_Update_Inr(2) [OF that] by simp
  from run show ?thesis
  proof (cases rule: UpdateAndCheck_cases)
    case (rejected c1)
    with getPhysicalClock_Inr [OF rejected(1)] diff show ?thesis by auto
  next
    case (physical c1)
    let ?u = "Timestamp_zero\<lparr>WallTime := phys\<rparr>"
    have "ts_key rt \<le> ts_key ?u" using physical(4) by (simp add: ts_key_def)
    with upd [OF physical(2)] have "ts_key rt \<le> clock_key c'" by (meson order_trans)
    with physical getPhysicalClock_Inr [OF physical(1)] diff upd [OF physical(2)] pos
    show ?thesis by (auto simp: ts_order)
  next
    case (remote c1)
    with getPhysicalClock_Inr [OF remote(1)] diff upd [OF remote(2)] pos show ?thesis
      by (auto simp: ts_order)
  qed
qed

theorem UpdateAndCheckMaxOffset_bounded_witness:
  "\<exists>c' c''. UpdateAndCheckMaxOffset (NewClock 500) 1000 \<lparr>WallTime = 1501, Logical = 0, Synthetic = False\<rparr> =
       Inr (c', Some errUntrustworthyRemoteWallTimeErr) \<and> clock_ts c' = Timestamp_zero \<and>
     UpdateAndCheckMaxOffset (NewClock 500) 1000 \<lparr>WallTime = 1500, Logical = 7, Synthetic = False\<rparr> = Inr (c'', None) \<and>
     Timestamp_LessEq \<lparr>WallTime = 1500, Logical = 7, Synthetic = False\<rparr> (clock_ts c'')"
proof -
  let ?a = "\<lparr>WallTime = 1501, Logical = 0, Synthetic = False\<rparr>"
  let ?b = "\<lparr>WallTime = 1500, Logical = 7, Synthetic = False\<rparr>"
  note eval = UpdateAndCheckMaxOffset_def getPhysicalClockAndCheck_def checkPhysicalClock_def
    NewClock_def Timestamp_zero_def Clock_Update_def enforceWallTimeWithinBoundLocked_def
  obtain c' e where run_a: "UpdateAndCheckMaxOffset (NewClock 500) 1000 ?a = Inr (c', e)"
    by (simp add: eval)
  obtain c'' e' where run_b: "UpdateAndCheckMaxOffset (NewClock 500) 1000 ?b = Inr (c'', e')"
    by (simp add: eval)
  note runs = run_a run_b
  have "e = None \<or> e = Some errUntrustworthyRemoteWallTimeErr"
    using runs(1) by (cases rule: UpdateAndCheck_cases) auto
  with UpdateAndCheckMaxOffset_bounded [OF runs(1)] UpdateAndCheckMaxOffset_bounded [OF runs(2)]
  have "e = Some errUntrustworthyRemoteWallTimeErr" "clock_ts c' = Timestamp_zero" "e' = None"
      "Timestamp_LessEq ?b (clock_ts c'')"
    by (auto simp: NewClock_def)
  with runs show ?thesis by blast
qed

text \<open>
  \<open>SleepUntil\<close> returns without an error only once the clock has reached the timestamp; but each of
  its sleeps lasts exactly \<open>minSleep\<close>, however far away the timestamp is: the difference it
  computes is the current time minus the timestamp, which is never positive there.
\<close>

theorem SleepUntil_polls:
  assumes "SleepUntil c t env = Inr (c', ds, r)"
  shows "(r = Some None \<longrightarrow> Timestamp_LessEq t (clock_ts c')) \<and> (\<forall>d \<in> set ds. d = minSleep)"
  using assms
proof (induction c t env arbitrary: ds rule: SleepUntil.induct)
  case (2 c t ctxErr phys ctxDone env)
  show ?case
  proof (cases ctxErr)
    case None
    with "2.prems" obtain c1 now where now: "Clock_Now c phys = Inr (c1, now)" by auto
    have eq: "clock_ts c1 = now" using NowAsClockTimestamp_Inr(2) [OF Clock_Now_Inr(1) [OF now]] .
    show ?thesis
    proof (cases "Timestamp_LessEq t now")
      case True
      with "2.prems" None now eq show ?thesis by auto
    next
      case False
      then have "sint (WallTime now) \<le> sint (WallTime t)"
        by (auto simp: Timestamp_LessEq_def)
      then have d: "Time_Sub (WallTime now) (WallTime t) < minSleep"
        by (auto simp: Time_Sub_def minSleep_def)
      with "2.prems" None now False obtain ds' where rest: "SleepUntil c1 t env = Inr (c', ds', r)"
          and ds: "ds = minSleep # ds'"
        by (auto simp: minSleep_def)
      from "2.IH" [OF None now refl False refl refl _ rest] d ds show ?thesis
        by (auto simp: minSleep_def)
    qed
  qed (use "2.prems" in auto)
qed simp

theorem SleepUntil_polls_witness:
  "\<exists>c' ds r. SleepUntil (NewClock 500) \<lparr>WallTime = 10 ^ 10, Logical = 0, Synthetic = False\<rparr>
     [(None, 1, None), (None, 25001, None)] = Inr (c', ds, r) \<and> (\<forall>d \<in> set ds. d = minSleep)"
proof -
  let ?t = "\<lparr>WallTime = 10 ^ 10, Logical = 0, Synthetic = False\<rparr>"
  have "\<exists>c' ds r. SleepUntil (NewClock 500) ?t [(None, 1, None), (None, 25001, None)] = Inr (c', ds, r)"
    by (simp add: Clock_Now_def NowAsClockTimestamp_def getPhysicalClockAndCheck_def
        checkPhysicalClock_def NewClock_def Timestamp_zero_def Timestamp_LessEq_def Time_Sub_def
        ClockTimestamp_ToTimestamp_def enforceWallTimeWithinBoundLocked_def minSleep_def Let_def int64_div_def trunc_div_def)
  then obtain c' ds r where
    "SleepUntil (NewClock 500) ?t [(None, 1, None), (None, 25001, None)] = Inr (c', ds, r)" by blast
  with SleepUntil_polls [OF this] show ?thesis by blast
qed

section \<open>The compare-and-swap loop\<close>

text \<open>
  \<open>getPhysicalClockAndCheck\<close> as the interleaving of goroutines that share
  \<open>lastPhysicalTime\<close>. A goroutine is before its load of \<open>oldTime\<close>, has loaded it, is about
  to execute the compare-and-swap with the value it expects and its reading, is about to reload,
  or has left the loop. The shared state is \<open>lastPhysicalTime\<close> and the physical clock, which
  ticks forward on its own; both are written as the integers the \<open>int64\<close> values stand for.
\<close>

datatype cas_pc = CasStart | CasLoaded int | CasSwap int int | CasReload int | CasDone int

type_synonym cas_state = "int \<times> int \<times> cas_pc list"

inductive cas_step :: "cas_state \<Rightarrow> cas_state \<Rightarrow> bool" where
  Tick: "phys \<le> phys' \<Longrightarrow> cas_step (lpt, phys, pcs) (lpt, phys', pcs)"
| Load: "i < length pcs \<Longrightarrow> pcs ! i = CasStart \<Longrightarrow>
    cas_step (lpt, phys, pcs) (lpt, phys, pcs[i := CasLoaded lpt])"
| ReadClock: "i < length pcs \<Longrightarrow> pcs ! i = CasLoaded old \<Longrightarrow>
    cas_step (lpt, phys, pcs) (lpt, phys, pcs[i := CasSwap old phys])"
| SwapOk: "i < length pcs \<Longrightarrow> pcs ! i = CasSwap lpt new \<Longrightarrow>
    cas_step (lpt, phys, pcs) (new, phys, pcs[i := CasDone new])"
| SwapFails: "i < length pcs \<Longrightarrow> pcs ! i = CasSwap expected new \<Longrightarrow> expected \<noteq> lpt \<Longrightarrow>
    cas_step (lpt, phys, pcs) (lpt, phys, pcs[i := CasReload new])"
| ReloadDone: "i < length pcs \<Longrightarrow> pcs ! i = CasReload new \<Longrightarrow> new \<le> lpt \<Longrightarrow>
    cas_step (lpt, phys, pcs) (lpt, phys, pcs[i := CasDone new])"
| ReloadRetry: "i < length pcs \<Longrightarrow> pcs ! i = CasReload new \<Longrightarrow> lpt < new \<Longrightarrow>
    cas_step (lpt, phys, pcs) (lpt, phys, pcs[i := CasSwap lpt new])"

text \<open>The invariant: no goroutine expects more than it is about to write.\<close>

fun cas_pc_ok :: "int \<Rightarrow> int \<Rightarrow> cas_pc \<Rightarrow> bool" where
  "cas_pc_ok lpt phys CasStart \<longleftrightarrow> True"
| "cas_pc_ok lpt phys (CasLoaded old) \<longleftrightarrow> old \<le> phys"
| "cas_pc_ok lpt phys (CasSwap expected new) \<longleftrightarrow> expected \<le> new \<and> new \<le> phys"
| "cas_pc_ok lpt phys (CasReload new) \<longleftrightarrow> new \<le> phys"
| "cas_pc_ok lpt phys (CasDone new) \<longleftrightarrow> new \<le> lpt"

definition cas_inv :: "cas_state \<Rightarrow> bool" where
  "cas_inv st \<longleftrightarrow> (case st of (lpt, phys, pcs) \<Rightarrow> lpt \<le> phys \<and> list_all (cas_pc_ok lpt phys) pcs)"

lemma cas_pc_ok_mono:
  "cas_pc_ok lpt phys pc \<Longrightarrow> lpt \<le> lpt' \<Longrightarrow> phys \<le> phys' \<Longrightarrow> cas_pc_ok lpt' phys' pc"
  by (cases pc) auto

lemma cas_inv_update:
  assumes "cas_inv (lpt, phys, pcs)" "lpt \<le> lpt'" "lpt' \<le> phys" "cas_pc_ok lpt' phys pc"
  shows "cas_inv (lpt', phys, pcs[i := pc])"
  using assms unfolding cas_inv_def
  by (auto simp: list_all_iff dest!: set_update_subset_insert [THEN subsetD] intro: cas_pc_ok_mono)

lemma cas_inv_nth:
  "i < length pcs \<Longrightarrow> pcs ! i = pc \<Longrightarrow> cas_inv (lpt, phys, pcs) \<Longrightarrow>
     cas_pc_ok lpt phys pc \<and> lpt \<le> phys"
  by (auto simp: cas_inv_def list_all_length)

lemma cas_step_inv:
  assumes "cas_step st st'" "cas_inv st"
  shows "cas_inv st' \<and> fst st \<le> fst st'"
  using assms
proof (induction rule: cas_step.induct)
  case (Tick phys phys' lpt pcs)
  then show ?case by (auto simp: cas_inv_def list_all_iff intro: cas_pc_ok_mono)
qed (use cas_inv_nth in \<open>fastforce intro!: cas_inv_update\<close>)+

lemma cas_steps_inv:
  "cas_step\<^sup>*\<^sup>* st st' \<Longrightarrow> cas_inv st \<Longrightarrow> cas_inv st' \<and> fst st \<le> fst st'"
  by (induction rule: rtranclp_induct) (auto dest: cas_step_inv)



end
