(* ===== verification/Encoding_Ints.thy ===== *)
theory Encoding_Ints
  imports Big_Endian
begin

text \<open>
  \<open>pkg/util/encoding/encoding.go\<close>, the integers: the fixed-width and the length-prefixed
  encodings of unsigned and signed integers, ascending and descending. An encoder appends to
  the buffer it is given; a decoder returns the rest of its input and the value. The contract
  of such a pair, that the value is read back whatever follows it and that the byte order of
  two buffers is the order of the values, is the locale \<open>ordered_codec\<close>.

  In Go a shift of a signed integer is arithmetic; the byte taken from it is the same as that
  of the unsigned shift, since the shift is at most 56.
\<close>

section \<open>The contract of an order-preserving codec\<close>

lemma append_less_append:
  "length xs = length ys \<Longrightarrow> xs < ys \<Longrightarrow> xs @ r < (ys :: bytes) @ s"
  by (induction xs ys rule: list_induct2) auto

lemma append_left_less_iff: "xs @ r < xs @ s \<longleftrightarrow> r < (s :: bytes)"
  by (induction xs) auto

lemma be_bytes_append_less:
  "v < w \<Longrightarrow> unat v < 256 ^ n \<Longrightarrow> unat w < 256 ^ n \<Longrightarrow> be_bytes n v @ r < be_bytes n w @ s"
  by (rule append_less_append) (simp_all add: be_bytes_less_iff)

locale ordered_codec =
  fixes enc :: "'a \<Rightarrow> bytes"
    and dec :: "bytes \<Rightarrow> go_error + bytes \<times> 'a"
    and valid :: "'a \<Rightarrow> bool"
    and lt :: "'a \<Rightarrow> 'a \<Rightarrow> bool"
  assumes dec_enc: "valid x \<Longrightarrow> dec (enc x @ rest) = Inr (rest, x)"
    and enc_less: "valid x \<Longrightarrow> valid y \<Longrightarrow> lt x y \<Longrightarrow> enc x @ r < enc y @ s"
    and lt_total: "valid x \<Longrightarrow> valid y \<Longrightarrow> x \<noteq> y \<Longrightarrow> lt x y \<or> lt y x"
begin

lemma enc_inj:
  assumes "valid x" "valid y" and eq: "enc x @ r = enc y @ s"
  shows "x = y \<and> r = s"
proof -
  have "Inr (r, x) = dec (enc x @ r)" by (rule dec_enc [OF assms(1), symmetric])
  also have "\<dots> = Inr (s, y)" unfolding eq by (rule dec_enc [OF assms(2)])
  finally show ?thesis by simp
qed

lemma lt_irrefl: "valid x \<Longrightarrow> \<not> lt x x"
  using enc_less [of x x "[]" "[]"] by blast

lemma enc_less_iff:
  assumes "valid x" "valid y"
  shows "enc x @ r < enc y @ s \<longleftrightarrow> lt x y \<or> x = y \<and> r < s"
proof (cases "x = y")
  case True
  with assms show ?thesis using lt_irrefl by (simp add: append_left_less_iff)
next
  case False
  with assms lt_total enc_less [of x y r s] enc_less [of y x s r] show ?thesis
    by (meson less_asym)
qed

lemma enc_compare: "valid x \<Longrightarrow> valid y \<Longrightarrow> enc x < enc y \<longleftrightarrow> lt x y"
  using enc_less_iff [of x y "[]" "[]"] by simp

text \<open>No encoding is a proper prefix of another.\<close>

lemma enc_prefix_free: "valid x \<Longrightarrow> valid y \<Longrightarrow> enc x = enc y @ s \<Longrightarrow> x = y \<and> s = []"
  using enc_inj [of x y "[]" s] by simp

end

text \<open>
  A key made of two columns: if both are encoded by such codecs, the concatenation is an
  encoding of the pair, in lexicographic order.
\<close>

locale codec_pair = a: ordered_codec enca deca valida lta + b: ordered_codec encb decb validb ltb
  for enca deca valida lta and encb decb validb ltb
begin

lemma pair_decode:
  "valida x \<Longrightarrow> validb y \<Longrightarrow>
     res_bind (deca (enca x @ encb y @ rest)) (\<lambda>(r, x'). res_bind (decb r) (\<lambda>(r, y'). Inr (r, (x', y')))) =
       Inr (rest, (x, y))"
  by (simp add: a.dec_enc b.dec_enc)

lemma pair_less_iff:
  assumes "valida x" "valida x'" "validb y" "validb y'"
  shows "enca x @ encb y @ r < enca x' @ encb y' @ s \<longleftrightarrow>
    lta x x' \<or> x = x' \<and> (ltb y y' \<or> y = y' \<and> r < s)"
  using assms by (simp add: a.enc_less_iff b.enc_less_iff)

end

section \<open>Fixed width\<close>

definition EncodeUint32Ascending :: "bytes \<Rightarrow> uint32 \<Rightarrow> bytes" where
  "EncodeUint32Ascending b v = b @ be_bytes 4 v"

fun pad_zero :: "nat \<Rightarrow> bytes \<Rightarrow> bytes" where
  "pad_zero 0 b = b"
| "pad_zero (Suc n) b = pad_zero n (b @ [0])"

definition PutUint32Ascending :: "bytes \<Rightarrow> uint32 \<Rightarrow> nat \<Rightarrow> bytes" where
  "PutUint32Ascending b v idx =
     (let b = pad_zero (idx + 4 - length b) b
      in b[idx := ucast (drop_bit 24 v), idx + 1 := ucast (drop_bit 16 v),
           idx + 2 := ucast (drop_bit 8 v), idx + 3 := ucast v])"

definition EncodeUint32Descending :: "bytes \<Rightarrow> uint32 \<Rightarrow> bytes" where
  "EncodeUint32Descending b v = EncodeUint32Ascending b (NOT v)"

definition DecodeUint32Ascending :: "bytes \<Rightarrow> go_error + bytes \<times> uint32" where
  "DecodeUint32Ascending b =
     (if length b < 4 then Inl (Errorf ''insufficient bytes to decode uint32 int value'')
      else Inr (drop 4 b, be_fold (take 4 b)))"

definition DecodeUint32Descending :: "bytes \<Rightarrow> go_error + bytes \<times> uint32" where
  "DecodeUint32Descending b = res_bind (DecodeUint32Ascending b) (\<lambda>(leftover, v). Inr (leftover, NOT v))"

definition EncodeUint64Ascending :: "bytes \<Rightarrow> uint64 \<Rightarrow> bytes" where
  "EncodeUint64Ascending b v = b @ be_bytes 8 v"

definition EncodeUint64Descending :: "bytes \<Rightarrow> uint64 \<Rightarrow> bytes" where
  "EncodeUint64Descending b v = EncodeUint64Ascending b (NOT v)"

definition DecodeUint64Ascending :: "bytes \<Rightarrow> go_error + bytes \<times> uint64" where
  "DecodeUint64Ascending b =
     (if length b < 8 then Inl (Errorf ''insufficient bytes to decode uint64 int value'')
      else Inr (drop 8 b, be_fold (take 8 b)))"

definition DecodeUint64Descending :: "bytes \<Rightarrow> go_error + bytes \<times> uint64" where
  "DecodeUint64Descending b = res_bind (DecodeUint64Ascending b) (\<lambda>(leftover, v). Inr (leftover, NOT v))"

lemma unat64_less: "unat (v :: uint64) < 256 ^ 8"
  using unsigned_less [of v, where ?'a = nat] by simp

lemma unat32_less: "unat (v :: uint32) < 256 ^ 4"
  using unsigned_less [of v, where ?'a = nat] by simp

interpretation uint32_asc: ordered_codec "EncodeUint32Ascending []" DecodeUint32Ascending "\<lambda>_. True" "(<)"
proof
  fix x y :: uint32 and r s rest
  show "DecodeUint32Ascending (EncodeUint32Ascending [] x @ rest) = Inr (rest, x)"
    using be_fold_be_bytes [OF unat32_less [of x]]
    by (simp add: DecodeUint32Ascending_def EncodeUint32Ascending_def)
  show "x < y \<Longrightarrow> EncodeUint32Ascending [] x @ r < EncodeUint32Ascending [] y @ s"
    unfolding EncodeUint32Ascending_def append_Nil
    by (rule be_bytes_append_less [OF _ unat32_less unat32_less])
qed auto

interpretation uint32_desc: ordered_codec "EncodeUint32Descending []" DecodeUint32Descending "\<lambda>_. True" "(>)"
proof
  fix x y :: uint32 and r s rest
  show "DecodeUint32Descending (EncodeUint32Descending [] x @ rest) = Inr (rest, x)"
    by (simp add: DecodeUint32Descending_def EncodeUint32Descending_def uint32_asc.dec_enc)
  show "y < x \<Longrightarrow> EncodeUint32Descending [] x @ r < EncodeUint32Descending [] y @ s"
    by (simp add: EncodeUint32Descending_def uint32_asc.enc_less word_not_less_iff)
qed auto

interpretation uint64_asc: ordered_codec "EncodeUint64Ascending []" DecodeUint64Ascending "\<lambda>_. True" "(<)"
proof
  fix x y :: uint64 and r s rest
  show "DecodeUint64Ascending (EncodeUint64Ascending [] x @ rest) = Inr (rest, x)"
    using be_fold_be_bytes [OF unat64_less [of x]]
    by (simp add: DecodeUint64Ascending_def EncodeUint64Ascending_def)
  show "x < y \<Longrightarrow> EncodeUint64Ascending [] x @ r < EncodeUint64Ascending [] y @ s"
    unfolding EncodeUint64Ascending_def append_Nil
    by (rule be_bytes_append_less [OF _ unat64_less unat64_less])
qed auto

interpretation uint64_desc: ordered_codec "EncodeUint64Descending []" DecodeUint64Descending "\<lambda>_. True" "(>)"
proof
  fix x y :: uint64 and r s rest
  show "DecodeUint64Descending (EncodeUint64Descending [] x @ rest) = Inr (rest, x)"
    by (simp add: DecodeUint64Descending_def EncodeUint64Descending_def uint64_asc.dec_enc)
  show "y < x \<Longrightarrow> EncodeUint64Descending [] x @ r < EncodeUint64Descending [] y @ s"
    by (simp add: EncodeUint64Descending_def uint64_asc.enc_less word_not_less_iff)
qed auto

lemma length_pad_zero [simp]: "length (pad_zero n b) = n + length b"
  by (induction n b rule: pad_zero.induct) auto

lemma pad_zero_eq: "pad_zero n b = b @ replicate n 0"
  by (induction n b rule: pad_zero.induct) (auto simp: replicate_append_same [symmetric])

section \<open>Variable width\<close>

abbreviation (input) IntMin :: byte where "IntMin \<equiv> 0x80"
abbreviation (input) intZero :: byte where "intZero \<equiv> 136"
abbreviation (input) IntMax :: byte where "IntMax \<equiv> 0xfd"
abbreviation intSmall :: int where "intSmall \<equiv> 109"

definition EncodeUvarintAscending :: "bytes \<Rightarrow> uint64 \<Rightarrow> bytes" where
  "EncodeUvarintAscending b v =
     (if v \<le> 109 then b @ [intZero + ucast v]
      else if v \<le> 0xff then b @ (IntMax - 7) # be_bytes 1 v
      else if v \<le> 0xffff then b @ (IntMax - 6) # be_bytes 2 v
      else if v \<le> 0xffffff then b @ (IntMax - 5) # be_bytes 3 v
      else if v \<le> 0xffffffff then b @ (IntMax - 4) # be_bytes 4 v
      else if v \<le> 0xffffffffff then b @ (IntMax - 3) # be_bytes 5 v
      else if v \<le> 0xffffffffffff then b @ (IntMax - 2) # be_bytes 6 v
      else if v \<le> 0xffffffffffffff then b @ (IntMax - 1) # be_bytes 7 v
      else b @ IntMax # be_bytes 8 v)"

definition EncodedLengthUvarintAscending :: "uint64 \<Rightarrow> nat" where
  "EncodedLengthUvarintAscending v =
     (if v \<le> 109 then 1
      else if v \<le> 0xff then 2
      else if v \<le> 0xffff then 3
      else if v \<le> 0xffffff then 4
      else if v \<le> 0xffffffff then 5
      else if v \<le> 0xffffffffff then 6
      else if v \<le> 0xffffffffffff then 7
      else if v \<le> 0xffffffffffffff then 8
      else 9)"

definition EncodeUvarintDescending :: "bytes \<Rightarrow> uint64 \<Rightarrow> bytes" where
  "EncodeUvarintDescending b v =
     (if v = 0 then b @ [IntMin + 8]
      else if v \<le> 0xff then b @ (IntMin + 7) # be_bytes 1 (NOT v)
      else if v \<le> 0xffff then b @ (IntMin + 6) # be_bytes 2 (NOT v)
      else if v \<le> 0xffffff then b @ (IntMin + 5) # be_bytes 3 (NOT v)
      else if v \<le> 0xffffffff then b @ (IntMin + 4) # be_bytes 4 (NOT v)
      else if v \<le> 0xffffffffff then b @ (IntMin + 3) # be_bytes 5 (NOT v)
      else if v \<le> 0xffffffffffff then b @ (IntMin + 2) # be_bytes 6 (NOT v)
      else if v \<le> 0xffffffffffffff then b @ (IntMin + 1) # be_bytes 7 (NOT v)
      else b @ IntMin # be_bytes 8 (NOT v))"

definition EncodeVarintAscending :: "bytes \<Rightarrow> int64 \<Rightarrow> bytes" where
  "EncodeVarintAscending b v =
     (if sint v < 0 then
      if sint v \<ge> - 0xff then b @ (IntMin + 7) # be_bytes 1 v
      else if sint v \<ge> - 0xffff then b @ (IntMin + 6) # be_bytes 2 v
      else if sint v \<ge> - 0xffffff then b @ (IntMin + 5) # be_bytes 3 v
      else if sint v \<ge> - 0xffffffff then b @ (IntMin + 4) # be_bytes 4 v
      else if sint v \<ge> - 0xffffffffff then b @ (IntMin + 3) # be_bytes 5 v
      else if sint v \<ge> - 0xffffffffffff then b @ (IntMin + 2) # be_bytes 6 v
      else if sint v \<ge> - 0xffffffffffffff then b @ (IntMin + 1) # be_bytes 7 v
      else b @ IntMin # be_bytes 8 v
      else EncodeUvarintAscending b v)"

definition EncodeVarintDescending :: "bytes \<Rightarrow> int64 \<Rightarrow> bytes" where
  "EncodeVarintDescending b v = EncodeVarintAscending b (NOT v)"

definition getVarintLen :: "bytes \<Rightarrow> go_error + nat" where
  "getVarintLen b =
     (case b of [] \<Rightarrow> Inl index_out_of_range
      | t # _ \<Rightarrow>
          let len = uint t - uint intZero
          in if 0 \<le> len \<and> len \<le> intSmall then Inr 1
             else
               let len = (if 0 \<le> len then 1 + len - intSmall else 1 - len)
               in if len > int (length b) then Inl (Errorf ''varint length exceeds slice length'')
                  else Inr (nat len))"

definition highestByteIndex :: "uint64 \<Rightarrow> nat" where
  "highestByteIndex v =
     (let (v, l) = (if v > 0xffffffff then (drop_bit 32 v, 4) else (v, 0));
          (v, l) = (if v > 0xffff then (drop_bit 16 v, l + 2) else (v, l))
      in if v > 0xff then l + 1 else l)"

definition EncLenUvarintAscending :: "uint64 \<Rightarrow> nat" where
  "EncLenUvarintAscending v = (if v \<le> 109 then 1 else 2 + highestByteIndex v)"

definition EncLenUvarintDescending :: "uint64 \<Rightarrow> nat" where
  "EncLenUvarintDescending v = (if v = 0 then 1 else 2 + highestByteIndex v)"

definition DecodeUvarintAscending :: "bytes \<Rightarrow> go_error + bytes \<times> uint64" where
  "DecodeUvarintAscending b =
     (case b of [] \<Rightarrow> Inl (Errorf ''insufficient bytes to decode uvarint value'')
      | t # b \<Rightarrow>
          let len = uint t - uint intZero
          in if len \<le> intSmall then Inr (b, word_of_int len)
             else
               let len = len - intSmall
               in if len < 0 \<or> len > 8 then Inl (Errorf ''invalid uvarint length'')
                  else if int (length b) < len then Inl (Errorf ''insufficient bytes to decode uvarint value'')
                  else Inr (drop (nat len) b, be_fold (take (nat len) b)))"

definition DecodeUvarintDescending :: "bytes \<Rightarrow> go_error + bytes \<times> uint64" where
  "DecodeUvarintDescending b =
     (case b of [] \<Rightarrow> Inl (Errorf ''insufficient bytes to decode uvarint value'')
      | t # b \<Rightarrow>
          let len = uint intZero - uint t
          in if len < 0 \<or> len > 8 then Inl (Errorf ''invalid uvarint length'')
             else if int (length b) < len then Inl (Errorf ''insufficient bytes to decode uvarint value'')
             else Inr (drop (nat len) b, be_fold (map NOT (take (nat len) b))))"

definition DecodeVarintAscending :: "bytes \<Rightarrow> go_error + bytes \<times> int64" where
  "DecodeVarintAscending b =
     (case b of [] \<Rightarrow> Inl (Errorf ''insufficient bytes to decode varint value'')
      | t # remB \<Rightarrow>
          let len = uint t - uint intZero
          in if len < 0 then
               let len = nat (- len)
               in if length remB < len then Inl (Errorf ''insufficient bytes to decode varint value'')
                  else Inr (drop len remB, NOT (be_fold (map NOT (take len remB))))
             else res_bind (DecodeUvarintAscending b) (\<lambda>(remB, v).
                    if v > 0x7fffffffffffffff then Inl (Errorf ''varint overflows int64'')
                    else Inr (remB, v)))"

definition DecodeVarintDescending :: "bytes \<Rightarrow> go_error + bytes \<times> int64" where
  "DecodeVarintDescending b = res_bind (DecodeVarintAscending b) (\<lambda>(leftover, v). Inr (leftover, NOT v))"

text \<open>The number of bytes of a number, and the encoders in terms of it.\<close>

definition byte_width :: "nat \<Rightarrow> nat" where
  "byte_width k =
     (if k \<le> 0xff then 1
      else if k \<le> 0xffff then 2
      else if k \<le> 0xffffff then 3
      else if k \<le> 0xffffffff then 4
      else if k \<le> 0xffffffffff then 5
      else if k \<le> 0xffffffffffff then 6
      else if k \<le> 0xffffffffffffff then 7
      else 8)"

lemma byte_width_bounds: "1 \<le> byte_width k \<and> byte_width k \<le> 8"
  by (simp add: byte_width_def)

lemma byte_width_less: "k < 256 ^ 8 \<Longrightarrow> k < 256 ^ byte_width k"
  by (simp add: byte_width_def)

lemma byte_width_mono: "j \<le> k \<Longrightarrow> byte_width j \<le> byte_width k"
  by (simp add: byte_width_def)

lemma Uvarint_asc_eq:
  "EncodeUvarintAscending b v = b @
     (if unat v \<le> 109 then [136 + ucast v]
      else of_nat (245 + byte_width (unat v)) # be_bytes (byte_width (unat v)) v)"
  by (simp add: EncodeUvarintAscending_def byte_width_def word_le_nat_alt)

lemma Uvarint_desc_eq:
  "EncodeUvarintDescending b v = b @
     (if unat v = 0 then [136]
      else of_nat (136 - byte_width (unat v)) # be_bytes (byte_width (unat v)) (NOT v))"
  by (simp add: EncodeUvarintDescending_def byte_width_def word_le_nat_alt unat_eq_0)

lemma Varint_neg_eq:
  assumes "sint v < 0"
  defines "m \<equiv> nat (- sint v)"
  shows "EncodeVarintAscending b v = b @ of_nat (136 - byte_width m) # be_bytes (byte_width m) v"
proof -
  have le: "\<And>k. sint v \<ge> - int k \<longleftrightarrow> m \<le> k"
    using assms(1) by (auto simp: m_def)
  from le [of "0xff"] le [of "0xffff"] le [of "0xffffff"] le [of "0xffffffff"] le [of "0xffffffffff"]
    le [of "0xffffffffffff"] le [of "0xffffffffffffff"]
  show ?thesis using assms(1) by (simp add: EncodeVarintAscending_def byte_width_def)
qed

lemma highestByteIndex_eq: "Suc (highestByteIndex v) = byte_width (unat v)"
proof -
  have shift: "unat (drop_bit n w) = unat w div 2 ^ n" for n and w :: uint64
    by (simp add: unat_drop_bit_eq) (simp add: drop_bit_eq_div)
  have div: "c < k div d \<longleftrightarrow> (c + 1) * d \<le> k" if "0 < d" for c k d :: nat
    using less_eq_div_iff_mult_less_eq [OF that, of "c + 1" k] by (simp add: Suc_le_eq)
  show ?thesis
    by (simp add: highestByteIndex_def byte_width_def word_less_nat_alt Let_def shift div div_mult2_eq [symmetric])
qed

lemma EncodedLengthUvarintAscending_eq:
  "EncodedLengthUvarintAscending v = length (EncodeUvarintAscending [] v)"
  by (simp add: EncodedLengthUvarintAscending_def EncodeUvarintAscending_def)

lemma EncLenUvarintAscending_eq: "EncLenUvarintAscending v = length (EncodeUvarintAscending [] v)"
  using highestByteIndex_eq [of v]
  by (simp add: EncLenUvarintAscending_def Uvarint_asc_eq word_le_nat_alt)

lemma EncLenUvarintDescending_eq: "EncLenUvarintDescending v = length (EncodeUvarintDescending [] v)"
  using highestByteIndex_eq [of v]
  by (simp add: EncLenUvarintDescending_def Uvarint_desc_eq unat_eq_0)

text \<open>The tag byte, as a number.\<close>

lemma uint_of_nat_byte: "n < 256 \<Longrightarrow> uint (of_nat n :: byte) = int n"
  by (simp add: uint_nat unat_of_nat_small)

lemma of_nat_byte_less: "m < n \<Longrightarrow> n < 256 \<Longrightarrow> (of_nat m :: byte) < of_nat n"
  by (simp add: word_less_nat_alt unat_of_nat_small)

lemma small_tag: "unat (v :: uint64) \<le> 109 \<Longrightarrow> 136 + ucast v = (of_nat (136 + unat v) :: byte)"
  by simp

text \<open>Decoding a tag and the bytes it announces.\<close>

lemma DecodeUvarintAscending_tag:
  assumes "1 \<le> n" "n \<le> 8" "length bs = n"
  shows "DecodeUvarintAscending (of_nat (245 + n) # bs @ rest) = Inr (rest, be_fold bs)"
  using assms uint_of_nat_byte [of "245 + n"] by (simp add: DecodeUvarintAscending_def Let_def)

lemma DecodeUvarintAscending_small:
  assumes "n \<le> 109"
  shows "DecodeUvarintAscending (of_nat (136 + n) # rest) = Inr (rest, of_nat n)"
  using assms uint_of_nat_byte [of "136 + n"] by (simp add: DecodeUvarintAscending_def Let_def)

lemma DecodeUvarintDescending_tag:
  assumes "n \<le> 8" "length bs = n"
  shows "DecodeUvarintDescending (of_nat (136 - n) # bs @ rest) = Inr (rest, be_fold (map NOT bs))"
  using assms uint_of_nat_byte [of "136 - n"] by (simp add: DecodeUvarintDescending_def Let_def)

lemma DecodeVarintAscending_tag:
  assumes "1 \<le> n" "n \<le> 8" "length bs = n"
  shows "DecodeVarintAscending (of_nat (136 - n) # bs @ rest) = Inr (rest, NOT (be_fold (map NOT bs)))"
  using assms uint_of_nat_byte [of "136 - n"] by (simp add: DecodeVarintAscending_def Let_def)

text \<open>
  Length-prefixed strings: the tag decides unless it is the same, and then the strings have
  the same length.
\<close>

lemma tagged_less:
  assumes "m \<le> n" "n < 256" "m = n \<Longrightarrow> length xs = length ys \<and> xs < ys"
  shows "(of_nat m # xs) @ r < (of_nat n # (ys :: bytes)) @ s"
  using assms append_less_append [of xs ys r s] of_nat_byte_less [of m n]
  by (cases "m = n") auto

interpretation uvarint_asc: ordered_codec "EncodeUvarintAscending []" DecodeUvarintAscending "\<lambda>_. True" "(<)"
proof
  fix x y :: uint64 and r s rest
  let ?n = "\<lambda>v. byte_width (unat v)"
  show "DecodeUvarintAscending (EncodeUvarintAscending [] x @ rest) = Inr (rest, x)"
  proof (cases "unat x \<le> 109")
    case True
    have "EncodeUvarintAscending [] x = [of_nat (136 + unat x)]"
      using True by (simp only: Uvarint_asc_eq small_tag if_True append_Nil)
    then show ?thesis using DecodeUvarintAscending_small [OF True, of rest] by simp
  next
    case False
    have "be_fold (be_bytes (?n x) x) = x"
      by (rule be_fold_be_bytes) (rule byte_width_less [OF unat64_less])
    then show ?thesis
      using False byte_width_bounds [of "unat x"] DecodeUvarintAscending_tag [of "?n x" "be_bytes (?n x) x" rest]
      by (simp add: Uvarint_asc_eq)
  qed
  show "EncodeUvarintAscending [] x @ r < EncodeUvarintAscending [] y @ s" if "x < y"
  proof -
    have le: "unat x < unat y" using that by (simp add: word_less_nat_alt)
    note w = byte_width_bounds [of "unat y"] byte_width_mono [OF less_imp_le [OF le]]
    consider "unat y \<le> 109" | "unat x \<le> 109" "109 < unat y" | "109 < unat x" using le by linarith
    then show ?thesis
    proof cases
      case 1
      with le show ?thesis
        using tagged_less [of "136 + unat x" "136 + unat y" "[]" "[]" r s] by (simp add: Uvarint_asc_eq)
    next
      case 2
      with w show ?thesis
        using tagged_less [of "136 + unat x" "245 + ?n y" "[]" "be_bytes (?n y) y" r s]
        by (simp add: Uvarint_asc_eq)
    next
      case 3
      have "be_bytes (?n y) x < be_bytes (?n y) y" if "?n x = ?n y"
        using that \<open>x < y\<close> byte_width_less [OF unat64_less, of x] byte_width_less [OF unat64_less, of y]
        by (simp add: be_bytes_less_iff)
      with 3 le w show ?thesis
        using tagged_less [of "245 + ?n x" "245 + ?n y" "be_bytes (?n x) x" "be_bytes (?n y) y" r s]
        by (simp add: Uvarint_asc_eq)
    qed
  qed
qed auto

interpretation uvarint_desc: ordered_codec "EncodeUvarintDescending []" DecodeUvarintDescending "\<lambda>_. True" "(>)"
proof
  fix x y :: uint64 and r s rest
  let ?n = "\<lambda>v. byte_width (unat v)"
  have not: "be_bytes (?n v) (NOT v) = map NOT (be_bytes (?n v) v)" for v :: uint64
    using byte_width_bounds [of "unat v"] by (intro be_bytes_not) simp
  have fold: "be_fold (be_bytes (?n v) v) = v" for v :: uint64
    by (rule be_fold_be_bytes) (rule byte_width_less [OF unat64_less])
  show "DecodeUvarintDescending (EncodeUvarintDescending [] x @ rest) = Inr (rest, x)"
  proof (cases "unat x = 0")
    case True
    then show ?thesis
      using DecodeUvarintDescending_tag [of 0 "[]" rest] by (simp add: Uvarint_desc_eq be_fold_def unat_eq_0)
  next
    case False
    then show ?thesis
      using byte_width_bounds [of "unat x"] fold [of x]
        DecodeUvarintDescending_tag [of "?n x" "map NOT (be_bytes (?n x) x)" rest]
      by (simp only: Uvarint_desc_eq not if_False append_Nil append_Cons length_map length_be_bytes map_not_not)
  qed
  show "EncodeUvarintDescending [] x @ r < EncodeUvarintDescending [] y @ s" if "y < x"
  proof -
    have le: "unat y < unat x" using that by (simp add: word_less_nat_alt)
    note w = byte_width_bounds [of "unat x"] byte_width_bounds [of "unat y"] byte_width_mono [OF less_imp_le [OF le]]
    show ?thesis
    proof (cases "unat y = 0")
      case True
      with le w show ?thesis
        using tagged_less [of "136 - ?n x" 136 "be_bytes (?n x) (NOT x)" "[]" r s]
        by (simp add: Uvarint_desc_eq)
    next
      case False
      have "be_bytes (?n y) (NOT x) < be_bytes (?n y) (NOT y)" if "?n x = ?n y"
        using that \<open>y < x\<close> byte_width_less [OF unat64_less, of x] byte_width_less [OF unat64_less, of y]
          not [of x] not [of y] by (simp add: map_not_less_iff be_bytes_less_iff)
      moreover have "136 - ?n x = 136 - ?n y \<longleftrightarrow> ?n x = ?n y" using w by linarith
      ultimately have "(of_nat (136 - ?n x) # be_bytes (?n x) (NOT x)) @ r
          < (of_nat (136 - ?n y) # be_bytes (?n y) (NOT y)) @ s"
        using w by (intro tagged_less) auto
      with False le show ?thesis by (simp add: Uvarint_desc_eq)
    qed
  qed
qed auto

text \<open>
  A negative value \<open>v\<close> of \<open>n\<close> bytes is stored as its lowest \<open>n\<close> bytes; their ones
  complement are the bytes of the complement of \<open>v\<close>, a small number.
\<close>

lemma neg_width:
  fixes v :: int64
  assumes "sint v < 0"
  defines "n \<equiv> byte_width (nat (- sint v))"
  shows "1 \<le> n" "n \<le> 8" "unat (NOT v) < 256 ^ n" "be_bytes n (NOT v) = map NOT (be_bytes n v)"
proof -
  show n: "1 \<le> n" "n \<le> 8" unfolding n_def using byte_width_bounds by simp_all
  have "unat v = nat (sint v + 2 ^ 64)"
    using uint_of_neg [OF assms(1)] by (simp add: unat_eq_nat_uint)
  then have "unat (NOT v) = nat (- sint v) - 1"
    unfolding unat_not using assms(1) sint64_range [of v] by simp
  moreover have "nat (- sint v) < 256 ^ n"
    unfolding n_def using sint64_range [of v] by (intro byte_width_less) auto
  ultimately show "unat (NOT v) < 256 ^ n" by linarith
  show "be_bytes n (NOT v) = map NOT (be_bytes n v)"
    using n by (intro be_bytes_not) simp
qed

lemma word_less_neg_iff: "sint x < 0 \<Longrightarrow> sint y < 0 \<Longrightarrow> x < y \<longleftrightarrow> sint x < sint (y :: int64)"
  using uint_of_neg [of x] uint_of_neg [of y] by (simp add: word_less_def)

lemma word_less_nonneg_iff: "0 \<le> sint x \<Longrightarrow> 0 \<le> sint y \<Longrightarrow> x < y \<longleftrightarrow> sint x < sint (y :: int64)"
  using uint_of_nonneg [of x] uint_of_nonneg [of y] by (simp add: word_less_def)

lemma Uvarint_asc_tag: "\<exists>m bs. EncodeUvarintAscending [] v = of_nat m # bs \<and> 136 \<le> m \<and> m < 256"
proof (cases "unat v \<le> 109")
  case True
  then have "EncodeUvarintAscending [] v = of_nat (136 + unat v) # []"
    by (simp only: Uvarint_asc_eq small_tag if_True append_Nil)
  with True show ?thesis by (intro exI [of _ "136 + unat v"]) auto
next
  case False
  with byte_width_bounds [of "unat v"] show ?thesis
    by (intro exI [of _ "245 + byte_width (unat v)"]) (simp add: Uvarint_asc_eq)
qed

lemma Varint_neg_less:
  assumes "sint x < sint y" "sint y < 0"
  shows "EncodeVarintAscending [] x @ r < EncodeVarintAscending [] y @ s"
proof -
  let ?n = "\<lambda>v :: int64. byte_width (nat (- sint v))"
  have neg: "sint x < 0" using assms by simp
  have w: "?n y \<le> ?n x" "?n x \<le> 8" "?n y \<le> 8"
    using assms neg_width(2) [OF neg] neg_width(2) [OF assms(2)] by (auto intro!: byte_width_mono)
  have "be_bytes (?n x) x < be_bytes (?n y) y" if eq: "?n x = ?n y"
  proof -
    have "NOT y < NOT x" using assms neg by (simp add: word_not_less_iff word_less_neg_iff)
    then have "be_bytes (?n y) (NOT y) < be_bytes (?n x) (NOT x)"
      using neg_width(3) [OF neg] neg_width(3) [OF assms(2)] by (simp add: eq be_bytes_less_iff)
    then show ?thesis
      unfolding neg_width(4) [OF neg] neg_width(4) [OF assms(2)] by (simp add: map_not_less_iff eq)
  qed
  moreover have "136 - ?n x = 136 - ?n y \<longleftrightarrow> ?n x = ?n y" using w by linarith
  ultimately have "(of_nat (136 - ?n x) # be_bytes (?n x) x) @ r < (of_nat (136 - ?n y) # be_bytes (?n y) y) @ s"
    using w by (intro tagged_less) auto
  then show ?thesis using neg assms(2) by (simp only: Varint_neg_eq append_Nil)
qed

interpretation varint_asc: ordered_codec "EncodeVarintAscending []" DecodeVarintAscending
  "\<lambda>_. True" "\<lambda>v w. sint v < sint w"
proof
  fix x y :: int64 and r s rest
  let ?n = "byte_width (nat (- sint x))"
  show "DecodeVarintAscending (EncodeVarintAscending [] x @ rest) = Inr (rest, x)"
  proof (cases "sint x < 0")
    case True
    have "be_fold (map NOT (be_bytes ?n x)) = NOT x"
      using be_fold_be_bytes [OF neg_width(3) [OF True]] by (simp add: neg_width(4) [OF True])
    then show ?thesis
      using DecodeVarintAscending_tag [OF neg_width(1,2) [OF True] length_be_bytes, of x rest]
      by (simp only: Varint_neg_eq [OF True] append_Nil append_Cons bit.double_compl)
  next
    case False
    have "x \<le> 0x7fffffffffffffff"
      using False uint_of_nonneg [of x] sint64_range [of x] by (simp add: word_le_def)
    moreover obtain m bs where "EncodeUvarintAscending [] x = of_nat m # bs" "136 \<le> m" "m < 256"
      using Uvarint_asc_tag by blast
    ultimately show ?thesis
      using False uvarint_asc.dec_enc [of x rest] uint_of_nat_byte [of m]
      by (simp add: EncodeVarintAscending_def DecodeVarintAscending_def Let_def)
  qed
  show "EncodeVarintAscending [] x @ r < EncodeVarintAscending [] y @ s" if less: "sint x < sint y"
  proof (cases "sint x < 0")
    case neg: True
    show ?thesis
    proof (cases "sint y < 0")
      case True
      with less show ?thesis by (rule Varint_neg_less)
    next
      case False
      obtain m bs where "EncodeUvarintAscending [] y = of_nat m # bs" "136 \<le> m" "m < 256"
        using Uvarint_asc_tag by blast
      moreover have "EncodeVarintAscending [] y = EncodeUvarintAscending [] y"
        using False by (simp add: EncodeVarintAscending_def)
      ultimately show ?thesis
        using neg_width(1,2) [OF neg] unfolding Varint_neg_eq [OF neg] append_Nil
        by (simp only:) (intro tagged_less, auto)
    qed
  next
    case False
    with less show ?thesis
      using uvarint_asc.enc_less [of x y r s] by (simp add: EncodeVarintAscending_def word_less_nonneg_iff)
  qed
qed (auto simp: neq_iff sint_eq_iff [symmetric])

interpretation varint_desc: ordered_codec "EncodeVarintDescending []" DecodeVarintDescending
  "\<lambda>_. True" "\<lambda>v w. sint v > sint w"
proof
  fix x y :: int64 and r s rest
  show "DecodeVarintDescending (EncodeVarintDescending [] x @ rest) = Inr (rest, x)"
    by (simp add: DecodeVarintDescending_def EncodeVarintDescending_def varint_asc.dec_enc)
  have "sint (NOT v) = - 1 - sint v" for v :: int64
  proof -
    have "NOT v = - 1 - v" by (simp add: not_eq_complement)
    then show ?thesis using sint64_diff [of "- 1" v] sint64_range [of v] by simp
  qed
  then show "sint y < sint x \<Longrightarrow> EncodeVarintDescending [] x @ r < EncodeVarintDescending [] y @ s"
    by (simp add: EncodeVarintDescending_def varint_asc.enc_less)
qed (auto simp: neq_iff sint_eq_iff [symmetric])

section \<open>The encoders append to their buffer\<close>

lemma encode_append [codec_simps]:
  "EncodeUint32Ascending b v32 = b @ EncodeUint32Ascending [] v32"
  "EncodeUint32Descending b v32 = b @ EncodeUint32Descending [] v32"
  "EncodeUint64Ascending b v = b @ EncodeUint64Ascending [] v"
  "EncodeUint64Descending b v = b @ EncodeUint64Descending [] v"
  by (simp_all add: EncodeUint32Ascending_def EncodeUint32Descending_def EncodeUint64Ascending_def
      EncodeUint64Descending_def)

lemma encode_varint_append [codec_simps]:
  "EncodeUvarintAscending b v = b @ EncodeUvarintAscending [] v"
  "EncodeUvarintDescending b v = b @ EncodeUvarintDescending [] v"
  "EncodeVarintAscending b v = b @ EncodeVarintAscending [] v"
  "EncodeVarintDescending b v = b @ EncodeVarintDescending [] v"
proof -
  show u: "EncodeUvarintAscending b v = b @ EncodeUvarintAscending [] v" for v
    by (simp only: Uvarint_asc_eq append_Nil)
  show "EncodeUvarintDescending b v = b @ EncodeUvarintDescending [] v"
    by (simp only: Uvarint_desc_eq append_Nil)
  show s: "EncodeVarintAscending b v = b @ EncodeVarintAscending [] v" for v
  proof (cases "sint v < 0")
    case False
    then have "EncodeVarintAscending c v = EncodeUvarintAscending c v" for c
      by (simp add: EncodeVarintAscending_def)
    then show ?thesis by (simp only: u)
  qed (simp only: Varint_neg_eq append_Nil)
  show "EncodeVarintDescending b v = b @ EncodeVarintDescending [] v"
    unfolding EncodeVarintDescending_def by (rule s)
qed

text \<open>
  The fixed-width codecs: what \<open>EncodeUint32Ascending\<close>, \<open>EncodeUint32Descending\<close>,
  \<open>EncodeUint64Ascending\<close> and \<open>EncodeUint64Descending\<close> append is read back whatever follows it, and
  the byte order of two keys that start with an encoded integer is the (reverse) order of the
  integers, then the order of what follows.
\<close>

theorem uint_codecs:
  fixes v w :: uint32 and p q :: uint64
  shows "DecodeUint32Ascending (EncodeUint32Ascending [] v @ rest) = Inr (rest, v) \<and>
    DecodeUint32Descending (EncodeUint32Descending [] v @ rest) = Inr (rest, v) \<and>
    DecodeUint64Ascending (EncodeUint64Ascending [] p @ rest) = Inr (rest, p) \<and>
    DecodeUint64Descending (EncodeUint64Descending [] p @ rest) = Inr (rest, p) \<and>
    (EncodeUint32Ascending b v @ r < EncodeUint32Ascending b w @ s \<longleftrightarrow> v < w \<or> v = w \<and> r < s) \<and>
    (EncodeUint32Descending b v @ r < EncodeUint32Descending b w @ s \<longleftrightarrow> v > w \<or> v = w \<and> r < s) \<and>
    (EncodeUint64Ascending b p @ r < EncodeUint64Ascending b q @ s \<longleftrightarrow> p < q \<or> p = q \<and> r < s) \<and>
    (EncodeUint64Descending b p @ r < EncodeUint64Descending b q @ s \<longleftrightarrow> p > q \<or> p = q \<and> r < s)"
  by (simp only: encode_append [of b] append_assoc append_left_less_iff simp_thms
      uint32_asc.dec_enc uint32_desc.dec_enc uint64_asc.dec_enc uint64_desc.dec_enc
      uint32_asc.enc_less_iff uint32_desc.enc_less_iff uint64_asc.enc_less_iff uint64_desc.enc_less_iff)

text \<open>
  C20. The variable-width codecs of signed integers: a value is read back whatever follows it, and
  the byte order of two keys is the signed order of the values (reversed for the descending
  encoding), then the order of what follows.
\<close>

theorem varint_codecs:
  "DecodeVarintAscending (EncodeVarintAscending [] v @ rest) = Inr (rest, v) \<and>
   DecodeVarintDescending (EncodeVarintDescending [] v @ rest) = Inr (rest, v) \<and>
   (EncodeVarintAscending b v @ r < EncodeVarintAscending b w @ s \<longleftrightarrow>
      sint v < sint w \<or> v = w \<and> r < s) \<and>
   (EncodeVarintDescending b v @ r < EncodeVarintDescending b w @ s \<longleftrightarrow>
      sint v > sint w \<or> v = w \<and> r < s)"
  by (simp only: encode_varint_append [of b] append_assoc append_left_less_iff varint_asc.dec_enc
      varint_desc.dec_enc varint_asc.enc_less_iff varint_desc.enc_less_iff simp_thms)

text \<open>
  The variable-width codecs of unsigned integers: round trip, order, and the three functions
  that compute the encoded length without encoding agree with the encoders; no encoding is
  longer than \<open>MaxVarintLen\<close>, nine bytes.
\<close>

theorem uvarint_codecs:
  "DecodeUvarintAscending (EncodeUvarintAscending [] v @ rest) = Inr (rest, v) \<and>
   DecodeUvarintDescending (EncodeUvarintDescending [] v @ rest) = Inr (rest, v) \<and>
   (EncodeUvarintAscending b v @ r < EncodeUvarintAscending b w @ s \<longleftrightarrow> v < w \<or> v = w \<and> r < s) \<and>
   (EncodeUvarintDescending b v @ r < EncodeUvarintDescending b w @ s \<longleftrightarrow> v > w \<or> v = w \<and> r < s) \<and>
   EncodedLengthUvarintAscending v = length (EncodeUvarintAscending [] v) \<and>
   EncLenUvarintAscending v = length (EncodeUvarintAscending [] v) \<and>
   EncLenUvarintDescending v = length (EncodeUvarintDescending [] v) \<and>
   length (EncodeUvarintAscending [] v) \<le> 9 \<and> length (EncodeUvarintDescending [] v) \<le> 9"
proof -
  have "length (EncodeUvarintAscending [] v) \<le> 9" "length (EncodeUvarintDescending [] v) \<le> 9"
    using byte_width_bounds [of "unat v"] by (simp_all add: Uvarint_asc_eq Uvarint_desc_eq)
  then show ?thesis
    by (simp only: encode_varint_append [of b] append_assoc append_left_less_iff uvarint_asc.dec_enc
        uvarint_desc.dec_enc uvarint_asc.enc_less_iff uvarint_desc.enc_less_iff simp_thms
        EncodedLengthUvarintAscending_eq EncLenUvarintAscending_eq EncLenUvarintDescending_eq)
qed

text \<open>
  \<open>DecodeUvarintAscending\<close> does not reject a tag below the smallest tag of an unsigned
  integer: on every such byte, among them the tags of negative integers, strings and times, it
  succeeds and returns a value above the largest signed integer. The test for a
  negative length comes after the branch that returns.
\<close>

theorem DecodeUvarintAscending_low_tag:
  assumes "t < intZero"
  shows "\<exists>v. DecodeUvarintAscending (t # rest) = Inr (rest, v) \<and> v > 0x7fffffffffffffff"
proof -
  have neg: "- 136 \<le> uint t - 136" "uint t - 136 < 0" using assms by (simp_all add: word_less_def)
  then have "uint (word_of_int (uint t - 136) :: uint64) = uint t - 136 + 18446744073709551616"
    using mod_add_self2 [of "uint t - 136" "2 ^ 64 :: int"]
    by (subst uint_word_of_int) (simp add: mod_pos_pos_trivial)
  then have "9223372036854775807 < uint (word_of_int (uint t - 136) :: uint64)"
    using neg(1) by linarith
  with neg show ?thesis
    by (simp add: DecodeUvarintAscending_def Let_def word_less_def del: of_int_uint of_int_diff)
qed

theorem DecodeUvarintAscending_low_tag_witness:
  "\<exists>v. DecodeUvarintAscending [0x12, 0x61] = Inr ([0x61], v) \<and> v > 0x7fffffffffffffff"
  by (rule DecodeUvarintAscending_low_tag) simp

end
