(* ===== verification/Encoding_Bytes.thy ===== *)
theory Encoding_Bytes
  imports Encoding_Ints
begin

text \<open>
  \<open>pkg/util/encoding/encoding.go\<close>, the byte strings: the escape-based encoding of byte slices and
  strings, ascending and descending, its decoder and the function that finds the length of an
  encoded string; and \<open>complement_fast.go\<close>. A Go string is the list of its bytes, as
  \<open>UnsafeConvertStringToBytes\<close> and \<open>unsafeString\<close> treat it. The aliasing that the parameter
  \<open>deepCopy\<close> controls does not show in the values, and is not modelled.
\<close>

section \<open>Definitions\<close>

abbreviation (input) escape :: byte where "escape \<equiv> 0x00"
abbreviation (input) escapedTerm :: byte where "escapedTerm \<equiv> 0x01"
abbreviation (input) escapedJSONObjectKeyTerm :: byte where "escapedJSONObjectKeyTerm \<equiv> 0x02"
abbreviation (input) escapedJSONArray :: byte where "escapedJSONArray \<equiv> 0x03"
abbreviation (input) escaped00 :: byte where "escaped00 \<equiv> 0xff"
abbreviation (input) escapedFF :: byte where "escapedFF \<equiv> 0x00"

abbreviation (input) bytesMarker :: byte where "bytesMarker \<equiv> 0x12"
abbreviation (input) bytesDescMarker :: byte where "bytesDescMarker \<equiv> 0x13"
abbreviation (input) jsonEmptyArray :: byte where "jsonEmptyArray \<equiv> 56"
abbreviation (input) jsonEmptyObject :: byte where "jsonEmptyObject \<equiv> 57"
abbreviation (input) emptyArray :: byte where "emptyArray \<equiv> 67"
abbreviation (input) geoMarker :: byte where "geoMarker \<equiv> 61"
abbreviation (input) geoDescMarker :: byte where "geoDescMarker \<equiv> 62"

record escapes =
  e_escape :: byte
  e_escapedTerm :: byte
  e_escaped00 :: byte
  e_escapedFF :: byte
  e_marker :: byte

definition ascendingBytesEscapes :: escapes where
  "ascendingBytesEscapes = \<lparr>e_escape = escape, e_escapedTerm = escapedTerm, e_escaped00 = escaped00,
     e_escapedFF = escapedFF, e_marker = bytesMarker\<rparr>"

definition descendingBytesEscapes :: escapes where
  "descendingBytesEscapes = \<lparr>e_escape = NOT escape, e_escapedTerm = NOT escapedTerm,
     e_escaped00 = NOT escaped00, e_escapedFF = NOT escapedFF, e_marker = bytesDescMarker\<rparr>"

definition ascendingGeoEscapes :: escapes where
  "ascendingGeoEscapes = ascendingBytesEscapes\<lparr>e_marker := geoMarker\<rparr>"

definition descendingGeoEscapes :: escapes where
  "descendingGeoEscapes = descendingBytesEscapes\<lparr>e_marker := geoDescMarker\<rparr>"

text \<open>
  \<open>onesComplement\<close> of \<open>complement_fast.go\<close>: the slice is complemented machine word by machine
  word (eight bytes, the lowest address lowest), then the remaining bytes one by one.
\<close>

fun complement_words :: "nat \<Rightarrow> bytes \<Rightarrow> bytes" where
  "complement_words 0 b = b"
| "complement_words (Suc w) b =
     rev (be_bytes 8 (NOT (be_fold (rev (take 8 b)) :: uint64))) @ complement_words w (drop 8 b)"

definition onesComplement :: "bytes \<Rightarrow> bytes" where
  "onesComplement b =
     (let n = length b; w = n div 8; b = (if w > 0 then complement_words w b else b)
      in take (w * 8) b @ map NOT (drop (w * 8) b))"

function encodeBytesAscendingWithoutTerminatorOrPrefix :: "bytes \<Rightarrow> bytes \<Rightarrow> bytes" where
  "encodeBytesAscendingWithoutTerminatorOrPrefix b data =
     (case index_byte data escape of
        None \<Rightarrow> b @ data
      | Some i \<Rightarrow> encodeBytesAscendingWithoutTerminatorOrPrefix (b @ take i data @ [escape, escaped00])
                    (drop (i + 1) data))"
  by pat_completeness auto
termination
  by (relation "measure (\<lambda>(b, data). length data)") (auto dest: index_byte_Some)

declare encodeBytesAscendingWithoutTerminatorOrPrefix.simps [simp del]

definition encodeBytesAscendingWithTerminator :: "bytes \<Rightarrow> bytes \<Rightarrow> byte \<Rightarrow> bytes" where
  "encodeBytesAscendingWithTerminator b data terminator =
     encodeBytesAscendingWithoutTerminatorOrPrefix b data @ [escape, terminator]"

definition encodeBytesAscendingWithTerminatorAndPrefix :: "bytes \<Rightarrow> bytes \<Rightarrow> byte \<Rightarrow> byte \<Rightarrow> bytes" where
  "encodeBytesAscendingWithTerminatorAndPrefix b data terminator prefix =
     encodeBytesAscendingWithTerminator (b @ [prefix]) data terminator"

definition EncodeBytesAscending :: "bytes \<Rightarrow> bytes \<Rightarrow> bytes" where
  "EncodeBytesAscending b data =
     encodeBytesAscendingWithTerminatorAndPrefix b data (e_escapedTerm ascendingBytesEscapes) bytesMarker"

definition EncodeBytesDescending :: "bytes \<Rightarrow> bytes \<Rightarrow> bytes" where
  "EncodeBytesDescending b data =
     (let n = length b; b = (EncodeBytesAscending b data)[n := bytesDescMarker]
      in take (n + 1) b @ onesComplement (drop (n + 1) b))"

function decodeBytes_loop :: "escapes \<Rightarrow> bytes \<Rightarrow> bytes \<Rightarrow> go_error + bytes \<times> bytes" where
  "decodeBytes_loop e b r =
     (case index_byte b (e_escape e) of
        None \<Rightarrow> Inl (Errorf ''did not find terminator'')
      | Some i \<Rightarrow>
          if i + 1 \<ge> length b then Inl (Errorf ''malformed escape'')
          else
            let v = b ! (i + 1)
            in if v = e_escapedTerm e then Inr (drop (i + 2) b, r @ take i b)
               else if v \<noteq> e_escaped00 e then Inl (Errorf ''unknown escape sequence'')
               else decodeBytes_loop e (drop (i + 2) b) (r @ take i b @ [e_escapedFF e]))"
  by pat_completeness auto
termination
  by (relation "measure (\<lambda>(e, b, r). length b)") auto

declare decodeBytes_loop.simps [simp del]

definition decodeBytesInternal :: "bytes \<Rightarrow> bytes \<Rightarrow> escapes \<Rightarrow> bool \<Rightarrow> go_error + bytes \<times> bytes" where
  "decodeBytesInternal b r e expectMarker =
     (if expectMarker then
        if b = [] \<or> hd b \<noteq> e_marker e then Inl (Errorf ''did not find marker'')
        else decodeBytes_loop e (tl b) r
      else decodeBytes_loop e b r)"

definition DecodeBytesAscending :: "bytes \<Rightarrow> bytes \<Rightarrow> go_error + bytes \<times> bytes" where
  "DecodeBytesAscending b r = decodeBytesInternal b r ascendingBytesEscapes True"

definition DecodeBytesAscendingDeepCopy :: "bytes \<Rightarrow> bytes \<Rightarrow> go_error + bytes \<times> bytes" where
  "DecodeBytesAscendingDeepCopy b r = decodeBytesInternal b r ascendingBytesEscapes True"

definition DecodeBytesDescending :: "bytes \<Rightarrow> bytes \<Rightarrow> go_error + bytes \<times> bytes" where
  "DecodeBytesDescending b r =
     res_bind (decodeBytesInternal b r descendingBytesEscapes True) (\<lambda>(b, r). Inr (b, onesComplement r))"

text \<open>
  \<open>getBytesLength\<close>, with the panics of its slice and index expressions.
\<close>

function getBytesLength_loop :: "bytes \<Rightarrow> escapes \<Rightarrow> nat \<Rightarrow> go_error + nat" where
  "getBytesLength_loop b e skipped =
     (if length b < skipped then Inl (GoPanic ''slice bounds out of range'')
      else case index_byte (drop skipped b) (e_escape e) of
        None \<Rightarrow> Inl (Errorf ''did not find terminator'')
      | Some i \<Rightarrow>
          if i + 1 \<ge> length b then Inl (Errorf ''malformed escape'')
          else
            let skipped = skipped + (i + 2)
            in if skipped - 1 \<ge> length b then Inl index_out_of_range
               else if b ! (skipped - 1) = e_escapedTerm e then Inr skipped
               else getBytesLength_loop b e skipped)"
  by pat_completeness auto
termination
  by (relation "measure (\<lambda>(b, e, skipped). length b - skipped)") auto

declare getBytesLength_loop.simps [simp del]

definition getBytesLength :: "bytes \<Rightarrow> escapes \<Rightarrow> go_error + nat" where
  "getBytesLength b e = getBytesLength_loop b e 1"

type_synonym go_string = bytes

definition encodeStringAscendingWithTerminatorAndPrefix :: "bytes \<Rightarrow> go_string \<Rightarrow> byte \<Rightarrow> byte \<Rightarrow> bytes" where
  "encodeStringAscendingWithTerminatorAndPrefix b s terminator prefix =
     encodeBytesAscendingWithTerminatorAndPrefix b s terminator prefix"

definition EncodeStringAscending :: "bytes \<Rightarrow> go_string \<Rightarrow> bytes" where
  "EncodeStringAscending b s =
     encodeStringAscendingWithTerminatorAndPrefix b s (e_escapedTerm ascendingBytesEscapes) bytesMarker"

definition EncodeStringDescending :: "bytes \<Rightarrow> go_string \<Rightarrow> bytes" where
  "EncodeStringDescending b s = (if length s = 0 then EncodeBytesDescending b [] else EncodeBytesDescending b s)"

definition DecodeUnsafeStringAscending :: "bytes \<Rightarrow> bytes \<Rightarrow> go_error + bytes \<times> go_string" where
  "DecodeUnsafeStringAscending b r = DecodeBytesAscending b r"

definition DecodeUnsafeStringAscendingDeepCopy :: "bytes \<Rightarrow> bytes \<Rightarrow> go_error + bytes \<times> go_string" where
  "DecodeUnsafeStringAscendingDeepCopy b r = DecodeBytesAscendingDeepCopy b r"

definition DecodeUnsafeStringDescending :: "bytes \<Rightarrow> bytes \<Rightarrow> go_error + bytes \<times> go_string" where
  "DecodeUnsafeStringDescending b r = DecodeBytesDescending b r"

definition EncodeJSONKeyStringAscending :: "bytes \<Rightarrow> go_string \<Rightarrow> bool \<Rightarrow> bytes" where
  "EncodeJSONKeyStringAscending b s isEnd =
     (if isEnd then encodeBytesAscendingWithoutTerminatorOrPrefix b s
      else encodeBytesAscendingWithTerminator b s escapedJSONObjectKeyTerm)"

definition EncodeJSONEmptyArray :: "bytes \<Rightarrow> bytes" where
  "EncodeJSONEmptyArray b = b @ [escape, escapedTerm, jsonEmptyArray]"

definition AddJSONPathTerminator :: "bytes \<Rightarrow> bytes" where
  "AddJSONPathTerminator b = b @ [escape, escapedTerm]"

definition EncodeJSONEmptyObject :: "bytes \<Rightarrow> bytes" where
  "EncodeJSONEmptyObject b = b @ [escape, escapedTerm, jsonEmptyObject]"

definition EncodeEmptyArray :: "bytes \<Rightarrow> bytes" where
  "EncodeEmptyArray b = b @ [emptyArray]"

definition EncodeJSONObjectSpanStartAscending :: "bytes \<Rightarrow> bytes" where
  "EncodeJSONObjectSpanStartAscending b = b @ [escape, escaped00]"

definition EncodeArrayAscending :: "bytes \<Rightarrow> bytes" where
  "EncodeArrayAscending b = b @ [escape, escapedJSONArray]"

lemma asc_escapes [simp]:
  "e_escape ascendingBytesEscapes = escape" "e_escapedTerm ascendingBytesEscapes = escapedTerm"
  "e_escaped00 ascendingBytesEscapes = escaped00" "e_escapedFF ascendingBytesEscapes = escapedFF"
  "e_marker ascendingBytesEscapes = bytesMarker"
  by (simp_all add: ascendingBytesEscapes_def)

lemma desc_escapes:
  "e_escape descendingBytesEscapes = NOT escape" "e_escapedTerm descendingBytesEscapes = NOT escapedTerm"
  "e_escaped00 descendingBytesEscapes = NOT escaped00" "e_escapedFF descendingBytesEscapes = NOT escapedFF"
  "e_marker descendingBytesEscapes = bytesDescMarker"
  by (simp_all only: descendingBytesEscapes_def escapes.simps)

section \<open>Ones complement\<close>

lemma be_bytes_be_fold:
  assumes "length bs = n" "8 * n \<le> LENGTH('a::len)"
  shows "be_bytes n (be_fold bs :: 'a word) = bs"
proof (rule be_nat_inj)
  have "(256 :: nat) ^ n = 2 ^ (8 * n)" by (simp add: power_mult)
  also have "\<dots> \<le> 2 ^ LENGTH('a)" using assms(2) by (intro power_increasing) auto
  finally have "be_nat bs < 2 ^ LENGTH('a)" using be_nat_less [of bs] assms(1) by simp
  then show "be_nat (be_bytes n (be_fold bs :: 'a word)) = be_nat bs"
    using be_nat_less [of bs] assms(1) by (simp add: be_nat_be_bytes be_fold_be_nat unat_of_nat_small)
qed (simp add: assms)

lemma complement_words_eq:
  "8 * w \<le> length b \<Longrightarrow> complement_words w b = map NOT (take (8 * w) b) @ drop (8 * w) b"
proof (induction w b rule: complement_words.induct)
  case (2 w b)
  have "be_bytes 8 (NOT (be_fold (rev (take 8 b)) :: uint64)) = map NOT (rev (take 8 b))"
    using "2.prems" by (simp only: be_bytes_not [where 'a = 64, simplified] be_bytes_be_fold [where 'a = 64])
      (subst be_bytes_be_fold, auto)
  then have "rev (be_bytes 8 (NOT (be_fold (rev (take 8 b)) :: uint64))) = map NOT (take 8 b)"
    by (simp add: rev_map [symmetric])
  moreover have "take (8 * Suc w) b = take 8 b @ take (8 * w) (drop 8 b)"
    using take_add [of 8 "8 * w" b] by simp
  moreover have "drop (8 * Suc w) b = drop (8 * w) (drop 8 b)"
    by (simp add: add.commute)
  ultimately show ?case using "2.IH" "2.prems" by simp
qed simp

text \<open>The word-wise complement is the complement of every byte.\<close>

lemma onesComplement_eq [simp]: "onesComplement b = map NOT b"
proof -
  have "8 * (length b div 8) \<le> length b" by simp
  then show ?thesis
    by (simp add: onesComplement_def Let_def complement_words_eq mult.commute [of _ 8]
        take_map [symmetric] drop_map [symmetric])
qed

section \<open>The escaping\<close>

text \<open>The reference definition: every zero byte is followed by \<open>0xff\<close>.\<close>

definition escape_bytes :: "bytes \<Rightarrow> bytes" where
  "escape_bytes data = concat (map (\<lambda>c. if c = escape then [escape, escaped00] else [c]) data)"

lemma escape_bytes_simps [simp]:
  "escape_bytes [] = []"
  "escape_bytes (c # data) = (if c = escape then [escape, escaped00] else [c]) @ escape_bytes data"
  by (simp_all add: escape_bytes_def)

lemma escape_bytes_append [simp]: "escape_bytes (xs @ ys) = escape_bytes xs @ escape_bytes ys"
  by (simp add: escape_bytes_def)

lemma escape_bytes_id: "escape \<notin> set data \<Longrightarrow> escape_bytes data = data"
  by (induction data) auto

lemma encode_loop_eq: "encodeBytesAscendingWithoutTerminatorOrPrefix b data = b @ escape_bytes data"
proof (induction b data rule: encodeBytesAscendingWithoutTerminatorOrPrefix.induct)
  case (1 b data)
  show ?case
  proof (cases "index_byte data escape")
    case None
    moreover from None have "escape_bytes data = data" by (simp add: index_byte_None escape_bytes_id)
    ultimately show ?thesis
      by (simp add: encodeBytesAscendingWithoutTerminatorOrPrefix.simps [of b data])
  next
    case (Some i)
    with index_byte_Some [OF Some] have split: "data = take i data @ escape # drop (i + 1) data"
      by (metis Suc_eq_plus1 id_take_nth_drop)
    have "escape_bytes data = take i data @ [escape, escaped00] @ escape_bytes (drop (i + 1) data)"
      using index_byte_Some [OF Some] by (subst split) (simp add: escape_bytes_id)
    with 1 [OF Some] show ?thesis
      by (simp add: encodeBytesAscendingWithoutTerminatorOrPrefix.simps [of b data] Some)
  qed
qed

lemma EncodeBytesAscending_eq:
  "EncodeBytesAscending b data = b @ bytesMarker # escape_bytes data @ [escape, escapedTerm]"
  by (simp add: EncodeBytesAscending_def encodeBytesAscendingWithTerminatorAndPrefix_def
      encodeBytesAscendingWithTerminator_def encode_loop_eq ascendingBytesEscapes_def)

lemma EncodeBytesDescending_eq:
  "EncodeBytesDescending b data = b @ bytesDescMarker # map NOT (escape_bytes data @ [escape, escapedTerm])"
  by (simp add: EncodeBytesDescending_def EncodeBytesAscending_eq Let_def)

section \<open>Decoding\<close>

lemma decode_step_term:
  assumes "escape \<notin> set xs"
  shows "decodeBytes_loop ascendingBytesEscapes (xs @ [escape, escapedTerm] @ rest) r = Inr (rest, r @ xs)"
  using index_byte_append [OF assms, of "escapedTerm # rest"]
  by (subst decodeBytes_loop.simps) (simp add: nth_append)

lemma decode_step_zero:
  assumes "escape \<notin> set xs"
  shows "decodeBytes_loop ascendingBytesEscapes (xs @ [escape, escaped00] @ rest) r =
    decodeBytes_loop ascendingBytesEscapes rest (r @ xs @ [escape])"
  using index_byte_append [OF assms, of "escaped00 # rest"]
  by (subst decodeBytes_loop.simps) (simp add: nth_append)

lemma decode_escape:
  assumes "escape \<notin> set xs"
  shows "decodeBytes_loop ascendingBytesEscapes (xs @ escape_bytes data @ [escape, escapedTerm] @ rest) r =
    Inr (rest, r @ xs @ data)"
  using assms
proof (induction data arbitrary: xs r)
  case Nil
  then show ?case using decode_step_term by simp
next
  case (Cons c data)
  show ?case
  proof (cases "c = escape")
    case True
    have "decodeBytes_loop ascendingBytesEscapes (xs @ escape_bytes (c # data) @ [escape, escapedTerm] @ rest) r =
        decodeBytes_loop ascendingBytesEscapes ([] @ escape_bytes data @ [escape, escapedTerm] @ rest) (r @ xs @ [escape])"
      using decode_step_zero [OF Cons.prems] True by simp
    also have "\<dots> = Inr (rest, (r @ xs @ [escape]) @ [] @ data)" by (rule Cons.IH) simp
    finally show ?thesis using True by simp
  next
    case False
    with Cons.IH [of "xs @ [c]" r] Cons.prems show ?thesis by simp
  qed
qed

text \<open>The descending decoder mirrors the ascending one on the complement of its input.\<close>

lemma index_byte_not: "index_byte (map NOT b) (NOT c) = index_byte b c"
  by (induction b) auto

lemma decode_not:
  "decodeBytes_loop descendingBytesEscapes (map NOT b) (map NOT r) =
     map_sum id (\<lambda>(b, r). (map NOT b, map NOT r)) (decodeBytes_loop ascendingBytesEscapes b r)"
proof (induction ascendingBytesEscapes b r rule: decodeBytes_loop.induct)
  case (1 b r)
  have idx: "index_byte (map NOT b) (e_escape descendingBytesEscapes) = index_byte b (e_escape ascendingBytesEscapes)"
    unfolding asc_escapes desc_escapes by (rule index_byte_not)
  show ?case
  proof (cases "index_byte b (e_escape ascendingBytesEscapes)")
    case None
    then show ?thesis
      by (simp add: decodeBytes_loop.simps [of descendingBytesEscapes "map NOT b"]
          decodeBytes_loop.simps [of ascendingBytesEscapes b] idx)
  next
    case (Some i)
    have eqs: "NOT v = e_escapedTerm descendingBytesEscapes \<longleftrightarrow> v = e_escapedTerm ascendingBytesEscapes"
      "NOT v = e_escaped00 descendingBytesEscapes \<longleftrightarrow> v = e_escaped00 ascendingBytesEscapes"
      "e_escapedFF descendingBytesEscapes = NOT (e_escapedFF ascendingBytesEscapes)" for v
      unfolding asc_escapes desc_escapes by (simp_all only: bit.compl_eq_compl_iff)
    show ?thesis
      using 1 [OF Some _ refl]
      by (simp add: decodeBytes_loop.simps [of descendingBytesEscapes "map NOT b"] idx Some [simplified] Let_def eqs
          decodeBytes_loop.simps [of ascendingBytesEscapes b] take_map drop_map)
  qed
qed

section \<open>Order\<close>

lemma escape_less:
  "x < y \<Longrightarrow> escape_bytes x @ [escape, escapedTerm] @ r < escape_bytes y @ [escape, escapedTerm] @ s"
proof (induction x arbitrary: y)
  case Nil
  then obtain c cs where "y = c # cs" by (cases y) auto
  then show ?case by (auto simp: word_gt_0)
next
  case (Cons a x)
  then obtain c cs where y: "y = c # cs" by (cases y) auto
  with Cons show ?case by (auto simp: word_gt_0)
qed

interpretation bytes_asc: ordered_codec "EncodeBytesAscending []" "\<lambda>b. DecodeBytesAscending b []" "\<lambda>_. True" "(<)"
proof
  fix x y r s rest :: bytes
  show "DecodeBytesAscending (EncodeBytesAscending [] x @ rest) [] = Inr (rest, x)"
    using decode_escape [of "[]" x rest "[]"]
    by (simp add: DecodeBytesAscending_def decodeBytesInternal_def EncodeBytesAscending_eq)
  show "x < y \<Longrightarrow> EncodeBytesAscending [] x @ r < EncodeBytesAscending [] y @ s"
    using escape_less [of x y r s] by (simp add: EncodeBytesAscending_eq)
qed auto

text \<open>Complementing reverses the order of two strings neither of which is a prefix of the other.\<close>

lemma map_not_less:
  "u < v \<Longrightarrow> \<not> (\<exists>w. v = u @ w) \<Longrightarrow> map NOT v @ s < map NOT (u :: bytes) @ r"
proof (induction u arbitrary: v)
  case (Cons a u)
  then obtain c w where v: "v = c # w" by (cases v) auto
  with Cons show ?case by (auto simp: word_not_less_iff)
qed simp

interpretation bytes_desc: ordered_codec "EncodeBytesDescending []" "\<lambda>b. DecodeBytesDescending b []" "\<lambda>_. True" "(>)"
proof
  fix x y r s rest :: bytes
  let ?enc = "\<lambda>x. escape_bytes x @ [escape, escapedTerm]"
  have "decodeBytes_loop descendingBytesEscapes (map NOT (?enc x @ map NOT rest)) (map NOT []) =
      Inr (rest, map NOT x)"
    using decode_escape [of "[]" x "map NOT rest" "[]"] unfolding decode_not by simp
  then show "DecodeBytesDescending (EncodeBytesDescending [] x @ rest) [] = Inr (rest, x)"
    by (simp add: DecodeBytesDescending_def decodeBytesInternal_def EncodeBytesDescending_eq desc_escapes)
  show "EncodeBytesDescending [] x @ r < EncodeBytesDescending [] y @ s" if "y < x"
  proof -
    have "?enc y < ?enc x" using escape_less [OF that, of "[]" "[]"] by simp
    moreover have "\<not> (\<exists>w. ?enc x = ?enc y @ w)"
    proof
      assume "\<exists>w. ?enc x = ?enc y @ w"
      then obtain w where "EncodeBytesAscending [] x = EncodeBytesAscending [] y @ w"
        by (auto simp: EncodeBytesAscending_eq)
      then have "x = y" using bytes_asc.enc_prefix_free by blast
      with that show False by simp
    qed
    ultimately show ?thesis
      using map_not_less [of "?enc y" "?enc x" r s] by (simp add: EncodeBytesDescending_eq)
  qed
qed auto

section \<open>The length of an encoded string\<close>

lemma getBytesLength_term:
  assumes "escape \<notin> set xs"
  shows "getBytesLength_loop (pre @ xs @ [escape, escapedTerm] @ rest) ascendingBytesEscapes (length pre) =
    Inr (length pre + length xs + 2)"
  using index_byte_append [OF assms, of "escapedTerm # rest"]
  by (subst getBytesLength_loop.simps) (simp add: nth_append)

lemma getBytesLength_zero:
  assumes "escape \<notin> set xs"
  shows "getBytesLength_loop (pre @ xs @ [escape, escaped00] @ rest) ascendingBytesEscapes (length pre) =
    getBytesLength_loop (pre @ xs @ [escape, escaped00] @ rest) ascendingBytesEscapes (length pre + length xs + 2)"
  using index_byte_append [OF assms, of "escaped00 # rest"]
  by (subst getBytesLength_loop.simps) (simp add: nth_append)

lemma getBytesLength_escape:
  assumes "escape \<notin> set xs"
  shows "getBytesLength_loop (pre @ xs @ escape_bytes data @ [escape, escapedTerm] @ rest) ascendingBytesEscapes (length pre) =
    Inr (length pre + length xs + length (escape_bytes data) + 2)"
  using assms
proof (induction data arbitrary: xs pre)
  case Nil
  then show ?case using getBytesLength_term by simp
next
  case (Cons c data)
  show ?case
  proof (cases "c = escape")
    case True
    let ?rest = "escape_bytes data @ [escape, escapedTerm] @ rest"
    let ?pre = "pre @ xs @ [escape, escaped00]"
    have "getBytesLength_loop (?pre @ [] @ ?rest) ascendingBytesEscapes (length ?pre) =
        Inr (length ?pre + length ([] :: bytes) + length (escape_bytes data) + 2)"
      by (rule Cons.IH) simp
    with getBytesLength_zero [OF Cons.prems, of pre ?rest] True show ?thesis by simp
  next
    case False
    with Cons.IH [of "xs @ [c]" pre] Cons.prems show ?thesis by simp
  qed
qed

lemma getBytesLength_asc:
  "getBytesLength (EncodeBytesAscending [] data @ rest) ascendingBytesEscapes = Inr (length (EncodeBytesAscending [] data))"
  using getBytesLength_escape [of "[]" "[bytesMarker]" data rest]
  by (simp add: getBytesLength_def EncodeBytesAscending_eq)

lemma getBytesLength_not:
  "getBytesLength_loop (map NOT b) descendingBytesEscapes k = getBytesLength_loop b ascendingBytesEscapes k"
proof (induction b ascendingBytesEscapes k rule: getBytesLength_loop.induct)
  case (1 b k)
  have idx: "index_byte (drop k (map NOT b)) (e_escape descendingBytesEscapes) = index_byte (drop k b) escape"
    unfolding desc_escapes drop_map by (rule index_byte_not)
  have eqs: "NOT v = e_escapedTerm descendingBytesEscapes \<longleftrightarrow> v = escapedTerm" for v
    unfolding desc_escapes by (simp only: bit.compl_eq_compl_iff)
  show ?case
    using 1
    by (subst (1 2) getBytesLength_loop.simps) (auto simp: idx eqs Let_def split: option.split)
qed

text \<open>The first byte is skipped, so it may be any tag.\<close>

lemma getBytesLength_tag:
  "getBytesLength_loop (t # b) e (Suc k) = getBytesLength_loop (t' # b) e (Suc k)"
proof (induction "t # b" e "Suc k" arbitrary: k rule: getBytesLength_loop.induct)
  case (1 e)
  show ?case
    using 1
    by (subst (1 2) getBytesLength_loop.simps) (auto simp: Let_def split: option.split)
qed

lemma getBytesLength_desc:
  "getBytesLength (EncodeBytesDescending [] x @ rest) descendingBytesEscapes = Inr (length (EncodeBytesDescending [] x))"
proof -
  let ?enc = "escape_bytes x @ [escape, escapedTerm]"
  have "getBytesLength (EncodeBytesDescending [] x @ rest) descendingBytesEscapes =
      getBytesLength_loop (map NOT (NOT bytesDescMarker # ?enc @ map NOT rest)) descendingBytesEscapes 1"
    by (simp add: getBytesLength_def EncodeBytesDescending_eq)
  also have "\<dots> = getBytesLength_loop (bytesMarker # ?enc @ map NOT rest) ascendingBytesEscapes 1"
    unfolding getBytesLength_not One_nat_def by (rule getBytesLength_tag)
  also have "\<dots> = Inr (length (EncodeBytesDescending [] x))"
    using getBytesLength_asc [of x "map NOT rest"]
    by (simp add: getBytesLength_def EncodeBytesAscending_eq EncodeBytesDescending_eq)
  finally show ?thesis .
qed

section \<open>Properties\<close>

text \<open>
  C15. The escape-based codec of byte strings: what \<open>EncodeBytesAscending\<close> and
  \<open>EncodeBytesDescending\<close> append is read back whatever follows it, the byte order of two keys
  is the (reverse) lexicographic order of the strings, then of what follows, whatever bytes the
  strings contain; and \<open>getBytesLength\<close> finds where the encoding ends.
\<close>

theorem bytes_codecs:
  "DecodeBytesAscending (EncodeBytesAscending [] x @ rest) [] = Inr (rest, x) \<and>
   DecodeBytesDescending (EncodeBytesDescending [] x @ rest) [] = Inr (rest, x) \<and>
   (EncodeBytesAscending [] x @ r < EncodeBytesAscending [] y @ s \<longleftrightarrow> x < y \<or> x = y \<and> r < s) \<and>
   (EncodeBytesDescending [] x @ r < EncodeBytesDescending [] y @ s \<longleftrightarrow> x > y \<or> x = y \<and> r < s) \<and>
   getBytesLength (EncodeBytesAscending [] x @ rest) ascendingBytesEscapes =
     Inr (length (EncodeBytesAscending [] x)) \<and>
   getBytesLength (EncodeBytesDescending [] x @ rest) descendingBytesEscapes =
     Inr (length (EncodeBytesDescending [] x))"
  by (intro conjI bytes_asc.dec_enc bytes_desc.dec_enc bytes_asc.enc_less_iff bytes_desc.enc_less_iff
      getBytesLength_asc getBytesLength_desc) auto

text \<open>
  \<open>DecodeBytesDescending\<close> is documented to append the decoded bytes to the buffer \<open>r\<close>; the
  complement it takes at the end is that of the whole buffer, so the bytes that \<open>r\<close> already
  holds come back inverted.
\<close>

theorem DecodeBytesDescending_inverts_prefix:
  "DecodeBytesDescending (EncodeBytesDescending [] x @ rest) r = Inr (rest, map NOT r @ x)"
proof -
  have "decodeBytes_loop descendingBytesEscapes
        (map NOT ((escape_bytes x @ [escape, escapedTerm]) @ map NOT rest)) (map NOT (map NOT r)) =
      Inr (rest, r @ map NOT x)"
    using decode_escape [of "[]" x "map NOT rest" "map NOT r"] unfolding decode_not by simp
  then show ?thesis
    by (simp add: DecodeBytesDescending_def decodeBytesInternal_def EncodeBytesDescending_eq desc_escapes)
qed

lemma getBytesLength_loop_malformed:
  "0 < k \<Longrightarrow> getBytesLength_loop b e k \<noteq> Inl (Errorf ''malformed escape'')"
proof (induction b e k rule: getBytesLength_loop.induct)
  case (1 b e k)
  show ?case
    using 1 by (subst getBytesLength_loop.simps)
      (auto simp: Let_def split: option.split dest!: index_byte_Some)
qed

text \<open>
  The check of \<open>getBytesLength\<close> for an escape byte at the end of the buffer compares an index
  relative to the part not yet skipped with the length of the whole buffer. It never holds: the
  function never returns its malformed-escape error, and on a string that ends in the escape byte
  it panics with an index out of range.
\<close>

theorem getBytesLength_truncated_panics:
  "getBytesLength b e \<noteq> Inl (Errorf ''malformed escape'') \<and>
   (e_escape e \<notin> set data \<longrightarrow> getBytesLength (t # data @ [e_escape e]) e = Inl index_out_of_range)"
proof (intro conjI impI)
  show "getBytesLength b e \<noteq> Inl (Errorf ''malformed escape'')"
    by (simp add: getBytesLength_def getBytesLength_loop_malformed)
  assume "e_escape e \<notin> set data"
  from index_byte_append [OF this, of "[]"]
  show "getBytesLength (t # data @ [e_escape e]) e = Inl index_out_of_range"
    unfolding getBytesLength_def by (subst getBytesLength_loop.simps) simp
qed

theorem getBytesLength_truncated_panics_witness:
  "getBytesLength [0x12, 0x61, 0x00] ascendingBytesEscapes = Inl index_out_of_range"
  using getBytesLength_truncated_panics [of "[]" ascendingBytesEscapes "[0x61]" "0x12"] by simp

end
