(* ===== verification/Encoding_Peek.thy ===== *)
theory Encoding_Peek
  imports Encoding_Bytes
begin

text \<open>
  \<open>pkg/util/encoding/encoding.go\<close>, the tags: the type of an encoded value (\<open>PeekType\<close> with its
  lookup table), NULL markers, times, array keys, and \<open>PeekLength\<close>, which finds the length of
  the encoded value at the start of a key without decoding it. Slice and index expressions that
  may be out of range are explicit (\<open>slice_from\<close>, \<open>index_at\<close>).
\<close>

section \<open>Tags\<close>

abbreviation (input) encodedNull :: byte where "encodedNull \<equiv> 0x00"
abbreviation (input) encodedNotNull :: byte where "encodedNotNull \<equiv> 0x01"
abbreviation (input) floatNaN :: byte where "floatNaN \<equiv> 2"
abbreviation (input) floatNeg :: byte where "floatNeg \<equiv> 3"
abbreviation (input) floatZero :: byte where "floatZero \<equiv> 4"
abbreviation (input) floatPos :: byte where "floatPos \<equiv> 5"
abbreviation (input) floatNaNDesc :: byte where "floatNaNDesc \<equiv> 6"
abbreviation (input) timeMarker :: byte where "timeMarker \<equiv> 20"
abbreviation (input) durationBigNegMarker :: byte where "durationBigNegMarker \<equiv> 21"
abbreviation (input) durationMarker :: byte where "durationMarker \<equiv> 22"
abbreviation (input) durationBigPosMarker :: byte where "durationBigPosMarker \<equiv> 23"
abbreviation (input) decimalNaN :: byte where "decimalNaN \<equiv> 24"
abbreviation (input) decimalNegativeInfinity :: byte where "decimalNegativeInfinity \<equiv> 25"
abbreviation (input) decimalNegLarge :: byte where "decimalNegLarge \<equiv> 26"
abbreviation (input) decimalNegSmall :: byte where "decimalNegSmall \<equiv> 38"
abbreviation (input) decimalZero :: byte where "decimalZero \<equiv> 39"
abbreviation (input) decimalPosSmall :: byte where "decimalPosSmall \<equiv> 40"
abbreviation (input) decimalPosLarge :: byte where "decimalPosLarge \<equiv> 52"
abbreviation (input) decimalInfinity :: byte where "decimalInfinity \<equiv> 53"
abbreviation (input) decimalNaNDesc :: byte where "decimalNaNDesc \<equiv> 54"
abbreviation (input) jsonInvertedIndex :: byte where "jsonInvertedIndex \<equiv> 55"
abbreviation (input) bitArrayMarker :: byte where "bitArrayMarker \<equiv> 58"
abbreviation (input) bitArrayDescMarker :: byte where "bitArrayDescMarker \<equiv> 59"
abbreviation (input) timeTZMarker :: byte where "timeTZMarker \<equiv> 60"
abbreviation (input) arrayKeyMarker :: byte where "arrayKeyMarker \<equiv> 63"
abbreviation (input) arrayKeyDescendingMarker :: byte where "arrayKeyDescendingMarker \<equiv> 64"
abbreviation (input) box2DMarker :: byte where "box2DMarker \<equiv> 65"
abbreviation (input) geoInvertedIndexMarker :: byte where "geoInvertedIndexMarker \<equiv> 66"
abbreviation (input) voidMarker :: byte where "voidMarker \<equiv> 68"
abbreviation (input) arrayKeyTerminator :: byte where "arrayKeyTerminator \<equiv> 0x00"
abbreviation (input) arrayKeyDescendingTerminator :: byte where "arrayKeyDescendingTerminator \<equiv> 0xff"
abbreviation (input) ascendingNullWithinArrayKey :: byte where "ascendingNullWithinArrayKey \<equiv> 0x01"
abbreviation (input) descendingNullWithinArrayKey :: byte where "descendingNullWithinArrayKey \<equiv> 0xfe"
abbreviation (input) encodedNotNullDesc :: byte where "encodedNotNullDesc \<equiv> 0xfe"
abbreviation (input) encodedNullDesc :: byte where "encodedNullDesc \<equiv> 0xff"

text \<open>The type of an encoded value is an integer; the constants are named as in the source.\<close>

type_synonym Type = int

abbreviation (input) Type_Unknown :: Type where "Type_Unknown \<equiv> 0"
abbreviation (input) Type_Null :: Type where "Type_Null \<equiv> 1"
abbreviation (input) Type_NotNull :: Type where "Type_NotNull \<equiv> 2"
abbreviation (input) Type_Int :: Type where "Type_Int \<equiv> 3"
abbreviation (input) Type_Float :: Type where "Type_Float \<equiv> 4"
abbreviation (input) Type_Decimal :: Type where "Type_Decimal \<equiv> 5"
abbreviation (input) Type_Bytes :: Type where "Type_Bytes \<equiv> 6"
abbreviation (input) Type_BytesDesc :: Type where "Type_BytesDesc \<equiv> 7"
abbreviation (input) Type_Time :: Type where "Type_Time \<equiv> 8"
abbreviation (input) Type_Duration :: Type where "Type_Duration \<equiv> 9"
abbreviation (input) Type_True :: Type where "Type_True \<equiv> 10"
abbreviation (input) Type_False :: Type where "Type_False \<equiv> 11"
abbreviation (input) Type_UUID :: Type where "Type_UUID \<equiv> 12"
abbreviation (input) Type_Array :: Type where "Type_Array \<equiv> 13"
abbreviation (input) Type_IPAddr :: Type where "Type_IPAddr \<equiv> 14"
abbreviation (input) SentinelType :: Type where "SentinelType \<equiv> 15"
abbreviation (input) Type_JSON :: Type where "Type_JSON \<equiv> 15"
abbreviation (input) Type_Tuple :: Type where "Type_Tuple \<equiv> 16"
abbreviation (input) Type_BitArray :: Type where "Type_BitArray \<equiv> 17"
abbreviation (input) Type_BitArrayDesc :: Type where "Type_BitArrayDesc \<equiv> 18"
abbreviation (input) Type_TimeTZ :: Type where "Type_TimeTZ \<equiv> 19"
abbreviation (input) Type_Geo :: Type where "Type_Geo \<equiv> 20"
abbreviation (input) Type_GeoDesc :: Type where "Type_GeoDesc \<equiv> 21"
abbreviation (input) Type_ArrayKeyAsc :: Type where "Type_ArrayKeyAsc \<equiv> 22"
abbreviation (input) Type_ArrayKeyDesc :: Type where "Type_ArrayKeyDesc \<equiv> 23"
abbreviation (input) Type_Box2D :: Type where "Type_Box2D \<equiv> 24"
abbreviation (input) Type_Void :: Type where "Type_Void \<equiv> 25"

definition slowPeekType :: "bytes \<Rightarrow> Type" where
  "slowPeekType b =
     (case b of [] \<Rightarrow> Type_Unknown
      | m # _ \<Rightarrow>
          if m = encodedNull \<or> m = encodedNullDesc then Type_Null
          else if m = encodedNotNull \<or> m = encodedNotNullDesc then Type_NotNull
          else if m = arrayKeyMarker then Type_ArrayKeyAsc
          else if m = arrayKeyDescendingMarker then Type_ArrayKeyDesc
          else if m = bytesMarker then Type_Bytes
          else if m = bytesDescMarker then Type_BytesDesc
          else if m = bitArrayMarker then Type_BitArray
          else if m = bitArrayDescMarker then Type_BitArrayDesc
          else if m = timeMarker then Type_Time
          else if m = timeTZMarker then Type_TimeTZ
          else if m = geoMarker then Type_Geo
          else if m = box2DMarker then Type_Box2D
          else if m = geoDescMarker then Type_GeoDesc
          else if m = word_of_int Type_Array then Type_Array
          else if m = word_of_int Type_True then Type_True
          else if m = word_of_int Type_False then Type_False
          else if m = durationBigNegMarker \<or> m = durationMarker \<or> m = durationBigPosMarker then Type_Duration
          else if m \<ge> IntMin \<and> m \<le> IntMax then Type_Int
          else if m \<ge> floatNaN \<and> m \<le> floatNaNDesc then Type_Float
          else if m \<ge> decimalNaN \<and> m \<le> decimalNaNDesc then Type_Decimal
          else if m = voidMarker then Type_Void
          else Type_Unknown)"

text \<open>The table that the package initialiser fills, and the lookup.\<close>

definition typMap :: "Type list" where
  "typMap = map (\<lambda>i. slowPeekType [of_nat i]) [0..<256]"

definition PeekType :: "bytes \<Rightarrow> Type" where
  "PeekType b = (case b of m # _ \<Rightarrow> typMap ! unat m | [] \<Rightarrow> Type_Unknown)"

section \<open>NULL, times and void\<close>

definition EncodeNullAscending :: "bytes \<Rightarrow> bytes" where
  "EncodeNullAscending b = b @ [encodedNull]"

definition EncodeNullDescending :: "bytes \<Rightarrow> bytes" where
  "EncodeNullDescending b = b @ [encodedNullDesc]"

definition EncodeNotNullAscending :: "bytes \<Rightarrow> bytes" where
  "EncodeNotNullAscending b = b @ [encodedNotNull]"

definition EncodeNotNullDescending :: "bytes \<Rightarrow> bytes" where
  "EncodeNotNullDescending b = b @ [encodedNotNullDesc]"

definition DecodeIfNull :: "bytes \<Rightarrow> bytes \<times> bool" where
  "DecodeIfNull b = (if PeekType b = Type_Null then (tl b, True) else (b, False))"

definition DecodeIfNotNull :: "bytes \<Rightarrow> bytes \<times> bool" where
  "DecodeIfNotNull b = (if PeekType b = Type_NotNull then (tl b, True) else (b, False))"

text \<open>A \<open>time.Time\<close> is its Unix seconds and its nanoseconds, which are below \<open>10 ^ 9\<close>.\<close>

record go_time =
  Unix :: int64
  Nanosecond :: int64

definition encodeTime :: "bytes \<Rightarrow> int64 \<Rightarrow> int64 \<Rightarrow> bytes" where
  "encodeTime b unix nanos = EncodeVarintAscending (EncodeVarintAscending (b @ [timeMarker]) unix) nanos"

definition EncodeTimeAscending :: "bytes \<Rightarrow> go_time \<Rightarrow> bytes" where
  "EncodeTimeAscending b t = encodeTime b (Unix t) (Nanosecond t)"

definition EncodeTimeDescending :: "bytes \<Rightarrow> go_time \<Rightarrow> bytes" where
  "EncodeTimeDescending b t = encodeTime b (NOT (Unix t)) (NOT (Nanosecond t))"

definition decodeTime :: "bytes \<Rightarrow> go_error + bytes \<times> int64 \<times> int64" where
  "decodeTime b =
     (if PeekType b \<noteq> Type_Time then Inl (Errorf ''did not find marker'')
      else res_bind (DecodeVarintAscending (tl b)) (\<lambda>(b, sec).
             res_bind (DecodeVarintAscending b) (\<lambda>(b, nsec). Inr (b, sec, nsec))))"

text \<open>\<open>time.Unix\<close> normalises the nanoseconds into \<open>[0, 10 ^ 9)\<close>.\<close>

definition timeutil_Unix :: "int64 \<Rightarrow> int64 \<Rightarrow> go_time" where
  "timeutil_Unix sec nsec =
     (let n = sint nsec div 1000000000
      in \<lparr>Unix = sec + word_of_int n, Nanosecond = word_of_int (sint nsec - n * 1000000000)\<rparr>)"

definition DecodeTimeAscending :: "bytes \<Rightarrow> go_error + bytes \<times> go_time" where
  "DecodeTimeAscending b = res_bind (decodeTime b) (\<lambda>(b, sec, nsec). Inr (b, timeutil_Unix sec nsec))"

definition DecodeTimeDescending :: "bytes \<Rightarrow> go_error + bytes \<times> go_time" where
  "DecodeTimeDescending b =
     res_bind (decodeTime b) (\<lambda>(b, sec, nsec). Inr (b, timeutil_Unix (NOT sec) (NOT nsec)))"

definition EncodeVoidAscendingOrDescending :: "bytes \<Rightarrow> bytes" where
  "EncodeVoidAscendingOrDescending b = b @ [voidMarker]"

definition DecodeVoidAscendingOrDescending :: "bytes \<Rightarrow> go_error + bytes" where
  "DecodeVoidAscendingOrDescending b =
     (if PeekType b \<noteq> Type_Void then Inl (Errorf ''did not find Void marker'') else Inr (tl b))"

text \<open>\<open>timetz.TimeTZ\<close>: the time of day in microseconds and the zone offset in seconds.\<close>

record TimeTZ =
  TimeOfDay :: int64
  OffsetSecs :: int32

abbreviation int64_of_int32 :: "int32 \<Rightarrow> int64" where
  "int64_of_int32 v \<equiv> word_of_int (sint v)"

abbreviation int32_of_int64 :: "int64 \<Rightarrow> int32" where
  "int32_of_int64 v \<equiv> ucast v"

definition encodeTimeTZ :: "bytes \<Rightarrow> int64 \<Rightarrow> int32 \<Rightarrow> bytes" where
  "encodeTimeTZ b unixMicros offsetSecs =
     EncodeVarintAscending (EncodeVarintAscending (b @ [timeTZMarker]) unixMicros) (int64_of_int32 offsetSecs)"

definition EncodeTimeTZAscending :: "bytes \<Rightarrow> TimeTZ \<Rightarrow> bytes" where
  "EncodeTimeTZAscending b t =
     encodeTimeTZ b (TimeOfDay t + int64_of_int32 (OffsetSecs t) * 1000000) (OffsetSecs t)"

definition EncodeTimeTZDescending :: "bytes \<Rightarrow> TimeTZ \<Rightarrow> bytes" where
  "EncodeTimeTZDescending b t =
     encodeTimeTZ b (NOT (TimeOfDay t + int64_of_int32 (OffsetSecs t) * 1000000)) (NOT (OffsetSecs t))"

definition decodeTimeTZ :: "bytes \<Rightarrow> go_error + bytes \<times> int64 \<times> int32" where
  "decodeTimeTZ b =
     (if PeekType b \<noteq> Type_TimeTZ then Inl (Errorf ''did not find marker'')
      else res_bind (DecodeVarintAscending (tl b)) (\<lambda>(b, unixMicros).
             res_bind (DecodeVarintAscending b) (\<lambda>(b, offsetSecs).
               Inr (b, unixMicros, int32_of_int64 offsetSecs))))"

definition DecodeTimeTZAscending :: "bytes \<Rightarrow> go_error + bytes \<times> TimeTZ" where
  "DecodeTimeTZAscending b =
     res_bind (decodeTimeTZ b) (\<lambda>(b, unixMicros, offsetSecs).
       Inr (b, \<lparr>TimeOfDay = unixMicros - int64_of_int32 offsetSecs * 1000000, OffsetSecs = offsetSecs\<rparr>))"

definition DecodeTimeTZDescending :: "bytes \<Rightarrow> go_error + bytes \<times> TimeTZ" where
  "DecodeTimeTZDescending b =
     res_bind (decodeTimeTZ b) (\<lambda>(b, unixMicros, offsetSecs).
       Inr (b, \<lparr>TimeOfDay = NOT unixMicros - int64_of_int32 (NOT offsetSecs) * 1000000,
                OffsetSecs = NOT offsetSecs\<rparr>))"

section \<open>Array keys\<close>

datatype Direction = Ascending | Descending

definition EncodeArrayKeyMarker :: "bytes \<Rightarrow> Direction \<Rightarrow> bytes" where
  "EncodeArrayKeyMarker buf dir =
     (case dir of Ascending \<Rightarrow> buf @ [arrayKeyMarker] | Descending \<Rightarrow> buf @ [arrayKeyDescendingMarker])"

definition EncodeArrayKeyTerminator :: "bytes \<Rightarrow> Direction \<Rightarrow> bytes" where
  "EncodeArrayKeyTerminator buf dir =
     (case dir of Ascending \<Rightarrow> buf @ [arrayKeyTerminator] | Descending \<Rightarrow> buf @ [arrayKeyDescendingTerminator])"

definition EncodeNullWithinArrayKey :: "bytes \<Rightarrow> Direction \<Rightarrow> bytes" where
  "EncodeNullWithinArrayKey buf dir =
     (case dir of Ascending \<Rightarrow> buf @ [ascendingNullWithinArrayKey] | Descending \<Rightarrow> buf @ [descendingNullWithinArrayKey])"

definition IsNextByteArrayEncodedNull :: "bytes \<Rightarrow> Direction \<Rightarrow> go_error + bool" where
  "IsNextByteArrayEncodedNull buf dir =
     (let expected = (if dir = Descending then descendingNullWithinArrayKey else ascendingNullWithinArrayKey)
      in res_bind (index_at buf 0) (\<lambda>c. Inr (c = expected)))"

definition ValidateAndConsumeArrayKeyMarker :: "bytes \<Rightarrow> Direction \<Rightarrow> go_error + bytes" where
  "ValidateAndConsumeArrayKeyMarker buf dir =
     (let typ = PeekType buf;
          expected = (if dir = Descending then Type_ArrayKeyDesc else Type_ArrayKeyAsc)
      in if typ \<noteq> expected then Inl (Errorf ''invalid type found'') else slice_from 1 buf)"

definition IsArrayKeyDone :: "bytes \<Rightarrow> Direction \<Rightarrow> go_error + bool" where
  "IsArrayKeyDone buf dir =
     (let expected = (if dir = Descending then arrayKeyDescendingTerminator else arrayKeyTerminator)
      in res_bind (index_at buf 0) (\<lambda>c. Inr (c = expected)))"

section \<open>Lengths\<close>

text \<open>The loop of \<open>GetMultiVarintLen\<close>, with \<open>num\<close> iterations left.\<close>

fun GetMultiVarintLen_loop :: "bytes \<Rightarrow> nat \<Rightarrow> nat \<Rightarrow> go_error + nat" where
  "GetMultiVarintLen_loop b 0 p = Inr p"
| "GetMultiVarintLen_loop b (Suc num) p =
     (if p < length b then res_bind (getVarintLen (drop p b)) (\<lambda>len. GetMultiVarintLen_loop b num (p + len))
      else Inr p)"

definition GetMultiVarintLen :: "bytes \<Rightarrow> nat \<Rightarrow> go_error + nat" where
  "GetMultiVarintLen b num = GetMultiVarintLen_loop b num 1"

lemma getVarintLen_pos: "getVarintLen b = Inr n \<Longrightarrow> 0 < n \<and> n \<le> length b"
  by (auto simp: getVarintLen_def Let_def split: list.splits if_splits)

function getBitArrayWordsLen_loop :: "bytes \<Rightarrow> byte \<Rightarrow> nat \<Rightarrow> nat \<Rightarrow> go_error + nat \<times> nat" where
  "getBitArrayWordsLen_loop bSearch trm numWords sz =
     (case bSearch of [] \<Rightarrow> Inl (Errorf ''slice too short for bit array'')
      | c # _ \<Rightarrow>
          if c = trm then Inr (numWords, sz)
          else res_bind (getVarintLen bSearch) (\<lambda>vLen.
                 getBitArrayWordsLen_loop (drop vLen bSearch) trm (numWords + 1) (sz + vLen)))"
  by pat_completeness auto
termination
  by (relation "measure (\<lambda>(b, _). length b)") (auto dest!: getVarintLen_pos)

declare getBitArrayWordsLen_loop.simps [simp del]

definition getBitArrayWordsLen :: "bytes \<Rightarrow> byte \<Rightarrow> go_error + nat \<times> nat" where
  "getBitArrayWordsLen b trm = getBitArrayWordsLen_loop b trm 0 0"

fun peekBox2DLength_loop :: "nat \<Rightarrow> bytes \<Rightarrow> nat \<Rightarrow> go_error + nat" where
  "peekBox2DLength_loop 0 cur len = Inr len"
| "peekBox2DLength_loop (Suc k) cur len =
     (case cur of [] \<Rightarrow> Inl (Errorf ''slice too short for box2d'')
      | c # rest \<Rightarrow>
          if c = floatNaN \<or> c = floatNaNDesc \<or> c = floatZero then peekBox2DLength_loop k rest (len + 1)
          else if c = floatNeg \<or> c = floatPos then
            res_bind (slice_from 9 cur) (\<lambda>cur. peekBox2DLength_loop k cur (len + 9))
          else Inl (Errorf ''unexpected marker for box2d''))"

definition peekBox2DLength :: "bytes \<Rightarrow> go_error + nat" where
  "peekBox2DLength b = peekBox2DLength_loop 4 b 0"

text \<open>\<open>decimal.go\<close>: the length of an encoded decimal.\<close>

definition findDecimalTerminator :: "bytes \<Rightarrow> go_error + nat" where
  "findDecimalTerminator buf =
     (case index_byte buf 0 of Some idx \<Rightarrow> Inr idx | None \<Rightarrow> Inl (Errorf ''did not find terminator''))"

definition getDecimalLen :: "bytes \<Rightarrow> go_error + nat" where
  "getDecimalLen buf =
     res_bind (index_at buf 0) (\<lambda>m.
       if m < decimalNaN \<or> m > decimalNaNDesc then Inl (GoPanic ''invalid tag'')
       else if m \<in> {decimalNaN, decimalNegativeInfinity, decimalNaNDesc, decimalInfinity, decimalZero} then Inr 1
       else
         res_bind (if m \<in> {decimalNegLarge, decimalNegSmall, decimalPosLarge, decimalPosSmall}
                   then res_bind (getVarintLen (drop 1 buf)) (\<lambda>l. Inr (1 + l)) else Inr 1) (\<lambda>p.
         res_bind (findDecimalTerminator (drop p buf)) (\<lambda>idx. Inr (p + idx + 1))))"

function getInvertedIndexKeyLength_loop :: "bytes \<Rightarrow> nat \<Rightarrow> go_error + nat" where
  "getInvertedIndexKeyLength_loop b skipped =
     (if length b < skipped then Inl (GoPanic ''slice bounds out of range'')
      else case index_byte (drop skipped b) escape of
        None \<Rightarrow> Inl (Errorf ''malformed inverted index key'')
      | Some i \<Rightarrow>
          let skipped = skipped + (i + 2)
          in if skipped - 1 \<ge> length b then Inl index_out_of_range
             else if b ! (skipped - 1) \<in> {escapedTerm, jsonEmptyObject, jsonEmptyArray} then Inr skipped
             else getInvertedIndexKeyLength_loop b skipped)"
  by pat_completeness auto
termination
  by (relation "measure (\<lambda>(b, skipped). length b - skipped)") auto

declare getInvertedIndexKeyLength_loop.simps [simp del]

definition getInvertedIndexKeyLength :: "bytes \<Rightarrow> go_error + nat" where
  "getInvertedIndexKeyLength b = getInvertedIndexKeyLength_loop b 0"

definition getGeoInvertedIndexKeyLength :: "bytes \<Rightarrow> go_error + nat" where
  "getGeoInvertedIndexKeyLength buf =
     (if length buf < 3 + 2 * 8 then Inl (Errorf ''buf length too small'')
      else res_bind (getVarintLen (drop 1 buf)) (\<lambda>cellLen.
             res_bind (index_at buf (1 + cellLen)) (\<lambda>encodingKind.
               let floatsLen = (if encodingKind = 1 then 2 * 8 else 4 * 8)
               in Inr (1 + cellLen + 1 + floatsLen))))"

lemma getInvertedIndexKeyLength_pos:
  "getInvertedIndexKeyLength_loop b k = Inr n \<Longrightarrow> 2 \<le> n \<and> n \<le> length b"
proof (induction b k rule: getInvertedIndexKeyLength_loop.induct)
  case (1 b k)
  from "1.prems" show ?case
    using "1.IH" by (subst (asm) getInvertedIndexKeyLength_loop.simps)
      (auto simp: Let_def split: if_splits option.splits)
qed

text \<open>
  \<open>PeekLength\<close>, \<open>getArrayLength\<close> and \<open>getJSONInvertedIndexKeyLength\<close> call one another. The loop of
  \<open>getArrayLength\<close> advances by what \<open>PeekLength\<close> returns; an advance of zero would loop forever,
  which the model shows as a panic of its own, and which \<open>PeekLength_pos\<close> below excludes.
\<close>

abbreviation no_progress :: go_error where
  "no_progress \<equiv> GoPanic ''no progress''"

function PeekLength :: "bytes \<Rightarrow> go_error + nat"
  and getArrayLength_loop :: "bytes \<Rightarrow> Direction \<Rightarrow> nat \<Rightarrow> go_error + nat"
  and getJSONInvertedIndexKeyLength :: "bytes \<Rightarrow> go_error + nat" where
  "PeekLength b =
     (case b of [] \<Rightarrow> Inl (Errorf ''empty slice'')
      | m # rest \<Rightarrow>
          if m \<in> {encodedNull, encodedNullDesc, encodedNotNull, encodedNotNullDesc, floatNaN, floatNaNDesc,
                 floatZero, decimalZero, word_of_int Type_True, word_of_int Type_False, emptyArray, voidMarker}
          then Inr 1
          else if m = bitArrayMarker \<or> m = bitArrayDescMarker then
            let terminator = (if m = bitArrayDescMarker then 0xff else 0x00)
            in res_bind (getBitArrayWordsLen rest terminator) (\<lambda>(_, n).
                 res_bind (slice_from (n + 2) b) (\<lambda>tail. res_bind (getVarintLen tail) (\<lambda>l. Inr (1 + n + l + 1))))
          else if m = arrayKeyMarker \<or> m = arrayKeyDescendingMarker then
            let dir = (if m = arrayKeyDescendingMarker then Descending else Ascending)
            in res_bind (getArrayLength_loop rest dir 0) (\<lambda>len. Inr (1 + len))
          else if m = bytesMarker then getBytesLength b ascendingBytesEscapes
          else if m = box2DMarker then res_bind (peekBox2DLength rest) (\<lambda>len. Inr (1 + len))
          else if m = geoInvertedIndexMarker then getGeoInvertedIndexKeyLength b
          else if m = geoMarker then
            if length b < 8 then Inl (Errorf ''slice too short for spatial object'')
            else res_bind (getBytesLength (drop 8 b) ascendingGeoEscapes) (\<lambda>ret. Inr (8 + ret))
          else if m = jsonInvertedIndex then getJSONInvertedIndexKeyLength b
          else if m = bytesDescMarker then getBytesLength b descendingBytesEscapes
          else if m = geoDescMarker then
            if length b < 8 then Inl (Errorf ''slice too short for spatial object'')
            else res_bind (getBytesLength (drop 8 b) descendingGeoEscapes) (\<lambda>ret. Inr (8 + ret))
          else if m = timeMarker \<or> m = timeTZMarker then GetMultiVarintLen b 2
          else if m = durationBigNegMarker \<or> m = durationMarker \<or> m = durationBigPosMarker then GetMultiVarintLen b 3
          else if m = floatNeg \<or> m = floatPos then
            if length b < 9 then Inl (Errorf ''slice too short for float'') else Inr 9
          else if m \<ge> IntMin \<and> m \<le> IntMax then getVarintLen b
          else if m \<ge> decimalNaN \<and> m \<le> decimalNaNDesc then getDecimalLen b
          else Inl (Errorf ''unknown tag''))"
| "getArrayLength_loop buf dir result =
     (if buf = [] then Inl (AssertionFailedf ''invalid array encoding (unterminated)'')
      else res_bind (IsArrayKeyDone buf dir) (\<lambda>isDone.
        if isDone then Inr (result + 1)
        else res_bind (PeekLength buf) (\<lambda>next.
          if next = 0 then Inl no_progress
          else if length buf < next then Inl (GoPanic ''slice bounds out of range'')
          else getArrayLength_loop (drop next buf) dir (result + next))))"
| "getJSONInvertedIndexKeyLength buf =
     res_bind (getInvertedIndexKeyLength buf) (\<lambda>len.
       res_bind (index_at buf len) (\<lambda>c.
         if c = jsonEmptyArray \<or> c = jsonEmptyObject then Inr (len + 1)
         else res_bind (PeekLength (drop len buf)) (\<lambda>valLen. Inr (len + valLen))))"
  by pat_completeness auto
termination
  by (relation "measure (case_sum (\<lambda>b. 3 * length b + 1)
    (case_sum (\<lambda>(buf, dir, result). 3 * length buf + 2) (\<lambda>buf. 3 * length buf)))")
    (auto simp: getInvertedIndexKeyLength_def dest!: getInvertedIndexKeyLength_pos)

declare PeekLength.simps [simp del] getArrayLength_loop.simps [simp del]
  getJSONInvertedIndexKeyLength.simps [simp del]

section \<open>The type table\<close>

lemma PeekType_eq: "PeekType b = slowPeekType b"
proof (cases b)
  case (Cons m rest)
  have "typMap ! unat m = slowPeekType [m]"
    using unat_byte_less [of m] by (simp add: typMap_def)
  then show ?thesis by (simp add: Cons PeekType_def slowPeekType_def)
qed (simp add: PeekType_def slowPeekType_def)

section \<open>The length of an encoded value\<close>

lemma getVarintLen_large:
  "1 \<le> n \<Longrightarrow> n \<le> 8 \<Longrightarrow> length bs = n \<Longrightarrow> getVarintLen (of_nat (245 + n) # bs @ rest) = Inr (1 + n)"
  using uint_of_nat_byte [of "245 + n"] by (simp add: getVarintLen_def Let_def)

lemma getVarintLen_small: "n \<le> 109 \<Longrightarrow> getVarintLen (of_nat (136 + n) # rest) = Inr 1"
  using uint_of_nat_byte [of "136 + n"] by (simp add: getVarintLen_def Let_def)

lemma getVarintLen_neg:
  "1 \<le> n \<Longrightarrow> n \<le> 8 \<Longrightarrow> length bs = n \<Longrightarrow> getVarintLen (of_nat (136 - n) # bs @ rest) = Inr (1 + n)"
  using uint_of_nat_byte [of "136 - n"] by (simp add: getVarintLen_def Let_def nat_add_distrib)

lemma getVarintLen_Uvarint_asc [simp]:
  "getVarintLen (EncodeUvarintAscending [] v @ rest) = Inr (length (EncodeUvarintAscending [] v))"
proof (cases "unat v \<le> 109")
  case True
  then have "EncodeUvarintAscending [] v = [of_nat (136 + unat v)]"
    by (simp only: Uvarint_asc_eq small_tag if_True append_Nil)
  then show ?thesis using getVarintLen_small [OF True, of rest] by simp
next
  case False
  then show ?thesis
    using byte_width_bounds [of "unat v"] getVarintLen_large [of "byte_width (unat v)" "be_bytes (byte_width (unat v)) v" rest]
    by (simp add: Uvarint_asc_eq)
qed

lemma getVarintLen_Uvarint_desc [simp]:
  "getVarintLen (EncodeUvarintDescending [] v @ rest) = Inr (length (EncodeUvarintDescending [] v))"
proof (cases "unat v = 0")
  case True
  then show ?thesis using getVarintLen_small [of 0 rest] by (simp add: Uvarint_desc_eq)
next
  case False
  then show ?thesis
    using byte_width_bounds [of "unat v"]
      getVarintLen_neg [of "byte_width (unat v)" "be_bytes (byte_width (unat v)) (NOT v)" rest]
    by (simp only: Uvarint_desc_eq if_False append_Nil append_Cons length_be_bytes list.size) simp
qed

lemma getVarintLen_Varint_asc [simp]:
  "getVarintLen (EncodeVarintAscending [] v @ rest) = Inr (length (EncodeVarintAscending [] v))"
proof (cases "sint v < 0")
  case True
  let ?n = "byte_width (nat (- sint v))"
  show ?thesis
    using getVarintLen_neg [OF neg_width(1,2) [OF True] length_be_bytes, of v rest]
    by (simp only: Varint_neg_eq [OF True] append_Nil append_Cons length_be_bytes list.size) simp
next
  case False
  then have "EncodeVarintAscending [] v = EncodeUvarintAscending [] v"
    by (simp add: EncodeVarintAscending_def)
  then show ?thesis by simp
qed

lemma getVarintLen_Varint_desc [simp]:
  "getVarintLen (EncodeVarintDescending [] v @ rest) = Inr (length (EncodeVarintDescending [] v))"
  unfolding EncodeVarintDescending_def by (rule getVarintLen_Varint_asc)

lemma PeekLength_int_tag:
  assumes "128 \<le> n" "n \<le> 253"
  shows "PeekLength (of_nat n # rest) = getVarintLen (of_nat n # rest)"
proof -
  have n: "unat (of_nat n :: byte) = n" using assms by (simp add: unat_of_nat_small)
  have ne: "of_nat n \<noteq> c" if "unat c < 128 \<or> 253 < unat c" for c :: byte
    using n assms that by auto
  have "of_nat n \<ge> IntMin" "of_nat n \<le> IntMax" using assms n by (simp_all add: word_le_nat_alt)
  then show ?thesis by (subst PeekLength.simps) (simp add: ne)
qed

lemma Varint_tags:
  "\<exists>n bs. EncodeVarintAscending [] v = of_nat n # bs \<and> 128 \<le> n \<and> n \<le> 253"
  "\<exists>n bs. EncodeUvarintAscending [] w = of_nat n # bs \<and> 128 \<le> n \<and> n \<le> 253"
  "\<exists>n bs. EncodeUvarintDescending [] w = of_nat n # bs \<and> 128 \<le> n \<and> n \<le> 253"
proof -
  show asc: "\<exists>n bs. EncodeUvarintAscending [] w = of_nat n # bs \<and> 128 \<le> n \<and> n \<le> 253" for w
  proof (cases "unat w \<le> 109")
    case True
    then have "EncodeUvarintAscending [] w = of_nat (136 + unat w) # []"
      by (simp only: Uvarint_asc_eq small_tag if_True append_Nil)
    with True show ?thesis by (intro exI [of _ "136 + unat w"]) auto
  next
    case False
    with byte_width_bounds [of "unat w"] show ?thesis
      by (intro exI [of _ "245 + byte_width (unat w)"]) (simp add: Uvarint_asc_eq)
  qed
  show "\<exists>n bs. EncodeVarintAscending [] v = of_nat n # bs \<and> 128 \<le> n \<and> n \<le> 253"
  proof (cases "sint v < 0")
    case True
    let ?n = "byte_width (nat (- sint v))"
    have "EncodeVarintAscending [] v = of_nat (136 - ?n) # be_bytes ?n v"
      by (simp only: Varint_neg_eq [OF True] append_Nil)
    moreover have "128 \<le> 136 - ?n" "136 - ?n \<le> 253" using neg_width(1,2) [OF True] by linarith+
    ultimately show ?thesis by blast
  qed (use asc [of v] in \<open>simp add: EncodeVarintAscending_def\<close>)
  show "\<exists>n bs. EncodeUvarintDescending [] w = of_nat n # bs \<and> 128 \<le> n \<and> n \<le> 253"
  proof (cases "unat w = 0")
    case False
    let ?n = "byte_width (unat w)"
    have "EncodeUvarintDescending [] w = of_nat (136 - ?n) # be_bytes ?n (NOT w)"
      using False by (simp only: Uvarint_desc_eq append_Nil if_False)
    moreover have "128 \<le> 136 - ?n" "136 - ?n \<le> 253" using byte_width_bounds [of "unat w"] by linarith+
    ultimately show ?thesis by blast
  qed (intro exI [of _ 136], simp add: Uvarint_desc_eq)
qed

lemma PeekLength_bytes:
  "PeekLength (bytesMarker # rest) = getBytesLength (bytesMarker # rest) ascendingBytesEscapes"
  "PeekLength (bytesDescMarker # rest) = getBytesLength (bytesDescMarker # rest) descendingBytesEscapes"
  by (subst PeekLength.simps, simp)+

text \<open>
  What an encoding of a key column promises to a reader that skips it: \<open>PeekLength\<close> finds its end
  whatever follows, and it does not start with the terminator of an array. The elements of an
  array key are such columns, and then so is the array key.
\<close>

definition array_elem :: "('a \<Rightarrow> bytes) \<Rightarrow> Direction \<Rightarrow> 'a option \<Rightarrow> bytes" where
  "array_elem enc dir x = (case x of None \<Rightarrow> EncodeNullWithinArrayKey [] dir | Some v \<Rightarrow> enc v)"

definition array_key :: "('a \<Rightarrow> bytes) \<Rightarrow> Direction \<Rightarrow> 'a option list \<Rightarrow> bytes" where
  "array_key enc dir xs =
     EncodeArrayKeyTerminator (EncodeArrayKeyMarker [] dir @ concat (map (array_elem enc dir) xs)) dir"

locale key_column =
  fixes enc :: "'a \<Rightarrow> bytes" and valid :: "'a \<Rightarrow> bool"
  assumes peek: "valid x \<Longrightarrow> PeekLength (enc x @ rest) = Inr (length (enc x))"
    and first: "valid x \<Longrightarrow> \<exists>c bs. enc x = c # bs \<and> c \<noteq> arrayKeyTerminator \<and> c \<noteq> arrayKeyDescendingTerminator"
begin

lemma array_elem_peek:
  assumes "\<And>v. x = Some v \<Longrightarrow> valid v"
  shows "PeekLength (array_elem enc dir x @ rest) = Inr (length (array_elem enc dir x))"
    and "IsArrayKeyDone (array_elem enc dir x @ rest) dir = Inr False" "array_elem enc dir x \<noteq> []"
proof -
  have null: "PeekLength (ascendingNullWithinArrayKey # b) = Inr 1" "PeekLength (descendingNullWithinArrayKey # b) = Inr 1" for b
    by (subst PeekLength.simps, simp)+
  show "PeekLength (array_elem enc dir x @ rest) = Inr (length (array_elem enc dir x))"
    using assms peek null
    by (auto simp: array_elem_def EncodeNullWithinArrayKey_def split: option.split Direction.split)
  obtain c bs where c: "array_elem enc dir x = c # bs"
      "c \<noteq> (if dir = Descending then arrayKeyDescendingTerminator else arrayKeyTerminator)"
  proof (cases x)
    case None
    with that show ?thesis by (cases dir) (auto simp: array_elem_def EncodeNullWithinArrayKey_def)
  next
    case (Some v)
    with first [OF assms [OF Some]] that show ?thesis by (auto simp: array_elem_def)
  qed
  then show "IsArrayKeyDone (array_elem enc dir x @ rest) dir = Inr False" "array_elem enc dir x \<noteq> []"
    by (auto simp: IsArrayKeyDone_def index_at_def)
qed

lemma array_loop:
  assumes "\<And>v. Some v \<in> set xs \<Longrightarrow> valid v"
  shows "getArrayLength_loop (concat (map (array_elem enc dir) xs) @ EncodeArrayKeyTerminator [] dir @ rest) dir k =
    Inr (k + length (concat (map (array_elem enc dir) xs)) + 1)"
  using assms
proof (induction xs arbitrary: k)
  case Nil
  then show ?case
    by (subst getArrayLength_loop.simps)
      (auto simp: EncodeArrayKeyTerminator_def IsArrayKeyDone_def index_at_def split: Direction.split)
next
  case (Cons x xs)
  let ?rest = "concat (map (array_elem enc dir) xs) @ EncodeArrayKeyTerminator [] dir @ rest"
  have x: "\<And>v. x = Some v \<Longrightarrow> valid v" using Cons.prems by simp
  have IH: "getArrayLength_loop ?rest dir j = Inr (j + length (concat (map (array_elem enc dir) xs)) + 1)" for j
    using Cons.prems by (intro Cons.IH) simp
  show ?case
    using array_elem_peek(3) [OF x, where dir = dir] IH
    by (subst getArrayLength_loop.simps)
      (simp add: array_elem_peek(1,2) [OF x, where dir = dir and rest = ?rest, simplified])
qed

lemma array_key_peek:
  assumes "\<And>v. Some v \<in> set xs \<Longrightarrow> valid v"
  shows "PeekLength (array_key enc dir xs @ rest) = Inr (length (array_key enc dir xs))"
  using array_loop [OF assms, where dir = dir and rest = rest and k = 0]
  by (subst PeekLength.simps)
    (auto simp: array_key_def EncodeArrayKeyMarker_def EncodeArrayKeyTerminator_def split: Direction.splits)

end

lemma varint_tag_neq: "128 \<le> n \<Longrightarrow> n \<le> 253 \<Longrightarrow> of_nat n \<noteq> (0 :: byte) \<and> of_nat n \<noteq> (0xff :: byte)"
  using unat_of_nat_small [of n, where 'a = 8] by auto

interpretation varint_col: key_column "EncodeVarintAscending []" "\<lambda>_. True"
proof
  fix x :: int64 and rest
  obtain n bs where n: "EncodeVarintAscending [] x = of_nat n # bs" "128 \<le> n" "n \<le> 253"
    using Varint_tags(1) by blast
  show "PeekLength (EncodeVarintAscending [] x @ rest) = Inr (length (EncodeVarintAscending [] x))"
    using getVarintLen_Varint_asc [of x rest] PeekLength_int_tag [OF n(2,3)] n(1) by simp
  show "\<exists>c bs. EncodeVarintAscending [] x = c # bs \<and> c \<noteq> 0 \<and> c \<noteq> 0xff"
    using n varint_tag_neq [OF n(2,3)] by simp
qed

interpretation varint_desc_col: key_column "EncodeVarintDescending []" "\<lambda>_. True"
  by unfold_locales (simp_all only: EncodeVarintDescending_def varint_col.peek varint_col.first)

interpretation uvarint_col: key_column "EncodeUvarintAscending []" "\<lambda>_. True"
proof
  fix x :: uint64 and rest
  obtain n bs where n: "EncodeUvarintAscending [] x = of_nat n # bs" "128 \<le> n" "n \<le> 253"
    using Varint_tags(2) by blast
  show "PeekLength (EncodeUvarintAscending [] x @ rest) = Inr (length (EncodeUvarintAscending [] x))"
    using getVarintLen_Uvarint_asc [of x rest] PeekLength_int_tag [OF n(2,3)] n(1) by simp
  show "\<exists>c bs. EncodeUvarintAscending [] x = c # bs \<and> c \<noteq> 0 \<and> c \<noteq> 0xff"
    using n varint_tag_neq [OF n(2,3)] by simp
qed

interpretation uvarint_desc_col: key_column "EncodeUvarintDescending []" "\<lambda>_. True"
proof
  fix x :: uint64 and rest
  obtain n bs where n: "EncodeUvarintDescending [] x = of_nat n # bs" "128 \<le> n" "n \<le> 253"
    using Varint_tags(3) by blast
  show "PeekLength (EncodeUvarintDescending [] x @ rest) = Inr (length (EncodeUvarintDescending [] x))"
    using getVarintLen_Uvarint_desc [of x rest] PeekLength_int_tag [OF n(2,3)] n(1) by simp
  show "\<exists>c bs. EncodeUvarintDescending [] x = c # bs \<and> c \<noteq> 0 \<and> c \<noteq> 0xff"
    using n varint_tag_neq [OF n(2,3)] by simp
qed

interpretation bytes_col: key_column "EncodeBytesAscending []" "\<lambda>_. True"
  using getBytesLength_asc by unfold_locales (simp_all add: EncodeBytesAscending_eq PeekLength_bytes)

interpretation bytes_desc_col: key_column "EncodeBytesDescending []" "\<lambda>_. True"
  using getBytesLength_desc by unfold_locales (simp_all add: EncodeBytesDescending_eq PeekLength_bytes)

section \<open>Times\<close>

definition time_ok :: "go_time \<Rightarrow> bool" where
  "time_ok t \<longleftrightarrow> 0 \<le> sint (Nanosecond t) \<and> sint (Nanosecond t) < 1000000000"

definition time_less :: "go_time \<Rightarrow> go_time \<Rightarrow> bool" where
  "time_less t u \<longleftrightarrow> (sint (Unix t), sint (Nanosecond t)) < (sint (Unix u), sint (Nanosecond u))"

interpretation varint_pair: codec_pair "EncodeVarintAscending []" DecodeVarintAscending "\<lambda>_. True" "\<lambda>v w. sint v < sint w"
  "EncodeVarintAscending []" DecodeVarintAscending "\<lambda>_. True" "\<lambda>v w. sint v < sint w"
  by unfold_locales

lemma encodeTime_eq:
  "encodeTime b u n = b @ timeMarker # EncodeVarintAscending [] u @ EncodeVarintAscending [] n"
  unfolding encodeTime_def
  by (subst (1 2) encode_varint_append(3)) simp

lemma PeekType_time [simp]: "PeekType (timeMarker # rest) = Type_Time"
  by (simp add: PeekType_eq slowPeekType_def)

lemma decodeTime_encode: "decodeTime (encodeTime [] u n @ rest) = Inr (rest, u, n)"
  by (simp add: decodeTime_def encodeTime_eq varint_asc.dec_enc)

lemma timeutil_Unix_ok: "time_ok t \<Longrightarrow> timeutil_Unix (Unix t) (Nanosecond t) = t"
  by (cases t) (simp add: timeutil_Unix_def time_ok_def div_pos_pos_trivial)

lemma encodeTime_less_iff:
  "encodeTime [] u n @ r < encodeTime [] v m @ s \<longleftrightarrow>
     sint u < sint v \<or> u = v \<and> (sint n < sint m \<or> n = m \<and> r < s)"
  using varint_pair.pair_less_iff [where x = u and x' = v and y = n and y' = m and r = r and s = s] by (simp add: encodeTime_eq)

lemma GetMultiVarintLen_two:
  "GetMultiVarintLen (t # EncodeVarintAscending [] u @ EncodeVarintAscending [] n @ rest) 2 =
     Inr (1 + length (EncodeVarintAscending [] u) + length (EncodeVarintAscending [] n))"
proof -
  let ?b = "t # EncodeVarintAscending [] u @ EncodeVarintAscending [] n @ rest"
  have ne: "EncodeVarintAscending [] v \<noteq> []" for v
    using Varint_tags(1) [of v] by auto
  have "getVarintLen (drop 1 ?b) = Inr (length (EncodeVarintAscending [] u))"
    "getVarintLen (drop (1 + length (EncodeVarintAscending [] u)) ?b) = Inr (length (EncodeVarintAscending [] n))"
    by simp_all
  then show ?thesis
    unfolding GetMultiVarintLen_def numeral_2_eq_2 using ne [of u] ne [of n] by simp
qed

lemma sint_not: "sint (NOT (v :: int64)) = - 1 - sint v"
proof -
  have "NOT v = - 1 - v" by (simp add: not_eq_complement)
  then show ?thesis using sint64_diff [of "- 1" v] sint64_range [of v] by simp
qed

interpretation time_asc: ordered_codec "EncodeTimeAscending []" DecodeTimeAscending time_ok time_less
proof
  fix x y :: go_time and r s rest
  show "time_ok x \<Longrightarrow> DecodeTimeAscending (EncodeTimeAscending [] x @ rest) = Inr (rest, x)"
    by (simp add: DecodeTimeAscending_def EncodeTimeAscending_def decodeTime_encode timeutil_Unix_ok)
  show "time_less x y \<Longrightarrow> EncodeTimeAscending [] x @ r < EncodeTimeAscending [] y @ s"
    by (auto simp: EncodeTimeAscending_def encodeTime_less_iff time_less_def sint_eq_iff)
  show "x \<noteq> y \<Longrightarrow> time_less x y \<or> time_less y x"
    by (cases x; cases y) (auto simp: time_less_def neq_iff sint_eq_iff [symmetric])
qed

interpretation time_desc: ordered_codec "EncodeTimeDescending []" DecodeTimeDescending time_ok "\<lambda>t u. time_less u t"
proof
  fix x y :: go_time and r s rest
  show "time_ok x \<Longrightarrow> DecodeTimeDescending (EncodeTimeDescending [] x @ rest) = Inr (rest, x)"
    by (simp add: DecodeTimeDescending_def EncodeTimeDescending_def decodeTime_encode timeutil_Unix_ok)
  show "time_less y x \<Longrightarrow> EncodeTimeDescending [] x @ r < EncodeTimeDescending [] y @ s"
    by (auto simp: EncodeTimeDescending_def encodeTime_less_iff time_less_def sint_eq_iff sint_not)
  show "x \<noteq> y \<Longrightarrow> time_less y x \<or> time_less x y"
    by (cases x; cases y) (auto simp: time_less_def neq_iff sint_eq_iff [symmetric])
qed

interpretation time_col: key_column "EncodeTimeAscending []" "\<lambda>_. True"
  using GetMultiVarintLen_two
  by unfold_locales (subst PeekLength.simps, simp_all add: EncodeTimeAscending_def encodeTime_eq)

interpretation time_desc_col: key_column "EncodeTimeDescending []" "\<lambda>_. True"
  using GetMultiVarintLen_two
  by unfold_locales (subst PeekLength.simps, simp_all add: EncodeTimeDescending_def encodeTime_eq)

section \<open>Progress\<close>

lemma getBytesLength_pos: "getBytesLength_loop b e k = Inr n \<Longrightarrow> 0 < n"
proof (induction b e k rule: getBytesLength_loop.induct)
  case (1 b e k)
  from "1.prems" show ?case
    using "1.IH" by (subst (asm) getBytesLength_loop.simps) (auto simp: Let_def split: if_splits option.splits)
qed

lemma GetMultiVarintLen_pos: "GetMultiVarintLen_loop b k p = Inr n \<Longrightarrow> p \<le> n"
  by (induction b k p rule: GetMultiVarintLen_loop.induct) (auto split: if_splits)

lemma getDecimalLen_pos: "getDecimalLen b = Inr n \<Longrightarrow> 0 < n"
  by (auto simp: getDecimalLen_def split: if_splits)

lemma PeekLength_pos: "PeekLength b = Inr n \<Longrightarrow> 0 < n"
  by (subst (asm) PeekLength.simps)
    (auto simp: Let_def getBytesLength_def GetMultiVarintLen_def getGeoInvertedIndexKeyLength_def
      getJSONInvertedIndexKeyLength.simps getInvertedIndexKeyLength_def
      split: list.splits if_splits
      dest: getBytesLength_pos getVarintLen_pos getDecimalLen_pos GetMultiVarintLen_pos
        getInvertedIndexKeyLength_pos)

text \<open>The scanning functions only fail with their own errors.\<close>

lemma getVarintLen_err: "getVarintLen b \<noteq> Inl no_progress"
  by (auto simp: getVarintLen_def Let_def split: list.splits)

lemma getBytesLength_err: "getBytesLength_loop b e k \<noteq> Inl no_progress"
proof (induction b e k rule: getBytesLength_loop.induct)
  case (1 b e k)
  show ?case using 1 by (subst getBytesLength_loop.simps) (auto simp: Let_def split: option.split)
qed

lemma getBitArrayWordsLen_err: "getBitArrayWordsLen_loop b t k n \<noteq> Inl no_progress"
proof (induction b t k n rule: getBitArrayWordsLen_loop.induct)
  case (1 b t k n)
  show ?case
    using 1 getVarintLen_err by (subst getBitArrayWordsLen_loop.simps) (auto simp: res_bind_Inl split: list.split)
qed

lemma peekBox2DLength_err: "peekBox2DLength_loop k b n \<noteq> Inl no_progress"
  by (induction k b n rule: peekBox2DLength_loop.induct)
    (auto simp: res_bind_Inl slice_from_def split: list.split if_splits)

lemma getInvertedIndexKeyLength_err: "getInvertedIndexKeyLength_loop b k \<noteq> Inl no_progress"
proof (induction b k rule: getInvertedIndexKeyLength_loop.induct)
  case (1 b k)
  show ?case using 1 by (subst getInvertedIndexKeyLength_loop.simps) (auto simp: Let_def split: option.split)
qed

lemma GetMultiVarintLen_err: "GetMultiVarintLen_loop b k p \<noteq> Inl no_progress"
  using getVarintLen_err by (induction b k p rule: GetMultiVarintLen_loop.induct) (auto simp: res_bind_Inl)

lemma getDecimalLen_err: "getDecimalLen b \<noteq> Inl no_progress"
  using getVarintLen_err
  by (auto simp: getDecimalLen_def res_bind_Inl index_at_def findDecimalTerminator_def
      split: if_splits option.splits)

lemma getGeoInvertedIndexKeyLength_err: "getGeoInvertedIndexKeyLength b \<noteq> Inl no_progress"
  using getVarintLen_err
  by (auto simp: getGeoInvertedIndexKeyLength_def res_bind_Inl index_at_def Let_def split: if_splits)

lemmas scan_err = getVarintLen_err getBytesLength_err getBitArrayWordsLen_err peekBox2DLength_err
  getInvertedIndexKeyLength_err GetMultiVarintLen_err getDecimalLen_err getGeoInvertedIndexKeyLength_err

lemma peek_err:
  "PeekLength b \<noteq> Inl no_progress" "getArrayLength_loop buf dir k \<noteq> Inl no_progress"
  "getJSONInvertedIndexKeyLength j \<noteq> Inl no_progress"
proof (induction b and buf dir k and j
    rule: PeekLength_getArrayLength_loop_getJSONInvertedIndexKeyLength.induct)
  case (1 b)
  show ?case
  proof (cases b)
    case (Cons m rest)
    show ?thesis
      using scan_err 1 [OF Cons]
      by (subst PeekLength.simps)
        (auto simp: Cons res_bind_Inl slice_from_def getBytesLength_def getBitArrayWordsLen_def
          peekBox2DLength_def GetMultiVarintLen_def Let_def split: if_splits)
  qed (simp add: PeekLength.simps)
next
  case (2 buf dir k)
  then show ?case
    using PeekLength_pos [of buf] by (subst getArrayLength_loop.simps)
      (auto simp: res_bind_Inl IsArrayKeyDone_def index_at_def split: if_splits)
next
  case (3 buf)
  then show ?case
    using scan_err by (subst getJSONInvertedIndexKeyLength.simps)
      (auto simp: res_bind_Inl getInvertedIndexKeyLength_def index_at_def split: if_splits)
qed

section \<open>Properties\<close>


text \<open>
  \<open>PeekLength\<close> always returns: a length it returns is positive, so the loop over the elements of
  an array makes progress on every input, well-formed or not.
\<close>

theorem PeekLength_progress:
  "PeekLength b \<noteq> Inr 0 \<and> PeekLength b \<noteq> Inl no_progress \<and> getArrayLength_loop b dir 0 \<noteq> Inl no_progress"
  using PeekLength_pos [of b 0] peek_err by auto

lemma PeekType_int_tag:
  assumes "128 \<le> n" "n \<le> 253" shows "PeekType (of_nat n # bs) = Type_Int"
proof -
  have n: "unat (of_nat n :: byte) = n" using assms by (simp add: unat_of_nat_small)
  have ne: "of_nat n \<noteq> c" if "unat c < 128 \<or> 253 < unat c" for c :: byte using n assms that by auto
  have "of_nat n \<ge> IntMin" "of_nat n \<le> IntMax" using assms n by (simp_all add: word_le_nat_alt)
  then show ?thesis by (simp add: PeekType_eq slowPeekType_def ne)
qed

text \<open>
  The lookup table of \<open>PeekType\<close> agrees with \<open>slowPeekType\<close>, and it tells the encoders apart: an
  encoded integer, byte string or time has its own type, so that \<open>DecodeIfNull\<close> removes an encoded
  NULL and never touches another value.
\<close>

theorem PeekType_encoders:
  "PeekType b = slowPeekType b \<and>
   PeekType (EncodeVarintAscending [] v @ rest) = Type_Int \<and>
   PeekType (EncodeVarintDescending [] v @ rest) = Type_Int \<and>
   PeekType (EncodeBytesAscending [] x @ rest) = Type_Bytes \<and>
   PeekType (EncodeBytesDescending [] x @ rest) = Type_BytesDesc \<and>
   PeekType (EncodeTimeAscending [] t @ rest) = Type_Time \<and>
   DecodeIfNull (EncodeNullAscending [] @ rest) = (rest, True) \<and>
   DecodeIfNull (EncodeNullDescending [] @ rest) = (rest, True) \<and>
   DecodeIfNull (EncodeVarintAscending [] v @ rest) = (EncodeVarintAscending [] v @ rest, False) \<and>
   DecodeIfNull (EncodeBytesAscending [] x @ rest) = (EncodeBytesAscending [] x @ rest, False)"
proof -
  have int: "PeekType (EncodeVarintAscending [] v @ rest) = Type_Int" for v
    using Varint_tags(1) [of v] PeekType_int_tag by auto
  have "PeekType (EncodeBytesAscending [] x @ rest) = Type_Bytes" "PeekType (EncodeBytesDescending [] x @ rest) = Type_BytesDesc"
    by (simp_all add: PeekType_eq slowPeekType_def EncodeBytesAscending_eq EncodeBytesDescending_eq)
  moreover have "PeekType (encodedNull # rest) = Type_Null" "PeekType (encodedNullDesc # rest) = Type_Null"
    by (simp_all add: PeekType_eq slowPeekType_def)
  ultimately show ?thesis
    using int by (simp add: PeekType_eq [of b] EncodeVarintDescending_def EncodeTimeAscending_def encodeTime_eq
        DecodeIfNull_def EncodeNullAscending_def EncodeNullDescending_def)
qed

text \<open>
  Times: a time whose nanoseconds are in range is read back whatever follows it, and the byte order
  of two keys is the (reverse) order of the times, then of what follows.
\<close>

theorem time_codecs:
  assumes "time_ok t" "time_ok u"
  shows "DecodeTimeAscending (EncodeTimeAscending [] t @ rest) = Inr (rest, t) \<and>
    DecodeTimeDescending (EncodeTimeDescending [] t @ rest) = Inr (rest, t) \<and>
    (EncodeTimeAscending [] t @ r < EncodeTimeAscending [] u @ s \<longleftrightarrow> time_less t u \<or> t = u \<and> r < s) \<and>
    (EncodeTimeDescending [] t @ r < EncodeTimeDescending [] u @ s \<longleftrightarrow> time_less u t \<or> t = u \<and> r < s)"
  using assms
  by (intro conjI time_asc.dec_enc time_desc.dec_enc time_asc.enc_less_iff time_desc.enc_less_iff)

theorem time_codecs_witness:
  "DecodeTimeDescending (EncodeTimeDescending [] \<lparr>Unix = - 5, Nanosecond = 7\<rparr> @ [1]) =
     Inr ([1], \<lparr>Unix = - 5, Nanosecond = 7\<rparr>) \<and>
   (EncodeTimeAscending [] \<lparr>Unix = - 5, Nanosecond = 7\<rparr> @ [2] < EncodeTimeAscending [] \<lparr>Unix = 3, Nanosecond = 0\<rparr> @ [1])"
  using time_codecs [of "\<lparr>Unix = - 5, Nanosecond = 7\<rparr>" "\<lparr>Unix = 3, Nanosecond = 0\<rparr>" "[1]" "[2]" "[1]"]
  by (simp add: time_ok_def time_less_def)

lemma int32_roundtrip: "int32_of_int64 (int64_of_int32 v) = v"
  by (rule bit_word_eqI) (auto simp: bit_simps)

text \<open>
  Times with a zone: \<open>TimeTZ\<close> values are read back exactly, both directions, for every time of day
  and offset, since the arithmetic that removes the offset wraps around as the one that added it.
\<close>

theorem timetz_roundtrip:
  "DecodeTimeTZAscending (EncodeTimeTZAscending [] t @ rest) = Inr (rest, t) \<and>
   DecodeTimeTZDescending (EncodeTimeTZDescending [] t @ rest) = Inr (rest, t)"
proof -
  have enc: "encodeTimeTZ [] u n = timeTZMarker # EncodeVarintAscending [] u @ EncodeVarintAscending [] (int64_of_int32 n)" for u n
    unfolding encodeTimeTZ_def by (subst (1 2) encode_varint_append(3)) simp
  have "PeekType (timeTZMarker # bs) = Type_TimeTZ" for bs
    by (simp add: PeekType_eq slowPeekType_def)
  then have "decodeTimeTZ (encodeTimeTZ [] u n @ rest) = Inr (rest, u, n)" for u n
    by (simp add: decodeTimeTZ_def enc varint_asc.dec_enc int32_roundtrip del: of_int_sint)
  then show ?thesis
    by (cases t) (simp add: DecodeTimeTZAscending_def DecodeTimeTZDescending_def EncodeTimeTZAscending_def
        EncodeTimeTZDescending_def)
qed

end
