(* ===== verification/Bit_Array.thy ===== *)
theory Bit_Array
  imports Go_Prelude
begin

text \<open>
  \<open>pkg/util/bitarray/bitarray.go\<close>: bit strings packed into 64-bit words, leftmost bit in the most
  significant position, the last word padded with zeros on the right. The abstract
  specification is a \<^typ>\<open>bool list\<close>; every operation of the package is shown to implement its
  list counterpart. Lengths of slices are natural numbers; \<open>uint\<close> arguments are words, so the
  wrap-around of \<open>SizesForBitLen\<close> is kept.
\<close>

section \<open>The package\<close>

record BitArray =
  words :: "uint64 list"
  lastBitsUsed :: nat

definition empty_bits :: BitArray where
  "empty_bits = \<lparr>words = [], lastBitsUsed = 0\<rparr>"

definition nonEmptyBitLen :: "BitArray \<Rightarrow> nat" where
  "nonEmptyBitLen d = (length (words d) - 1) * 64 + lastBitsUsed d"

definition BitLen :: "BitArray \<Rightarrow> nat" where
  "BitLen d = (if length (words d) = 0 then 0 else nonEmptyBitLen d)"

definition BitArray_IsEmpty :: "BitArray \<Rightarrow> bool" where
  "BitArray_IsEmpty d \<longleftrightarrow> lastBitsUsed d = 0"

definition SizesForBitLen :: "uint64 \<Rightarrow> uint64 \<times> uint64" where
  "SizesForBitLen bitLen =
     (let numWords = (bitLen + 64 - 1) div 64;
          lastBits = bitLen mod 64
      in (numWords, if lastBits = 0 then 64 else lastBits))"

definition EncodingPartsForBitLen :: "uint64 \<Rightarrow> uint64 list \<times> uint64" where
  "EncodingPartsForBitLen bitLen =
     (if bitLen = 0 then ([], 0)
      else case SizesForBitLen bitLen of (numWords, lastBits) \<Rightarrow> (replicate (unat numWords) 0, lastBits))"

definition FromEncodingParts :: "uint64 list \<Rightarrow> uint64 \<Rightarrow> go_error + BitArray" where
  "FromEncodingParts ws lastBits =
     (if lastBits > 64 then Inl (Errorf ''FromEncodingParts: lastBitsUsed must not exceed'')
      else Inr \<lparr>words = ws, lastBitsUsed = unat lastBits\<rparr>)"

definition mustFromEncodingParts :: "uint64 list \<Rightarrow> uint64 \<Rightarrow> go_error + BitArray" where
  "mustFromEncodingParts ws lastBits =
     (case FromEncodingParts ws lastBits of
        Inl e \<Rightarrow> Inl (GoPanic ''FromEncodingParts: lastBitsUsed must not exceed'')
      | Inr ba \<Rightarrow> Inr ba)"

definition EncodingParts :: "BitArray \<Rightarrow> uint64 list \<times> uint64" where
  "EncodingParts d = (words d, of_nat (lastBitsUsed d))"

definition MakeZeroBitArray :: "uint64 \<Rightarrow> go_error + BitArray" where
  "MakeZeroBitArray bitLen =
     (case EncodingPartsForBitLen bitLen of (a, b) \<Rightarrow> mustFromEncodingParts a b)"

text \<open>The mask \<open>^word(0) << (numBitsPerWord - lastBitsUsed)\<close> on the last word.\<close>

definition mask_last :: "uint64 list \<Rightarrow> nat \<Rightarrow> uint64 list" where
  "mask_last ws l = ws[length ws - 1 := (ws ! (length ws - 1)) AND push_bit (64 - l) (NOT 0)]"

text \<open>
  \<open>ToWidth\<close> may extend the slice into its own backing array; \<open>spare\<close> is what the array holds beyond
  the slice, up to its capacity.
\<close>

definition ToWidth :: "uint64 list \<Rightarrow> BitArray \<Rightarrow> uint64 \<Rightarrow> go_error + BitArray" where
  "ToWidth spare d desiredLen =
     (let bitlen = BitLen d
      in if bitlen = unat desiredLen then Inr d
         else if desiredLen = 0 then Inr empty_bits
         else if unat desiredLen < bitlen then
           case EncodingPartsForBitLen desiredLen of (ws, lastBits) \<Rightarrow>
             mustFromEncodingParts (mask_last (take (length ws) (words d)) (unat lastBits)) lastBits
         else case SizesForBitLen desiredLen of (numWords, lastBits) \<Rightarrow>
           let ws = (if unat numWords \<le> length (words d) + length spare
                     then take (unat numWords) (words d @ spare)
                     else words d @ replicate (unat numWords - length (words d)) 0)
           in mustFromEncodingParts ws lastBits)"

text \<open>
  A loop \<open>for k := a; k < b; k++ { ws[k] = f(k, ws[k]) }\<close>.
\<close>

definition for_words :: "nat \<Rightarrow> nat \<Rightarrow> (nat \<Rightarrow> uint64 \<Rightarrow> uint64) \<Rightarrow> uint64 list \<Rightarrow> uint64 list" where
  "for_words a b f ws = fold (\<lambda>k ws. ws[k := f k (ws ! k)]) [a..<b] ws"

definition MakeBitArrayFromInt64 :: "uint64 \<Rightarrow> int64 \<Rightarrow> uint64 \<Rightarrow> go_error + BitArray" where
  "MakeBitArrayFromInt64 bitLen val valWidth =
     (if bitLen = 0 then Inr empty_bits
      else res_bind (MakeZeroBitArray bitLen) (\<lambda>d.
        let n = length (words d)
        in if n = 0 then Inl (GoPanic ''index out of range'')
           else if bitLen < valWidth then
             Inr (d\<lparr>words := (words d)[n - 1 := push_bit (unat (64 - bitLen)) val]\<rparr>)
           else
             let ws = (if val AND push_bit (unat (valWidth - 1)) 1 \<noteq> 0
                       then for_words 0 (n - 1) (\<lambda>k w. NOT 0) (words d) else words d);
                 val = push_bit (unat (64 - valWidth)) val;
                 val = signed_drop_bit (unat (64 - valWidth)) val;
                 ws = ws[n - 1 := push_bit (64 - lastBitsUsed d) val]
             in if unat valWidth > lastBitsUsed d
                then if n < 2 then Inl (GoPanic ''index out of range'')
                     else Inr (d\<lparr>words := ws[n - 2 := signed_drop_bit (lastBitsUsed d) val]\<rparr>)
                else Inr (d\<lparr>words := ws\<rparr>)))"

definition BitArray_AsInt64 :: "BitArray \<Rightarrow> uint64 \<Rightarrow> int64" where
  "BitArray_AsInt64 d nbits =
     (if lastBitsUsed d = 0 then 0
      else
        let n = length (words d);
            lowPart = drop_bit (64 - lastBitsUsed d) (words d ! (n - 1));
            highPart = (if unat nbits > lastBitsUsed d \<and> n > 1
                        then push_bit (lastBitsUsed d) (words d ! (n - 2)) else 0);
            combined = lowPart OR highPart
        in signed_drop_bit (unat (64 - nbits)) (push_bit (unat (64 - nbits)) combined))"

definition LeftShiftAny :: "BitArray \<Rightarrow> int64 \<Rightarrow> go_error + BitArray" where
  "LeftShiftAny d n =
     (let bitlen = BitLen d; dw = words d
      in if n = 0 \<or> bitlen = 0 then Inr d
         else res_bind (MakeZeroBitArray (of_nat bitlen)) (\<lambda>r.
           if sint n > 0 \<and> sint n > sint (of_nat bitlen :: int64) \<or>
              sint n < 0 \<and> sint (- n) > sint (of_nat bitlen :: int64) then Inr r
           else if sint n > 0 then
             let srcWord = unat (n div 64); srcShift = unat (n mod 64);
                 rw = for_words 0 (length dw - srcWord) (\<lambda>j _. push_bit srcShift (dw ! (srcWord + j))) (words r);
                 rw = for_words 0 (length dw - (srcWord + 1))
                        (\<lambda>j w. w OR drop_bit (64 - srcShift) (dw ! (srcWord + 1 + j))) rw
             in Inr (r\<lparr>words := rw\<rparr>)
           else
             let n = - n;
                 dstWord = unat (n div 64); srcShift = unat (n mod 64);
                 rw = for_words dstWord (length (words r)) (\<lambda>j _. drop_bit srcShift (dw ! (j - dstWord))) (words r);
                 rw = for_words (dstWord + 1) (length (words r))
                        (\<lambda>j w. w OR push_bit (64 - srcShift) (dw ! (j - (dstWord + 1)))) rw;
                 rw = (if length rw > 0 then mask_last rw (lastBitsUsed r) else rw)
             in Inr (r\<lparr>words := rw\<rparr>)))"

text \<open>\<open>byteReprs\<close>: the eight binary digits of a byte.\<close>

definition bit_char :: "bool \<Rightarrow> char" where
  "bit_char b = (if b then CHR ''1'' else CHR ''0'')"

definition byteReprs :: "uint64 \<Rightarrow> string" where
  "byteReprs i = map (\<lambda>k. bit_char (bit i k)) [7, 6, 5, 4, 3, 2, 1, 0]"

definition BitArray_Format :: "BitArray \<Rightarrow> string" where
  "BitArray_Format d =
     (let bitLen = BitLen d;
          full = concat (map (\<lambda>i. let w = words d ! i in
            byteReprs (drop_bit 56 w AND 0xff) @ byteReprs (drop_bit 48 w AND 0xff) @
            byteReprs (drop_bit 40 w AND 0xff) @ byteReprs (drop_bit 32 w AND 0xff) @
            byteReprs (drop_bit 24 w AND 0xff) @ byteReprs (drop_bit 16 w AND 0xff) @
            byteReprs (drop_bit 8 w AND 0xff) @ byteReprs (drop_bit 0 w AND 0xff)) [0..<bitLen div 64]);
          remainingBits = bitLen mod 64
      in if remainingBits > 0 then
           let lastWord = words d ! (bitLen div 64);
               minShift = 64 - 1 - remainingBits
           in full @ map (\<lambda>i. bit_char (drop_bit i lastWord AND 1 \<noteq> 0)) (rev [minShift + 1..<64])
         else full)"

text \<open>
  The two parsers share the shape of their loop: \<open>step\<close> bits per character, the first at \<open>64 - step\<close>.
\<close>

definition binary_digit :: "char \<Rightarrow> uint64 option" where
  "binary_digit c = (if c = CHR ''0'' then Some 0 else if c = CHR ''1'' then Some 1 else None)"

definition hex_digit :: "char \<Rightarrow> uint64 option" where
  "hex_digit c =
     (if of_char c \<ge> (48 :: nat) \<and> of_char c \<le> (57 :: nat) then Some (of_nat (of_char c - 48))
      else if of_char c \<ge> (97 :: nat) \<and> of_char c \<le> (102 :: nat) then Some (of_nat (of_char c - 97) + 10)
      else if of_char c \<ge> (65 :: nat) \<and> of_char c \<le> (70 :: nat) then Some (of_nat (of_char c - 65) + 10)
      else None)"

fun parse_loop :: "(char \<Rightarrow> uint64 option) \<Rightarrow> nat \<Rightarrow> string \<Rightarrow> nat \<Rightarrow> nat \<Rightarrow> uint64 \<Rightarrow> uint64 list \<Rightarrow> go_error + uint64 list" where
  "parse_loop digit step [] wordIdx bitIdx curWord ws =
     (if bitIdx > 0 then Inr (ws[wordIdx := curWord]) else Inr ws)"
| "parse_loop digit step (c # cs) wordIdx bitIdx curWord ws =
     (case digit c of
        None \<Rightarrow> Inl (Errorf ''could not parse string as bit array'')
      | Some bitVal \<Rightarrow>
          let curWord = curWord OR push_bit (64 - step - bitIdx) bitVal;
              bitIdx = (bitIdx + step) mod 64
          in if bitIdx = 0 then parse_loop digit step cs (wordIdx + 1) bitIdx 0 (ws[wordIdx := curWord])
             else parse_loop digit step cs wordIdx bitIdx curWord ws)"

definition parseFromBinary :: "string \<Rightarrow> go_error + BitArray" where
  "parseFromBinary s =
     (case EncodingPartsForBitLen (of_nat (length s)) of (ws, lastBits) \<Rightarrow>
        res_bind (parse_loop binary_digit 1 s 0 0 0 ws) (\<lambda>ws. FromEncodingParts ws lastBits))"

definition parseFromHex :: "string \<Rightarrow> go_error + BitArray" where
  "parseFromHex s =
     (case EncodingPartsForBitLen (of_nat (length s) * 4) of (ws, lastBits) \<Rightarrow>
        res_bind (parse_loop hex_digit 4 s 0 0 0 ws) (\<lambda>ws. FromEncodingParts ws lastBits))"

definition BitArray_Parse :: "string \<Rightarrow> go_error + BitArray" where
  "BitArray_Parse s =
     (case s of [] \<Rightarrow> Inr empty_bits
      | c # cs \<Rightarrow> if c = CHR ''x'' \<or> c = CHR ''X'' then parseFromHex cs else parseFromBinary s)"

text \<open>The loop of \<open>Concat\<close> over the words of the right-hand side.\<close>

fun concat_loop :: "nat \<Rightarrow> uint64 list \<Rightarrow> nat \<Rightarrow> uint64 \<Rightarrow> uint64 list \<Rightarrow> uint64 list \<times> nat \<times> uint64" where
  "concat_loop rhsShift [] targetWordIdx trailingBits ws = (ws, targetWordIdx, trailingBits)"
| "concat_loop rhsShift (w # rws) targetWordIdx trailingBits ws =
     (let headingBits = drop_bit rhsShift w;
          combinedBits = trailingBits OR headingBits
      in concat_loop rhsShift rws (targetWordIdx + 1) (push_bit (64 - rhsShift) w) (ws[targetWordIdx := combinedBits]))"

definition BitArray_Concat :: "BitArray \<Rightarrow> BitArray \<Rightarrow> BitArray" where
  "BitArray_Concat lhs rhs =
     (if lastBitsUsed lhs = 0 then rhs
      else if lastBitsUsed rhs = 0 then lhs
      else
        let n = (nonEmptyBitLen lhs + nonEmptyBitLen rhs + 64 - 1) div 64;
            ws = words lhs @ replicate (n - length (words lhs)) 0
        in if lastBitsUsed lhs = 64 then
             \<lparr>words = take (length (words lhs)) ws @ words rhs @ drop (length (words lhs) + length (words rhs)) ws,
              lastBitsUsed = lastBitsUsed rhs\<rparr>
           else
             let target = length (words lhs) - 1
             in case concat_loop (lastBitsUsed lhs) (words rhs) target (ws ! target) ws of (ws, target, trailing) \<Rightarrow>
                  let lastBits = lastBitsUsed lhs + lastBitsUsed rhs;
                      ws = (if lastBits > 64 then ws[target := trailing] else ws);
                      lastBits = lastBits mod 64
                  in \<lparr>words = ws, lastBitsUsed = (if lastBits = 0 then 64 else lastBits)\<rparr>)"

definition BitArray_Not :: "BitArray \<Rightarrow> BitArray" where
  "BitArray_Not d =
     (let ws = for_words 0 (length (words d)) (\<lambda>k w. NOT w) (words d)
      in if lastBitsUsed d > 0 then d\<lparr>words := mask_last ws (lastBitsUsed d)\<rparr> else d\<lparr>words := ws\<rparr>)"

text \<open>The three logical operations loop over the words of the right-hand side, and panic when it has more.\<close>

definition zip_words :: "(uint64 \<Rightarrow> uint64 \<Rightarrow> uint64) \<Rightarrow> BitArray \<Rightarrow> BitArray \<Rightarrow> go_error + BitArray" where
  "zip_words f lhs rhs =
     (if length (words rhs) > length (words lhs) then Inl (GoPanic ''index out of range'')
      else Inr (lhs\<lparr>words := for_words 0 (length (words rhs)) (\<lambda>i w. f w (words rhs ! i)) (words lhs)\<rparr>))"

definition BitArray_And :: "BitArray \<Rightarrow> BitArray \<Rightarrow> go_error + BitArray" where
  "BitArray_And = zip_words (\<lambda>v w. v AND w)"

definition BitArray_Or :: "BitArray \<Rightarrow> BitArray \<Rightarrow> go_error + BitArray" where
  "BitArray_Or = zip_words (\<lambda>v w. v OR w)"

definition BitArray_Xor :: "BitArray \<Rightarrow> BitArray \<Rightarrow> go_error + BitArray" where
  "BitArray_Xor = zip_words (\<lambda>v w. v XOR w)"

fun compare_words :: "uint64 list \<Rightarrow> uint64 list \<Rightarrow> int" where
  "compare_words [] [] = 0"
| "compare_words [] (rw # rws) = - 1"
| "compare_words (lw # lws) [] = 1"
| "compare_words (lw # lws) (rw # rws) =
     (if lw < rw then - 1 else if lw > rw then 1 else compare_words lws rws)"

definition BitArray_Compare :: "BitArray \<Rightarrow> BitArray \<Rightarrow> int" where
  "BitArray_Compare lhs rhs =
     (let c = compare_words (words lhs) (words rhs)
      in if c \<noteq> 0 then c
         else if lastBitsUsed lhs < lastBitsUsed rhs then - 1
         else if lastBitsUsed lhs > lastBitsUsed rhs then 1
         else 0)"

text \<open>\<open>Rand\<close>, given the words that the generator returns.\<close>

definition BitArray_Rand :: "(nat \<Rightarrow> uint64) \<Rightarrow> uint64 \<Rightarrow> go_error + BitArray" where
  "BitArray_Rand rng bitLen =
     res_bind (MakeZeroBitArray bitLen) (\<lambda>d.
       let ws = for_words 0 (length (words d)) (\<lambda>i w. rng i) (words d);
           n = length ws
       in Inr (d\<lparr>words := if n > 0 then ws[n - 1 := push_bit (64 - lastBitsUsed d) (ws ! (n - 1))] else ws\<rparr>))"

definition BitArray_Next :: "BitArray \<Rightarrow> BitArray" where
  "BitArray_Next d =
     (if lastBitsUsed d = 0 then \<lparr>words = [0], lastBitsUsed = 1\<rparr>
      else if lastBitsUsed d < 64 then d\<lparr>lastBitsUsed := lastBitsUsed d + 1\<rparr>
      else \<lparr>words = words d @ [0], lastBitsUsed = 1\<rparr>)"

definition GetBitAtIndex :: "BitArray \<Rightarrow> int \<Rightarrow> go_error + int" where
  "GetBitAtIndex d index =
     (if index < 0 \<or> nat index \<ge> BitLen d then Inl (Errorf ''GetBitAtIndex: bit index out of valid range'')
      else if (words d ! (nat index div 64)) AND push_bit (64 - 1 - nat index mod 64) 1 \<noteq> 0 then Inr 1
      else Inr 0)"

definition SetBitAtIndex :: "BitArray \<Rightarrow> int \<Rightarrow> int64 \<Rightarrow> go_error + BitArray" where
  "SetBitAtIndex d index toSet =
     (if index < 0 \<or> nat index \<ge> BitLen d then Inl (Errorf ''SetBitAtIndex: bit index out of valid range'')
      else
        let k = nat index div 64; s = 64 - 1 - nat index mod 64;
            ws = (words d)[k := (words d ! k) AND NOT (push_bit s 1)];
            ws = ws[k := (ws ! k) OR push_bit s toSet]
        in Inr (d\<lparr>words := ws\<rparr>))"

section \<open>Specification: lists of bits\<close>

definition bget :: "uint64 list \<Rightarrow> nat \<Rightarrow> bool" where
  "bget ws i = bit (ws ! (i div 64)) (63 - i mod 64)"

lemma bget_at: "q < 64 \<Longrightarrow> bget ws (64 * k + q) = bit (ws ! k) (63 - q)"
  by (simp add: bget_def)

lemma bget_cases:
  obtains k q where "i = 64 * k + q" "q < (64 :: nat)" "i div 64 = k" "i mod 64 = q"
  by (rule that [of "i div 64" "i mod 64"]) simp_all

definition bits :: "BitArray \<Rightarrow> bool list" where
  "bits d = map (bget (words d)) [0..<BitLen d]"

text \<open>The representation invariant; the last clause says that the slice fits in memory.\<close>

definition wf_bits :: "BitArray \<Rightarrow> bool" where
  "wf_bits d \<longleftrightarrow> lastBitsUsed d \<le> 64 \<and> (words d = [] \<longleftrightarrow> lastBitsUsed d = 0) \<and>
     (words d \<noteq> [] \<longrightarrow> take_bit (64 - lastBitsUsed d) (last (words d)) = 0) \<and>
     length (words d) < 2 ^ 56"

lemma length_bits [simp]: "length (bits d) = BitLen d"
  by (simp add: bits_def)

lemma nth_bits [simp]: "i < BitLen d \<Longrightarrow> bits d ! i = bget (words d) i"
  by (simp add: bits_def)

lemma bits_eqI: "BitLen d = length xs \<Longrightarrow> (\<And>i. i < length xs \<Longrightarrow> bget (words d) i = xs ! i) \<Longrightarrow> bits d = xs"
  by (rule nth_equalityI) simp_all

lemma BitLen_words:
  assumes "wf_bits d"
  shows "length (words d) = (BitLen d + 63) div 64 \<and> BitLen d \<le> 64 * length (words d) \<and>
    64 * length (words d) < BitLen d + 64 \<and> (BitLen d = 0 \<longleftrightarrow> words d = []) \<and> BitLen d < 2 ^ 62"
proof (cases "words d = []")
  case True
  then show ?thesis by (simp add: BitLen_def)
next
  case False
  then obtain n where n: "length (words d) = Suc n" by (cases "words d") auto
  with assms False have "1 \<le> lastBitsUsed d" "lastBitsUsed d \<le> 64" "Suc n < 2 ^ 56" "BitLen d = n * 64 + lastBitsUsed d"
    by (auto simp: wf_bits_def BitLen_def nonEmptyBitLen_def)
  note l = this
  then have "(BitLen d + 63) div 64 = Suc n" by (intro div_nat_eqI) simp_all
  moreover have "n * 64 + lastBitsUsed d < 2 ^ 62" using l(2,3) by simp
  ultimately show ?thesis using n False l by simp
qed

lemma BitLen_last:
  "words d \<noteq> [] \<Longrightarrow> BitLen d = 64 * (length (words d) - 1) + lastBitsUsed d"
  by (simp add: BitLen_def nonEmptyBitLen_def)

lemma last_pos: "wf_bits d \<Longrightarrow> words d \<noteq> [] \<Longrightarrow> 1 \<le> lastBitsUsed d \<and> lastBitsUsed d \<le> 64"
  by (simp add: wf_bits_def Suc_le_eq)

lemma padding_zero:
  assumes "wf_bits d" "BitLen d \<le> i" "i < 64 * length (words d)"
  shows "\<not> bget (words d) i"
proof -
  let ?n = "length (words d) - 1"
  have ne: "words d \<noteq> []" using assms(3) by auto
  then have b: "BitLen d = 64 * ?n + lastBitsUsed d" "1 \<le> lastBitsUsed d"
    using BitLen_last last_pos [OF assms(1)] by blast+
  have q: "i div 64 = ?n" using assms(2,3) b by (intro div_nat_eqI) auto
  have "i mod 64 = i - 64 * ?n" using q by (metis minus_mult_div_eq_mod)
  then have "63 - i mod 64 < 64 - lastBitsUsed d" using assms(2,3) b by simp
  moreover have "take_bit (64 - lastBitsUsed d) (last (words d)) = 0" using assms(1) ne by (simp add: wf_bits_def)
  ultimately have "\<not> bit (last (words d)) (63 - i mod 64)"
    by (metis bit_0_eq bit_take_bit_iff bot_apply bot_bool_def)
  then show ?thesis using q ne by (simp add: bget_def last_conv_nth)
qed

text \<open>A representation is well formed when the bits beyond its length are zero.\<close>

lemma wf_bitsI:
  assumes "1 \<le> lastBitsUsed d" "lastBitsUsed d \<le> 64" "words d \<noteq> []" "length (words d) < 2 ^ 56"
    and pad: "\<And>i. BitLen d \<le> i \<Longrightarrow> i < 64 * length (words d) \<Longrightarrow> \<not> bget (words d) i"
  shows "wf_bits d"
proof -
  let ?n = "length (words d) - 1"
  have len: "BitLen d = 64 * ?n + lastBitsUsed d" using assms by (simp add: BitLen_def nonEmptyBitLen_def)
  have "\<not> bit (last (words d)) k" if "k < 64 - lastBitsUsed d" for k
  proof -
    have "(64 * ?n + (63 - k)) div 64 = ?n" "(64 * ?n + (63 - k)) mod 64 = 63 - k" by simp_all
    moreover have "\<not> bget (words d) (64 * ?n + (63 - k))"
      using that assms(1,3) len by (intro pad) (auto simp: Suc_le_eq length_greater_0_conv [symmetric] simp del: length_greater_0_conv)
    ultimately show ?thesis using assms(1,3) that by (simp add: bget_def last_conv_nth)
  qed
  then have "take_bit (64 - lastBitsUsed d) (last (words d)) = 0"
    by (intro bit_word_eqI) (auto simp: bit_take_bit_iff)
  then show ?thesis using assms by (auto simp: wf_bits_def)
qed

lemma words_eqI:
  assumes "length ws = length vs" "\<And>i. i < 64 * length ws \<Longrightarrow> bget ws i = bget vs i"
  shows "ws = vs"
proof (rule nth_equalityI [OF assms(1)], rule bit_word_eqI)
  fix k n :: nat
  assume k: "k < length ws" and "n < LENGTH(64)"
  then have n: "n < 64" by simp
  have "64 * k + (63 - n) < 64 * length ws" using k n by auto
  from assms(2) [OF this] n show "bit (ws ! k) n = bit (vs ! k) n"
    using bget_at [of "63 - n" ws k] bget_at [of "63 - n" vs k] by simp
qed

lemma bits_inj:
  assumes "wf_bits d" "wf_bits e" "bits d = bits e"
  shows "d = e"
proof -
  have len: "BitLen d = BitLen e" using assms(3) by (metis length_bits)
  then have lw: "length (words d) = length (words e)" using BitLen_words assms by metis
  have "bget (words d) i = bget (words e) i" if "i < 64 * length (words d)" for i
  proof (cases "i < BitLen d")
    case True
    then show ?thesis using nth_bits [of i d] nth_bits [of i e] assms(3) len by metis
  next
    case False
    then show ?thesis using that padding_zero [OF assms(1)] padding_zero [OF assms(2)] len lw by simp
  qed
  then have w: "words d = words e" by (rule words_eqI [OF lw])
  have "lastBitsUsed d = lastBitsUsed e"
  proof (cases "words d = []")
    case True
    then show ?thesis using w assms(1,2) by (simp add: wf_bits_def)
  next
    case False
    with w BitLen_last [of d] BitLen_last [of e]
    have "BitLen d = 64 * (length (words d) - 1) + lastBitsUsed d"
      "BitLen e = 64 * (length (words d) - 1) + lastBitsUsed e" by simp_all
    with len show ?thesis by linarith
  qed
  with w show ?thesis by simp
qed

text \<open>The shape that a bit array of a given length has.\<close>

definition last_of :: "nat \<Rightarrow> nat" where
  "last_of n = (if n = 0 then 0 else if n mod 64 = 0 then 64 else n mod 64)"

definition mk :: "nat \<Rightarrow> uint64 list \<Rightarrow> BitArray" where
  "mk n ws = \<lparr>words = ws, lastBitsUsed = last_of n\<rparr>"

lemma words_mk [simp]: "words (mk n ws) = ws" and last_mk [simp]: "lastBitsUsed (mk n ws) = last_of n"
  by (simp_all add: mk_def)

lemma last_of_bounds: "0 < n \<Longrightarrow> 1 \<le> last_of n \<and> last_of n \<le> 64 \<and> n = 64 * ((n + 63) div 64 - 1) + last_of n"
proof -
  assume "0 < n"
  obtain k q where kq: "n = 64 * k + q" "q < 64" by (rule bget_cases)
  show ?thesis
  proof (cases "q = 0")
    case True
    then obtain k' where "k = Suc k'" using kq \<open>0 < n\<close> by (cases k) auto
    with True kq show ?thesis by (simp add: last_of_def)
  next
    case False
    then have "(n + 63) div 64 = Suc k" using kq by (intro div_nat_eqI) auto
    then show ?thesis using kq False by (simp add: last_of_def)
  qed
qed

lemma last_of_unique: "1 \<le> l \<Longrightarrow> l \<le> 64 \<Longrightarrow> last_of (64 * m + l) = l"
  by (cases "l = 64") (auto simp: last_of_def)

lemma mk_words: assumes "wf_bits d" shows "d = mk (BitLen d) (words d)"
proof (cases "words d = []")
  case True
  then show ?thesis using assms by (simp add: mk_def last_of_def BitLen_def wf_bits_def)
next
  case False
  with assms show ?thesis
    using last_of_unique [of "lastBitsUsed d" "length (words d) - 1"] last_pos [of d] BitLen_last [of d]
    by (simp add: mk_def)
qed

lemma BitLen_mk: assumes "length ws = (n + 63) div 64" shows "BitLen (mk n ws) = n"
proof (cases "n = 0")
  case True
  then show ?thesis using assms by (simp add: BitLen_def)
next
  case False
  then have "ws \<noteq> []" using assms by (auto simp: div_eq_0_iff)
  then show ?thesis using last_of_bounds [of n] False assms BitLen_last [of "mk n ws"] by simp
qed

lemma wf_mk:
  assumes "length ws = (n + 63) div 64" "length ws < 2 ^ 56"
    and "\<And>i. n \<le> i \<Longrightarrow> i < 64 * length ws \<Longrightarrow> \<not> bget ws i"
  shows "wf_bits (mk n ws)"
proof (cases "n = 0")
  case True
  then show ?thesis using assms by (simp add: wf_bits_def last_of_def)
next
  case False
  then have ne: "ws \<noteq> []" using assms(1) by (auto simp: div_eq_0_iff)
  then show ?thesis
    using assms last_of_bounds [of n] False by (intro wf_bitsI) (simp_all add: BitLen_mk)
qed

lemma bits_mk:
  "length ws = (n + 63) div 64 \<Longrightarrow> n = length xs \<Longrightarrow> (\<And>i. i < n \<Longrightarrow> bget ws i = xs ! i) \<Longrightarrow> bits (mk n ws) = xs"
  by (rule bits_eqI) (simp_all add: BitLen_mk)

text \<open>
  A result of the right shape whose bits are those of \<open>xs\<close> followed by zeros is well formed and
  denotes \<open>xs\<close>.
\<close>

definition denotes :: "BitArray \<Rightarrow> bool list \<Rightarrow> bool" where
  "denotes d xs \<longleftrightarrow> wf_bits d \<and> bits d = xs"

lemma denotes_mk:
  assumes "length ws = (length xs + 63) div 64" "length ws < 2 ^ 56"
    and "\<And>i. i < 64 * length ws \<Longrightarrow> bget ws i = (i < length xs \<and> xs ! i)"
  shows "denotes (mk (length xs) ws) xs"
proof -
  have "length xs \<le> 64 * length ws" unfolding assms(1) by linarith
  then show ?thesis unfolding denotes_def
    using assms by (intro conjI wf_mk bits_mk) auto
qed

lemma bget_bits: "wf_bits d \<Longrightarrow> i < 64 * length (words d) \<Longrightarrow> bget (words d) i = (i < BitLen d \<and> bits d ! i)"
  using padding_zero [of d i] by (cases "i < BitLen d") auto

lemma for_words_nth:
  "i < length ws \<Longrightarrow> for_words a b f ws ! i = (if a \<le> i \<and> i < b then f i (ws ! i) else ws ! i)"
proof (induction b)
  case (Suc b)
  have len: "length (fold (\<lambda>k ws. ws[k := f k (ws ! k)]) xs ws) = length ws" for xs
    by (induction xs arbitrary: ws) auto
  show ?case
  proof (cases "a \<le> b")
    case True
    then have "for_words a (Suc b) f ws = (for_words a b f ws)[b := f b (for_words a b f ws ! b)]"
      by (simp add: for_words_def)
    then show ?thesis using Suc True len [of "[a..<b]"]
      by (auto simp: nth_list_update less_Suc_eq for_words_def)
  next
    case False
    then show ?thesis using Suc by (auto simp: for_words_def)
  qed
qed (simp add: for_words_def)

lemma length_for_words [simp]: "length (for_words a b f ws) = length ws"
proof -
  have "length (fold (\<lambda>k ws. ws[k := f k (ws ! k)]) xs ws) = length ws" for xs
    by (induction xs arbitrary: ws) auto
  then show ?thesis by (simp add: for_words_def)
qed

lemma bget_for_words:
  assumes "i < 64 * length ws"
  shows "bget (for_words a b f ws) i =
    (if a \<le> i div 64 \<and> i div 64 < b then bit (f (i div 64) (ws ! (i div 64))) (63 - i mod 64) else bget ws i)"
  using assms by (simp add: bget_def for_words_nth div_less_iff_less_mult)

lemma bit_shifted:
  assumes "q < 64" "s \<le> 64"
  shows "bit (push_bit (64 - s) a OR drop_bit s b :: uint64) (63 - q) =
    (if q < s then bit a (s - 1 - q) else bit b (63 - (q - s)))"
  using assms by (auto simp: bit_or_iff bit_push_bit_iff bit_drop_bit_eq add.commute [of s] dest: bit_imp_le_length)

lemma length_mask_last [simp]: "length (mask_last ws l) = length ws"
  by (simp add: mask_last_def)

lemma mask_last_Nil [simp]: "mask_last [] l = []"
  by (simp add: mask_last_def)

lemma bget_mask_last:
  assumes "i < 64 * length ws" "l \<le> 64"
  shows "bget (mask_last ws l) i = (bget ws i \<and> i < 64 * (length ws - 1) + l)"
proof -
  obtain k q where kq: "i = 64 * k + q" "q < 64" by (rule bget_cases)
  have k: "k < length ws" using kq assms(1) by linarith
  have m: "bit (push_bit (64 - l) (NOT 0) :: uint64) (63 - q) \<longleftrightarrow> q < l"
    using kq(2) assms(2) by (auto simp: bit_push_bit_iff bit_not_iff bit_mask_iff)
  show ?thesis
  proof (cases "k = length ws - 1")
    case True
    then show ?thesis using kq k m by (simp add: bget_at mask_last_def bit_and_iff)
  next
    case False
    then have "64 * k + q < 64 * (length ws - 1) + l" using k kq(2) by linarith
    with False show ?thesis using kq k by (simp add: bget_at mask_last_def)
  qed
qed

lemma bget_zero: "i < 64 * n \<Longrightarrow> \<not> bget (replicate n 0) i"
  by (simp add: bget_def div_less_iff_less_mult)

section \<open>Each operation implements its list counterpart\<close>

lemma Sizes_eq:
  assumes "0 < n" "n < 2 ^ 62"
  shows "SizesForBitLen (of_nat n) = (of_nat ((n + 63) div 64), of_nat (last_of n))"
proof -
  have u: "unat (of_nat n :: uint64) = n" "unat (of_nat n + 63 :: uint64) = n + 63"
    using assms by (simp_all add: unat_of_nat_small unat_word_ariths)
  have "unat ((of_nat n + 64 - 1) div 64 :: uint64) = (n + 63) div 64"
    using u by (simp add: unat_div add.commute [of 63])
  moreover have "unat (of_nat n mod 64 :: uint64) = n mod 64" using u by (simp add: unat_mod)
  moreover have "of_nat n mod 64 = (0 :: uint64) \<longleftrightarrow> n mod 64 = 0"
    using calculation(2) by (metis unat_eq_zero)
  ultimately have "(of_nat n + 64 - 1) div 64 = (of_nat ((n + 63) div 64) :: uint64)"
    "of_nat n mod 64 = (of_nat (n mod 64) :: uint64)" "of_nat n mod 64 = (0 :: uint64) \<longleftrightarrow> n mod 64 = 0"
    by (auto simp: of_nat_unat_eq)
  then show ?thesis using assms by (simp add: SizesForBitLen_def Let_def last_of_def)
qed

lemma last_of_word: "unat (of_nat (last_of n) :: uint64) = last_of n" "\<not> (64 :: uint64) < of_nat (last_of n)"
proof -
  have "last_of n \<le> 64" using last_of_bounds [of n] by (cases n) (auto simp: last_of_def)
  then show "unat (of_nat (last_of n) :: uint64) = last_of n" by (simp add: unat_of_nat_small)
  then show "\<not> (64 :: uint64) < of_nat (last_of n)" using \<open>last_of n \<le> 64\<close> by (simp add: word_less_nat_alt)
qed

lemma words_word: "n < 2 ^ 62 \<Longrightarrow> unat (of_nat ((n + 63) div 64) :: uint64) = (n + 63) div 64"
  by (simp add: unat_of_nat_small div_less_iff_less_mult)

lemma Parts_eq: "n < 2 ^ 62 \<Longrightarrow>
    EncodingPartsForBitLen (of_nat n) = (replicate ((n + 63) div 64) 0, of_nat (last_of n))"
proof (cases "n = 0")
  case False
  assume n: "n < 2 ^ 62"
  then have "unat (of_nat n :: uint64) = n" by (intro unat_of_nat_small) simp
  then have "(of_nat n :: uint64) \<noteq> 0" using False by auto
  then show ?thesis using n False by (simp add: EncodingPartsForBitLen_def Sizes_eq words_word)
qed (simp add: EncodingPartsForBitLen_def last_of_def)

lemma FromParts_eq:
  "FromEncodingParts ws (of_nat (last_of n)) = Inr (mk n ws)"
  "mustFromEncodingParts ws (of_nat (last_of n)) = Inr (mk n ws)"
  by (simp_all add: FromEncodingParts_def mustFromEncodingParts_def mk_def last_of_word)

lemma MakeZero_eq: "n < 2 ^ 62 \<Longrightarrow> MakeZeroBitArray (of_nat n) = Inr (mk n (replicate ((n + 63) div 64) 0))"
  by (simp add: MakeZeroBitArray_def Parts_eq FromParts_eq)

lemma MakeZero_denotes:
  assumes "n < 2 ^ 61"
  shows "\<exists>d. MakeZeroBitArray (of_nat n) = Inr d \<and> denotes d (replicate n False)"
proof -
  have "denotes (mk (length (replicate n False)) (replicate ((n + 63) div 64) 0)) (replicate n False)"
    using assms by (intro denotes_mk) (auto simp: bget_zero div_less_iff_less_mult)
  then show ?thesis using assms MakeZero_eq [of n] by simp
qed

lemma Not_denotes: assumes "wf_bits d" shows "denotes (BitArray_Not d) (map Not (bits d))"
proof (cases "words d = []")
  case True
  with assms show ?thesis
    by (simp add: denotes_def BitArray_Not_def wf_bits_def bits_def BitLen_def for_words_def Let_def)
next
  case False
  let ?ws = "mask_last (for_words 0 (length (words d)) (\<lambda>k w. NOT w) (words d)) (lastBitsUsed d)"
  have l: "lastBitsUsed d = last_of (BitLen d)" using mk_words [OF assms] by (metis last_mk)
  have "BitArray_Not d = mk (length (map Not (bits d))) ?ws"
    using last_pos [OF assms False] l by (simp add: BitArray_Not_def mk_def Let_def)
  moreover have "denotes (mk (length (map Not (bits d))) ?ws) (map Not (bits d))"
  proof (rule denotes_mk)
    fix i assume "i < 64 * length ?ws"
    then have i: "i < 64 * length (words d)" by simp
    then have "bget (for_words 0 (length (words d)) (\<lambda>k w. NOT w) (words d)) i = (\<not> bget (words d) i)"
      using diff_less_Suc [of 63 "i mod 64"]
      by (simp add: bget_for_words div_less_iff_less_mult bit_not_iff) (simp add: bget_def)
    then show "bget ?ws i = (i < length (map Not (bits d)) \<and> map Not (bits d) ! i)"
      using i last_pos [OF assms False] BitLen_last [OF False] by (auto simp: bget_mask_last)
  qed (use BitLen_words [OF assms] assms in \<open>auto simp: wf_bits_def\<close>)
  ultimately show ?thesis by simp
qed

lemma zip_denotes:
  assumes "wf_bits d" "wf_bits e" "BitLen d = BitLen e"
    and f: "\<And>v w n. n < 64 \<Longrightarrow> bit (f v w) n = g (bit v n) (bit w n)" and g: "\<not> g False False"
  shows "\<exists>r. zip_words f d e = Inr r \<and> denotes r (map2 g (bits d) (bits e))"
proof -
  let ?ws = "for_words 0 (length (words e)) (\<lambda>i w. f w (words e ! i)) (words d)"
  have lw: "length (words e) = length (words d)" using BitLen_words assms by metis
  have len: "length (map2 g (bits d) (bits e)) = BitLen d" using assms(3) by simp
  have "d\<lparr>words := ?ws\<rparr> = mk (BitLen d) ?ws" using mk_words [OF assms(1)]
    by (cases d) (simp add: mk_def)
  then have eq: "zip_words f d e = Inr (mk (length (map2 g (bits d) (bits e))) ?ws)"
    unfolding len using lw by (simp add: zip_words_def)
  have "denotes (mk (length (map2 g (bits d) (bits e))) ?ws) (map2 g (bits d) (bits e))"
  proof (rule denotes_mk)
    fix i assume "i < 64 * length ?ws"
    then have i: "i < 64 * length (words d)" by simp
    have "bget ?ws i = g (bget (words d) i) (bget (words e) i)"
      using i f [of "63 - i mod 64"] diff_less_Suc [of 63 "i mod 64"] lw
      by (simp add: bget_for_words div_less_iff_less_mult) (simp add: bget_def)
    then show "bget ?ws i = (i < length (map2 g (bits d) (bits e)) \<and> map2 g (bits d) (bits e) ! i)"
      using bget_bits [OF assms(1) i] bget_bits [OF assms(2), of i] i lw assms(3) g by auto
  qed (use BitLen_words [OF assms(1)] assms in \<open>auto simp: wf_bits_def\<close>)
  then show ?thesis using eq by blast
qed

lemma Next_denotes:
  assumes "wf_bits d" "length (words d) + 1 < 2 ^ 56"
  shows "denotes (BitArray_Next d) (bits d @ [False])"
proof -
  define ws where "ws = (if lastBitsUsed d = 0 \<or> lastBitsUsed d = 64 then words d @ [0] else words d)"
  have w: "words d = [] \<longleftrightarrow> lastBitsUsed d = 0" using assms(1) by (simp add: wf_bits_def)
  have l: "BitLen d = (if words d = [] then 0 else 64 * (length (words d) - 1) + lastBitsUsed d)"
    using BitLen_last [of d] by (simp add: BitLen_def)
  have lw: "length ws = (BitLen d + 1 + 63) div 64"
  proof (cases "words d = []")
    case False
    then obtain m where m: "length (words d) = Suc m" by (cases "words d") auto
    have b: "1 \<le> lastBitsUsed d" "lastBitsUsed d \<le> 64" using last_pos [OF assms(1) False] by blast+
    have "(64 * m + lastBitsUsed d + 1 + 63) div 64 = (if lastBitsUsed d = 64 then Suc (Suc m) else Suc m)"
      using b by (intro div_nat_eqI) auto
    then show ?thesis using l m b False by (simp add: ws_def)
  qed (use l w in \<open>simp add: ws_def\<close>)
  have "BitArray_Next d = mk (length (bits d @ [False])) ws"
  proof (cases "words d = []")
    case True
    then show ?thesis using w l by (simp add: BitArray_Next_def mk_def ws_def last_of_def)
  next
    case False
    then obtain m where "length (words d) = Suc m" by (cases "words d") auto
    with False w l last_pos [OF assms(1)] show ?thesis
      using last_of_unique [of "lastBitsUsed d + 1" m] last_of_unique [of 1 "Suc m"]
      by (cases "lastBitsUsed d = 64") (auto simp: BitArray_Next_def mk_def ws_def)
  qed
  moreover have "denotes (mk (length (bits d @ [False])) ws) (bits d @ [False])"
  proof (rule denotes_mk)
    fix i assume i: "i < 64 * length ws"
    have "bget ws i = (if i < 64 * length (words d) then bget (words d) i else False)"
      using i by (auto simp: ws_def bget_def nth_append div_less_iff_less_mult not_less split: if_splits)
    then show "bget ws i = (i < length (bits d @ [False]) \<and> (bits d @ [False]) ! i)"
      using bget_bits [OF assms(1), of i] conjunct1 [OF conjunct2 [OF BitLen_words [OF assms(1)]]]
      by (cases "i < 64 * length (words d)"; cases "i = BitLen d") (simp_all add: nth_append del: nth_bits)
  next
    have "length ws \<le> length (words d) + 1" by (simp add: ws_def)
    then show "length ws < 2 ^ 56" using assms(2) by simp
  qed (use lw in simp)
  ultimately show ?thesis by simp
qed

lemma GetBit_nth:
  "wf_bits d \<Longrightarrow> GetBitAtIndex d i =
     (if 0 \<le> i \<and> i < int (BitLen d) then Inr (if bits d ! nat i then 1 else 0)
      else Inl (Errorf ''GetBitAtIndex: bit index out of valid range''))"
proof -
  have "(w AND push_bit n 1 \<noteq> (0 :: uint64)) = bit w n" if "n < 64" for w n
    using that by (simp add: and_exp_eq_0_iff_not_bit push_bit_of_1)
  then show ?thesis
    using diff_less_Suc [of 63 "nat i mod 64"] by (auto simp: GetBitAtIndex_def nat_less_iff bget_def)
qed

lemma bget_update:
  assumes "i < 64 * length ws" "k < length ws"
  shows "bget (ws[k := w]) i = (if i div 64 = k then bit w (63 - i mod 64) else bget ws i)"
  using assms by (simp add: bget_def)

lemma update_mk: "wf_bits d \<Longrightarrow> d\<lparr>words := ws\<rparr> = mk (BitLen d) ws"
  using mk_words [of d] by (cases d) (simp add: mk_def)

lemma SetBit_update:
  assumes "wf_bits d" "0 \<le> i" "i < int (BitLen d)"
  shows "\<exists>r. SetBitAtIndex d i (if v then 1 else 0) = Inr r \<and> denotes r ((bits d)[nat i := v])"
proof -
  let ?k = "nat i div 64" and ?s = "63 - nat i mod 64" and ?b = "if v then 1 else 0 :: uint64"
  let ?w = "(words d ! ?k AND NOT (push_bit ?s 1)) OR push_bit ?s ?b"
  let ?ws = "(words d)[?k := ?w]"
  have i: "nat i < BitLen d" using assms by linarith
  have k: "?k < length (words d)"
    using i BitLen_words [OF assms(1)] by (simp add: div_less_iff_less_mult)
  then have eq: "SetBitAtIndex d i ?b = Inr (mk (length ((bits d)[nat i := v])) ?ws)"
    using assms i update_mk [OF assms(1), of ?ws] by (simp add: SetBitAtIndex_def Let_def)
  have w: "bit ?w (63 - q) = (if q = nat i mod 64 then v else bit (words d ! ?k) (63 - q))" if "q < 64" for q
    using that by (auto simp: bit_or_iff bit_and_iff bit_not_iff bit_push_bit_iff bit_1_iff push_bit_of_1 bit_exp_iff)
  have "denotes (mk (length ((bits d)[nat i := v])) ?ws) ((bits d)[nat i := v])"
  proof (rule denotes_mk)
    fix j assume "j < 64 * length ?ws"
    then have j: "j < 64 * length (words d)" by simp
    have "nat i = j \<longleftrightarrow> j div 64 = ?k \<and> j mod 64 = nat i mod 64" by (metis mult_div_mod_eq)
    then have "bget ?ws j = (if nat i = j then v else bget (words d) j)"
      using j k w [of "j mod 64"] by (simp add: bget_update) (auto simp: bget_def)
    then show "bget ?ws j = (j < length ((bits d)[nat i := v]) \<and> (bits d)[nat i := v] ! j)"
      using bget_bits [OF assms(1) j] i by (auto simp: nth_list_update)
  qed (use BitLen_words [OF assms(1)] assms in \<open>auto simp: wf_bits_def\<close>)
  then show ?thesis using eq by blast
qed

lemma ToWidth_denotes:
  assumes "wf_bits d" "n < 2 ^ 61" "set spare \<subseteq> {0}"
  shows "\<exists>r. ToWidth spare d (of_nat n) = Inr r \<and> denotes r (take n (bits d) @ replicate (n - BitLen d) False)"
proof -
  let ?xs = "take n (bits d) @ replicate (n - BitLen d) False" and ?m = "(n + 63) div 64"
  have u: "unat (of_nat n :: uint64) = n" using assms(2) by (intro unat_of_nat_small) simp
  have m: "?m < 2 ^ 56" "n \<le> 64 * ?m" using assms(2) by (auto simp: div_less_iff_less_mult)
  have L: "length (words d) = (BitLen d + 63) div 64" using BitLen_words [OF assms(1)] by blast
  consider (same) "n = BitLen d" | (zero) "n = 0" "n \<noteq> BitLen d" | (cut) "0 < n" "n < BitLen d" | (grow) "n > BitLen d"
    by linarith
  then show ?thesis
  proof cases
    case same
    then show ?thesis using assms(1) u by (simp add: ToWidth_def denotes_def)
  next
    case zero
    moreover have "denotes empty_bits []" by (simp add: denotes_def empty_bits_def wf_bits_def bits_def BitLen_def)
    ultimately show ?thesis by (simp add: ToWidth_def)
  next
    case cut
    have nz: "(of_nat n :: uint64) \<noteq> 0" using u cut by auto
    have ml: "?m \<le> length (words d)" unfolding L using cut by (intro div_le_mono) simp
    let ?ws = "mask_last (take ?m (words d)) (last_of n)"
    have eq: "ToWidth spare d (of_nat n) = Inr (mk (length ?xs) ?ws)"
      using cut u nz assms(2) by (simp add: ToWidth_def Parts_eq FromParts_eq last_of_word)
    have "denotes (mk (length ?xs) ?ws) ?xs"
    proof (rule denotes_mk)
      fix i assume "i < 64 * length ?ws"
      then have i: "i < 64 * ?m" using ml by simp
      then have t: "bget (take ?m (words d)) i = bget (words d) i"
        by (simp add: bget_def div_less_iff_less_mult)
      have "bget ?ws i = (bget (words d) i \<and> i < n)"
        using i ml last_of_bounds [OF cut(1)] t bget_mask_last [of i "take ?m (words d)" "last_of n"] by simp
      then show "bget ?ws i = (i < length ?xs \<and> ?xs ! i)" using cut by (auto simp: nth_append)
    qed (use cut ml m in simp_all)
    then show ?thesis using eq by blast
  next
    case grow
    have nz: "(of_nat n :: uint64) \<noteq> 0" using u grow by auto
    have ml: "length (words d) \<le> ?m" unfolding L using grow by (intro div_le_mono) simp
    define ws where "ws = (if ?m \<le> length (words d) + length spare then take ?m (words d @ spare)
                     else words d @ replicate (?m - length (words d)) 0)"
    have lw: "length ws = ?m" using ml by (simp add: ws_def)
    have eq: "ToWidth spare d (of_nat n) = Inr (mk (length ?xs) ws)"
      using grow u nz assms(2) by (simp add: ToWidth_def Sizes_eq FromParts_eq words_word ws_def Let_def)
    have "denotes (mk (length ?xs) ws) ?xs"
    proof (rule denotes_mk)
      fix i assume "i < 64 * length ws"
      then have i: "i div 64 < ?m" unfolding lw by (simp add: div_less_iff_less_mult)
      have sp: "spare ! k = 0" if "k < length spare" for k using assms(3) nth_mem [OF that] by auto
      have "ws ! (i div 64) = (if i div 64 < length (words d) then words d ! (i div 64) else 0)"
        using i sp [of "i div 64 - length (words d)"] by (auto simp: ws_def nth_append not_less)
      then have "bget ws i = (i < 64 * length (words d) \<and> bget (words d) i)"
        by (auto simp: bget_def div_less_iff_less_mult)
      then show "bget ws i = (i < length ?xs \<and> ?xs ! i)"
        using bget_bits [OF assms(1), of i] conjunct1 [OF conjunct2 [OF BitLen_words [OF assms(1)]]] grow
        by (cases "i < 64 * length (words d)") (auto simp: nth_append simp del: nth_bits)
    qed (use grow lw m in simp_all)
    then show ?thesis using eq by blast
  qed
qed

text \<open>
  Shifting to the right across words: word \<open>k\<close> of the result takes its bits from words \<open>k - 1\<close> and \<open>k\<close>.
\<close>

definition shifted_word :: "nat \<Rightarrow> uint64 list \<Rightarrow> nat \<Rightarrow> uint64" where
  "shifted_word s ws k =
     (if 0 < k \<and> k \<le> length ws then push_bit (64 - s) (ws ! (k - 1)) else 0) OR
     (if k < length ws then drop_bit s (ws ! k) else 0)"

lemma bit_shifted_word:
  assumes "s \<le> 64" "q < 64"
  shows "bit (shifted_word s ws k) (63 - q) \<longleftrightarrow>
    s \<le> 64 * k + q \<and> 64 * k + q - s < 64 * length ws \<and> bget ws (64 * k + q - s)"
proof -
  let ?a = "if 0 < k \<and> k \<le> length ws then ws ! (k - 1) else 0"
  let ?b = "if k < length ws then ws ! k else 0"
  have "shifted_word s ws k = push_bit (64 - s) ?a OR drop_bit s ?b" by (simp add: shifted_word_def)
  then have bit: "bit (shifted_word s ws k) (63 - q) = (if q < s then bit ?a (s - 1 - q) else bit ?b (63 - (q - s)))"
    using bit_shifted [OF assms(2,1)] by simp
  show ?thesis
  proof (cases "q < s")
    case True
    show ?thesis
    proof (cases k)
      case (Suc m)
      then have "64 * k + q - s = 64 * m + (64 + q - s)" using assms(1) by simp
      moreover have "63 - (64 + q - s) = s - 1 - q" using True assms by linarith
      ultimately show ?thesis using bit True Suc assms bget_at [of "64 + q - s" ws m] by auto
    qed (use bit True in simp)
  next
    case False
    then have "64 * k + q - s = 64 * k + (q - s)" by simp
    then show ?thesis using bit False assms bget_at [of "q - s" ws k] by auto
  qed
qed

text \<open>The two loops of a left shift, and of a right shift.\<close>

lemma left_loops:
  assumes "s < 64" "length rw = length dw" "\<And>k. k < length rw \<Longrightarrow> rw ! k = 0" "i < 64 * length dw"
  shows "bget (for_words 0 (length dw - (sw + 1)) (\<lambda>j w. w OR drop_bit (64 - s) (dw ! (sw + 1 + j)))
           (for_words 0 (length dw - sw) (\<lambda>j _. push_bit s (dw ! (sw + j))) rw)) i =
         (i + (64 * sw + s) < 64 * length dw \<and> bget dw (i + (64 * sw + s)))"
proof -
  let ?r = "for_words 0 (length dw - (sw + 1)) (\<lambda>j w. w OR drop_bit (64 - s) (dw ! (sw + 1 + j)))
           (for_words 0 (length dw - sw) (\<lambda>j _. push_bit s (dw ! (sw + j))) rw)"
  obtain j q where jq: "i = 64 * j + q" "q < 64" by (rule bget_cases)
  have j: "j < length dw" using jq assms(4) by linarith
  have "?r ! j = shifted_word (64 - s) dw (sw + 1 + j)"
    using j assms(1-3) by (auto simp: for_words_nth shifted_word_def dest: sym)
  then have "bget ?r i = bit (shifted_word (64 - s) dw (sw + 1 + j)) (63 - q)"
    unfolding jq(1) bget_at [OF jq(2)] by simp
  also have "\<dots> \<longleftrightarrow> i + (64 * sw + s) < 64 * length dw \<and> bget dw (i + (64 * sw + s))"
  proof -
    have "64 * (sw + 1 + j) + q - (64 - s) = i + (64 * sw + s)" "64 - s \<le> 64 * (sw + 1 + j) + q"
      using assms(1) jq by simp_all
    then show ?thesis using bit_shifted_word [of "64 - s" q dw "sw + 1 + j"] jq(2) by simp
  qed
  finally show ?thesis .
qed

lemma right_loops:
  assumes "s < 64" "length rw = length dw" "\<And>k. k < length rw \<Longrightarrow> rw ! k = 0" "i < 64 * length dw"
  shows "bget (for_words (sw + 1) (length rw) (\<lambda>j w. w OR push_bit (64 - s) (dw ! (j - (sw + 1))))
           (for_words sw (length rw) (\<lambda>j _. drop_bit s (dw ! (j - sw))) rw)) i =
         (64 * sw + s \<le> i \<and> bget dw (i - (64 * sw + s)))"
proof -
  let ?r = "for_words (sw + 1) (length rw) (\<lambda>j w. w OR push_bit (64 - s) (dw ! (j - (sw + 1))))
           (for_words sw (length rw) (\<lambda>j _. drop_bit s (dw ! (j - sw))) rw)"
  obtain j q where jq: "i = 64 * j + q" "q < 64" by (rule bget_cases)
  have j: "j < length dw" using jq assms(4) by linarith
  have b: "bget ?r i = bit (?r ! j) (63 - q)" unfolding jq(1) by (rule bget_at [OF jq(2)])
  show ?thesis
  proof (cases "sw \<le> j")
    case True
    have "?r ! j = shifted_word s dw (j - sw)"
      using j assms(1-3) True by (auto simp: for_words_nth shifted_word_def or.commute)
    moreover have "64 * (j - sw) + q - s = i - (64 * sw + s)" "s \<le> 64 * (j - sw) + q \<longleftrightarrow> 64 * sw + s \<le> i"
      "i - (64 * sw + s) < 64 * length dw"
      using True jq assms(4) by (simp_all add: diff_mult_distrib2) linarith+
    ultimately show ?thesis using b bit_shifted_word [of s q dw "j - sw"] assms(1) jq(2) by simp
  next
    case False
    then have "?r ! j = 0" "\<not> 64 * sw + s \<le> i" using j assms(2,3) jq by (auto simp: for_words_nth)
    then show ?thesis using b by simp
  qed
qed

lemma int64_pos_parts:
  fixes n :: int64
  assumes "0 < sint n" shows "64 * unat (n div 64) + unat (n mod 64) = nat (sint n)" "unat (n mod 64) < 64"
proof -
  have "unat n = nat (sint n)" using assms uint_of_nonneg [of n] by (simp add: unat_eq_nat_uint)
  then show "64 * unat (n div 64) + unat (n mod 64) = nat (sint n)" "unat (n mod 64) < 64"
    by (simp_all add: unat_div unat_mod)
qed

definition shift_bits :: "bool list \<Rightarrow> int \<Rightarrow> bool list" where
  "shift_bits xs n =
     (if 0 \<le> n then drop (nat n) xs @ replicate (min (nat n) (length xs)) False
      else replicate (min (nat (- n)) (length xs)) False @ take (length xs - nat (- n)) xs)"

lemma shift_bits_nth:
  "length (shift_bits xs n) = length xs"
  "i < length xs \<Longrightarrow> shift_bits xs n ! i \<longleftrightarrow> 0 \<le> int i + n \<and> int i + n < int (length xs) \<and> xs ! nat (int i + n)"
proof -
  show "length (shift_bits xs n) = length xs" by (auto simp: shift_bits_def min_def)
  have "nat (int i + n) = i - nat (- n)" if "n < 0" "nat (- n) \<le> i" using that by linarith
  moreover have "nat (int i + n) = nat n + i" if "0 \<le> n" using that by linarith
  ultimately show "i < length xs \<Longrightarrow>
      shift_bits xs n ! i \<longleftrightarrow> 0 \<le> int i + n \<and> int i + n < int (length xs) \<and> xs ! nat (int i + n)"
    by (cases "0 \<le> n"; cases "nat (- n) \<le> i") (auto simp: shift_bits_def nth_append min_def)
qed

lemma int64_neg_parts:
  fixes n :: int64
  assumes "sint n < 0"
  shows "64 * unat ((- n) div 64) + unat ((- n) mod 64) = nat (- sint n)" "unat ((- n) mod 64) < 64"
proof -
  have "uint (- n) = uint (word_of_int (- sint n) :: int64)" by simp
  also have "\<dots> = - sint n mod 2 ^ 64" by (simp only: uint_word_of_int) simp
  also have "\<dots> = - sint n" using assms sint64_range [of n] by (intro mod_pos_pos_trivial) simp_all
  finally have "unat (- n) = nat (- sint n)" by (simp add: unat_eq_nat_uint)
  then show "64 * unat ((- n) div 64) + unat ((- n) mod 64) = nat (- sint n)" "unat ((- n) mod 64) < 64"
    by (simp_all add: unat_div unat_mod)
qed

lemma shift_bits_mk:
  assumes "wf_bits d" "length ws = length (words d)"
    and "\<And>i. i < 64 * length (words d) \<Longrightarrow>
      bget ws i = (i < BitLen d \<and> 0 \<le> int i + n \<and> int i + n < int (BitLen d) \<and> bget (words d) (nat (int i + n)))"
  shows "denotes (mk (BitLen d) ws) (shift_bits (bits d) n)"
proof -
  have "denotes (mk (length (shift_bits (bits d) n)) ws) (shift_bits (bits d) n)"
  proof (rule denotes_mk)
    fix i assume "i < 64 * length ws"
    then show "bget ws i = (i < length (shift_bits (bits d) n) \<and> shift_bits (bits d) n ! i)"
      using assms(2,3) by (auto simp: shift_bits_nth)
  qed (use BitLen_words [OF assms(1)] assms in \<open>auto simp: wf_bits_def shift_bits_nth\<close>)
  then show ?thesis by (simp add: shift_bits_nth)
qed

lemma LeftShiftAny_left:
  assumes "wf_bits d" "BitLen d \<noteq> 0" "0 < sint n" "sint n \<le> int (BitLen d)"
  shows "\<exists>r. LeftShiftAny d n = Inr r \<and> denotes r (shift_bits (bits d) (sint n))"
proof -
  let ?sw = "unat (n div 64)" and ?s = "unat (n mod 64)" and ?dw = "words d" and ?N = "BitLen d"
  let ?z = "replicate ((?N + 63) div 64) (0 :: uint64)"
  let ?r = "for_words 0 (length ?dw - (?sw + 1)) (\<lambda>j w. w OR drop_bit (64 - ?s) (?dw ! (?sw + 1 + j)))
           (for_words 0 (length ?dw - ?sw) (\<lambda>j _. push_bit ?s (?dw ! (?sw + j))) ?z)"
  have N: "?N < 2 ^ 62" and L: "length ?dw = (?N + 63) div 64" using BitLen_words [OF assms(1)] by blast+
  note p = int64_pos_parts [OF assms(3)]
  have "LeftShiftAny d n = Inr (mk ?N ?r)"
    using assms N sint64_of_nat [of ?N] by (auto simp: LeftShiftAny_def MakeZero_eq Let_def mk_def)
  moreover have "denotes (mk ?N ?r) (shift_bits (bits d) (sint n))"
  proof (rule shift_bits_mk [OF assms(1)])
    fix i assume i: "i < 64 * length ?dw"
    have "bget ?r i = (i + nat (sint n) < 64 * length ?dw \<and> bget ?dw (i + nat (sint n)))"
      using left_loops [OF p(2) _ _ i, of ?z ?sw] L unfolding p(1) by simp
    moreover have "nat (int i + sint n) = i + nat (sint n)" using assms(3) by simp
    ultimately show "bget ?r i =
        (i < ?N \<and> 0 \<le> int i + sint n \<and> int i + sint n < int ?N \<and> bget ?dw (nat (int i + sint n)))"
      using bget_bits [OF assms(1), of "i + nat (sint n)"] assms(3) conjunct1 [OF conjunct2 [OF BitLen_words [OF assms(1)]]]
      by auto
  qed (use L in simp)
  ultimately show ?thesis by blast
qed

lemma LeftShiftAny_right:
  assumes "wf_bits d" "BitLen d \<noteq> 0" "sint n < 0" "- sint n \<le> int (BitLen d) \<or> n = MinInt64"
  shows "\<exists>r. LeftShiftAny d n = Inr r \<and> denotes r (shift_bits (bits d) (sint n))"
proof -
  let ?sw = "unat ((- n) div 64)" and ?s = "unat ((- n) mod 64)" and ?dw = "words d" and ?N = "BitLen d"
  let ?z = "replicate ((?N + 63) div 64) (0 :: uint64)"
  let ?r = "for_words (?sw + 1) (length ?z) (\<lambda>j w. w OR push_bit (64 - ?s) (?dw ! (j - (?sw + 1))))
           (for_words ?sw (length ?z) (\<lambda>j _. drop_bit ?s (?dw ! (j - ?sw))) ?z)"
  have N: "?N < 2 ^ 62" and L: "length ?dw = (?N + 63) div 64" using BitLen_words [OF assms(1)] by blast+
  note p = int64_neg_parts [OF assms(3)]
  have L0: "0 < (?N + 63) div 64" using assms(2) by (simp add: div_greater_zero_iff)
  have l: "last_of ?N \<le> 64" "64 * ((?N + 63) div 64 - 1) + last_of ?N = ?N" using last_of_bounds [of ?N] assms(2) by auto
  have "\<not> sint (- n) > int ?N" using assms(3,4) sint64_uminus [of n] by (cases "n = MinInt64") auto
  then have eq: "LeftShiftAny d n = Inr (mk ?N (mask_last ?r (last_of ?N)))"
    using assms(2,3) N L0 sint64_of_nat [of ?N] by (auto simp: LeftShiftAny_def MakeZero_eq Let_def mk_def)
  have "denotes (mk ?N (mask_last ?r (last_of ?N))) (shift_bits (bits d) (sint n))"
  proof (rule shift_bits_mk [OF assms(1)])
    fix i assume i: "i < 64 * length ?dw"
    have "bget ?r i = (nat (- sint n) \<le> i \<and> bget ?dw (i - nat (- sint n)))"
      using right_loops [OF p(2) _ _ i, of ?z ?sw] L unfolding p(1) by simp
    moreover have "nat (int i + sint n) = i - nat (- sint n)" using assms(3) by linarith
    moreover have "bget (mask_last ?r (last_of ?N)) i = (bget ?r i \<and> i < ?N)"
      using bget_mask_last [of i ?r "last_of ?N"] i L l by simp
    ultimately show "bget (mask_last ?r (last_of ?N)) i =
        (i < ?N \<and> 0 \<le> int i + sint n \<and> int i + sint n < int ?N \<and> bget ?dw (nat (int i + sint n)))"
      using assms(3) by auto
  qed (use L in simp)
  then show ?thesis using eq by blast
qed

lemma LeftShiftAny_denotes:
  assumes "wf_bits d"
  shows "\<exists>r. LeftShiftAny d n = Inr r \<and> denotes r (shift_bits (bits d) (sint n))"
proof -
  let ?N = "BitLen d" and ?z = "replicate ((BitLen d + 63) div 64) (0 :: uint64)"
  have N: "?N < 2 ^ 62" and L: "length (words d) = (?N + 63) div 64" using BitLen_words [OF assms] by blast+
  have z: "sint n = 0 \<longleftrightarrow> n = 0" and m: "n = MinInt64 \<Longrightarrow> sint n < 0"
    using sint_eq_iff [of n 0] by simp_all
  consider (id) "n = 0 \<or> ?N = 0" | (out) "n \<noteq> 0" "?N \<noteq> 0" "\<bar>sint n\<bar> > int ?N" "n \<noteq> MinInt64"
    | (left) "?N \<noteq> 0" "0 < sint n" "sint n \<le> int ?N" | (right) "?N \<noteq> 0" "sint n < 0" "- sint n \<le> int ?N \<or> n = MinInt64"
    using z m by (smt (verit))
  then show ?thesis
  proof cases
    case id
    then have "shift_bits (bits d) (sint n) = bits d"
      by (auto simp: shift_bits_def bits_def)
    then show ?thesis using id assms by (auto simp: LeftShiftAny_def denotes_def Let_def)
  next
    case out
    then have "LeftShiftAny d n = Inr (mk ?N ?z)"
      using N sint64_of_nat [of ?N] sint64_uminus [OF out(4)] by (auto simp: LeftShiftAny_def MakeZero_eq Let_def)
    moreover have "denotes (mk ?N ?z) (shift_bits (bits d) (sint n))"
      using out(3) bget_zero by (intro shift_bits_mk [OF assms]) (auto simp: L)
    ultimately show ?thesis by blast
  qed (use assms LeftShiftAny_left LeftShiftAny_right in blast)+
qed

lemma concat_loop_spec:
  assumes "t + length rws \<le> length ws"
  shows "\<exists>ws'. concat_loop s rws t tr ws = (ws', t + length rws, if rws = [] then tr else push_bit (64 - s) (last rws)) \<and>
    length ws' = length ws \<and>
    (\<forall>i < length ws. ws' ! i = (if t \<le> i \<and> i < t + length rws
       then (if i = t then tr else push_bit (64 - s) (rws ! (i - t - 1))) OR drop_bit s (rws ! (i - t)) else ws ! i))"
  using assms
proof (induction rws arbitrary: t tr ws)
  case (Cons w rws)
  let ?ws = "ws[t := tr OR drop_bit s w]"
  obtain ws' where ws': "concat_loop s rws (t + 1) (push_bit (64 - s) w) ?ws =
      (ws', t + 1 + length rws, if rws = [] then push_bit (64 - s) w else push_bit (64 - s) (last rws))"
    "length ws' = length ws"
    and nth: "\<And>i. i < length ws \<Longrightarrow> ws' ! i = (if t + 1 \<le> i \<and> i < t + 1 + length rws
       then (if i = t + 1 then push_bit (64 - s) w else push_bit (64 - s) (rws ! (i - (t + 1) - 1))) OR
         drop_bit s (rws ! (i - (t + 1))) else ?ws ! i)"
    using Cons.IH [of "t + 1" ?ws "push_bit (64 - s) w"] Cons.prems by auto
  have "ws' ! i = (if t \<le> i \<and> i < t + length (w # rws)
       then (if i = t then tr else push_bit (64 - s) ((w # rws) ! (i - t - 1))) OR drop_bit s ((w # rws) ! (i - t)) else ws ! i)"
    if "i < length ws" for i
    using nth [OF that] that by (cases "i = t"; cases "i = t + 1") (auto simp: nth_Cons')
  then show ?case using ws' by auto
qed auto

lemma concat_mk:
  assumes "wf_bits d" "wf_bits e" "length ws = (BitLen d + BitLen e + 63) div 64" "length ws < 2 ^ 56"
    and "\<And>i. i < 64 * length ws \<Longrightarrow> bget ws i =
      (i < 64 * length (words d) \<and> bget (words d) i \<or>
       BitLen d \<le> i \<and> i - BitLen d < 64 * length (words e) \<and> bget (words e) (i - BitLen d))"
  shows "denotes (mk (BitLen d + BitLen e) ws) (bits d @ bits e)"
proof -
  have "denotes (mk (length (bits d @ bits e)) ws) (bits d @ bits e)"
  proof (rule denotes_mk)
    fix i assume i: "i < 64 * length ws"
    have D: "(i < 64 * length (words d) \<and> bget (words d) i) = (i < BitLen d \<and> bits d ! i)"
      using bget_bits [OF assms(1), of i] conjunct1 [OF conjunct2 [OF BitLen_words [OF assms(1)]]]
      by (auto simp del: nth_bits)
    have E: "(i - BitLen d < 64 * length (words e) \<and> bget (words e) (i - BitLen d)) =
        (i - BitLen d < BitLen e \<and> bits e ! (i - BitLen d))"
      using bget_bits [OF assms(2), of "i - BitLen d"] conjunct1 [OF conjunct2 [OF BitLen_words [OF assms(2)]]]
      by (auto simp del: nth_bits)
    show "bget ws i = (i < length (bits d @ bits e) \<and> (bits d @ bits e) ! i)"
      unfolding assms(5) [OF i] conj_assoc [symmetric] D
      unfolding conj_assoc E by (auto simp: nth_append simp del: nth_bits)
  qed (use assms in simp_all)
  then show ?thesis by simp
qed

lemma Concat_fast:
  assumes "wf_bits d" "wf_bits e" "words d \<noteq> []" "words e \<noteq> []" "lastBitsUsed d = 64"
    "length (words d) + length (words e) < 2 ^ 56"
  shows "denotes (BitArray_Concat d e) (bits d @ bits e)"
proof -
  have D: "BitLen d = 64 * length (words d)"
    using BitLen_last [OF assms(3)] assms(3,5) by (cases "words d") simp_all
  have E: "length (words e) = (BitLen e + 63) div 64" using BitLen_words [OF assms(2)] by blast
  have n: "(nonEmptyBitLen d + nonEmptyBitLen e + 64 - 1) div 64 = length (words d) + length (words e)"
    using D E assms(3,4) by (simp add: BitLen_def add.assoc)
  have l: "lastBitsUsed e = last_of (BitLen d + BitLen e)"
    using last_of_unique [of "lastBitsUsed e" "length (words d) + (length (words e) - 1)"]
      last_pos [OF assms(2,4)] BitLen_last [OF assms(4)] D by (simp add: algebra_simps)
  have "BitArray_Concat d e = mk (BitLen d + BitLen e) (words d @ words e)"
    using n l assms(5) last_pos [OF assms(2,4)] by (simp add: BitArray_Concat_def Let_def mk_def)
  moreover have "denotes (mk (BitLen d + BitLen e) (words d @ words e)) (bits d @ bits e)"
  proof (rule concat_mk [OF assms(1,2)])
    fix i assume i: "i < 64 * length (words d @ words e)"
    show "bget (words d @ words e) i =
      (i < 64 * length (words d) \<and> bget (words d) i \<or>
       BitLen d \<le> i \<and> i - BitLen d < 64 * length (words e) \<and> bget (words e) (i - BitLen d))"
    proof (cases "i < 64 * length (words d)")
      case False
      then obtain j where "i = 64 * length (words d) + j" by (metis le_Suc_ex not_less)
      then show ?thesis using D i by (simp add: bget_def nth_append)
    qed (simp add: D bget_def nth_append div_less_iff_less_mult)
  qed (use n assms(3,4,6) in \<open>simp_all add: BitLen_def\<close>)
  ultimately show ?thesis by simp
qed

lemma Concat_shift:
  assumes "wf_bits d" "wf_bits e" "words d \<noteq> []" "words e \<noteq> []" "lastBitsUsed d < 64"
    "length (words d) + length (words e) < 2 ^ 56"
  shows "denotes (BitArray_Concat d e) (bits d @ bits e)"
proof -
  let ?s = "lastBitsUsed d" and ?l = "lastBitsUsed e" and ?t = "length (words d) - 1" and ?r = "length (words e)"
  let ?n = "(BitLen d + BitLen e + 63) div 64"
  let ?w0 = "words d @ replicate (?n - length (words d)) 0"
  have b: "1 \<le> ?s" "1 \<le> ?l" "?l \<le> 64" "BitLen d = 64 * ?t + ?s" "BitLen e = 64 * (?r - 1) + ?l"
    "0 < length (words d)" "0 < ?r"
    using last_pos [OF assms(1,3)] last_pos [OF assms(2,4)] BitLen_last assms(3,4) by auto
  then have sum: "BitLen d + BitLen e = 64 * (?t + (?r - 1)) + (?s + ?l)" by simp
  obtain r' where r': "?r = Suc r'" using b(7) by (cases "words e") auto
  have n: "?n = ?t + ?r + (if ?s + ?l > 64 then 1 else 0)"
    unfolding sum using b(1-3) assms(5) r' by (intro div_nat_eqI) auto
  have last: "last_of (BitLen d + BitLen e) = (if (?s + ?l) mod 64 = 0 then 64 else (?s + ?l) mod 64)"
  proof -
    have "(64 * (?t + (?r - 1)) + (?s + ?l)) mod 64 = (?s + ?l) mod 64" by (rule mod_mult_self4)
    then show ?thesis using b(1,2) unfolding last_of_def sum by simp
  qed
  have lw: "length ?w0 = ?n" using n b by simp
  obtain ws where ws: "concat_loop ?s (words e) ?t (?w0 ! ?t) ?w0 = (ws, ?t + ?r, push_bit (64 - ?s) (last (words e)))"
    "length ws = ?n" and nth: "\<And>i. i < ?n \<Longrightarrow> ws ! i = (if ?t \<le> i \<and> i < ?t + ?r
       then (if i = ?t then ?w0 ! ?t else push_bit (64 - ?s) (words e ! (i - ?t - 1))) OR drop_bit ?s (words e ! (i - ?t))
       else ?w0 ! i)"
    using concat_loop_spec [of ?t "words e" ?w0 ?s "?w0 ! ?t"] lw n assms(4) by auto
  define ws' where "ws' = (if ?s + ?l > 64 then ws[?t + ?r := push_bit (64 - ?s) (last (words e))] else ws)"
  have eq: "BitArray_Concat d e = mk (BitLen d + BitLen e) ws'"
  proof -
    have "nonEmptyBitLen d + nonEmptyBitLen e + 64 - 1 = BitLen d + BitLen e + 63" "?s \<noteq> 0" "?l \<noteq> 0" "?s \<noteq> 64"
      using assms(3-5) b(1,2) by (simp_all add: BitLen_def)
    then show ?thesis by (simp only: BitArray_Concat_def Let_def mk_def ws'_def ws(1) prod.case if_False last)
  qed
  have w: "ws' ! i = (if i < length (words d) then words d ! i else 0) OR (if ?t \<le> i then shifted_word ?s (words e) (i - ?t) else 0)"
    if "i < ?n" for i
  proof (cases "i < ?t + ?r")
    case True
    then have "ws' ! i = ws ! i" by (simp add: ws'_def)
    moreover have "?w0 ! ?t = words d ! ?t" using b(6) by (simp add: nth_append)
    ultimately show ?thesis
      using nth [OF that] True b(6,7)
      by (cases "i" ?t rule: linorder_cases) (auto simp: shifted_word_def nth_append or.commute)
  next
    case False
    then have "i = ?t + ?r" "?s + ?l > 64" using that n by (simp_all split: if_splits)
    moreover from this have "ws' ! i = push_bit (64 - ?s) (last (words e))" using ws(2) that by (simp add: ws'_def)
    moreover have "last (words e) = words e ! r'" using assms(4) r' by (simp add: last_conv_nth)
    moreover obtain t where "length (words d) = Suc t" using b(6) by (cases "words d") auto
    ultimately show ?thesis using r' by (auto simp: shifted_word_def)
  qed
  have "denotes (mk (BitLen d + BitLen e) ws') (bits d @ bits e)"
  proof (rule concat_mk [OF assms(1,2)])
    fix i assume "i < 64 * length ws'"
    then have i: "i < 64 * ?n" using ws(2) by (simp add: ws'_def split: if_splits)
    obtain k q where kq: "i = 64 * k + q" "q < 64" by (rule bget_cases)
    have k: "k < ?n" using kq i by linarith
    show "bget ws' i = (i < 64 * length (words d) \<and> bget (words d) i \<or>
       BitLen d \<le> i \<and> i - BitLen d < 64 * length (words e) \<and> bget (words e) (i - BitLen d))"
    proof -
      have "bget ws' i = (k < length (words d) \<and> bit (words d ! k) (63 - q) \<or>
          ?t \<le> k \<and> bit (shifted_word ?s (words e) (k - ?t)) (63 - q))"
        unfolding kq(1) bget_at [OF kq(2)] w [OF k] by (simp add: bit_or_iff)
      moreover have "(?t \<le> k \<and> bit (shifted_word ?s (words e) (k - ?t)) (63 - q)) =
          (BitLen d \<le> i \<and> i - BitLen d < 64 * length (words e) \<and> bget (words e) (i - BitLen d))"
      proof (cases "?t \<le> k")
        case True
        then have "?s \<le> 64 * (k - ?t) + q \<longleftrightarrow> BitLen d \<le> i" "64 * (k - ?t) + q - ?s = i - BitLen d"
          unfolding b(4) kq(1) by linarith+
        then show ?thesis using bit_shifted_word [of ?s q "words e" "k - ?t"] assms(5) kq(2) True by simp
      next
        case False
        then have "\<not> BitLen d \<le> i" unfolding b(4) kq(1) using kq(2) by linarith
        with False show ?thesis by simp
      qed
      moreover have "(k < length (words d) \<and> bit (words d ! k) (63 - q)) = (i < 64 * length (words d) \<and> bget (words d) i)"
        unfolding kq(1) bget_at [OF kq(2)] using kq(2) by auto
      ultimately show ?thesis by blast
    qed
  qed (use ws(2) n assms(6) b in \<open>auto simp: ws'_def\<close>)
  then show ?thesis using eq by simp
qed

lemma Concat_denotes:
  assumes "wf_bits d" "wf_bits e" "length (words d) + length (words e) < 2 ^ 56"
  shows "denotes (BitArray_Concat d e) (bits d @ bits e)"
proof -
  consider "words d = []" | "words d \<noteq> []" "words e = []" | "words d \<noteq> []" "words e \<noteq> []" "lastBitsUsed d = 64"
    | "words d \<noteq> []" "words e \<noteq> []" "lastBitsUsed d < 64"
    using last_pos [OF assms(1)] by force
  then show ?thesis
  proof cases
    case 1
    then have "BitLen d = 0" "lastBitsUsed d = 0" using assms(1) by (simp_all add: BitLen_def wf_bits_def)
    then show ?thesis using assms(2) by (simp add: denotes_def BitArray_Concat_def bits_def)
  next
    case 2
    then have "BitLen e = 0" "lastBitsUsed e = 0" "lastBitsUsed d \<noteq> 0"
      using assms by (simp_all add: BitLen_def wf_bits_def)
    then show ?thesis using assms(1) by (simp add: denotes_def BitArray_Concat_def bits_def)
  qed (use assms Concat_fast Concat_shift in blast)+
qed

section \<open>Comparison\<close>

text \<open>\<open>Compare\<close> is the lexicographic comparison of the words, then of the bits used in the last one.\<close>

lemma compare_words_three_way: "compare_words ws vs = three_way ws vs"
  by (induction ws vs rule: compare_words.induct) (auto simp: three_way_def)

lemma Compare_key: "BitArray_Compare d e = three_way (words d, lastBitsUsed d) (words e, lastBitsUsed e)"
  by (auto simp: BitArray_Compare_def compare_words_three_way three_way_def Let_def)

interpretation bitarray_cmp: keyed_comparator BitArray_Compare "\<lambda>d. (words d, lastBitsUsed d)"
  by unfold_locales (rule Compare_key)

text \<open>The bits of a word, most significant first, and of all words.\<close>

definition word_bits :: "uint64 \<Rightarrow> bool list" where
  "word_bits w = map (\<lambda>q. bit w (63 - q)) [0..<64]"

definition all_bits :: "uint64 list \<Rightarrow> bool list" where
  "all_bits ws = concat (map word_bits ws)"

lemma length_word_bits [simp]: "length (word_bits w) = 64"
  by (simp add: word_bits_def)

lemma all_bits_simps [simp]: "all_bits [] = []" "all_bits (w # ws) = word_bits w @ all_bits ws"
  by (simp_all add: all_bits_def)

lemma length_all_bits [simp]: "length (all_bits ws) = 64 * length ws"
  by (induction ws) simp_all

lemma nth_all_bits: "i < 64 * length ws \<Longrightarrow> all_bits ws ! i = bget ws i"
proof (induction ws arbitrary: i)
  case (Cons w ws)
  show ?case
  proof (cases "i < 64")
    case True
    then show ?thesis by (simp add: nth_append word_bits_def bget_def)
  next
    case False
    then obtain j where "i = 64 + j" by (metis le_Suc_ex not_less)
    moreover have "(64 + j) div 64 = Suc (j div 64)" by simp
    ultimately show ?thesis using Cons by (simp add: nth_append bget_def)
  qed
qed simp

lemma all_bits_padded:
  assumes "wf_bits d"
  shows "all_bits (words d) = bits d @ replicate (64 * length (words d) - BitLen d) False"
proof (rule nth_equalityI)
  fix i assume "i < length (all_bits (words d))"
  then show "all_bits (words d) ! i = (bits d @ replicate (64 * length (words d) - BitLen d) False) ! i"
    using bget_bits [OF assms, of i] by (auto simp: nth_all_bits nth_append simp del: nth_bits)
qed (use BitLen_words [OF assms] in simp)

text \<open>Unsigned comparison of words is lexicographic comparison of their bits.\<close>

lemma upto_bits_less:
  fixes a b :: nat
  shows "map (\<lambda>q. bit a (n - 1 - q)) [0..<n] < map (\<lambda>q. bit b (n - 1 - q)) [0..<n] \<longleftrightarrow> take_bit n a < take_bit n b"
proof (induction n)
  case (Suc n)
  have upt: "map f [0..<Suc n] = f 0 # map (\<lambda>q. f (Suc q)) [0..<n]" for f :: "nat \<Rightarrow> bool"
    unfolding map_upt_Suc by simp
  have l: "take_bit n a < 2 ^ n" "take_bit n b < 2 ^ n" by simp_all
  then show ?case unfolding upt using Suc.IH
    by (cases "bit a n"; cases "bit b n") (simp_all add: take_bit_Suc_from_most, (use l in linarith)+)
qed simp

lemma word_less_bits: "v < w \<longleftrightarrow> word_bits v < word_bits w"
proof -
  have "take_bit 64 (unat u) = unat u" for u :: uint64
    using unsigned_less [of u, where 'a = nat] by (simp add: take_bit_nat_eq_self)
  then show ?thesis using upto_bits_less [of "unat v" 64 "unat w"]
    by (simp add: word_bits_def word_less_nat_alt bit_unsigned_iff)
qed

lemma word_bits_inj: "word_bits v = word_bits w \<longleftrightarrow> v = w"
  using word_less_bits [of v w] word_less_bits [of w v] by (cases v w rule: linorder_cases) auto

lemma same_length_append_less:
  "length a = length b \<Longrightarrow> a @ r < b @ s \<longleftrightarrow> a < b \<or> a = b \<and> r < (s :: bool list)"
  by (induction a b rule: list_induct2) auto

lemma words_less_bits: "ws < vs \<longleftrightarrow> all_bits ws < all_bits vs"
proof (induction ws arbitrary: vs)
  case Nil
  then show ?case by (cases vs) (auto simp: word_bits_def upt_rec)
next
  case (Cons w ws)
  show ?case
  proof (cases vs)
    case (Cons v vs')
    then show ?thesis using Cons.IH [of vs']
      by (simp add: same_length_append_less word_less_bits word_bits_inj)
  qed simp
qed

text \<open>Zeros at the end do not matter as long as a difference in length shows before them.\<close>

lemma less_zeros: "z < replicate k False \<Longrightarrow> length z < k"
  by (induction z arbitrary: k) (case_tac k, auto)+

lemma padded_less:
  "x @ replicate j False < y @ replicate k False \<Longrightarrow>
   (length x + j < length y + k \<Longrightarrow> length x + j < length y) \<Longrightarrow> x < y"
proof (induction x arbitrary: y)
  case Nil
  then show ?case using less_zeros [of "replicate j False" k] by (cases y) auto
next
  case (Cons a x)
  show ?case
  proof (cases y)
    case Nil
    then show ?thesis using Cons.prems less_zeros [of "(a # x) @ replicate j False" k] by simp
  next
    case (Cons b y')
    then show ?thesis using Cons.prems Cons.IH [of y'] by auto
  qed
qed

lemma prefix_less:
  assumes "x = take n z" "y = take m z" "length x < length (y :: bool list)"
  shows "x < y"
proof -
  have "n < m" using assms by (cases "m \<le> n") auto
  then have y: "y = x @ take (m - n) (drop n z)" using assms(1,2) by (simp add: take_add [symmetric])
  then have "take (m - n) (drop n z) \<noteq> []" using assms(3) by auto
  then have "[] < take (m - n) (drop n z)" by (cases "take (m - n) (drop n z)") auto
  then show ?thesis using y same_length_append_less [of x x "[]" "take (m - n) (drop n z)"] by simp
qed

lemma Compare_less:
  assumes "wf_bits d" "wf_bits e" "(words d, lastBitsUsed d) < (words e, lastBitsUsed e)"
  shows "bits d < bits e"
proof (cases "words d = words e")
  case True
  with assms(3) have l: "lastBitsUsed d < lastBitsUsed e" by simp
  then have ne: "words e \<noteq> []" using assms(2) by (auto simp: wf_bits_def)
  show ?thesis
  proof (rule prefix_less)
    show "bits d = take (BitLen d) (all_bits (words e))" using all_bits_padded [OF assms(1)] True by simp
    show "bits e = take (BitLen e) (all_bits (words e))" using all_bits_padded [OF assms(2)] by simp
    show "length (bits d) < length (bits e)" using l BitLen_last [of d] BitLen_last [OF ne] True ne by simp
  qed
next
  case False
  then have "words d < words e" using assms(3) by auto
  then have less: "all_bits (words d) < all_bits (words e)" by (simp add: words_less_bits)
  have D: "BitLen d \<le> 64 * length (words d)" "BitLen e \<le> 64 * length (words e)" "64 * length (words e) < BitLen e + 64"
    using BitLen_words [OF assms(1)] BitLen_words [OF assms(2)] by blast+
  show ?thesis
  proof (rule padded_less [OF less [unfolded all_bits_padded [OF assms(1)] all_bits_padded [OF assms(2)]]])
    assume "length (bits d) + (64 * length (words d) - BitLen d) < length (bits e) + (64 * length (words e) - BitLen e)"
    then have "length (words d) < length (words e)" using D by simp
    then show "length (bits d) + (64 * length (words d) - BitLen d) < length (bits e)" using D by simp
  qed
qed

lemma Compare_bits:
  assumes "wf_bits d" "wf_bits e"
  shows "BitArray_Compare d e = three_way (bits d) (bits e)"
proof (cases "(words d, lastBitsUsed d)" "(words e, lastBitsUsed e)" rule: linorder_cases)
  case less
  then show ?thesis using Compare_less [OF assms] by (simp only: Compare_key three_way_def) auto
next
  case equal
  then show ?thesis by (simp add: Compare_key bits_def BitLen_def nonEmptyBitLen_def three_way_def)
next
  case greater
  then show ?thesis using Compare_less [OF assms(2,1)] less_asym by (simp only: Compare_key three_way_def) auto
qed

section \<open>Printing and parsing\<close>

lemma byteReprs_word:
  "byteReprs (drop_bit 56 w AND 0xff) @ byteReprs (drop_bit 48 w AND 0xff) @
   byteReprs (drop_bit 40 w AND 0xff) @ byteReprs (drop_bit 32 w AND 0xff) @
   byteReprs (drop_bit 24 w AND 0xff) @ byteReprs (drop_bit 16 w AND 0xff) @
   byteReprs (drop_bit 8 w AND 0xff) @ byteReprs (drop_bit 0 w AND 0xff) = map bit_char (word_bits w)"
  by (simp add: byteReprs_def word_bits_def upt_rec bit_and_iff bit_drop_bit_eq)

lemma all_bits_take:
  assumes "m < length ws"
  shows "take (64 * m + r) (all_bits ws) = all_bits (take m ws) @ take r (word_bits (ws ! m) @ all_bits (drop (Suc m) ws))"
proof -
  have "all_bits (xs @ ys) = all_bits xs @ all_bits ys" for xs ys by (simp add: all_bits_def)
  then have "all_bits ws = all_bits (take m ws) @ word_bits (ws ! m) @ all_bits (drop (Suc m) ws)"
    by (metis id_take_nth_drop [OF assms] all_bits_simps(2))
  then show ?thesis using assms by simp
qed

lemma Format_bits: assumes "wf_bits d" shows "BitArray_Format d = map bit_char (bits d)"
proof -
  let ?m = "BitLen d div 64" and ?r = "BitLen d mod 64" and ?ws = "words d"
  have N: "BitLen d \<le> 64 * length ?ws" using BitLen_words [OF assms] by blast
  then have ml: "?m \<le> length ?ws" by simp
  have t: "take ?m ?ws = map ((!) ?ws) [0..<?m]" by (rule nth_equalityI) (use ml in simp_all)
  have full: "concat (map (\<lambda>i. map bit_char (word_bits (?ws ! i))) [0..<?m]) = map bit_char (all_bits (take ?m ?ws))"
    by (simp add: all_bits_def t map_concat comp_def)
  have bits: "bits d = take (64 * ?m + ?r) (all_bits ?ws)" using all_bits_padded [OF assms] by simp
  show ?thesis
  proof (cases "?r = 0")
    case True
    then have "bits d = all_bits (take ?m ?ws)"
      using bits all_bits_take [of ?m ?ws 0] ml by (cases "?m = length ?ws") simp_all
    then show ?thesis using True full
      by (simp add: BitArray_Format_def Let_def byteReprs_word [simplified])
  next
    case False
    then have m: "?m < length ?ws" using N by (metis div_less_iff_less_mult mod_mult_self1_is_0 mult.commute nat_less_le zero_less_numeral)
    have "rev [64 - 1 - ?r + 1..<64] = map (\<lambda>q. 63 - q) [0..<?r]"
      using mod_less_divisor [of 64 "BitLen d"] by (intro nth_equalityI) (simp_all add: rev_nth)
    then have "map (\<lambda>i. bit_char (drop_bit i (?ws ! ?m) AND 1 \<noteq> 0)) (rev [64 - 1 - ?r + 1..<64]) =
        map bit_char (take ?r (word_bits (?ws ! ?m)))"
      using mod_less_divisor [of 64 "BitLen d"]
      by (simp add: word_bits_def take_map comp_def and_one_eq mod_2_eq_odd bit_iff_odd_drop_bit)
    then show ?thesis using False full bits all_bits_take [OF m, of ?r] mod_less_divisor [of 64 "BitLen d"]
      by (simp add: BitArray_Format_def Let_def byteReprs_word [simplified])
  qed
qed

text \<open>
  The parsers: a digit stands for \<open>step\<close> bits. The loop keeps the finished words in the array and the
  bits of the unfinished one in \<open>curWord\<close>.
\<close>

definition digit_bits :: "nat \<Rightarrow> uint64 \<Rightarrow> bool list" where
  "digit_bits step v = map (\<lambda>k. bit v (step - 1 - k)) [0..<step]"

definition parse_inv :: "bool list \<Rightarrow> nat \<Rightarrow> nat \<Rightarrow> uint64 \<Rightarrow> uint64 list \<Rightarrow> bool" where
  "parse_inv xs wordIdx bitIdx curWord ws \<longleftrightarrow> length xs = 64 * wordIdx + bitIdx \<and> bitIdx < 64 \<and>
     (\<forall>i < 64 * length ws. bget ws i = (i < 64 * wordIdx \<and> xs ! i)) \<and>
     (\<forall>q < 64. bit curWord (63 - q) = (q < bitIdx \<and> xs ! (64 * wordIdx + q)))"

lemma parse_word:
  assumes inv: "parse_inv xs w b cur ws" and b: "b + step \<le> 64" and v: "unat v < 2 ^ step" and q: "q < 64"
  shows "bit (cur OR push_bit (64 - step - b) v) (63 - q) =
    (q < b + step \<and> (xs @ digit_bits step v) ! (64 * w + q))"
proof -
  have c: "bit cur (63 - q) = (q < b \<and> xs ! (64 * w + q))" "length xs = 64 * w + b"
    using inv q by (auto simp: parse_inv_def)
  have hi: "\<not> bit v n" if "step \<le> n" for n
  proof -
    have "unat v < 2 ^ n" using v that by (meson less_le_trans one_le_numeral power_increasing)
    then have "\<not> bit (unat v) n" by (simp add: bit_iff_odd)
    then show ?thesis by (auto simp: bit_unsigned_iff dest: bit_imp_le_length)
  qed
  have p: "bit (push_bit (64 - step - b) v) (63 - q) = (q < b + step \<and> b \<le> q \<and> bit v (step + b - 1 - q))"
  proof (cases "q < b + step")
    case True
    then have "63 - q - (64 - step - b) = step + b - 1 - q" using q b by linarith
    moreover have "b \<le> q" if "bit v (step + b - 1 - q)"
    proof (rule ccontr)
      assume "\<not> b \<le> q"
      then have "step \<le> step + b - 1 - q" by linarith
      with hi that show False by blast
    qed
    ultimately show ?thesis using True q b by (auto simp: bit_push_bit_iff)
  qed (use q b in \<open>auto simp: bit_push_bit_iff\<close>)
  show ?thesis
  proof (cases "q < b")
    case True
    then show ?thesis using c p by (simp add: bit_or_iff nth_append)
  next
    case False
    then have "step - 1 - (q - b) = step + b - 1 - q" by linarith
    then show ?thesis using False c p by (auto simp: bit_or_iff nth_append digit_bits_def)
  qed
qed

lemma parse_store:
  assumes "parse_inv xs w b cur ws" "b + step \<le> 64" "unat v < 2 ^ step" "w < length ws"
    and cur': "cur' = cur OR push_bit (64 - step - b) v"
  shows "if b + step = 64 then parse_inv (xs @ digit_bits step v) (w + 1) 0 0 (ws[w := cur'])
    else parse_inv (xs @ digit_bits step v) w (b + step) cur' ws"
proof -
  note word = parse_word [OF assms(1-3), folded cur']
  have len: "length xs = 64 * w + b" "length (digit_bits step v) = step" using assms(1) by (simp_all add: parse_inv_def digit_bits_def)
  have old: "bget ws i = (i < 64 * w \<and> xs ! i)" if "i < 64 * length ws" for i using assms(1) that by (simp add: parse_inv_def)
  have "bget (ws[w := cur']) i = (i < 64 * (w + 1) \<and> (xs @ digit_bits step v) ! i)"
    if "i < 64 * length ws" "b + step = 64" for i
  proof -
    obtain k q where kq: "i = 64 * k + q" "q < 64" by (rule bget_cases)
    have k: "k < length ws" using that(1) kq by linarith
    show ?thesis
    proof (cases "k = w")
      case True
      then show ?thesis using word [OF kq(2)] that(2) k kq by (simp add: bget_at)
    next
      case False
      then have "bget (ws[w := cur']) i = bget ws i" using kq by (simp add: bget_at)
      moreover have "i < 64 * (w + 1) \<longleftrightarrow> i < 64 * w" using False kq by auto
      ultimately show ?thesis using old [OF that(1)] len by (auto simp: nth_append)
    qed
  qed
  moreover have "bget ws i = (i < 64 * w \<and> (xs @ digit_bits step v) ! i)" if "i < 64 * length ws" for i
    using old [OF that] len by (auto simp: nth_append)
  ultimately show ?thesis using len assms(2) word by (auto simp: parse_inv_def)
qed

lemma parse_loop_ok:
  assumes "parse_inv xs w b cur ws" "step dvd 64" "step dvd b" "0 < step"
    and "\<forall>c \<in> set cs. \<exists>v. digit c = Some v \<and> unat v < 2 ^ step"
    and "length xs + step * length cs \<le> 64 * length ws"
  shows "\<exists>ws'. parse_loop digit step cs w b cur ws = Inr ws' \<and> length ws' = length ws \<and>
    (\<forall>i < 64 * length ws. bget ws' i = (i < length xs + step * length cs \<and>
       (xs @ concat (map (digit_bits step \<circ> the \<circ> digit) cs)) ! i))"
  using assms
proof (induction cs arbitrary: xs w b cur ws)
  case Nil
  let ?ws = "if b > 0 then ws[w := cur] else ws"
  have inv: "length xs = 64 * w + b" "b < 64"
    "\<And>i. i < 64 * length ws \<Longrightarrow> bget ws i = (i < 64 * w \<and> xs ! i)"
    "\<And>q. q < 64 \<Longrightarrow> bit cur (63 - q) = (q < b \<and> xs ! (64 * w + q))"
    using Nil.prems(1) by (auto simp: parse_inv_def)
  have "bget ?ws i = (i < length xs \<and> xs ! i)" if i: "i < 64 * length ws" for i
  proof -
    obtain k q where kq: "i = 64 * k + q" "q < 64" by (rule bget_cases)
    have k: "k < length ws" using i kq by linarith
    show ?thesis
    proof (cases "k = w \<and> b > 0")
      case True
      then show ?thesis using inv(1,4) kq k by (simp add: bget_at)
    next
      case False
      then have "bget ?ws i = bget ws i" using kq by (auto simp: bget_at)
      moreover have "i < length xs \<longleftrightarrow> i < 64 * w" using False kq inv(1,2) by auto
      ultimately show ?thesis using inv(3) [OF i] by simp
    qed
  qed
  then show ?case by auto
next
  case (Cons c cs)
  obtain v where v: "digit c = Some v" "unat v < 2 ^ step" using Cons.prems(5) by auto
  have len: "length xs = 64 * w + b" "b < 64" using Cons.prems(1) by (auto simp: parse_inv_def)
  have "step dvd 64 - b" using Cons.prems(2,3) by simp
  then have bs: "b + step \<le> 64" using len(2) dvd_imp_le [of step "64 - b"] by simp
  have w: "w < length ws" using Cons.prems(4,6) len(1) by simp
  let ?cur = "cur OR push_bit (64 - step - b) v"
  note store = parse_store [OF Cons.prems(1) bs v(2) w refl]
  have dl: "length (digit_bits step v) = step" by (simp add: digit_bits_def)
  show ?case
  proof (cases "b + step = 64")
    case True
    then show ?thesis using Cons.IH [of "xs @ digit_bits step v" "w + 1" 0 0 "ws[w := ?cur]"] store Cons.prems v dl
      by (simp add: Let_def add.assoc)
  next
    case False
    then have "(b + step) mod 64 = b + step" "0 < b + step" "step dvd b + step" using bs Cons.prems(3,4) by simp_all
    then show ?thesis using False Cons.IH [of "xs @ digit_bits step v" w "b + step" ?cur ws] store Cons.prems v dl
      by (simp add: Let_def add.assoc)
  qed
qed

lemma parse_zeros: "parse_inv [] 0 0 0 (replicate n 0)"
  by (auto simp: parse_inv_def bget_zero)

lemma parse_denotes:
  assumes "step dvd 64" "0 < step" "\<forall>c \<in> set cs. \<exists>v. digit c = Some v \<and> unat v < 2 ^ step" "step * length cs < 2 ^ 61"
  shows "\<exists>d. (case EncodingPartsForBitLen (of_nat (step * length cs)) of (ws, lastBits) \<Rightarrow>
        res_bind (parse_loop digit step cs 0 0 0 ws) (\<lambda>ws. FromEncodingParts ws lastBits)) = Inr d \<and>
      denotes d (concat (map (digit_bits step \<circ> the \<circ> digit) cs))"
proof -
  let ?n = "step * length cs" and ?xs = "concat (map (digit_bits step \<circ> the \<circ> digit) cs)"
  let ?m = "(?n + 63) div 64"
  have len: "length ?xs = ?n" by (induction cs) (simp_all add: digit_bits_def)
  have m: "?n \<le> 64 * ?m" "?m < 2 ^ 56" using assms(4) by (auto simp: div_less_iff_less_mult)
  obtain ws where ws: "parse_loop digit step cs 0 0 0 (replicate ?m 0) = Inr ws" "length ws = ?m"
    "\<And>i. i < 64 * ?m \<Longrightarrow> bget ws i = (i < ?n \<and> ?xs ! i)"
    using parse_loop_ok [OF parse_zeros assms(1) _ assms(2,3), of ?m] m(1) by auto
  then have "denotes (mk (length ?xs) ws) ?xs" using len m(2) by (intro denotes_mk) simp_all
  moreover have "?n < 2 ^ 62" using assms(4) by simp
  ultimately show ?thesis using ws(1) len by (simp only: Parts_eq prod.case res_bind_simps FromParts_eq) simp
qed

lemma binary_digits:
  "binary_digit c = Some v \<Longrightarrow> unat v < 2 ^ 1"
  "binary_digit (bit_char b) = Some (if b then 1 else 0)" "digit_bits (Suc 0) 1 = [True]" "digit_bits (Suc 0) 0 = [False]"
  by (auto simp: binary_digit_def bit_char_def digit_bits_def split: if_splits)

lemma Parse_binary:
  assumes "length xs < 2 ^ 61"
  shows "\<exists>d. BitArray_Parse (map bit_char xs) = Inr d \<and> denotes d xs"
proof (cases xs)
  case Nil
  then show ?thesis
    by (simp add: BitArray_Parse_def denotes_def empty_bits_def wf_bits_def bits_def BitLen_def)
next
  case (Cons x xs')
  have "digit_bits 1 \<circ> the \<circ> binary_digit \<circ> bit_char = (\<lambda>b. [b])" by (auto simp: fun_eq_iff binary_digits)
  then have "concat (map (digit_bits 1 \<circ> the \<circ> binary_digit) (map bit_char xs)) = xs"
    by (simp add: comp_assoc)
  moreover have "BitArray_Parse (map bit_char xs) = parseFromBinary (map bit_char xs)"
    using Cons by (simp add: BitArray_Parse_def bit_char_def)
  ultimately show ?thesis
    using parse_denotes [of 1 "map bit_char xs" binary_digit] assms
    by (simp add: parseFromBinary_def binary_digits)
qed

lemma hex_digit_less: "hex_digit c = Some v \<Longrightarrow> unat v < 2 ^ 4"
  by (auto simp: hex_digit_def unat_of_nat_small unat_word_ariths simp del: of_nat_diff split: if_splits)

lemma Parse_hex:
  assumes "c = CHR ''x'' \<or> c = CHR ''X''" "\<forall>x \<in> set cs. hex_digit x \<noteq> None" "length cs < 2 ^ 59"
  shows "\<exists>d. BitArray_Parse (c # cs) = Inr d \<and> denotes d (concat (map (digit_bits 4 \<circ> the \<circ> hex_digit) cs))"
proof -
  have "\<forall>x \<in> set cs. \<exists>v. hex_digit x = Some v \<and> unat v < 2 ^ 4"
    using assms(2) hex_digit_less by blast
  then show ?thesis using parse_denotes [of 4 cs hex_digit] assms(1,3)
    by (simp add: BitArray_Parse_def parseFromHex_def mult.commute)
qed

lemma parse_loop_error:
  "\<exists>c \<in> set cs. digit c = None \<Longrightarrow>
     parse_loop digit step cs w b cur ws = Inl (Errorf ''could not parse string as bit array'')"
proof (induction cs arbitrary: w b cur ws)
  case (Cons c cs)
  then show ?case by (cases "digit c") (auto simp: Let_def)
qed simp

section \<open>Integers\<close>

text \<open>The rightmost \<open>n\<close> bits of the integer, sign-extended from \<open>width\<close> bits.\<close>

definition int_bits :: "nat \<Rightarrow> nat \<Rightarrow> int64 \<Rightarrow> bool list" where
  "int_bits n width v = map (\<lambda>i. bit v (min (n - 1 - i) (width - 1))) [0..<n]"

lemma sign_extend_bit:
  fixes v :: int64
  assumes "1 \<le> w" "w \<le> 64" "k < 64"
  shows "bit (signed_drop_bit (64 - w) (push_bit (64 - w) v)) k = bit v (min k (w - 1))"
  using assms by (auto simp: bit_signed_drop_bit_iff bit_push_bit_iff min_def)

lemma bits_from_right:
  assumes "wf_bits d" "words d \<noteq> []" "j < BitLen d"
  shows "bits d ! (BitLen d - 1 - j) =
    (if j < lastBitsUsed d then bit (words d ! (length (words d) - 1)) (64 - lastBitsUsed d + j)
     else bget (words d) (BitLen d - 1 - j))"
proof (cases "j < lastBitsUsed d")
  case True
  let ?l = "lastBitsUsed d" and ?t = "length (words d) - 1"
  have "BitLen d - 1 - j = 64 * ?t + (?l - 1 - j)" "63 - (?l - 1 - j) = 64 - ?l + j"
    using True BitLen_last [OF assms(2)] last_pos [OF assms(1,2)] by linarith+
  then show ?thesis using True assms(3) bget_at [of "?l - 1 - j" "words d" ?t] last_pos [OF assms(1,2)] by simp
qed (use assms(3) in simp)

lemma AsInt64_combined:
  assumes "wf_bits d" "words d \<noteq> []" "j < b" "b \<le> 64"
  shows "bit (drop_bit (64 - lastBitsUsed d) (words d ! (length (words d) - 1)) OR
      (if b > lastBitsUsed d \<and> length (words d) > 1
       then push_bit (lastBitsUsed d) (words d ! (length (words d) - 2)) else 0)) j =
    (j < BitLen d \<and> bits d ! (BitLen d - 1 - j))"
proof -
  let ?l = "lastBitsUsed d" and ?n = "length (words d)"
  note N = BitLen_last [OF assms(2)] and l = last_pos [OF assms(1,2)]
  have low: "bit (drop_bit (64 - ?l) (words d ! (?n - 1))) j = (j < ?l \<and> bit (words d ! (?n - 1)) (64 - ?l + j))"
    using l by (auto simp: bit_drop_bit_eq dest: bit_imp_le_length)
  show ?thesis
  proof (cases "j < ?l")
    case True
    then show ?thesis using low bits_from_right [OF assms(1,2), of j] N by (simp add: bit_or_iff bit_push_bit_iff)
  next
    case False
    show ?thesis
    proof (cases "?n > 1")
      case True
      then obtain m where m: "?n = m + 2" by (metis Suc_1 Suc_eq_plus1 add.commute less_imp_Suc_add plus_1_eq_Suc add_Suc_right)
      have "BitLen d - 1 - j = 64 * m + (63 - (j - ?l))" "j < BitLen d" "j - ?l < 64"
        using N m False assms(3,4) by simp_all
      then have "bits d ! (BitLen d - 1 - j) = bit (words d ! m) (j - ?l)"
        using bits_from_right [OF assms(1,2), of j] False bget_at [of "63 - (j - ?l)" "words d" m] by simp
      then show ?thesis using low False True m \<open>j < BitLen d\<close> assms(3,4) by (simp add: bit_or_iff bit_push_bit_iff)
    next
      case not: False
      then have "BitLen d = ?l" using N assms(2) by (cases "words d") auto
      then show ?thesis using low False not by (simp add: bit_or_iff)
    qed
  qed
qed

lemma AsInt64_bit:
  assumes "wf_bits d" "1 \<le> b" "b \<le> 64" "k < 64"
  shows "bit (BitArray_AsInt64 d (of_nat b)) k =
    (min k (b - 1) < BitLen d \<and> bits d ! (BitLen d - 1 - min k (b - 1)))"
proof (cases "words d = []")
  case True
  then show ?thesis using assms(1) by (simp add: BitArray_AsInt64_def wf_bits_def BitLen_def)
next
  case False
  have u: "unat (of_nat b :: uint64) = b" "unat (64 - of_nat b :: uint64) = 64 - b"
    using assms(3) by (simp_all add: unat_of_nat_small unat_sub word_le_nat_alt)
  have ne: "lastBitsUsed d \<noteq> 0" and m: "min k (b - 1) < b" using last_pos [OF assms(1) False] assms(2) by simp_all
  show ?thesis
    by (simp only: BitArray_AsInt64_def Let_def u ne if_False sign_extend_bit [OF assms(2-4)]
        AsInt64_combined [OF assms(1) False m assms(3)])
qed

lemma FromInt64_cut:
  assumes "0 < n" "n < w" "w \<le> 64"
  shows "\<exists>d. MakeBitArrayFromInt64 (of_nat n) v (of_nat w) = Inr d \<and> denotes d (int_bits n w v)"
proof -
  have n: "unat (of_nat n :: uint64) = n" "unat (of_nat w :: uint64) = w"
    using assms by (simp_all add: unat_of_nat_small)
  then have u: "unat (64 - of_nat n :: uint64) = 64 - n" "(of_nat n :: uint64) < of_nat w"
    using assms by (simp_all add: unat_sub word_le_nat_alt word_less_nat_alt)
  have nz: "(of_nat n :: uint64) \<noteq> 0" using n(1) assms(1) by auto
  have m: "(n + 63) div 64 = 1" using assms by (intro div_nat_eqI) auto
  let ?ws = "[push_bit (64 - n) v]"
  have eq: "MakeBitArrayFromInt64 (of_nat n) v (of_nat w) = Inr (mk (length (int_bits n w v)) ?ws)"
    using u nz m assms MakeZero_eq [of n] by (simp add: MakeBitArrayFromInt64_def Let_def mk_def int_bits_def)
  have "denotes (mk (length (int_bits n w v)) ?ws) (int_bits n w v)"
  proof (rule denotes_mk)
    fix i assume "i < 64 * length ?ws"
    then have i: "i < 64" by simp
    then have "bget ?ws i = (i < n \<and> bit v (n - 1 - i))"
      using assms bget_at [of i ?ws 0] by (auto simp: bit_push_bit_iff)
    then show "bget ?ws i = (i < length (int_bits n w v) \<and> int_bits n w v ! i)"
      using assms by (auto simp: int_bits_def min_def)
  qed (use m in \<open>simp_all add: int_bits_def\<close>)
  then show ?thesis using eq by blast
qed

lemma signed_drop_min: "k < 64 \<Longrightarrow> bit (signed_drop_bit l (x :: int64)) k = bit x (min (k + l) 63)"
  by (auto simp: bit_signed_drop_bit_iff min_def add.commute intro!: arg_cong [where f = "bit x"])

lemma FromInt64_words:
  assumes "1 \<le> w" "w \<le> n" "w \<le> 64" "n < 2 ^ 61"
  defines "m \<equiv> (n + 63) div 64" and "l \<equiv> last_of n"
  shows "\<exists>ws. MakeBitArrayFromInt64 (of_nat n) v (of_nat w) = Inr (mk n ws) \<and> length ws = m \<and>
    (\<forall>k < m. \<forall>q < 64. bit (ws ! k) (63 - q) =
       (if k = m - 1 then q < l \<and> bit v (min (l - 1 - q) (w - 1))
        else if k = m - 2 then bit v (min (63 - q + l) (w - 1)) else bit v (w - 1)))"
proof -
  have u: "unat (of_nat w :: uint64) = w" "unat (of_nat n :: uint64) = n"
    using assms(2-4) by (simp_all add: unat_of_nat_small)
  then have u64: "unat (64 - of_nat w :: uint64) = 64 - w" "unat (of_nat w - 1 :: uint64) = w - 1"
    "\<not> (of_nat n :: uint64) < of_nat w"
    using assms(1-3) by (simp_all add: unat_sub word_le_nat_alt word_less_nat_alt)
  have nz: "(of_nat n :: uint64) \<noteq> 0" using u(2) assms(1,2) by auto
  have l: "1 \<le> l" "l \<le> 64" "n = 64 * (m - 1) + l" using last_of_bounds [of n] assms(1,2) by (auto simp: m_def l_def)
  have m: "0 < m" using assms(1,2) by (simp add: m_def div_greater_zero_iff)
  have m2: "2 \<le> m" if "w > l" using that l(3) assms(2) m by (cases "m = 1") auto
  then have m2': "m < 2 \<longrightarrow> \<not> l < w" by fastforce
  let ?val = "signed_drop_bit (64 - w) (push_bit (64 - w) v)"
  have val: "bit ?val k = bit v (min k (w - 1))" if "k < 64" for k using sign_extend_bit [OF assms(1,3) that] .
  let ?sign = "bit v (w - 1)" and ?z = "replicate m (0 :: uint64)"
  define w0 where "w0 = (if ?sign then for_words 0 (m - 1) (\<lambda>k w. NOT 0) ?z else ?z)"
  define ws where "ws = (if w > l then (w0[m - 1 := push_bit (64 - l) ?val])[m - 2 := signed_drop_bit l ?val]
      else w0[m - 1 := push_bit (64 - l) ?val])"
  have sgn: "(v AND push_bit (w - 1) 1 \<noteq> 0) = ?sign" by (simp add: and_exp_eq_0_iff_not_bit push_bit_of_1)
  have "MakeBitArrayFromInt64 (of_nat n) v (of_nat w) = Inr (mk n ws)"
    using nz u u64 m m2' assms(4) sgn MakeZero_eq [of n]
    by (simp add: MakeBitArrayFromInt64_def Let_def mk_def ws_def w0_def flip: m_def l_def)
  moreover have len: "length w0 = m" by (simp add: w0_def)
  moreover have "bit (ws ! k) (63 - q) = (if k = m - 1 then q < l \<and> bit v (min (l - 1 - q) (w - 1))
        else if k = m - 2 then bit v (min (63 - q + l) (w - 1)) else bit v (w - 1))" if "k < m" "q < 64" for k q
  proof (cases "k = m - 1")
    case True
    then have "ws ! k = push_bit (64 - l) ?val" using len m m2 by (auto simp: ws_def nth_list_update)
    moreover have "63 - q - (64 - l) = l - 1 - q" using that(2) l by linarith
    ultimately show ?thesis using True that(2) l(2) val [of "l - 1 - q"] by (auto simp: bit_push_bit_iff)
  next
    case False
    then have fill: "bit (w0 ! k) (63 - q) = ?sign"
      using that by (auto simp: w0_def for_words_nth bit_not_iff)
    show ?thesis
    proof (cases "k = m - 2 \<and> w > l")
      case True
      then have "ws ! k = signed_drop_bit l ?val" using len m2 by (auto simp: ws_def)
      moreover have "bit (signed_drop_bit l ?val) (63 - q) = bit ?val (min (63 - q + l) 63)"
        using that(2) by (intro signed_drop_min) simp
      moreover have "bit ?val (min (63 - q + l) 63) = bit v (min (63 - q + l) (w - 1))"
      proof -
        have "min (min (63 - q + l) 63) (w - 1) = min (63 - q + l) (w - 1)" using assms(3) by linarith
        then show ?thesis using val [of "min (63 - q + l) 63"] by (simp add: min_less_iff_disj)
      qed
      ultimately show ?thesis using True False by simp
    next
      case no: False
      then have "ws ! k = w0 ! k" using False by (auto simp: ws_def)
      moreover have "min (63 - q + l) (w - 1) = w - 1" if "\<not> w > l" using that by simp
      ultimately show ?thesis using False fill no by auto
    qed
  qed
  ultimately show ?thesis by (intro exI [of _ ws]) (auto simp: ws_def)
qed

lemma FromInt64_denotes:
  assumes "1 \<le> w" "w \<le> n" "w \<le> 64" "n < 2 ^ 61"
  shows "\<exists>d. MakeBitArrayFromInt64 (of_nat n) v (of_nat w) = Inr d \<and> denotes d (int_bits n w v)"
proof -
  let ?m = "(n + 63) div 64" and ?l = "last_of n"
  obtain ws where ws: "MakeBitArrayFromInt64 (of_nat n) v (of_nat w) = Inr (mk n ws)" "length ws = ?m"
    and bit: "\<And>k q. k < ?m \<Longrightarrow> q < 64 \<Longrightarrow> bit (ws ! k) (63 - q) =
       (if k = ?m - 1 then q < ?l \<and> bit v (min (?l - 1 - q) (w - 1))
        else if k = ?m - 2 then bit v (min (63 - q + ?l) (w - 1)) else bit v (w - 1))"
    using FromInt64_words [OF assms] by blast
  have l: "1 \<le> ?l" "?l \<le> 64" "n = 64 * (?m - 1) + ?l" using last_of_bounds [of n] assms(1,2) by auto
  have "denotes (mk (length (int_bits n w v)) ws) (int_bits n w v)"
  proof (rule denotes_mk)
    fix i assume i: "i < 64 * length ws"
    obtain k q where kq: "i = 64 * k + q" "q < 64" by (rule bget_cases)
    have k: "k < ?m" using i kq ws(2) by linarith
    have "bget ws i = (i < n \<and> bit v (min (n - 1 - i) (w - 1)))"
    proof -
      consider "k = ?m - 1" | "k = ?m - 2" "k \<noteq> ?m - 1" | "k + 3 \<le> ?m" using k by linarith
      then show ?thesis
      proof cases
        case 1
        then have "n - 1 - i = ?l - 1 - q" "i < n \<longleftrightarrow> q < ?l" using l kq by linarith+
        then show ?thesis using bit [OF k kq(2)] 1 unfolding kq(1) bget_at [OF kq(2)] by simp
      next
        case 2
        then have "n = 64 * (k + 1) + ?l" using l(3) k by (simp add: algebra_simps)
        moreover have "N = 64 * (k + 1) + L \<Longrightarrow> 1 \<le> L \<Longrightarrow> N - 1 - i = 63 - q + L \<and> i < N" for N L
          using kq by auto
        ultimately have "n - 1 - i = 63 - q + ?l" "i < n" using l(1) by blast+
        then show ?thesis using bit [OF k kq(2)] 2 unfolding kq(1) bget_at [OF kq(2)] by simp
      next
        case 3
        then have "n - 1 - i \<ge> w - 1" "i < n" "k \<noteq> ?m - 1" "k \<noteq> ?m - 2" using l kq assms(3) by linarith+
        then show ?thesis using bit [OF k kq(2)] 3 unfolding kq(1) bget_at [OF kq(2)] by (simp add: min_absorb2)
      qed
    qed
    then show "bget ws i = (i < length (int_bits n w v) \<and> int_bits n w v ! i)" by (auto simp: int_bits_def)
  qed (use ws(2) assms(4) in \<open>auto simp: int_bits_def div_less_iff_less_mult\<close>)
  then show ?thesis using ws(1) by (simp add: int_bits_def)
qed

section \<open>The properties of the package\<close>

lemma next_list: "x < y \<Longrightarrow> x @ [False] \<le> (y :: bool list)"
proof (induction x arbitrary: y)
  case Nil
  then show ?case by (cases y) auto
next
  case (Cons a x)
  then show ?case by (cases y) auto
qed



text \<open>
  Comparison and successor. On well-formed arrays \<open>Compare\<close> is the lexicographic comparison of the
  bit strings, although it looks at whole words and the padding of the last one; it is zero only
  on equal arrays. \<open>Next\<close> is the immediate successor in that order: nothing lies strictly
  between an array and its successor.
\<close>

theorem bitarray_order:
  assumes "wf_bits d" "wf_bits e" "length (words d) + 1 < 2 ^ 56"
  shows "BitArray_Compare d e = three_way (bits d) (bits e) \<and>
    (BitArray_Compare d e = 0 \<longleftrightarrow> d = e) \<and>
    denotes (BitArray_Next d) (bits d @ [False]) \<and> BitArray_Compare d (BitArray_Next d) = - 1 \<and>
    (BitArray_Compare d e < 0 \<longrightarrow> BitArray_Compare (BitArray_Next d) e \<le> 0)"
proof -
  have n: "denotes (BitArray_Next d) (bits d @ [False])" by (rule Next_denotes [OF assms(1,3)])
  then have wn: "wf_bits (BitArray_Next d)" and bn: "bits (BitArray_Next d) = bits d @ [False]" by (simp_all add: denotes_def)
  have "bits d < bits d @ [False]" using same_length_append_less [of "bits d" "bits d" "[]" "[False]"] by simp
  then show ?thesis
    using n Compare_bits [OF assms(1,2)] Compare_bits [OF assms(1) wn] Compare_bits [OF wn assms(2)] bn
      bits_inj [OF assms(1,2)] next_list [of "bits d" "bits e"]
    by (cases "bits d" "bits e" rule: linorder_cases) (auto simp: three_way_def)
qed

theorem bitarray_order_witness:
  "BitArray_Compare \<lparr>words = [0], lastBitsUsed = 64\<rparr> \<lparr>words = [0, 0], lastBitsUsed = 1\<rparr> < 0 \<and>
   BitArray_Compare (BitArray_Next \<lparr>words = [0], lastBitsUsed = 64\<rparr>) \<lparr>words = [0, 0], lastBitsUsed = 1\<rparr> \<le> 0"
proof -
  have "wf_bits \<lparr>words = [0], lastBitsUsed = 64\<rparr>" "wf_bits \<lparr>words = [0, 0], lastBitsUsed = 1\<rparr>"
    by (simp_all add: wf_bits_def)
  note order = bitarray_order [OF this]
  have "BitArray_Compare \<lparr>words = [0], lastBitsUsed = 64\<rparr> \<lparr>words = [0, 0], lastBitsUsed = 1\<rparr> < 0"
    by (simp add: BitArray_Compare_def)
  with order show ?thesis by (simp only: BitArray.simps) simp
qed

text \<open>
  Text. \<open>Format\<close> prints one digit per bit and \<open>Parse\<close> reads the array back; every string of
  binary digits, and \<open>x\<close> followed by hexadecimal digits, parses to the bits its digits stand for, and
  any other character is an error.
\<close>

theorem bitarray_text_roundtrip:
  assumes "wf_bits d" "BitLen d < 2 ^ 61" "length xs < 2 ^ 61" "length hs < 2 ^ 59"
  shows "BitArray_Format d = map bit_char (bits d) \<and> BitArray_Parse (BitArray_Format d) = Inr d \<and>
    (\<exists>r. BitArray_Parse (map bit_char xs) = Inr r \<and> denotes r xs) \<and>
    (if \<forall>c \<in> set hs. hex_digit c \<noteq> None
     then \<exists>r. BitArray_Parse (CHR ''x'' # hs) = Inr r \<and> denotes r (concat (map (digit_bits 4 \<circ> the \<circ> hex_digit) hs))
     else BitArray_Parse (CHR ''x'' # hs) = Inl (Errorf ''could not parse string as bit array''))"
proof -
  have "\<exists>r. BitArray_Parse (map bit_char (bits d)) = Inr r \<and> denotes r (bits d)"
    using assms(2) by (intro Parse_binary) simp
  then have "BitArray_Parse (BitArray_Format d) = Inr d"
    using bits_inj [OF _ assms(1)] by (auto simp: denotes_def Format_bits [OF assms(1)])
  moreover have "BitArray_Parse (CHR ''x'' # hs) = Inl (Errorf ''could not parse string as bit array'')"
    if "\<exists>c \<in> set hs. hex_digit c = None"
    using parse_loop_error [OF that] by (simp add: BitArray_Parse_def parseFromHex_def split: prod.split)
  ultimately show ?thesis
    using Format_bits [OF assms(1)] Parse_binary [OF assms(3)] Parse_hex [of "CHR ''x''" hs] assms(4) by auto
qed

theorem bitarray_text_roundtrip_witness:
  "BitArray_Parse (BitArray_Format \<lparr>words = [0xA000000000000000], lastBitsUsed = 3\<rparr>) =
     Inr \<lparr>words = [0xA000000000000000], lastBitsUsed = 3\<rparr>"
proof -
  let ?d = "\<lparr>words = [0xA000000000000000], lastBitsUsed = 3\<rparr> :: BitArray"
  have wf: "wf_bits ?d" by (simp add: wf_bits_def take_bit_eq_mod)
  have length_less: "length ([] :: 'a list) < 2 ^ n" for n by simp
  have "BitLen ?d < 2 ^ 61" by (simp add: BitLen_def nonEmptyBitLen_def)
  then have "BitArray_Format ?d = map bit_char (bits ?d) \<and> BitArray_Parse (BitArray_Format ?d) = Inr ?d"
    using bitarray_text_roundtrip [OF wf, of "[]" "[]", OF _ length_less length_less] by blast
  then show ?thesis by blast
qed

text \<open>
  Integers. \<open>MakeBitArrayFromInt64\<close> writes the integer, sign-extended from its width, into the
  rightmost bits of an array of any length; \<open>AsInt64\<close> sign-extends the rightmost bits, and so reads
  back every integer whose width fits the array.
\<close>

theorem bitarray_int64:
  assumes "1 \<le> w" "w \<le> 64" "0 < n" "n < 2 ^ 61"
  shows "\<exists>d. MakeBitArrayFromInt64 (of_nat n) v (of_nat w) = Inr d \<and> denotes d (int_bits n w v) \<and>
    (w \<le> n \<longrightarrow> (\<forall>k. k < 64 \<longrightarrow> bit (BitArray_AsInt64 d (of_nat w)) k = bit v (min k (w - 1)))) \<and>
    (w = 64 \<longrightarrow> 64 \<le> n \<longrightarrow> BitArray_AsInt64 d 64 = v)"
proof -
  obtain d where d: "MakeBitArrayFromInt64 (of_nat n) v (of_nat w) = Inr d" "denotes d (int_bits n w v)"
    using FromInt64_denotes [OF assms(1) _ assms(2,4)] FromInt64_cut [OF assms(3) _ assms(2)] by (cases "w \<le> n") auto
  have "BitLen d = n" using d(2) length_bits [of d] by (simp add: denotes_def int_bits_def)
  then have k: "bit (BitArray_AsInt64 d (of_nat w)) k = bit v (min k (w - 1))" if "w \<le> n" "k < 64" for k
  proof -
    let ?j = "min k (w - 1)"
    have j: "?j < n" "n - 1 - (n - 1 - ?j) = ?j" "n - 1 - ?j < n" "min ?j (w - 1) = ?j" using that(1) assms(1) by linarith+
    have "bits d ! (n - 1 - ?j) = bit v ?j" using d(2) j by (simp add: denotes_def int_bits_def del: nth_bits)
    then show ?thesis using AsInt64_bit [OF _ assms(1,2) that(2), of d] d(2) j(1) \<open>BitLen d = n\<close>
      by (simp add: denotes_def del: nth_bits)
  qed
  then have "BitArray_AsInt64 d 64 = v" if "w = 64" "64 \<le> n"
    using that by (intro bit_word_eqI) (simp add: min_absorb1)
  then show ?thesis using d k by blast
qed

theorem bitarray_int64_witness:
  "\<exists>d. MakeBitArrayFromInt64 100 (- 5) 64 = Inr d \<and> BitArray_AsInt64 d 64 = - 5"
  using bitarray_int64 [of 64 100 "- 5"] by auto

text \<open>
  The rounding in \<open>SizesForBitLen\<close> wraps around for the largest lengths, so the constructor then
  returns an array with no words but a nonzero \<open>lastBitsUsed\<close>: it breaks the representation
  invariant, its length is zero and yet it does not count as empty.
\<close>

theorem MakeZeroBitArray_wraps:
  "MakeZeroBitArray (- 1) = Inr \<lparr>words = [], lastBitsUsed = 63\<rparr> \<and>
   \<not> wf_bits \<lparr>words = [], lastBitsUsed = 63\<rparr> \<and> BitLen \<lparr>words = [], lastBitsUsed = 63\<rparr> = 0 \<and>
   \<not> BitArray_IsEmpty \<lparr>words = [], lastBitsUsed = 63\<rparr>"
  by (simp add: MakeZeroBitArray_def EncodingPartsForBitLen_def SizesForBitLen_def mustFromEncodingParts_def
      FromEncodingParts_def wf_bits_def BitLen_def BitArray_IsEmpty_def)

end
