(* ===== verification/Encoding_Bits.thy ===== *)
theory Encoding_Bits
  imports Encoding_Peek Bit_Array
begin

text \<open>
  The bit array keys of \<open>pkg/util/encoding/encoding.go\<close>: one uvarint per word, a terminator, and the
  number of bits used in the last word. The lemmas on such terminated lists are proved once, for any
  ordered codec whose first byte is on one side of the terminator.
\<close>

section \<open>The operations\<close>

abbreviation (input) bitArrayDataTerminator :: byte where "bitArrayDataTerminator \<equiv> 0x00"
abbreviation (input) bitArrayDataDescTerminator :: byte where "bitArrayDataDescTerminator \<equiv> 0xff"

definition EncodeBitArrayAscending :: "bytes \<Rightarrow> BitArray \<Rightarrow> bytes" where
  "EncodeBitArrayAscending b d =
     (let b = b @ [bitArrayMarker] in case EncodingParts d of (ws, lastBits) \<Rightarrow>
        let b = fold (\<lambda>w b. EncodeUvarintAscending b w) ws b
        in EncodeUvarintAscending (b @ [bitArrayDataTerminator]) lastBits)"

definition EncodeBitArrayDescending :: "bytes \<Rightarrow> BitArray \<Rightarrow> bytes" where
  "EncodeBitArrayDescending b d =
     (let b = b @ [bitArrayDescMarker] in case EncodingParts d of (ws, lastBits) \<Rightarrow>
        let b = fold (\<lambda>w b. EncodeUvarintDescending b w) ws b
        in EncodeUvarintDescending (b @ [bitArrayDataDescTerminator]) lastBits)"

fun decode_words :: "(bytes \<Rightarrow> go_error + bytes \<times> uint64) \<Rightarrow> nat \<Rightarrow> bytes \<Rightarrow> go_error + bytes \<times> uint64 list" where
  "decode_words dec 0 b = Inr (b, [])"
| "decode_words dec (Suc n) b =
     res_bind (dec b) (\<lambda>(b, w). res_bind (decode_words dec n b) (\<lambda>(b, ws). Inr (b, w # ws)))"

definition DecodeBitArrayAscending :: "bytes \<Rightarrow> go_error + bytes \<times> BitArray" where
  "DecodeBitArrayAscending b =
     (if PeekType b \<noteq> Type_BitArray then Inl (Errorf ''did not find marker'')
      else let b = tl b in
        res_bind (getBitArrayWordsLen b bitArrayDataTerminator) (\<lambda>(numWords, _).
        res_bind (decode_words DecodeUvarintAscending numWords b) (\<lambda>(b, ws).
          case b of [] \<Rightarrow> Inl (Errorf ''cannot find bit array data terminator'')
          | c # b \<Rightarrow>
              if c \<noteq> bitArrayDataTerminator then Inl (Errorf ''cannot find bit array data terminator'')
              else res_bind (DecodeUvarintAscending b) (\<lambda>(b, lastVal).
                   res_bind (FromEncodingParts ws lastVal) (\<lambda>ba. Inr (b, ba))))))"

definition DecodeBitArrayDescending :: "bytes \<Rightarrow> go_error + bytes \<times> BitArray" where
  "DecodeBitArrayDescending b =
     (if PeekType b \<noteq> Type_BitArrayDesc then Inl (Errorf ''did not find marker'')
      else let b = tl b in
        res_bind (getBitArrayWordsLen b bitArrayDataDescTerminator) (\<lambda>(numWords, _).
        res_bind (decode_words DecodeUvarintDescending numWords b) (\<lambda>(b, ws).
          case b of [] \<Rightarrow> Inl (Errorf ''cannot find bit array data terminator'')
          | c # b \<Rightarrow>
              if c \<noteq> bitArrayDataDescTerminator then Inl (Errorf ''cannot find bit array data terminator'')
              else res_bind (DecodeUvarintDescending b) (\<lambda>(b, lastVal).
                   res_bind (FromEncodingParts ws lastVal) (\<lambda>ba. Inr (b, ba))))))"

section \<open>Terminated lists\<close>

text \<open>
  The order of lists that a terminator on one side of every element gives: with a low terminator
  (\<open>first\<close>) the shorter list comes first, with a high one last.
\<close>

fun list_lt :: "('a \<Rightarrow> 'a \<Rightarrow> bool) \<Rightarrow> bool \<Rightarrow> 'a list \<Rightarrow> 'a list \<Rightarrow> bool" where
  "list_lt lt first [] [] = False"
| "list_lt lt first [] (y # ys) = first"
| "list_lt lt first (x # xs) [] = (\<not> first)"
| "list_lt lt first (x # xs) (y # ys) = (lt x y \<or> x = y \<and> list_lt lt first xs ys)"

lemma list_lt_asc: "list_lt (<) True xs ys \<longleftrightarrow> xs < (ys :: 'a::linorder list)"
  by (induction "(<) :: 'a \<Rightarrow> 'a \<Rightarrow> bool" True xs ys rule: list_lt.induct) auto

lemma list_lt_desc: "list_lt (>) False xs ys \<longleftrightarrow> ys < (xs :: 'a::linorder list)"
  by (induction "(>) :: 'a \<Rightarrow> 'a \<Rightarrow> bool" False xs ys rule: list_lt.induct) auto

locale codec_list = ordered_codec enc dec "\<lambda>_. True" lt
  for enc :: "uint64 \<Rightarrow> bytes" and dec lt +
  fixes trm :: byte and low :: bool
  assumes head: "\<exists>c bs. enc x = c # bs \<and> (if low then trm < c else c < trm)"
    and enc_len: "getVarintLen (enc x @ rest) = Inr (length (enc x))"
begin

lemma terminated_less_iff:
  "concat (map enc xs) @ trm # r < concat (map enc ys) @ trm # s \<longleftrightarrow> list_lt lt low xs ys \<or> xs = ys \<and> r < s"
proof (induction xs arbitrary: ys)
  case Nil
  show ?case
  proof (cases ys)
    case (Cons y ys')
    then show ?thesis using head [of y] by (auto split: if_splits)
  qed simp
next
  case (Cons x xs)
  show ?case
  proof (cases ys)
    case Nil
    then show ?thesis using head [of x] by (auto split: if_splits)
  next
    case (Cons y ys')
    then show ?thesis using enc_less_iff [where x = x and y = y] Cons.IH [of ys'] by auto
  qed
qed

lemma words_len:
  "getBitArrayWordsLen_loop (concat (map enc xs) @ trm # rest) trm k n =
     Inr (k + length xs, n + length (concat (map enc xs)))"
proof (induction xs arbitrary: k n)
  case Nil
  then show ?case by (subst getBitArrayWordsLen_loop.simps) simp
next
  case (Cons x xs)
  obtain c bs where "enc x = c # bs" "c \<noteq> trm" using head [of x] by (auto split: if_splits)
  with Cons enc_len [of x "concat (map enc xs) @ trm # rest"] show ?case
    by (subst getBitArrayWordsLen_loop.simps) auto
qed

lemma decode_words_enc: "decode_words dec (length xs) (concat (map enc xs) @ rest) = Inr (rest, xs)"
  by (induction xs) (simp_all add: dec_enc)

end

section \<open>Bit array keys\<close>

interpretation uvarint_list: codec_list "EncodeUvarintAscending []" DecodeUvarintAscending "(<)" 0 True
proof unfold_locales
  fix x :: uint64 and rest
  obtain n bs where "EncodeUvarintAscending [] x = of_nat n # bs" "128 \<le> n" "n \<le> 253"
    using Varint_tags(2) by blast
  then show "\<exists>c bs. EncodeUvarintAscending [] x = c # bs \<and> (if True then 0 < c else c < 0)"
    using unat_of_nat_small [of n, where 'a = 8] by (auto simp: word_less_nat_alt)
qed simp

interpretation uvarint_desc_list: codec_list "EncodeUvarintDescending []" DecodeUvarintDescending "(>)" "0xff" False
proof unfold_locales
  fix x :: uint64 and rest
  obtain n bs where "EncodeUvarintDescending [] x = of_nat n # bs" "128 \<le> n" "n \<le> 253"
    using Varint_tags(3) by blast
  then show "\<exists>c bs. EncodeUvarintDescending [] x = c # bs \<and> (if False then 0xff < c else c < 0xff)"
    using unat_of_nat_small [of n, where 'a = 8] by (auto simp: word_less_nat_alt)
qed simp

definition bits_key :: "byte \<Rightarrow> byte \<Rightarrow> (bytes \<Rightarrow> uint64 \<Rightarrow> bytes) \<Rightarrow> BitArray \<Rightarrow> bytes" where
  "bits_key m t e d = m # concat (map (e []) (words d)) @ t # e [] (of_nat (lastBitsUsed d))"

lemma fold_encode:
  assumes "\<And>b w. e b w = b @ e [] w"
  shows "fold (\<lambda>w b. e b w) ws b = b @ concat (map (e []) ws)"
proof (induction ws arbitrary: b)
  case (Cons w ws)
  have "fold (\<lambda>w b. e b w) (w # ws) b = e b w @ concat (map (e []) ws)" using Cons by simp
  also have "e b w = b @ e [] w" by (rule assms)
  finally show ?case by simp
qed simp

lemma EncodeBitArray_key:
  "EncodeBitArrayAscending b d = b @ bits_key bitArrayMarker bitArrayDataTerminator EncodeUvarintAscending d"
  "EncodeBitArrayDescending b d = b @ bits_key bitArrayDescMarker bitArrayDataDescTerminator EncodeUvarintDescending d"
proof -
  note f = fold_encode [OF encode_varint_append(1)] fold_encode [OF encode_varint_append(2)]
  show "EncodeBitArrayAscending b d = b @ bits_key bitArrayMarker bitArrayDataTerminator EncodeUvarintAscending d"
    unfolding EncodeBitArrayAscending_def EncodingParts_def Let_def prod.case f(1)
    by (subst encode_varint_append(1)) (simp add: bits_key_def)
  show "EncodeBitArrayDescending b d = b @ bits_key bitArrayDescMarker bitArrayDataDescTerminator EncodeUvarintDescending d"
    unfolding EncodeBitArrayDescending_def EncodingParts_def Let_def prod.case f(2)
    by (subst encode_varint_append(2)) (simp add: bits_key_def)
qed

lemma FromEncodingParts_parts:
  "wf_bits d \<Longrightarrow> FromEncodingParts (words d) (of_nat (lastBitsUsed d)) = Inr d"
  by (cases d) (auto simp: FromEncodingParts_def wf_bits_def unat_of_nat_small word_less_nat_alt)

lemma PeekType_bits [simp]:
  "PeekType (bitArrayMarker # rest) = Type_BitArray" "PeekType (bitArrayDescMarker # rest) = Type_BitArrayDesc"
  by (simp_all add: PeekType_eq slowPeekType_def)

definition bits_less :: "BitArray \<Rightarrow> BitArray \<Rightarrow> bool" where
  "bits_less d e \<longleftrightarrow> BitArray_Compare d e < 0"

lemma bits_less_key: "bits_less d e \<longleftrightarrow> words d < words e \<or> words d = words e \<and> lastBitsUsed d < lastBitsUsed e"
  by (auto simp: bits_less_def Compare_key)

lemma last_word_less:
  "wf_bits d \<Longrightarrow> wf_bits e \<Longrightarrow> (of_nat (lastBitsUsed d) :: uint64) < of_nat (lastBitsUsed e) \<longleftrightarrow> lastBitsUsed d < lastBitsUsed e"
  by (auto simp: wf_bits_def word_less_nat_alt unat_of_nat_small)

lemma bits_less_total: "d \<noteq> e \<Longrightarrow> bits_less d e \<or> bits_less e d"
  by (cases d; cases e) (auto simp: bits_less_key neq_iff)

interpretation bits_asc: ordered_codec "EncodeBitArrayAscending []" DecodeBitArrayAscending wf_bits bits_less
proof
  fix x y :: BitArray and r s rest
  show "wf_bits x \<Longrightarrow> DecodeBitArrayAscending (EncodeBitArrayAscending [] x @ rest) = Inr (rest, x)"
    by (simp add: EncodeBitArray_key DecodeBitArrayAscending_def bits_key_def getBitArrayWordsLen_def
        uvarint_list.words_len uvarint_list.decode_words_enc uvarint_asc.dec_enc FromEncodingParts_parts)
  show "wf_bits x \<Longrightarrow> wf_bits y \<Longrightarrow> bits_less x y \<Longrightarrow>
      EncodeBitArrayAscending [] x @ r < EncodeBitArrayAscending [] y @ s"
    by (auto simp: EncodeBitArray_key bits_key_def uvarint_list.terminated_less_iff list_lt_asc bits_less_key
        uvarint_asc.enc_less_iff last_word_less)
qed (use bits_less_total in blast)

interpretation bits_desc: ordered_codec "EncodeBitArrayDescending []" DecodeBitArrayDescending wf_bits "\<lambda>d e. bits_less e d"
proof
  fix x y :: BitArray and r s rest
  show "wf_bits x \<Longrightarrow> DecodeBitArrayDescending (EncodeBitArrayDescending [] x @ rest) = Inr (rest, x)"
    by (simp add: EncodeBitArray_key DecodeBitArrayDescending_def bits_key_def getBitArrayWordsLen_def
        uvarint_desc_list.words_len uvarint_desc_list.decode_words_enc uvarint_desc.dec_enc FromEncodingParts_parts)
  show "wf_bits x \<Longrightarrow> wf_bits y \<Longrightarrow> bits_less y x \<Longrightarrow>
      EncodeBitArrayDescending [] x @ r < EncodeBitArrayDescending [] y @ s"
    by (auto simp: EncodeBitArray_key bits_key_def uvarint_desc_list.terminated_less_iff list_lt_desc bits_less_key
        uvarint_desc.enc_less_iff last_word_less)
qed (use bits_less_total in blast)

interpretation bits_col: key_column "EncodeBitArrayAscending []" "\<lambda>_. True"
  using uvarint_list.words_len
  by unfold_locales (subst PeekLength.simps, simp_all add: EncodeBitArray_key bits_key_def getBitArrayWordsLen_def slice_from_def)

interpretation bits_desc_col: key_column "EncodeBitArrayDescending []" "\<lambda>_. True"
  using uvarint_desc_list.words_len
  by unfold_locales (subst PeekLength.simps, simp_all add: EncodeBitArray_key bits_key_def getBitArrayWordsLen_def slice_from_def)

text \<open>
  Bit arrays as keys. A well-formed array is read back whatever follows it, \<open>PeekLength\<close> skips
  exactly its encoding, and the byte order of two keys is the (reverse) lexicographic order of the
  bit strings, then the order of what follows: the refinement of arrays to lists carries over to keys.
\<close>

theorem bitarray_codecs:
  assumes "wf_bits d" "wf_bits e"
  shows "DecodeBitArrayAscending (EncodeBitArrayAscending [] d @ rest) = Inr (rest, d) \<and>
    DecodeBitArrayDescending (EncodeBitArrayDescending [] d @ rest) = Inr (rest, d) \<and>
    (EncodeBitArrayAscending [] d @ r < EncodeBitArrayAscending [] e @ s \<longleftrightarrow> bits d < bits e \<or> d = e \<and> r < s) \<and>
    (EncodeBitArrayDescending [] d @ r < EncodeBitArrayDescending [] e @ s \<longleftrightarrow> bits e < bits d \<or> d = e \<and> r < s) \<and>
    PeekLength (EncodeBitArrayAscending [] d @ rest) = Inr (length (EncodeBitArrayAscending [] d)) \<and>
    PeekLength (EncodeBitArrayDescending [] d @ rest) = Inr (length (EncodeBitArrayDescending [] d))"
  using assms bits_asc.dec_enc bits_desc.dec_enc bits_asc.enc_less_iff bits_desc.enc_less_iff bits_col.peek bits_desc_col.peek
  by (simp add: bits_less_def Compare_bits)

theorem bitarray_codecs_witness:
  "EncodeBitArrayAscending [] \<lparr>words = [0], lastBitsUsed = 64\<rparr> @ [9] <
     EncodeBitArrayAscending [] \<lparr>words = [0, 0], lastBitsUsed = 1\<rparr> @ [1] \<and>
   DecodeBitArrayDescending (EncodeBitArrayDescending [] \<lparr>words = [0], lastBitsUsed = 64\<rparr> @ [7]) =
     Inr ([7], \<lparr>words = [0], lastBitsUsed = 64\<rparr>)"
proof -
  have wf: "wf_bits \<lparr>words = [0], lastBitsUsed = 64\<rparr>" "wf_bits \<lparr>words = [0, 0], lastBitsUsed = 1\<rparr>"
    by (simp_all add: wf_bits_def)
  have "bits \<lparr>words = [0], lastBitsUsed = 64\<rparr> < bits \<lparr>words = [0, 0], lastBitsUsed = 1\<rparr>"
    using Compare_bits [OF wf] by (simp add: BitArray_Compare_def three_way_def split: if_splits)
  with bitarray_codecs [OF wf, of "[7]" "[9]" "[1]"] show ?thesis by blast
qed

end
