(* ===== verification/Duration.thy ===== *)
theory Duration
  imports Hlc_Timestamp Encoding_Peek
begin

text \<open>
  \<open>pkg/util/duration/duration.go\<close>: intervals of months, days and nanoseconds, their normal form,
  comparison and arithmetic, and the integers they are stored as; \<open>pkg/util/arith/arith.go\<close>, the
  overflow checks; and the duration codecs of \<open>pkg/util/encoding/encoding.go\<close>. All quantities are
  64-bit words, so every wrap-around of the source is in the model.
\<close>

section \<open>Arithmetic with overflow checks\<close>

definition AddWithOverflow :: "int64 \<Rightarrow> int64 \<Rightarrow> int64 \<times> bool" where
  "AddWithOverflow a b =
     (if sint b > 0 \<and> sint a > sint (MaxInt64 - b) then (0, False)
      else if sint b < 0 \<and> sint a < sint (MinInt64 - b) then (0, False)
      else (a + b, True))"

definition Add32WithOverflow :: "int32 \<Rightarrow> int32 \<Rightarrow> int32 \<times> bool" where
  "Add32WithOverflow a b =
     (if sint b > 0 \<and> sint a > sint (MaxInt32 - b) then (0, False)
      else if sint b < 0 \<and> sint a < sint (MinInt32 - b) then (0, False)
      else (a + b, True))"

definition Add32to64WithOverflow :: "int32 \<Rightarrow> int64 \<Rightarrow> int32 \<times> bool" where
  "Add32to64WithOverflow a b =
     (if sint b > sint MaxInt32 \<or> sint b < sint MinInt32 then (0, False)
      else Add32WithOverflow a (int32_of_int64 b))"

definition SubWithOverflow :: "int64 \<Rightarrow> int64 \<Rightarrow> int64 \<times> bool" where
  "SubWithOverflow a b =
     (if sint b < 0 \<and> sint a > sint (MaxInt64 + b) then (0, False)
      else if sint b > 0 \<and> sint a < sint (MinInt64 + b) then (0, False)
      else (a - b, True))"

definition Sub32WithOverflow :: "int32 \<Rightarrow> int32 \<Rightarrow> int32 \<times> bool" where
  "Sub32WithOverflow a b =
     (if sint b < 0 \<and> sint a > sint (MaxInt32 + b) then (0, False)
      else if sint b > 0 \<and> sint a < sint (MinInt32 + b) then (0, False)
      else (a - b, True))"

definition Sub32to64WithOverflow :: "int32 \<Rightarrow> int64 \<Rightarrow> int32 \<times> bool" where
  "Sub32to64WithOverflow a b =
     (if sint b > sint MaxInt32 \<or> sint b < sint MinInt32 then (0, False)
      else Sub32WithOverflow a (int32_of_int64 b))"

text \<open>Division by zero panics.\<close>

definition MulHalfPositiveWithOverflow :: "int64 \<Rightarrow> int64 \<Rightarrow> go_error + int64 \<times> bool" where
  "MulHalfPositiveWithOverflow a b =
     (if b = 0 then Inl (GoPanic ''integer divide by zero'')
      else Inr (if sint a \<ge> 0
        then if sint a > sint (int64_div MaxInt64 b) then (0, False) else (a * b, True)
        else if sint a < sint (int64_div MinInt64 b) then (0, False) else (a * b, True)))"

section \<open>Durations\<close>

record Duration =
  Months :: int64
  Days :: int64
  nanos :: int64

abbreviation (input) nanosInDay :: int64 where "nanosInDay \<equiv> 86400000000000"
abbreviation (input) nanosInMonth :: int64 where "nanosInMonth \<equiv> 2592000000000000"

text \<open>\<open>time.Duration.Round\<close> of the standard library: half away from zero, saturating.\<close>

definition int64_rem :: "int64 \<Rightarrow> int64 \<Rightarrow> int64" where
  "int64_rem a b = a - int64_div a b * b"

definition time_Round :: "int64 \<Rightarrow> int64 \<Rightarrow> int64" where
  "time_Round d m =
     (if sint m \<le> 0 then d
      else let r = int64_rem d m
           in if sint d < 0 then
                let r = - r
                in if r + r < m then d + r
                   else let d1 = d - m + r in if sint d1 < sint d then d1 else MinInt64
              else if r + r < m then d - r
              else let d1 = d + m - r in if sint d1 > sint d then d1 else MaxInt64)"

definition rounded :: "int64 \<Rightarrow> int64" where
  "rounded n =
     (let v = time_Round n 1000; m = int64_rem v 1000 in if m \<noteq> 0 then v - m else v)"

definition MakeDuration :: "int64 \<Rightarrow> int64 \<Rightarrow> int64 \<Rightarrow> Duration" where
  "MakeDuration n days months = \<lparr>Months = months, Days = days, nanos = rounded n\<rparr>"

definition MakeDurationJustifyHours :: "int64 \<Rightarrow> int64 \<Rightarrow> int64 \<Rightarrow> Duration" where
  "MakeDurationJustifyHours n days months =
     (let extraDays = int64_div n nanosInDay
      in \<lparr>Months = months, Days = days + extraDays, nanos = rounded (n - extraDays * nanosInDay)\<rparr>)"

definition Duration_round :: "Duration \<Rightarrow> Duration" where
  "Duration_round d = d\<lparr>nanos := rounded (nanos d)\<rparr>"

definition DecodeDuration :: "int64 \<Rightarrow> int64 \<Rightarrow> int64 \<Rightarrow> Duration" where
  "DecodeDuration months days n = \<lparr>Months = months, Days = days, nanos = n\<rparr>"

definition Duration_Add :: "Duration \<Rightarrow> Duration \<Rightarrow> Duration" where
  "Duration_Add d x = MakeDuration (nanos d + nanos x) (Days d + Days x) (Months d + Months x)"

definition Duration_Sub :: "Duration \<Rightarrow> Duration \<Rightarrow> Duration" where
  "Duration_Sub d x = MakeDuration (nanos d - nanos x) (Days d - Days x) (Months d - Months x)"

definition Duration_Mul :: "Duration \<Rightarrow> int64 \<Rightarrow> Duration" where
  "Duration_Mul d x = MakeDuration (nanos d * x) (Days d * x) (Months d * x)"

definition int64Max :: "int64 \<Rightarrow> int64 \<Rightarrow> int64" where
  "int64Max a b = (if sint a > sint b then a else b)"

definition int64Min :: "int64 \<Rightarrow> int64 \<Rightarrow> int64" where
  "int64Min a b = (if sint a < sint b then a else b)"

definition shiftPosDaysToMonths :: "Duration \<Rightarrow> Duration" where
  "shiftPosDaysToMonths d =
     (let maxMonths = (if sint (Months d) > 0 then MaxInt64 - Months d else MaxInt64);
          monthsFromDays = int64Min (int64_div (Days d) 30) maxMonths
      in d\<lparr>Months := Months d + monthsFromDays, Days := Days d - monthsFromDays * 30\<rparr>)"

definition shiftPosNanosToDays :: "Duration \<Rightarrow> Duration" where
  "shiftPosNanosToDays d =
     (let maxDays = (if sint (Days d) > 0 then MaxInt64 - Days d else MaxInt64);
          daysFromNanos = int64Min (int64_div (nanos d) nanosInDay) maxDays
      in d\<lparr>Days := Days d + daysFromNanos, nanos := nanos d - daysFromNanos * nanosInDay\<rparr>)"

definition shiftNegDaysToMonths :: "Duration \<Rightarrow> Duration" where
  "shiftNegDaysToMonths d =
     (let minMonths = (if sint (Months d) < 0 then MinInt64 - Months d else MinInt64);
          monthsFromDays = int64Max (int64_div (Days d) 30) minMonths
      in d\<lparr>Months := Months d + monthsFromDays, Days := Days d - monthsFromDays * 30\<rparr>)"

definition shiftNegNanosToDays :: "Duration \<Rightarrow> Duration" where
  "shiftNegNanosToDays d =
     (let minDays = (if sint (Days d) < 0 then MinInt64 - Days d else MinInt64);
          daysFromNanos = int64Max (int64_div (nanos d) nanosInDay) minDays
      in d\<lparr>Days := Days d + daysFromNanos, nanos := nanos d - daysFromNanos * nanosInDay\<rparr>)"

definition Duration_normalize :: "Duration \<Rightarrow> Duration" where
  "Duration_normalize d =
     (let d = (if sint (Days d) > 0 then shiftPosDaysToMonths d
               else if sint (Days d) < 0 then shiftNegDaysToMonths d else d)
      in if sint (nanos d) > 0 then shiftPosDaysToMonths (shiftPosNanosToDays d)
         else if sint (nanos d) < 0 then shiftNegDaysToMonths (shiftNegNanosToDays d)
         else d)"

definition Duration_Compare :: "Duration \<Rightarrow> Duration \<Rightarrow> int" where
  "Duration_Compare d x =
     (let normD = Duration_normalize d; normX = Duration_normalize x
      in if sint (Months normD) < sint (Months normX) then - 1
         else if sint (Months normD) > sint (Months normX) then 1
         else if sint (Days normD) < sint (Days normX) then - 1
         else if sint (Days normD) > sint (Days normX) then 1
         else if sint (nanos normD) < sint (nanos normX) then - 1
         else if sint (nanos normD) > sint (nanos normX) then 1
         else 0)"

definition FromInt64 :: "int64 \<Rightarrow> Duration" where
  "FromInt64 x =
     (let perDay = int64_div nanosInDay 1000000000; days = int64_div x perDay; seconds = int64_rem x perDay
      in Duration_normalize \<lparr>Months = 0, Days = days, nanos = seconds * 1000000000\<rparr>)"

definition extractAbsTime :: "int64 \<Rightarrow> uint64 \<times> uint64 \<times> uint64 \<times> uint64" where
  "extractAbsTime nanosOrig =
     (let n = (if sint nanosOrig \<ge> 0 then nanosOrig else - nanosOrig);
          hours = n div 3600000000000; n = n mod 3600000000000;
          minutes = n div 60000000000; n = n mod 60000000000;
          seconds = n div 1000000000; n = n mod 1000000000;
          micros = n div 1000
      in (hours, minutes, seconds, micros))"

definition extractTime :: "int64 \<Rightarrow> int64 \<times> int64 \<times> int64 \<times> int64" where
  "extractTime nanosOrig =
     (case extractAbsTime nanosOrig of (hours, minutes, seconds, micros) \<Rightarrow>
        if sint nanosOrig < 0 then (- hours, - minutes, - seconds, - micros)
        else (hours, minutes, seconds, micros))"

definition isPlural :: "int64 \<Rightarrow> string" where
  "isPlural i = (if i = 1 then [] else ''s'')"

definition absGE :: "int64 \<Rightarrow> int64 \<Rightarrow> bool" where
  "absGE x y = (if sint x < 0 then sint x \<le> sint (- y) else sint x \<ge> sint y)"

section \<open>The stored form\<close>

definition errEncodeOverflow :: go_error where
  "errEncodeOverflow = Errorf ''overflow during Encode''"

definition Duration_Encode :: "Duration \<Rightarrow> go_error + int64 \<times> int64 \<times> int64" where
  "Duration_Encode d =
     (let years = int64_div (Months d) 12 + int64_div (int64_div (Days d) 30) 12
            + int64_div (int64_div (nanos d) nanosInMonth) 12
      in if sint years > sint (int64_div MaxInt64 nanosInMonth) \<or> sint years < sint (int64_div MinInt64 nanosInMonth)
         then Inl errEncodeOverflow
         else Inr (Months d * nanosInMonth + Days d * nanosInDay + nanos d, Months d, Days d))"

definition Duration_Decode :: "int64 \<Rightarrow> int64 \<Rightarrow> int64 \<Rightarrow> Duration" where
  "Duration_Decode sortNanos months days =
     \<lparr>Months = months, Days = days, nanos = sortNanos - months * nanosInMonth - days * nanosInDay\<rparr>"

text \<open>\<open>EncodeBigInt\<close> returns an arbitrary-precision integer.\<close>

definition Duration_EncodeBigInt :: "Duration \<Rightarrow> int \<times> int64 \<times> int64" where
  "Duration_EncodeBigInt d =
     (sint (nanos d) + sint (Months d) * sint nanosInMonth + sint (Days d) * sint nanosInDay, Months d, Days d)"

definition EncodeDurationAscending :: "bytes \<Rightarrow> Duration \<Rightarrow> go_error + bytes" where
  "EncodeDurationAscending b d =
     res_bind (Duration_Encode d) (\<lambda>(sortNanos, months, days).
       Inr (EncodeVarintAscending (EncodeVarintAscending (EncodeVarintAscending (b @ [durationMarker]) sortNanos) months) days))"

definition EncodeDurationDescending :: "bytes \<Rightarrow> Duration \<Rightarrow> go_error + bytes" where
  "EncodeDurationDescending b d =
     res_bind (Duration_Encode d) (\<lambda>(sortNanos, months, days).
       Inr (EncodeVarintDescending (EncodeVarintDescending (EncodeVarintDescending (b @ [durationMarker]) sortNanos) months) days))"

definition DecodeDurationAscending :: "bytes \<Rightarrow> go_error + bytes \<times> Duration" where
  "DecodeDurationAscending b =
     (if PeekType b \<noteq> Type_Duration then Inl (Errorf ''did not find marker'')
      else res_bind (DecodeVarintAscending (tl b)) (\<lambda>(b, sortNanos).
           res_bind (DecodeVarintAscending b) (\<lambda>(b, months).
           res_bind (DecodeVarintAscending b) (\<lambda>(b, days).
             Inr (b, Duration_Decode sortNanos months days)))))"

definition DecodeDurationDescending :: "bytes \<Rightarrow> go_error + bytes \<times> Duration" where
  "DecodeDurationDescending b =
     (if PeekType b \<noteq> Type_Duration then Inl (Errorf ''did not find marker'')
      else res_bind (DecodeVarintDescending (tl b)) (\<lambda>(b, sortNanos).
           res_bind (DecodeVarintDescending b) (\<lambda>(b, months).
           res_bind (DecodeVarintDescending b) (\<lambda>(b, days).
             Inr (b, Duration_Decode sortNanos months days)))))"

section \<open>The overflow checks are exact\<close>

text \<open>The reference: the exact result when it fits the width, and zero with \<open>False\<close> when not.\<close>

definition checked64 :: "int \<Rightarrow> int64 \<times> bool" where
  "checked64 z = (if - 9223372036854775808 \<le> z \<and> z \<le> 9223372036854775807 then (word_of_int z, True) else (0, False))"

definition checked32 :: "int \<Rightarrow> int32 \<times> bool" where
  "checked32 z = (if - 2147483648 \<le> z \<and> z \<le> 2147483647 then (word_of_int z, True) else (0, False))"

lemma AddWithOverflow_checked: "AddWithOverflow a b = checked64 (sint a + sint b)"
  using sint64_range [of a] sint64_range [of b]
  by (auto simp: AddWithOverflow_def checked64_def sint64_diff)

lemma SubWithOverflow_checked: "SubWithOverflow a b = checked64 (sint a - sint b)"
  using sint64_range [of a] sint64_range [of b]
  by (auto simp: SubWithOverflow_def checked64_def sint64_add)

lemma Add32WithOverflow_checked: "Add32WithOverflow a b = checked32 (sint a + sint b)"
  using sint32_range [of a] sint32_range [of b]
  by (auto simp: Add32WithOverflow_def checked32_def sint32_diff)

lemma Sub32WithOverflow_checked: "Sub32WithOverflow a b = checked32 (sint a - sint b)"
  using sint32_range [of a] sint32_range [of b]
  by (auto simp: Sub32WithOverflow_def checked32_def sint32_add)

lemma sint_narrow:
  assumes "- 2147483648 \<le> sint b" "sint b \<le> 2147483647"
  shows "sint (int32_of_int64 b) = sint b"
proof -
  have "int32_of_int64 b = word_of_int (sint b)"
    by (rule bit_word_eqI) (simp add: bit_ucast_iff bit_simps)
  then show ?thesis using sint_word_of_int_in32 [OF assms] by simp
qed

lemma MulHalfPositiveWithOverflow_checked:
  assumes "0 < sint b"
  shows "MulHalfPositiveWithOverflow a b = Inr (checked64 (sint a * sint b))"
proof -
  have nz: "b \<noteq> 0" using assms by auto
  have wi: "word_of_int (sint a * sint b) = a * b" by simp
  have up: "sint a > sint (int64_div MaxInt64 b) \<longleftrightarrow> sint a * sint b > 9223372036854775807" if "0 \<le> sint a"
  proof -
    have "trunc_div 9223372036854775807 (sint b) = 9223372036854775807 div sint b"
      using assms by (simp add: trunc_div_nonneg)
    moreover have "9223372036854775807 div sint b < sint a \<longleftrightarrow> 9223372036854775807 < sint a * sint b"
      using assms by (rule int_div_less_iff)
    ultimately show ?thesis using assms by (simp add: sint_int64_div)
  qed
  have lo: "sint a < sint (int64_div MinInt64 b) \<longleftrightarrow> sint a * sint b < - 9223372036854775808" if "sint a < 0"
  proof -
    have "trunc_div (- 9223372036854775808) (sint b) = - (9223372036854775808 div sint b)"
      using assms by (simp add: trunc_div_def)
    moreover have "9223372036854775808 div sint b < - sint a \<longleftrightarrow> 9223372036854775808 < - sint a * sint b"
      using assms by (rule int_div_less_iff)
    ultimately show ?thesis using assms by (simp add: sint_int64_div) linarith
  qed
  have s: "sint a * sint b \<ge> 0" if "0 \<le> sint a" using that assms by simp
  have s': "sint a * sint b \<le> 0" if "sint a < 0" using that assms by (simp add: mult_le_0_iff)
  show ?thesis
    using nz up lo s s' wi unfolding MulHalfPositiveWithOverflow_def checked64_def by (smt (verit))
qed



section \<open>Normalisation keeps the length\<close>

text \<open>The exact number of nanoseconds, which \<^const>\<open>Duration_EncodeBigInt\<close> computes.\<close>

abbreviation total_nanos :: "Duration \<Rightarrow> int" where
  "total_nanos d \<equiv> fst (Duration_EncodeBigInt d)"

lemma total_nanos_eq:
  "total_nanos d = sint (nanos d) + sint (Months d) * 2592000000000000 + sint (Days d) * 86400000000000"
  by (simp add: Duration_EncodeBigInt_def)

lemma sint_shift_rem:
  assumes "0 < sint k" "trunc_div (sint b) (sint k) = q" "sint b = q * sint k + r" "\<bar>r\<bar> < sint k"
  shows "sint (b - int64_div b k * k) = r"
proof -
  have "b - int64_div b k * k = word_of_int (sint b - q * sint k)"
    using assms(2) by (simp add: int64_div_def)
  also have "sint b - q * sint k = r" using assms(3) by simp
  finally show ?thesis
    using assms(1,4) sint64_range [of k] sint_word_of_int_in64 [of r] by simp
qed

lemma int64Min_id: "sint a \<le> sint b \<Longrightarrow> int64Min a b = a"
  by (auto simp: int64Min_def sint_eq_iff)

lemma int64Max_id: "sint b \<le> sint a \<Longrightarrow> int64Max a b = a"
  by (auto simp: int64Max_def sint_eq_iff)

text \<open>
  Away from the ends of the range a shift moves the whole quotient, in both directions, and
  leaves the remainder.
\<close>

definition far :: "int \<Rightarrow> int64 \<Rightarrow> bool" where
  "far m w \<longleftrightarrow> \<bar>sint w\<bar> \<le> m"

lemma pos_room: "far 8000000000000000000 a \<Longrightarrow> sint q \<le> 1000000000000000000 \<Longrightarrow>
    sint q \<le> sint (if sint a > 0 then MaxInt64 - a else MaxInt64)"
  by (auto simp: far_def sint64_diff)

lemma neg_room: "far 8000000000000000000 a \<Longrightarrow> - 1000000000000000000 \<le> sint q \<Longrightarrow>
    sint (if sint a < 0 then MinInt64 - a else MinInt64) \<le> sint q"
  by (auto simp: far_def sint64_diff)

lemma shift_quotient:
  assumes "0 < sint k"
  obtains q where "sint (int64_div b k) = q" "sint b = q * sint k + sint (b - int64_div b k * k)"
    "\<bar>sint (b - int64_div b k * k)\<bar> < sint k"
proof -
  obtain q r where q: "trunc_div (sint b) (sint k) = q" "sint b = q * sint k + r" "\<bar>r\<bar> < sint k"
    by (rule trunc_div_rem [OF assms])
  with sint_shift_rem [OF assms q] show ?thesis
    by (intro that [of q]) (simp_all only: sint_int64_div [OF assms])
qed

lemma shift_days:
  assumes "far 8000000000000000000 (Months d)"
  obtains q where "shiftPosDaysToMonths d = shiftNegDaysToMonths d"
    "sint (Months (shiftPosDaysToMonths d)) = sint (Months d) + q"
    "sint (Days d) = q * 30 + sint (Days (shiftPosDaysToMonths d))"
    "\<bar>sint (Days (shiftPosDaysToMonths d))\<bar> < 30" "\<bar>q\<bar> \<le> 400000000000000000"
    "nanos (shiftPosDaysToMonths d) = nanos d"
proof -
  let ?q = "int64_div (Days d) 30"
  have pos: "0 < sint (30 :: int64)" by simp
  obtain q where q: "sint ?q = q" "sint (Days d) = q * 30 + sint (Days d - ?q * 30)"
    "\<bar>sint (Days d - ?q * 30)\<bar> < 30"
    using shift_quotient [OF pos, of "Days d"] by auto
  have qb: "\<bar>q\<bar> \<le> 400000000000000000" using q(2,3) sint64_range [of "Days d"] by linarith
  have eqs: "shiftPosDaysToMonths d = d\<lparr>Months := Months d + ?q, Days := Days d - ?q * 30\<rparr>"
    "shiftNegDaysToMonths d = d\<lparr>Months := Months d + ?q, Days := Days d - ?q * 30\<rparr>"
    using pos_room [OF assms, of ?q] neg_room [OF assms, of ?q] qb q(1)
    by (simp_all only: shiftPosDaysToMonths_def shiftNegDaysToMonths_def Let_def int64Min_id int64Max_id)
  moreover have "sint (Months d + ?q) = sint (Months d) + q"
    using assms qb q(1) by (simp add: sint64_add far_def)
  ultimately show ?thesis using q qb by (intro that [of q]) simp_all
qed

lemma shift_nanos:
  assumes "far 8000000000000000000 (Days d)"
  obtains q where "shiftPosNanosToDays d = shiftNegNanosToDays d"
    "sint (Days (shiftPosNanosToDays d)) = sint (Days d) + q"
    "sint (nanos d) = q * 86400000000000 + sint (nanos (shiftPosNanosToDays d))"
    "\<bar>sint (nanos (shiftPosNanosToDays d))\<bar> < 86400000000000" "\<bar>q\<bar> \<le> 200000"
    "Months (shiftPosNanosToDays d) = Months d"
proof -
  let ?q = "int64_div (nanos d) nanosInDay"
  have pos: "0 < sint nanosInDay" by simp
  obtain q where q: "sint ?q = q" "sint (nanos d) = q * 86400000000000 + sint (nanos d - ?q * nanosInDay)"
    "\<bar>sint (nanos d - ?q * nanosInDay)\<bar> < 86400000000000"
    using shift_quotient [OF pos, of "nanos d"] by auto
  have qb: "\<bar>q\<bar> \<le> 200000" using q(2,3) sint64_range [of "nanos d"] by linarith
  have eqs: "shiftPosNanosToDays d = d\<lparr>Days := Days d + ?q, nanos := nanos d - ?q * nanosInDay\<rparr>"
    "shiftNegNanosToDays d = d\<lparr>Days := Days d + ?q, nanos := nanos d - ?q * nanosInDay\<rparr>"
    using pos_room [OF assms, of ?q] neg_room [OF assms, of ?q] qb q(1)
    by (simp_all only: shiftPosNanosToDays_def shiftNegNanosToDays_def Let_def int64Min_id int64Max_id)
  moreover have "sint (Days d + ?q) = sint (Days d) + q"
    using assms qb q(1) by (simp add: sint64_add far_def)
  ultimately show ?thesis using q qb by (intro that [of q]) simp_all
qed

definition normal :: "Duration \<Rightarrow> bool" where
  "normal d \<longleftrightarrow> \<bar>sint (Days d)\<bar> < 30 \<and> \<bar>sint (nanos d)\<bar> < 86400000000000"

lemma shift_days_step:
  assumes "far m (Months d)" "m \<le> 8000000000000000000"
  shows "\<bar>sint (Days (shiftPosDaysToMonths d))\<bar> < 30 \<and> total_nanos (shiftPosDaysToMonths d) = total_nanos d \<and>
    far (m + 400000000000000000) (Months (shiftPosDaysToMonths d)) \<and>
    nanos (shiftPosDaysToMonths d) = nanos d \<and> shiftNegDaysToMonths d = shiftPosDaysToMonths d"
proof -
  have "far 8000000000000000000 (Months d)" using assms by (simp add: far_def)
  from shift_days [OF this] show ?thesis
    using assms(1) by (smt (verit, best) far_def total_nanos_eq)
qed

lemma shift_nanos_step:
  assumes "\<bar>sint (Days d)\<bar> < 30"
  shows "\<bar>sint (nanos (shiftPosNanosToDays d))\<bar> < 86400000000000 \<and>
    total_nanos (shiftPosNanosToDays d) = total_nanos d \<and>
    Months (shiftPosNanosToDays d) = Months d \<and> shiftNegNanosToDays d = shiftPosNanosToDays d"
proof -
  have "far 8000000000000000000 (Days d)" using assms by (simp add: far_def)
  from shift_nanos [OF this] show ?thesis
    by (smt (verit, best) total_nanos_eq)
qed

lemma normalize_steps:
  assumes "far 7000000000000000000 (Months d)"
  shows "normal (Duration_normalize d) \<and> total_nanos (Duration_normalize d) = total_nanos d"
proof -
  define d1 where "d1 = (if sint (Days d) > 0 then shiftPosDaysToMonths d
               else if sint (Days d) < 0 then shiftNegDaysToMonths d else d)"
  have 1: "\<bar>sint (Days d1)\<bar> < 30 \<and> total_nanos d1 = total_nanos d \<and> far 7400000000000000000 (Months d1)"
    using shift_days_step [OF assms] assms by (auto simp: d1_def far_def)
  define d2 where "d2 = shiftPosDaysToMonths (shiftPosNanosToDays d1)"
  have 2: "normal d2 \<and> total_nanos d2 = total_nanos d1 \<and>
      shiftNegDaysToMonths (shiftNegNanosToDays d1) = d2"
    using shift_nanos_step [of d1] shift_days_step [of 7400000000000000000 "shiftPosNanosToDays d1"] 1
    by (simp add: d2_def normal_def)
  have "Duration_normalize d =
      (if sint (nanos d1) > 0 then d2 else if sint (nanos d1) < 0 then d2 else d1)"
    using 2 by (simp add: Duration_normalize_def Let_def d1_def d2_def)
  then show ?thesis using 1 2 by (auto simp: normal_def)
qed

text \<open>Normalisation does not change the length of a duration. For durations of at most \<open>2^62\<close>
  months either way, with any days and nanoseconds, \<open>normalize\<close> keeps the exact number of
  nanoseconds, which no 64-bit step on the way overflows, and leaves fewer than 30 days and fewer
  nanoseconds than a day. Two such durations that \<open>Compare\<close> calls equal have the same length.\<close>

theorem normalize_keeps_length:
  assumes "\<bar>sint (Months d)\<bar> \<le> 2 ^ 62" "\<bar>sint (Months x)\<bar> \<le> 2 ^ 62"
  shows "total_nanos (Duration_normalize d) = total_nanos d \<and>
    \<bar>sint (Days (Duration_normalize d))\<bar> < 30 \<and>
    \<bar>sint (nanos (Duration_normalize d))\<bar> < sint nanosInDay \<and>
    (Duration_Compare d x = 0 \<longrightarrow> total_nanos d = total_nanos x)"
proof -
  have n: "normal (Duration_normalize e) \<and> total_nanos (Duration_normalize e) = total_nanos e"
    if "\<bar>sint (Months e)\<bar> \<le> 2 ^ 62" for e
    using that by (intro normalize_steps) (simp add: far_def)
  have "total_nanos (Duration_normalize d) = total_nanos (Duration_normalize x)" if "Duration_Compare d x = 0"
    using that by (auto simp: Duration_Compare_def total_nanos_eq Let_def split: if_splits)
  then show ?thesis using n [OF assms(1)] n [OF assms(2)] by (simp add: normal_def)
qed

theorem normalize_keeps_length_witness:
  "total_nanos (Duration_normalize \<lparr>Months = 1, Days = - 95, nanos = 172800000000001\<rparr>) =
     total_nanos \<lparr>Months = 1, Days = - 95, nanos = 172800000000001\<rparr> \<and>
   Duration_normalize \<lparr>Months = 1, Days = - 95, nanos = 172800000000001\<rparr> =
     \<lparr>Months = - 2, Days = - 3, nanos = 1\<rparr>"
  using normalize_keeps_length [of "\<lparr>Months = 1, Days = - 95, nanos = 172800000000001\<rparr>" "\<lparr>Months = 0, Days = 0, nanos = 0\<rparr>"]
  by (simp add: Duration_normalize_def shiftPosDaysToMonths_def shiftNegDaysToMonths_def shiftPosNanosToDays_def
      int64Max_def int64Min_def int64_div_def trunc_div_def)

text \<open>\<open>Compare\<close> is the lexicographic comparison of the normal forms, hence a total preorder.\<close>

definition normal_key :: "Duration \<Rightarrow> int \<times> int \<times> int" where
  "normal_key d = (let n = Duration_normalize d in (sint (Months n), sint (Days n), sint (nanos n)))"

interpretation dur_cmp: keyed_comparator Duration_Compare normal_key
  by unfold_locales (auto simp: Duration_Compare_def normal_key_def three_way_def Let_def)

text \<open>\<open>normalize\<close> says it avoids overflow by transforming partially; at the lower end it does not.
  When the months are already at the minimum the first shift leaves all the days, and a positive
  number of nanoseconds then sends these negative days through the positive shift, whose bound does
  not hold them back: the months wrap round to the maximum, and the shortest intervals compare as
  longer than zero.\<close>

theorem normalize_wraps_at_minimum:
  "Duration_normalize \<lparr>Months = MinInt64, Days = - 60, nanos = 1\<rparr> =
     \<lparr>Months = MaxInt64 - 1, Days = 0, nanos = 1\<rparr> \<and>
   Duration_Compare \<lparr>Months = MinInt64, Days = - 60, nanos = 1\<rparr> \<lparr>Months = 0, Days = 0, nanos = 0\<rparr> = 1"
  by (simp add: Duration_Compare_def Duration_normalize_def shiftPosDaysToMonths_def shiftNegDaysToMonths_def
      shiftPosNanosToDays_def int64Max_def int64Min_def int64_div_def trunc_div_def)

section \<open>Keys\<close>

definition dur_ok :: "Duration \<Rightarrow> bool" where
  "dur_ok d = (case Duration_Encode d of Inl _ \<Rightarrow> False | Inr _ \<Rightarrow> True)"

definition sort_nanos :: "Duration \<Rightarrow> int64" where
  "sort_nanos d = Months d * nanosInMonth + Days d * nanosInDay + nanos d"

definition dur_less :: "Duration \<Rightarrow> Duration \<Rightarrow> bool" where
  "dur_less d x \<longleftrightarrow>
     (sint (sort_nanos d), sint (Months d), sint (Days d)) < (sint (sort_nanos x), sint (Months x), sint (Days x))"

lemma dur_ok_Encode: "dur_ok d \<Longrightarrow> Duration_Encode d = Inr (sort_nanos d, Months d, Days d)"
  by (auto simp: dur_ok_def Duration_Encode_def sort_nanos_def Let_def split: if_splits)

lemma Duration_Decode_sort: "Duration_Decode (sort_nanos d) (Months d) (Days d) = d"
  by (cases d) (simp add: Duration_Decode_def sort_nanos_def)

definition dur_key :: "(bytes \<Rightarrow> int64 \<Rightarrow> bytes) \<Rightarrow> Duration \<Rightarrow> bytes" where
  "dur_key e d = durationMarker # e [] (sort_nanos d) @ e [] (Months d) @ e [] (Days d)"

lemma EncodeDuration_key:
  "dur_ok d \<Longrightarrow> EncodeDurationAscending b d = Inr (b @ dur_key EncodeVarintAscending d)"
  "dur_ok d \<Longrightarrow> EncodeDurationDescending b d = Inr (b @ dur_key EncodeVarintDescending d)"
  unfolding EncodeDurationAscending_def EncodeDurationDescending_def
  by (simp add: dur_ok_Encode, subst (1 2 3) encode_varint_append(3), simp add: dur_key_def,
      simp add: dur_ok_Encode, subst (1 2 3) encode_varint_append(4), simp add: dur_key_def)

lemma PeekType_duration [simp]: "PeekType (durationMarker # rest) = Type_Duration"
  by (simp add: PeekType_eq slowPeekType_def)

lemma dur_less_total: "d \<noteq> x \<Longrightarrow> dur_less d x \<or> dur_less x d"
proof (rule ccontr)
  assume ne: "d \<noteq> x" and "\<not> (dur_less d x \<or> dur_less x d)"
  then have "sort_nanos d = sort_nanos x" "Months d = Months x" "Days d = Days x"
    by (auto simp: dur_less_def neq_iff sint_eq_iff [symmetric])
  then have "d = x" by (metis Duration_Decode_sort)
  with ne show False by blast
qed

interpretation dur_asc: ordered_codec "dur_key EncodeVarintAscending" DecodeDurationAscending dur_ok dur_less
proof
  fix x y :: Duration and r s rest
  show "DecodeDurationAscending (dur_key EncodeVarintAscending x @ rest) = Inr (rest, x)"
    by (simp add: DecodeDurationAscending_def dur_key_def varint_asc.dec_enc Duration_Decode_sort)
  show "dur_less x y \<Longrightarrow> dur_key EncodeVarintAscending x @ r < dur_key EncodeVarintAscending y @ s"
    by (auto simp: dur_key_def dur_less_def varint_asc.enc_less_iff sint_eq_iff)
  show "x \<noteq> y \<Longrightarrow> dur_less x y \<or> dur_less y x" by (rule dur_less_total)
qed

interpretation dur_desc: ordered_codec "dur_key EncodeVarintDescending" DecodeDurationDescending dur_ok "\<lambda>d x. dur_less x d"
proof
  fix x y :: Duration and r s rest
  show "DecodeDurationDescending (dur_key EncodeVarintDescending x @ rest) = Inr (rest, x)"
    by (simp add: DecodeDurationDescending_def dur_key_def varint_desc.dec_enc Duration_Decode_sort)
  show "dur_less y x \<Longrightarrow> dur_key EncodeVarintDescending x @ r < dur_key EncodeVarintDescending y @ s"
    by (auto simp: dur_key_def dur_less_def varint_desc.enc_less_iff sint_eq_iff)
  show "x \<noteq> y \<Longrightarrow> dur_less y x \<or> dur_less x y" using dur_less_total by blast
qed

lemma sort_nanos_total:
  assumes "- (2 ^ 63) \<le> total_nanos d" "total_nanos d < 2 ^ 63"
  shows "sint (sort_nanos d) = total_nanos d"
proof -
  have "sort_nanos d = word_of_int (total_nanos d)"
    by (simp add: sort_nanos_def total_nanos_eq)
  with assms show ?thesis using sint_word_of_int_in64 [of "total_nanos d"] by simp
qed

text \<open>Durations as keys. A duration that \<open>Encode\<close> accepts is written and read back exactly, in both
  directions and whatever follows it, even where the sort value wrapped around; and while the exact
  lengths fit 64 bits the byte order of two keys is the (reverse) order of lengths, then of
  months, then of days.\<close>

theorem duration_codecs:
  assumes "Duration_Encode d = Inr e" "Duration_Encode x = Inr f"
  shows "\<exists>ka kd la ld. EncodeDurationAscending b d = Inr (b @ ka) \<and> EncodeDurationDescending b d = Inr (b @ kd) \<and>
    EncodeDurationAscending b x = Inr (b @ la) \<and> EncodeDurationDescending b x = Inr (b @ ld) \<and>
    DecodeDurationAscending (ka @ rest) = Inr (rest, d) \<and> DecodeDurationDescending (kd @ rest) = Inr (rest, d) \<and>
    (\<bar>total_nanos d\<bar> < 2 ^ 63 \<longrightarrow> \<bar>total_nanos x\<bar> < 2 ^ 63 \<longrightarrow>
       (ka < la \<longleftrightarrow> (total_nanos d, sint (Months d), sint (Days d)) < (total_nanos x, sint (Months x), sint (Days x))) \<and>
       (kd < ld \<longleftrightarrow> ka > la))"
proof -
  have ok: "dur_ok d" "dur_ok x" using assms by (simp_all add: dur_ok_def)
  show ?thesis
    using dur_asc.dec_enc [OF ok(1)] dur_desc.dec_enc [OF ok(1)] sort_nanos_total [of d] sort_nanos_total [of x]
      dur_asc.enc_compare [OF ok] dur_desc.enc_compare [OF ok] dur_asc.enc_compare [OF ok(2,1)]
    by (simp add: EncodeDuration_key ok) (simp add: dur_less_def abs_if split: if_splits)
qed

theorem duration_codecs_witness:
  "DecodeDurationAscending (projr (EncodeDurationAscending [] \<lparr>Months = 1, Days = - 2, nanos = 5\<rparr>) @ [9]) =
     Inr ([9], \<lparr>Months = 1, Days = - 2, nanos = 5\<rparr>)"
proof -
  let ?d = "\<lparr>Months = 1, Days = - 2, nanos = 5\<rparr> :: Duration"
  have "Duration_Encode ?d = Inr (2419200000000005, 1, - 2)"
    by (simp add: Duration_Encode_def int64_div_def trunc_div_def)
  from duration_codecs [OF this this, of "[]" "[9]"] show ?thesis by fastforce
qed

text \<open>The comment of \<open>EncodeDurationAscending\<close> promises that the key order is the order of
  \<open>Compare\<close>. It is not, for two reasons. A normal form may keep mixed signs: one month less two days is
  longer than twenty-nine days for \<open>Compare\<close>, and shorter as a key. And \<open>Encode\<close> checks a number of years against a limit
  counted in months, so it accepts lengths that do not fit 64 bits: 300 years wrap to a negative sort value, and
  the key sorts before the key of zero.\<close>

theorem duration_key_order_is_not_Compare:
  "Duration_Compare \<lparr>Months = 1, Days = - 2, nanos = 0\<rparr> \<lparr>Months = 0, Days = 29, nanos = 0\<rparr> = 1 \<and>
   projr (EncodeDurationAscending [] \<lparr>Months = 1, Days = - 2, nanos = 0\<rparr>)
     < projr (EncodeDurationAscending [] \<lparr>Months = 0, Days = 29, nanos = 0\<rparr>) \<and>
   Duration_Compare \<lparr>Months = 3600, Days = 0, nanos = 0\<rparr> \<lparr>Months = 0, Days = 0, nanos = 0\<rparr> = 1 \<and>
   Duration_Encode \<lparr>Months = 3600, Days = 0, nanos = 0\<rparr> = Inr (- 9115544073709551616, 3600, 0) \<and>
   projr (EncodeDurationAscending [] \<lparr>Months = 3600, Days = 0, nanos = 0\<rparr>)
     < projr (EncodeDurationAscending [] \<lparr>Months = 0, Days = 0, nanos = 0\<rparr>)"
proof -
  have ok: "dur_ok \<lparr>Months = 1, Days = - 2, nanos = 0\<rparr>" "dur_ok \<lparr>Months = 0, Days = 29, nanos = 0\<rparr>"
    "dur_ok \<lparr>Months = 3600, Days = 0, nanos = 0\<rparr>" "dur_ok \<lparr>Months = 0, Days = 0, nanos = 0\<rparr>"
    by (simp_all add: dur_ok_def Duration_Encode_def int64_div_def trunc_div_def)
  have "dur_less \<lparr>Months = 1, Days = - 2, nanos = 0\<rparr> \<lparr>Months = 0, Days = 29, nanos = 0\<rparr>"
    "dur_less \<lparr>Months = 3600, Days = 0, nanos = 0\<rparr> \<lparr>Months = 0, Days = 0, nanos = 0\<rparr>"
    by (simp_all add: dur_less_def sort_nanos_def)
  note keys = this [folded dur_asc.enc_compare [OF ok(1,2)] dur_asc.enc_compare [OF ok(3,4)]]
  have "Duration_Encode \<lparr>Months = 3600, Days = 0, nanos = 0\<rparr> = Inr (- 9115544073709551616, 3600, 0)"
    by (simp add: Duration_Encode_def int64_div_def trunc_div_def)
  then show ?thesis using keys
    by (simp add: EncodeDuration_key ok) (simp add: Duration_Compare_def Duration_normalize_def
        shiftPosDaysToMonths_def shiftNegDaysToMonths_def int64Max_def int64Min_def int64_div_def trunc_div_def)
qed

end
