(* ===== verification/Ip_Addr.thy ===== *)
theory Ip_Addr
  imports Big_Endian Hlc_Print
begin

text \<open>
  \<open>pkg/util/uint128/uint128.go\<close> and \<open>pkg/util/ipaddr\<close>: 128-bit integers as two words, internet
  addresses with a family and a mask, their parsers, masks, bitwise and integer arithmetic with
  range checks, containment of subnets, and the bytes they are stored as.
\<close>

section \<open>128-bit integers\<close>

record Uint128 =
  Hi :: uint64
  Lo :: uint64

definition Uint128_GetBytes :: "Uint128 \<Rightarrow> bytes" where
  "Uint128_GetBytes u = be_bytes 8 (Hi u) @ be_bytes 8 (Lo u)"

definition Uint128_Equal :: "Uint128 \<Rightarrow> Uint128 \<Rightarrow> bool" where
  "Uint128_Equal u v \<longleftrightarrow> Hi u = Hi v \<and> Lo u = Lo v"

definition Uint128_Compare :: "Uint128 \<Rightarrow> Uint128 \<Rightarrow> int" where
  "Uint128_Compare u v =
     (if Hi u > Hi v then 1 else if Hi u < Hi v then - 1
      else if Lo u > Lo v then 1 else if Lo u < Lo v then - 1 else 0)"

definition Uint128_Add :: "Uint128 \<Rightarrow> uint64 \<Rightarrow> Uint128" where
  "Uint128_Add u n =
     (let lo = Lo u + n; hi = (if Lo u > lo then Hi u + 1 else Hi u) in \<lparr>Hi = hi, Lo = lo\<rparr>)"

definition Uint128_Sub :: "Uint128 \<Rightarrow> uint64 \<Rightarrow> Uint128" where
  "Uint128_Sub u n =
     (let lo = Lo u - n; hi = (if Lo u < lo then Hi u - 1 else Hi u) in \<lparr>Hi = hi, Lo = lo\<rparr>)"

definition Uint128_And :: "Uint128 \<Rightarrow> Uint128 \<Rightarrow> Uint128" where
  "Uint128_And u v = \<lparr>Hi = Hi u AND Hi v, Lo = Lo u AND Lo v\<rparr>"

definition Uint128_Or :: "Uint128 \<Rightarrow> Uint128 \<Rightarrow> Uint128" where
  "Uint128_Or u v = \<lparr>Hi = Hi u OR Hi v, Lo = Lo u OR Lo v\<rparr>"

definition Uint128_Xor :: "Uint128 \<Rightarrow> Uint128 \<Rightarrow> Uint128" where
  "Uint128_Xor u v = \<lparr>Hi = Hi u XOR Hi v, Lo = Lo u XOR Lo v\<rparr>"

definition Uint128_FromBytes :: "bytes \<Rightarrow> go_error + Uint128" where
  "Uint128_FromBytes b =
     (if length b < 16 then Inl (GoPanic ''index out of range'')
      else Inr \<lparr>Hi = be_fold (take 8 b), Lo = be_fold (take 8 (drop 8 b))\<rparr>)"

section \<open>Addresses\<close>

record IPAddr =
  Family :: byte
  Mask :: byte
  Addr :: Uint128

abbreviation IPv4family :: byte where "IPv4family \<equiv> 0"
abbreviation IPv6family :: byte where "IPv6family \<equiv> 1"

definition IPv4size :: nat where "IPv4size = 6"
definition IPv6size :: nat where "IPv6size = 18"

abbreviation IPv4mappedIPv6prefix :: uint64 where "IPv4mappedIPv6prefix \<equiv> 0xFFFF00000000"
abbreviation IPv4mask :: uint64 where "IPv4mask \<equiv> 0xFFFFFFFF"
abbreviation IPv4max :: uint64 where "IPv4max \<equiv> 0xFFFFFFFF"

definition errResultOutOfRange :: go_error where
  "errResultOutOfRange = Errorf ''result out of range''"

definition IPAddr_ToBuffer :: "bytes \<Rightarrow> IPAddr \<Rightarrow> bytes" where
  "IPAddr_ToBuffer appendTo ip =
     (let appendTo = appendTo @ [Family ip, Mask ip]
      in if Family ip = IPv4family then appendTo @ be_bytes 4 (ucast (Lo (Addr ip)) :: uint32)
         else appendTo @ be_bytes 8 (Hi (Addr ip)) @ be_bytes 8 (Lo (Addr ip)))"

text \<open>\<open>FromBuffer\<close> writes into an existing address, of which the IPv4 case keeps the high word.\<close>

definition IPAddr_FromBuffer :: "IPAddr \<Rightarrow> bytes \<Rightarrow> go_error + bytes \<times> IPAddr" where
  "IPAddr_FromBuffer ip data =
     (case data of [] \<Rightarrow> Inl (GoPanic ''index out of range'')
      | f # data1 \<Rightarrow>
          if f \<noteq> IPv4family \<and> f \<noteq> IPv6family
          then Inl (AssertionFailedf ''IPAddr decoding error: unexpected family'')
          else case data1 of [] \<Rightarrow> Inl (GoPanic ''index out of range'')
          | m # rest \<Rightarrow>
              if f = IPv4family then
                if length rest < 4 then Inl (GoPanic ''index out of range'')
                else Inr (drop IPv4size data,
                  \<lparr>Family = f, Mask = m,
                   Addr = (Addr ip)\<lparr>Lo := ucast (be_fold (take 4 rest) :: uint32) OR IPv4mappedIPv6prefix\<rparr>\<rparr>)
              else res_bind (Uint128_FromBytes rest) (\<lambda>a.
                     Inr (drop IPv6size data, \<lparr>Family = f, Mask = m, Addr = a\<rparr>)))"

definition IPAddr_Compare :: "IPAddr \<Rightarrow> IPAddr \<Rightarrow> int" where
  "IPAddr_Compare a b =
     (if Family a < Family b then - 1 else if Family a > Family b then 1
      else if Mask a < Mask b then - 1 else if Mask a > Mask b then 1
      else Uint128_Compare (Addr a) (Addr b))"

definition IPAddr_Equal :: "IPAddr \<Rightarrow> IPAddr \<Rightarrow> bool" where
  "IPAddr_Equal a b \<longleftrightarrow> Family a = Family b \<and> Mask a = Mask b \<and> Uint128_Equal (Addr a) (Addr b)"

definition full_mask :: "byte \<Rightarrow> byte" where
  "full_mask family = (if family = IPv4family then 32 else 128)"

definition Hostmask :: "IPAddr \<Rightarrow> IPAddr" where
  "Hostmask ip =
     (let addr = (if Family ip = IPv4family
                  then (Addr ip)\<lparr>Lo := ucast (drop_bit (unat (Mask ip)) (NOT 0 :: uint32)) OR IPv4mappedIPv6prefix\<rparr>
                  else if Mask ip \<le> 64 then \<lparr>Hi = drop_bit (unat (Mask ip)) (NOT 0), Lo = NOT 0\<rparr>
                  else \<lparr>Hi = 0, Lo = drop_bit (unat (Mask ip - 64)) (NOT 0)\<rparr>)
      in \<lparr>Family = Family ip, Mask = full_mask (Family ip), Addr = addr\<rparr>)"

definition Netmask :: "IPAddr \<Rightarrow> IPAddr" where
  "Netmask ip =
     (let addr = (if Family ip = IPv4family
                  then (Addr ip)\<lparr>Lo := ucast (push_bit (unat (32 - Mask ip)) (NOT 0 :: uint32)) OR IPv4mappedIPv6prefix\<rparr>
                  else if Mask ip \<le> 64 then \<lparr>Hi = push_bit (unat (64 - Mask ip)) (NOT 0), Lo = 0\<rparr>
                  else \<lparr>Hi = NOT 0, Lo = push_bit (unat (128 - Mask ip)) (NOT 0)\<rparr>)
      in \<lparr>Family = Family ip, Mask = full_mask (Family ip), Addr = addr\<rparr>)"

definition Broadcast :: "IPAddr \<Rightarrow> IPAddr" where
  "Broadcast ip =
     (if Family ip = IPv4family
      then ip\<lparr>Addr := (Addr ip)\<lparr>Lo := Lo (Addr ip) OR drop_bit (unat (32 + Mask ip)) (NOT 0)\<rparr>\<rparr>
      else if Mask ip < 64
      then ip\<lparr>Addr := \<lparr>Hi = Hi (Addr ip) OR drop_bit (unat (Mask ip)) (NOT 0), Lo = Lo (Addr ip) OR NOT 0\<rparr>\<rparr>
      else ip\<lparr>Addr := (Addr ip)\<lparr>Lo := Lo (Addr ip) OR drop_bit (unat (Mask ip - 64)) (NOT 0)\<rparr>\<rparr>)"

definition Complement :: "IPAddr \<Rightarrow> IPAddr" where
  "Complement ip =
     (let familyMask = (if Family ip = IPv4family then \<lparr>Hi = 0, Lo = IPv4mask\<rparr>
                        else \<lparr>Hi = 0xFFFFFFFFFFFFFFFF, Lo = 0xFFFFFFFFFFFFFFFF\<rparr>)
      in ip\<lparr>Addr := Uint128_Xor (Addr ip) familyMask\<rparr>)"

definition IPAddr_And :: "IPAddr \<Rightarrow> IPAddr \<Rightarrow> go_error + IPAddr" where
  "IPAddr_And a b =
     (if Family a \<noteq> Family b then Inl (Errorf ''cannot AND inet values of different sizes'')
      else Inr \<lparr>Family = Family a, Mask = (if Mask a > Mask b then Mask a else Mask b),
                Addr = Uint128_And (Addr a) (Addr b)\<rparr>)"

definition IPAddr_Or :: "IPAddr \<Rightarrow> IPAddr \<Rightarrow> go_error + IPAddr" where
  "IPAddr_Or a b =
     (if Family a \<noteq> Family b then Inl (Errorf ''cannot OR inet values of different sizes'')
      else Inr \<lparr>Family = Family a, Mask = (if Mask a > Mask b then Mask a else Mask b),
                Addr = Uint128_Or (Addr a) (Addr b)\<rparr>)"

definition ipv4Add :: "Uint128 \<Rightarrow> uint64 \<Rightarrow> go_error + Uint128" where
  "ipv4Add ip n =
     (if n > IPv4max \<or> IPv4max - n < Lo ip AND IPv4mask then Inl errResultOutOfRange
      else Inr (Uint128_Add ip n))"

definition ipv6Add :: "Uint128 \<Rightarrow> uint64 \<Rightarrow> go_error + Uint128" where
  "ipv6Add ip n =
     (let newIP = Uint128_Add ip n
      in if Uint128_Compare newIP ip < 0 then Inl errResultOutOfRange else Inr newIP)"

definition ipv4Sub :: "Uint128 \<Rightarrow> uint64 \<Rightarrow> go_error + Uint128" where
  "ipv4Sub ip n =
     (if n > IPv4max \<or> Lo ip AND IPv4mask < n then Inl errResultOutOfRange
      else Inr (Uint128_Sub ip n))"

definition ipv6Sub :: "Uint128 \<Rightarrow> uint64 \<Rightarrow> go_error + Uint128" where
  "ipv6Sub ip n =
     (let newIP = Uint128_Sub ip n
      in if Uint128_Compare newIP ip > 0 then Inl errResultOutOfRange else Inr newIP)"

definition IPAddr_sum :: "IPAddr \<Rightarrow> int64 \<Rightarrow> bool \<Rightarrow> go_error + IPAddr" where
  "IPAddr_sum ip n neg =
     (let (neg, n2) = (if sint n < 0 then (\<not> neg, if n = MinInt64 then push_bit 63 1 else - n) else (neg, n));
          addr = (if Family ip = IPv4family
                  then if \<not> neg then ipv4Add (Addr ip) n2 else ipv4Sub (Addr ip) n2
                  else if \<not> neg then ipv6Add (Addr ip) n2 else ipv6Sub (Addr ip) n2)
      in res_bind addr (\<lambda>a. Inr (ip\<lparr>Addr := a\<rparr>)))"

definition IPAddr_Add :: "IPAddr \<Rightarrow> int64 \<Rightarrow> go_error + IPAddr" where
  "IPAddr_Add ip n = IPAddr_sum ip n False"

definition IPAddr_Sub :: "IPAddr \<Rightarrow> int64 \<Rightarrow> go_error + IPAddr" where
  "IPAddr_Sub ip n = IPAddr_sum ip n True"

definition subIPAddrIPv4 :: "Uint128 \<Rightarrow> Uint128 \<Rightarrow> int64" where
  "subIPAddrIPv4 ip n = (Lo ip AND IPv4mask) - (Lo n AND IPv4mask)"

definition subIPAddrIPv6 :: "Uint128 \<Rightarrow> Uint128 \<Rightarrow> go_error + int64" where
  "subIPAddrIPv6 ip n =
     (let (ip, n, sign) = (if Uint128_Compare ip n < 0 then (n, ip, - 1) else (ip, n, 1 :: int64));
          lo = Lo ip - Lo n;
          hi = Hi ip - Hi n;
          hi = (if lo > Lo ip then hi - 1 else hi)
      in if hi \<noteq> 0 then Inl errResultOutOfRange
         else if lo = MaxInt64 + 1 \<and> sign = - 1 then Inr MinInt64
         else if lo > MaxInt64 then Inl errResultOutOfRange
         else Inr (sign * lo))"

definition SubIPAddr :: "IPAddr \<Rightarrow> IPAddr \<Rightarrow> go_error + int64" where
  "SubIPAddr a b =
     (if Family a \<noteq> Family b then Inl (Errorf ''cannot subtract inet addresses with different sizes'')
      else if Family a = IPv4family then Inr (subIPAddrIPv4 (Addr a) (Addr b))
      else subIPAddrIPv6 (Addr a) (Addr b))"

text \<open>When the families differ the first \<open>And\<close> fails; the error of the second cannot occur.\<close>

definition IPAddr_contains :: "IPAddr \<Rightarrow> IPAddr \<Rightarrow> bool" where
  "IPAddr_contains ip other =
     (let addrNetmask = Netmask ip
      in case IPAddr_And other addrNetmask of Inl _ \<Rightarrow> False
         | Inr a \<Rightarrow> (case IPAddr_And ip addrNetmask of Inl _ \<Rightarrow> False | Inr t \<Rightarrow> IPAddr_Equal t a))"

definition ContainsOrEquals :: "IPAddr \<Rightarrow> IPAddr \<Rightarrow> bool" where
  "ContainsOrEquals ip other \<longleftrightarrow> IPAddr_contains ip other \<and> Mask ip \<le> Mask other"

definition IPAddr_Contains :: "IPAddr \<Rightarrow> IPAddr \<Rightarrow> bool" where
  "IPAddr_Contains ip other \<longleftrightarrow> IPAddr_contains ip other \<and> Mask ip < Mask other"

definition ContainedByOrEquals :: "IPAddr \<Rightarrow> IPAddr \<Rightarrow> bool" where
  "ContainedByOrEquals ip other \<longleftrightarrow> IPAddr_contains other ip \<and> Mask ip \<ge> Mask other"

definition ContainedBy :: "IPAddr \<Rightarrow> IPAddr \<Rightarrow> bool" where
  "ContainedBy ip other \<longleftrightarrow> IPAddr_contains other ip \<and> Mask ip > Mask other"

definition ContainsOrContainedBy :: "IPAddr \<Rightarrow> IPAddr \<Rightarrow> bool" where
  "ContainsOrContainedBy ip other \<longleftrightarrow> IPAddr_contains ip other \<or> IPAddr_contains other ip"

section \<open>Parsing\<close>

definition ip_big :: int where "ip_big = 0xFFFFFF"

fun dtoi_loop :: "string \<Rightarrow> int \<Rightarrow> nat \<Rightarrow> int \<times> nat \<times> bool" where
  "dtoi_loop [] n i = (if i = 0 then (0, 0, False) else (n, i, True))"
| "dtoi_loop (c # cs) n i =
     (if is_digit c then
        let n = n * 10 + int (digit_val c)
        in if n \<ge> ip_big then (ip_big, i, False) else dtoi_loop cs n (i + 1)
      else if i = 0 then (0, 0, False) else (n, i, True))"

definition dtoi :: "string \<Rightarrow> int \<times> nat \<times> bool" where
  "dtoi s = dtoi_loop s 0 0"

definition hex_val :: "char \<Rightarrow> int option" where
  "hex_val c =
     (let k = of_char c :: nat
      in if 48 \<le> k \<and> k \<le> 57 then Some (int k - 48)
         else if 97 \<le> k \<and> k \<le> 102 then Some (int k - 97 + 10)
         else if 65 \<le> k \<and> k \<le> 70 then Some (int k - 65 + 10)
         else None)"

fun xtoi_loop :: "string \<Rightarrow> int \<Rightarrow> nat \<Rightarrow> int \<times> nat \<times> bool" where
  "xtoi_loop [] n i = (if i = 0 then (0, i, False) else (n, i, True))"
| "xtoi_loop (c # cs) n i =
     (case hex_val c of None \<Rightarrow> if i = 0 then (0, i, False) else (n, i, True)
      | Some h \<Rightarrow>
          let n = n * 16 + h
          in if n \<ge> ip_big then (0, i, False) else xtoi_loop cs n (i + 1))"

definition xtoi :: "string \<Rightarrow> int \<times> nat \<times> bool" where
  "xtoi s = xtoi_loop s 0 0"

definition v4InV6Prefix :: bytes where
  "v4InV6Prefix = [0, 0, 0, 0, 0, 0, 0, 0, 0, 0, 0xff, 0xff]"

definition makeIPv4 :: "byte \<Rightarrow> byte \<Rightarrow> byte \<Rightarrow> byte \<Rightarrow> bytes" where
  "makeIPv4 a b c d = (v4InV6Prefix @ [0, 0, 0, 0])[12 := a, 13 := b, 14 := c, 15 := d]"

text \<open>The loop of \<open>parseIPv4\<close> over the four octets, with the octets found so far.\<close>

fun parseIPv4_loop :: "nat \<Rightarrow> nat \<Rightarrow> string \<Rightarrow> bytes \<Rightarrow> (string \<times> bytes) option" where
  "parseIPv4_loop 0 i s p = Some (s, p)"
| "parseIPv4_loop (Suc k) i s p =
     (case s of [] \<Rightarrow> None
      | c # cs \<Rightarrow>
          if i > 0 \<and> c \<noteq> CHR ''.'' then None
          else let s = (if i > 0 then cs else s)
               in case dtoi s of (n, c, ok) \<Rightarrow>
                    if \<not> ok \<or> n > 0xFF then None
                    else parseIPv4_loop k (i + 1) (drop c s) (p @ [of_int n]))"

definition parseIPv4 :: "string \<Rightarrow> bytes option" where
  "parseIPv4 s =
     (case parseIPv4_loop 4 0 s [] of None \<Rightarrow> None
      | Some (s, p) \<Rightarrow> if s \<noteq> [] then None else Some (makeIPv4 (p ! 0) (p ! 1) (p ! 2) (p ! 3)))"

text \<open>
  The loop of \<open>parseIPv6\<close>: what is left of the string, the address bytes, the next index and the
  position of the ellipsis.
\<close>

function parseIPv6_loop :: "string \<Rightarrow> bytes \<Rightarrow> nat \<Rightarrow> nat option \<Rightarrow> (string \<times> bytes \<times> nat \<times> nat option) option" where
  "parseIPv6_loop s ip i ellipsis =
     (if i < 16 then
        case xtoi s of (n, c, ok) \<Rightarrow>
          if \<not> ok \<or> n > 0xFFFF then None
          else if c < length s \<and> s ! c = CHR ''.'' then
            if ellipsis = None \<and> i \<noteq> 12 then None
            else if i + 4 > 16 then None
            else (case parseIPv4 s of None \<Rightarrow> None
                  | Some ip4 \<Rightarrow>
                      Some ([], ip[i := ip4 ! 12, i + 1 := ip4 ! 13, i + 2 := ip4 ! 14, i + 3 := ip4 ! 15], i + 4, ellipsis))
          else
            let ip = ip[i := of_int (n div 256), i + 1 := of_int n]; i = i + 2; s = drop c s
            in if s = [] then Some (s, ip, i, ellipsis)
               else if hd s \<noteq> CHR '':'' \<or> length s = 1 then None
               else let s = tl s
                    in if hd s = CHR '':'' then
                         if ellipsis \<noteq> None then None
                         else let s = tl s
                              in if s = [] then Some (s, ip, i, Some i) else parseIPv6_loop s ip i (Some i)
                       else parseIPv6_loop s ip i ellipsis
      else Some (s, ip, i, ellipsis))"
  by pat_completeness auto
termination
  by (relation "measure (\<lambda>(s, ip, i, e). 16 - i)") auto

declare parseIPv6_loop.simps [simp del]

definition expand_ellipsis :: "bytes \<Rightarrow> nat \<Rightarrow> nat \<Rightarrow> bytes" where
  "expand_ellipsis ip i ellipsis =
     (let n = 16 - i;
          ip = fold (\<lambda>j ip. ip[j + n := ip ! j]) (rev [ellipsis..<i]) ip
      in fold (\<lambda>j ip. ip[j := 0]) (rev [ellipsis..<ellipsis + n]) ip)"

definition parseIPv6 :: "string \<Rightarrow> bytes option" where
  "parseIPv6 s =
     (let ip = replicate 16 0;
          lead = (length s \<ge> 2 \<and> s ! 0 = CHR '':'' \<and> s ! 1 = CHR '':'');
          ellipsis = (if lead then Some 0 else None);
          s = (if lead then drop 2 s else s)
      in if lead \<and> s = [] then Some ip
         else case parseIPv6_loop s ip 0 ellipsis of None \<Rightarrow> None
         | Some (s, ip, i, ellipsis) \<Rightarrow>
             if s \<noteq> [] then None
             else if i < 16 then
               (case ellipsis of None \<Rightarrow> None | Some e \<Rightarrow> Some (expand_ellipsis ip i e))
             else if ellipsis \<noteq> None then None
             else Some ip)"

fun ParseIP_scan :: "string \<Rightarrow> string \<Rightarrow> bytes option" where
  "ParseIP_scan s [] = None"
| "ParseIP_scan s (c # cs) =
     (if c = CHR ''.'' then parseIPv4 s else if c = CHR '':'' then parseIPv6 s else ParseIP_scan s cs)"

definition ParseIP :: "string \<Rightarrow> bytes option" where
  "ParseIP s = ParseIP_scan s s"

fun getFamily :: "string \<Rightarrow> byte" where
  "getFamily [] = IPv4family"
| "getFamily (c # cs) =
     (if c = CHR ''.'' then IPv4family else if c = CHR '':'' then IPv6family else getFamily cs)"

definition trim_right_dots :: "string \<Rightarrow> string" where
  "trim_right_dots s = rev (dropWhile (\<lambda>c. c = CHR ''.'') (rev s))"

definition ParseINet :: "string \<Rightarrow> go_error + IPAddr" where
  "ParseINet s =
     (let family = getFamily s
      in if CHR ''/'' \<notin> set s then
           let addr = (if family = IPv4family then trim_right_dots s else s)
           in case ParseIP addr of None \<Rightarrow> Inl (Errorf ''could not parse as inet. invalid IP'')
              | Some ip \<Rightarrow> res_bind (Uint128_FromBytes ip) (\<lambda>a.
                  Inr \<lparr>Family = family, Mask = full_mask family, Addr = a\<rparr>)
         else
           let addr = takeWhile (\<lambda>c. c \<noteq> CHR ''/'') s; maskStr = tl (dropWhile (\<lambda>c. c \<noteq> CHR ''/'') s);
               addr = (if family = IPv4family then trim_right_dots addr else addr)
           in case strconv_ParseInt maskStr 64 of Inl _ \<Rightarrow> Inl (Errorf ''could not parse as inet. invalid mask'')
              | Inr maskOnes \<Rightarrow>
                  if maskOnes < 0 \<or> family = IPv4family \<and> maskOnes > 32 \<or> family = IPv6family \<and> maskOnes > 128
                  then Inl (Errorf ''could not parse as inet. invalid mask'')
                  else
                    let octetCount = length (filter (\<lambda>c. c = CHR ''.'') addr) + 1
                    in if family = IPv4family \<and> (int octetCount + 1) * 8 - 1 < maskOnes
                       then Inl (Errorf ''could not parse as inet. mask is larger than provided octets'')
                       else
                         let addr = (if family = IPv4family
                                     then addr @ concat (replicate (4 - octetCount) ''.0'') else addr)
                         in case ParseIP addr of None \<Rightarrow> Inl (Errorf ''could not parse as inet. invalid IP'')
                            | Some ip \<Rightarrow> res_bind (Uint128_FromBytes ip) (\<lambda>a.
                                Inr \<lparr>Family = family, Mask = of_int maskOnes, Addr = a\<rparr>))"

section \<open>128-bit arithmetic\<close>

definition u128 :: "Uint128 \<Rightarrow> nat" where
  "u128 u = unat (Hi u) * 2 ^ 64 + unat (Lo u)"

lemma unat64_lt: "unat (a :: uint64) < 18446744073709551616"
  using unsigned_less [of a, where 'a = nat] by simp

lemma unat64_add:
  "unat (a + b :: uint64) = (if unat a + unat b < 2 ^ 64 then unat a + unat b else unat a + unat b - 2 ^ 64)"
  using unat64_lt [of a] unat64_lt [of b] by (auto simp: unat_word_ariths mod_if)

lemma unat64_sub:
  "unat (a - b :: uint64) = (if unat b \<le> unat a then unat a - unat b else 2 ^ 64 + unat a - unat b)"
proof (cases "unat b \<le> unat a")
  case True
  then show ?thesis by (simp add: unat_sub word_le_nat_alt)
next
  case False
  have "a = (a - b) + b" by simp
  then have "unat a = unat (a - b + b)" by simp
  with False show ?thesis
    unfolding unat64_add using unat64_lt [of "a - b"] unat64_lt [of b] by (simp split: if_splits)
qed

lemma u128_less: "u128 u < 2 ^ 128"
  using unat64_lt [of "Hi u"] unat64_lt [of "Lo u"] by (simp add: u128_def)

lemma u128_inj: "u128 u = u128 v \<Longrightarrow> u = v"
proof -
  assume eq: "u128 u = u128 v"
  have "unat (Hi u) = u128 u div 2 ^ 64" "unat (Hi v) = u128 v div 2 ^ 64"
    "unat (Lo u) = u128 u mod 2 ^ 64" "unat (Lo v) = u128 v mod 2 ^ 64"
    using unat64_lt [of "Lo u"] unat64_lt [of "Lo v"] by (simp_all add: u128_def)
  with eq have "Hi u = Hi v" "Lo u = Lo v" by (simp_all add: word_unat_eq_iff)
  then show "u = v" by simp
qed

lemma u128_less_iff: "u128 u < u128 v \<longleftrightarrow> Hi u < Hi v \<or> Hi u = Hi v \<and> Lo u < Lo v"
proof (cases "Hi u" "Hi v" rule: linorder_cases)
  case less
  then have "Suc (unat (Hi u)) \<le> unat (Hi v)" by (simp add: word_less_nat_alt Suc_le_eq)
  with less show ?thesis using unat64_lt [of "Lo u"] by (simp add: u128_def)
next
  case greater
  then have "Suc (unat (Hi v)) \<le> unat (Hi u)" by (simp add: word_less_nat_alt Suc_le_eq)
  with greater show ?thesis using unat64_lt [of "Lo v"] by (auto simp: u128_def)
qed (simp add: u128_def word_less_nat_alt)

lemma Uint128_Compare_u128: "Uint128_Compare u v = three_way (u128 u) (u128 v)"
  using u128_inj [of u v] by (auto simp: Uint128_Compare_def three_way_def u128_less_iff)

interpretation u128_cmp: keyed_comparator Uint128_Compare u128
  by unfold_locales (rule Uint128_Compare_u128)

lemma u128_Add: "u128 (Uint128_Add u n) =
    (if u128 u + unat n < 2 ^ 128 then u128 u + unat n else u128 u + unat n - 2 ^ 128)"
proof (cases "unat (Lo u) + unat n < 2 ^ 64")
  case True
  then have "\<not> Lo u > Lo u + n" "unat (Lo u + n) = unat (Lo u) + unat n"
    by (simp_all add: word_less_nat_alt unat64_add)
  then show ?thesis using True unat64_lt [of "Hi u"] by (simp add: Uint128_Add_def u128_def)
next
  case False
  then have "Lo u > Lo u + n" "unat (Lo u + n) = unat (Lo u) + unat n - 2 ^ 64"
    using unat64_lt [of n] unat64_lt [of "Lo u"] by (simp_all add: word_less_nat_alt unat64_add)
  moreover have "unat (Hi u) + 1 < 2 ^ 64 \<or> unat (Hi u) = 18446744073709551615" using unat64_lt [of "Hi u"] by auto
  ultimately show ?thesis using False unat64_lt [of n] unat64_lt [of "Lo u"]
    by (auto simp: Uint128_Add_def u128_def unat64_add [of "Hi u" 1])
qed

lemma u128_Sub: "u128 (Uint128_Sub u n) =
    (if unat n \<le> u128 u then u128 u - unat n else 2 ^ 128 + u128 u - unat n)"
proof (cases "unat n \<le> unat (Lo u)")
  case True
  then have "\<not> Lo u < Lo u - n" "unat (Lo u - n) = unat (Lo u) - unat n"
    by (simp_all add: word_less_nat_alt unat64_sub)
  then show ?thesis using True by (simp add: Uint128_Sub_def u128_def)
next
  case False
  then have "Lo u < Lo u - n" "unat (Lo u - n) = 2 ^ 64 + unat (Lo u) - unat n"
    using unat64_lt [of n] unat64_lt [of "Lo u"] by (simp_all add: word_less_nat_alt unat64_sub)
  then show ?thesis using False unat64_lt [of n]
    by (cases "unat (Hi u)") (simp_all add: Uint128_Sub_def u128_def unat64_sub [of "Hi u" 1])
qed

section \<open>Address arithmetic\<close>

text \<open>A well-formed address: a known family, a mask within its width, and for IPv4 the mapped prefix.\<close>

definition ip_width :: "IPAddr \<Rightarrow> nat" where
  "ip_width ip = (if Family ip = IPv4family then 32 else 128)"

definition wf_ip :: "IPAddr \<Rightarrow> bool" where
  "wf_ip ip \<longleftrightarrow> Family ip \<in> {IPv4family, IPv6family} \<and> unat (Mask ip) \<le> ip_width ip \<and>
     (Family ip = IPv4family \<longrightarrow> Hi (Addr ip) = 0 \<and> unat (Lo (Addr ip)) div 2 ^ 32 = 65535)"

definition ip_val :: "IPAddr \<Rightarrow> nat" where
  "ip_val ip = (if Family ip = IPv4family then unat (Lo (Addr ip)) mod 2 ^ 32 else u128 (Addr ip))"

lemma unat_IPv4mask: "unat (w AND IPv4mask) = unat w mod 2 ^ 32"
proof -
  have "IPv4mask = mask 32" by (simp add: mask_eq_exp_minus_1)
  then have "w AND IPv4mask = take_bit 32 w" by (simp add: take_bit_eq_mask)
  then show ?thesis by (simp add: take_bit_eq_mod unat_mod)
qed

lemma v4_lo: "wf_ip ip \<Longrightarrow> Family ip = IPv4family \<Longrightarrow>
    Hi (Addr ip) = 0 \<and> unat (Lo (Addr ip)) = 281470681743360 + ip_val ip \<and> ip_val ip < 4294967296"
  using mult_div_mod_eq [of "2 ^ 32" "unat (Lo (Addr ip))"] by (auto simp: wf_ip_def ip_val_def)

lemma v6_val: "Family ip \<noteq> IPv4family \<Longrightarrow> ip_val ip = u128 (Addr ip) \<and> ip_val ip < 2 ^ 128"
  using u128_less [of "Addr ip"] by (simp add: ip_val_def)

lemma v4_update:
  assumes "wf_ip ip" "Family ip = IPv4family" "Hi a = 0" "unat (Lo a) = 281470681743360 + v" "v < 4294967296"
  shows "wf_ip (ip\<lparr>Addr := a\<rparr>) \<and> ip_val (ip\<lparr>Addr := a\<rparr>) = v"
proof -
  have "(281470681743360 + v) div 4294967296 = 65535" "(281470681743360 + v) mod 4294967296 = v"
    using assms(5) by (simp_all add: div_add1_eq mod_add_left_eq [symmetric])
  then show ?thesis using assms by (simp add: wf_ip_def ip_val_def ip_width_def)
qed

lemma v6_update: "wf_ip ip \<Longrightarrow> Family ip \<noteq> IPv4family \<Longrightarrow>
    wf_ip (ip\<lparr>Addr := a\<rparr>) \<and> ip_val (ip\<lparr>Addr := a\<rparr>) = u128 a"
  by (simp add: wf_ip_def ip_val_def ip_width_def)

definition addr_add :: "Uint128 \<Rightarrow> byte \<Rightarrow> uint64 \<Rightarrow> go_error + Uint128" where
  "addr_add a f n = (if f = IPv4family then ipv4Add a n else ipv6Add a n)"

definition addr_sub :: "Uint128 \<Rightarrow> byte \<Rightarrow> uint64 \<Rightarrow> go_error + Uint128" where
  "addr_sub a f n = (if f = IPv4family then ipv4Sub a n else ipv6Sub a n)"

lemma addr_add_exact:
  assumes "wf_ip ip"
  shows "if ip_val ip + unat n < 2 ^ ip_width ip
    then \<exists>a. addr_add (Addr ip) (Family ip) n = Inr a \<and> wf_ip (ip\<lparr>Addr := a\<rparr>) \<and> ip_val (ip\<lparr>Addr := a\<rparr>) = ip_val ip + unat n
    else addr_add (Addr ip) (Family ip) n = Inl errResultOutOfRange"
proof (cases "Family ip = IPv4family")
  case True
  note v4 = v4_lo [OF assms True]
  have guard: "(n > IPv4max \<or> IPv4max - n < Lo (Addr ip) AND IPv4mask) \<longleftrightarrow> \<not> ip_val ip + unat n < 2 ^ 32"
    using True v4 by (auto simp: word_less_nat_alt unat_IPv4mask unat64_sub ip_val_def)
  show ?thesis
  proof (cases "ip_val ip + unat n < 2 ^ 32")
    case fits: True
    have "unat (Lo (Addr ip) + n) = 281470681743360 + (ip_val ip + unat n)" "\<not> Lo (Addr ip) + n < Lo (Addr ip)"
      using v4 fits by (simp_all add: unat64_add word_less_nat_alt)
    then have "wf_ip (ip\<lparr>Addr := Uint128_Add (Addr ip) n\<rparr>) \<and> ip_val (ip\<lparr>Addr := Uint128_Add (Addr ip) n\<rparr>) = ip_val ip + unat n"
      using v4 fits by (intro v4_update [OF assms True]) (simp_all add: Uint128_Add_def)
    then show ?thesis using guard fits True by (simp add: addr_add_def ipv4Add_def ip_width_def)
  qed (use guard True in \<open>simp add: addr_add_def ipv4Add_def ip_width_def\<close>)
next
  case False
  note v6 = v6_val [OF False]
  have "Uint128_Compare (Uint128_Add (Addr ip) n) (Addr ip) < 0 \<longleftrightarrow> \<not> ip_val ip + unat n < 2 ^ 128"
    using v6 unat64_lt [of n] by (auto simp: Uint128_Compare_u128 u128_Add)
  then show ?thesis using False v6 v6_update [OF assms False] u128_Add [of "Addr ip" n]
    by (auto simp: addr_add_def ipv6Add_def ip_width_def Let_def)
qed

lemma addr_sub_exact:
  assumes "wf_ip ip"
  shows "if unat n \<le> ip_val ip
    then \<exists>a. addr_sub (Addr ip) (Family ip) n = Inr a \<and> wf_ip (ip\<lparr>Addr := a\<rparr>) \<and> ip_val (ip\<lparr>Addr := a\<rparr>) = ip_val ip - unat n
    else addr_sub (Addr ip) (Family ip) n = Inl errResultOutOfRange"
proof (cases "Family ip = IPv4family")
  case True
  note v4 = v4_lo [OF assms True]
  have guard: "(n > IPv4max \<or> Lo (Addr ip) AND IPv4mask < n) \<longleftrightarrow> \<not> unat n \<le> ip_val ip"
    using True v4 by (auto simp: word_less_nat_alt unat_IPv4mask ip_val_def)
  show ?thesis
  proof (cases "unat n \<le> ip_val ip")
    case fits: True
    have "unat (Lo (Addr ip) - n) = 281470681743360 + (ip_val ip - unat n)" "\<not> Lo (Addr ip) < Lo (Addr ip) - n"
      using v4 fits by (simp_all add: unat64_sub word_less_nat_alt)
    then have "wf_ip (ip\<lparr>Addr := Uint128_Sub (Addr ip) n\<rparr>) \<and> ip_val (ip\<lparr>Addr := Uint128_Sub (Addr ip) n\<rparr>) = ip_val ip - unat n"
      using v4 fits by (intro v4_update [OF assms True]) (auto simp: Uint128_Sub_def)
    then show ?thesis using guard fits True by (simp add: addr_sub_def ipv4Sub_def)
  qed (use guard True in \<open>simp add: addr_sub_def ipv4Sub_def\<close>)
next
  case False
  note v6 = v6_val [OF False]
  have "Uint128_Compare (Uint128_Sub (Addr ip) n) (Addr ip) > 0 \<longleftrightarrow> \<not> unat n \<le> ip_val ip"
    using v6 unat64_lt [of n] by (auto simp: Uint128_Compare_u128 u128_Sub)
  then show ?thesis using False v6 v6_update [OF assms False] u128_Sub [of "Addr ip" n]
    by (auto simp: addr_sub_def ipv6Sub_def Let_def)
qed

lemma sum_magnitude:
  "(case if sint n < 0 then (\<not> neg, if n = MinInt64 then push_bit 63 1 else - n) else (neg, n) of (neg', n2) \<Rightarrow>
      int (unat n2) = \<bar>sint n\<bar> \<and> neg' = ((sint n < 0) \<noteq> neg))"
proof -
  have "int (unat (- n)) = - sint n" if "sint n < 0" "n \<noteq> MinInt64"
  proof -
    have "sint (- n) = - sint n" using that(2) by (rule sint64_uminus)
    then show ?thesis using that(1) uint_of_nonneg [of "- n"] by simp
  qed
  moreover have "int (unat n) = sint n" if "\<not> sint n < 0" using that uint_of_nonneg [of n] by simp
  ultimately show ?thesis by auto
qed

lemma sum_cases: "\<exists>n2. int (unat n2) = \<bar>sint n\<bar> \<and>
    IPAddr_sum ip n neg = res_bind (if (sint n < 0) = neg then addr_add (Addr ip) (Family ip) n2
      else addr_sub (Addr ip) (Family ip) n2) (\<lambda>a. Inr (ip\<lparr>Addr := a\<rparr>))"
proof -
  obtain neg' n2 where e: "(if sint n < 0 then (\<not> neg, if n = MinInt64 then push_bit 63 1 else - n) else (neg, n)) = (neg', n2)"
    by (meson surj_pair)
  then have "int (unat n2) = \<bar>sint n\<bar>" "neg' = ((sint n < 0) \<noteq> neg)" using sum_magnitude [of n neg] by auto
  then show ?thesis using e by (auto simp: IPAddr_sum_def addr_add_def addr_sub_def Let_def)
qed

text \<open>
  C40. Address arithmetic is exact. For well-formed addresses of either family, adding or subtracting a
  64-bit integer, also the most negative one, gives the address at that distance when there is one
  in the address space, with the same family and mask, and the out of range error otherwise.
\<close>

theorem ip_add_sub_exact:
  assumes "wf_ip ip"
  shows "(let z = int (ip_val ip) + sint n in
      if 0 \<le> z \<and> z < 2 ^ ip_width ip
      then \<exists>r. IPAddr_Add ip n = Inr r \<and> wf_ip r \<and> int (ip_val r) = z \<and> Family r = Family ip \<and> Mask r = Mask ip
      else IPAddr_Add ip n = Inl errResultOutOfRange) \<and>
    (let z = int (ip_val ip) - sint n in
      if 0 \<le> z \<and> z < 2 ^ ip_width ip
      then \<exists>r. IPAddr_Sub ip n = Inr r \<and> wf_ip r \<and> int (ip_val r) = z \<and> Family r = Family ip \<and> Mask r = Mask ip
      else IPAddr_Sub ip n = Inl errResultOutOfRange)"
proof -
  have lt: "ip_val ip < 2 ^ ip_width ip"
    using v4_lo [OF assms] v6_val [of ip] by (auto simp: ip_width_def)
  have main: "let z = int (ip_val ip) + (if neg then - sint n else sint n) in
      if 0 \<le> z \<and> z < 2 ^ ip_width ip
      then \<exists>r. IPAddr_sum ip n neg = Inr r \<and> wf_ip r \<and> int (ip_val r) = z \<and> Family r = Family ip \<and> Mask r = Mask ip
      else IPAddr_sum ip n neg = Inl errResultOutOfRange" for neg
  proof -
    obtain n2 where n2: "int (unat n2) = \<bar>sint n\<bar>"
      "IPAddr_sum ip n neg = res_bind (if (sint n < 0) = neg then addr_add (Addr ip) (Family ip) n2
         else addr_sub (Addr ip) (Family ip) n2) (\<lambda>a. Inr (ip\<lparr>Addr := a\<rparr>))"
      using sum_cases by blast
    define u where "u = unat n2"
    note n2 = n2 [folded u_def] and add = addr_add_exact [OF assms, of n2, folded u_def]
      and sub = addr_sub_exact [OF assms, of n2, folded u_def]
    have pow: "int v < 2 ^ ip_width ip \<longleftrightarrow> v < 2 ^ ip_width ip" for v
      by (metis of_nat_less_iff of_nat_numeral of_nat_power)
    show ?thesis
    proof (cases "(sint n < 0) = neg")
      case True
      then have z: "int (ip_val ip) + (if neg then - sint n else sint n) = int (ip_val ip + u)" using n2(1) by auto
      show ?thesis unfolding z Let_def pow using True n2(2) add by (auto split: if_splits)
    next
      case False
      then have z: "int (ip_val ip) + (if neg then - sint n else sint n) = int (ip_val ip) - int u" using n2(1) by auto
      have "int (ip_val ip) - int u < 2 ^ ip_width ip" using lt pow [of "ip_val ip"] by linarith
      then show ?thesis unfolding z Let_def using False n2(2) sub
        by (cases "u \<le> ip_val ip") (auto simp: of_nat_diff)
    qed
  qed
  from main [of False] main [of True] show ?thesis
    by (simp only: IPAddr_Add_def IPAddr_Sub_def if_True if_False add_uminus_conv_diff simp_thms)
qed

definition ip4 :: "uint64 \<Rightarrow> byte \<Rightarrow> IPAddr" where
  "ip4 v m = \<lparr>Family = IPv4family, Mask = m, Addr = \<lparr>Hi = 0, Lo = IPv4mappedIPv6prefix + v\<rparr>\<rparr>"

theorem ip_add_sub_exact_witness:
  "IPAddr_Add (ip4 0xFFFFFFFF 32) 1 = Inl errResultOutOfRange \<and>
   (\<exists>r. IPAddr_Sub (ip4 10 32) 10 = Inr r \<and> ip_val r = 0)"
proof -
  have wf: "wf_ip (ip4 0xFFFFFFFF 32)" "wf_ip (ip4 10 32)"
    and v: "ip_val (ip4 0xFFFFFFFF 32) = 4294967295" "ip_val (ip4 10 32) = 10" "ip_width (ip4 v m) = 32" for v m
    by (simp_all add: ip4_def wf_ip_def ip_val_def ip_width_def)
  show ?thesis using ip_add_sub_exact [OF wf(1), of 1] ip_add_sub_exact [OF wf(2), of 10] by (auto simp: v)
qed

lemma sub_v4:
  assumes "wf_ip a" "wf_ip b" "Family a = IPv4family" "Family b = IPv4family"
  shows "sint (subIPAddrIPv4 (Addr a) (Addr b)) = int (ip_val a) - int (ip_val b)"
proof -
  have s: "sint (Lo (Addr ip) AND IPv4mask) = int (ip_val ip)" if "wf_ip ip" "Family ip = IPv4family" for ip
  proof -
    have "Lo (Addr ip) AND IPv4mask = of_nat (ip_val ip)"
      using that(2) by (intro of_nat_unat_eq) (simp add: unat_IPv4mask ip_val_def)
    then show ?thesis using v4_lo [OF that] sint64_of_nat [of "ip_val ip"] by simp
  qed
  show ?thesis
    using s [OF assms(1,3)] s [OF assms(2,4)] v4_lo [OF assms(1,3)] v4_lo [OF assms(2,4)]
    unfolding subIPAddrIPv4_def by (subst sint64_diff) auto
qed

lemma sub_words:
  assumes "u128 v \<le> u128 u"
  defines "lo \<equiv> Lo u - Lo v"
  defines "hi \<equiv> (if lo > Lo u then Hi u - Hi v - 1 else Hi u - Hi v)"
  shows "hi = 0 \<longleftrightarrow> u128 u - u128 v < 2 ^ 64" and "hi = 0 \<Longrightarrow> unat lo = u128 u - u128 v"
proof -
  let ?d = "u128 u - u128 v"
  have borrow: "lo > Lo u \<longleftrightarrow> unat (Lo u) < unat (Lo v)"
    using unat64_lt [of "Lo v"] unat64_lt [of "Lo u"] by (auto simp: lo_def word_less_nat_alt unat64_sub)
  have h: "unat (Hi v) \<le> unat (Hi u)" "unat (Lo u) < unat (Lo v) \<Longrightarrow> unat (Hi v) < unat (Hi u)"
  proof -
    have le: "unat (Hi v) * 18446744073709551616 + unat (Lo v) \<le> unat (Hi u) * 18446744073709551616 + unat (Lo u)"
      using assms(1) by (simp add: u128_def)
    then show "unat (Hi v) \<le> unat (Hi u)" using unat64_lt [of "Lo u"] by linarith
    show "unat (Lo u) < unat (Lo v) \<Longrightarrow> unat (Hi v) < unat (Hi u)" using le unat64_lt [of "Lo v"] by linarith
  qed
  have lo: "unat lo = (if unat (Lo u) < unat (Lo v) then 2 ^ 64 + unat (Lo u) - unat (Lo v) else unat (Lo u) - unat (Lo v))"
    by (simp add: lo_def unat64_sub)
  have hi: "unat hi = (if unat (Lo u) < unat (Lo v) then unat (Hi u) - unat (Hi v) - 1 else unat (Hi u) - unat (Hi v))"
    using h by (cases "unat (Lo u) < unat (Lo v)") (auto simp: hi_def borrow unat64_sub Suc_le_eq)
  have d: "?d = unat hi * 2 ^ 64 + unat lo"
    using h unat64_lt [of "Lo v"] unfolding hi lo u128_def
    by (auto simp: diff_mult_distrib)
  have z: "hi = 0 \<longleftrightarrow> unat hi = 0" by (simp add: unat_eq_zero)
  show "hi = 0 \<longleftrightarrow> ?d < 2 ^ 64" unfolding z d using unat64_lt [of lo] by (cases "unat hi") auto
  show "hi = 0 \<Longrightarrow> unat lo = ?d" unfolding z d by simp
qed

definition in_int64 :: "int \<Rightarrow> go_error + int64" where
  "in_int64 z = (if - (2 ^ 63) \<le> z \<and> z < 2 ^ 63 then Inr (word_of_int z) else Inl errResultOutOfRange)"

lemma sub_v6: "subIPAddrIPv6 u v = in_int64 (int (u128 u) - int (u128 v))"
proof -
  define x y where "x = (if u128 u < u128 v then v else u)" and "y = (if u128 u < u128 v then u else v)"
  define lo where "lo = Lo x - Lo y"
  define hi where "hi = (if lo > Lo x then Hi x - Hi y - 1 else Hi x - Hi y)"
  let ?d = "u128 x - u128 y"
  have le: "u128 y \<le> u128 x" by (simp add: x_def y_def)
  note w = sub_words [OF le, folded lo_def, folded hi_def]
  have z: "int (u128 u) - int (u128 v) = (if u128 u < u128 v then - int ?d else int ?d)" by (simp add: x_def y_def)
  have eq: "subIPAddrIPv6 u v = (if hi \<noteq> 0 then Inl errResultOutOfRange
      else if lo = MaxInt64 + 1 \<and> u128 u < u128 v then Inr MinInt64
      else if lo > MaxInt64 then Inl errResultOutOfRange
      else Inr (if u128 u < u128 v then - lo else lo))"
    by (cases "u128 u < u128 v")
      (simp_all only: subIPAddrIPv6_def Uint128_Compare_u128 x_def y_def lo_def hi_def Let_def three_way_simps
        if_True if_False prod.case simp_thms mult_1 mult_minus1, simp)
  show ?thesis
  proof (cases "hi = 0")
    case False
    then have "\<not> ?d < 2 ^ 64" using w(1) by blast
    then show ?thesis using False by (auto simp: eq z in_int64_def)
  next
    case True
    then have lo: "unat lo = ?d" using w(2) by blast
    have word: "lo = word_of_int (int ?d)" using of_nat_unat_eq [OF lo] by simp
    have big: "lo > MaxInt64 \<longleftrightarrow> ?d \<ge> 2 ^ 63" using lo by (simp add: word_less_nat_alt not_le [symmetric]) linarith
    have min: "lo = MaxInt64 + 1 \<longleftrightarrow> ?d = 2 ^ 63" using lo by (simp add: word_unat_eq_iff)
    show ?thesis
    proof (cases "u128 u < u128 v")
      case less: True
      then show ?thesis using True big min word unfolding eq z in_int64_def by auto
    next
      case ge: False
      then show ?thesis using True big word unfolding eq z in_int64_def by auto
    qed
  qed
qed

text \<open>
  The difference of two addresses of one family is exact: it is their distance as a signed 64-bit
  integer whenever that fits, the minimum included, and the out of range error otherwise. Addresses
  of different families are an error.
\<close>

theorem SubIPAddr_exact:
  assumes "wf_ip a" "wf_ip b"
  shows "SubIPAddr a b =
    (if Family a \<noteq> Family b then Inl (Errorf ''cannot subtract inet addresses with different sizes'')
     else in_int64 (int (ip_val a) - int (ip_val b)))"
proof (cases "Family a = IPv4family \<and> Family b = IPv4family")
  case True
  then have "sint (subIPAddrIPv4 (Addr a) (Addr b)) = int (ip_val a) - int (ip_val b)"
    using sub_v4 assms by blast
  moreover have "ip_val a < 4294967296" "ip_val b < 4294967296" using v4_lo assms True by blast+
  moreover have "subIPAddrIPv4 (Addr a) (Addr b) = of_int (sint (subIPAddrIPv4 (Addr a) (Addr b)))" by simp
  ultimately have "subIPAddrIPv4 (Addr a) (Addr b) = of_int (int (ip_val a) - int (ip_val b))"
    "- (2 ^ 63) \<le> int (ip_val a) - int (ip_val b) \<and> int (ip_val a) - int (ip_val b) < 2 ^ 63" by simp_all
  then show ?thesis using True by (simp only: SubIPAddr_def in_int64_def) simp
qed (auto simp: SubIPAddr_def sub_v6 v6_val)

theorem SubIPAddr_exact_witness:
  "SubIPAddr (ip4 3 32) (ip4 10 32) = Inr (- 7)"
proof -
  have wf: "wf_ip (ip4 3 32)" "wf_ip (ip4 10 32)" and v: "ip_val (ip4 3 32) = 3" "ip_val (ip4 10 32) = 10"
    by (simp_all add: ip4_def wf_ip_def ip_val_def ip_width_def)
  show ?thesis using SubIPAddr_exact [OF wf] by (simp add: v in_int64_def) (simp add: ip4_def)
qed

section \<open>Subnets\<close>

lemma and_not_mask_eq:
  fixes v w :: "'a::len word"
  shows "(v AND NOT (mask k) = w AND NOT (mask k)) = (drop_bit k v = drop_bit k w)"
proof
  have b: "bit (u AND NOT (mask k)) (k + n) = bit u (k + n)" for u :: "'a word" and n
    by (auto simp: bit_and_iff bit_not_iff bit_mask_iff dest: bit_imp_le_length)
  show "drop_bit k v = drop_bit k w" if "v AND NOT (mask k) = w AND NOT (mask k)"
    using that by (intro bit_word_eqI) (metis b bit_drop_bit_eq comp_apply)
  have e: "u AND NOT (mask k) = push_bit k (drop_bit k u)" for u :: "'a word"
    by (rule bit_word_eqI) (auto simp: bit_and_iff bit_push_bit_iff bit_not_iff bit_drop_bit_eq bit_mask_iff)
  show "v AND NOT (mask k) = w AND NOT (mask k)" if "drop_bit k v = drop_bit k w"
    unfolding e that by simp
qed

text \<open>The subnet a mask selects: the value without its host bits.\<close>

definition subnet :: "IPAddr \<Rightarrow> nat \<Rightarrow> nat" where
  "subnet ip m = ip_val ip div 2 ^ (ip_width ip - m)"

lemma drop_bit_nat: "drop_bit k v = drop_bit k w \<longleftrightarrow> unat v div 2 ^ k = unat (w :: 'a::len word) div 2 ^ k"
  unfolding word_unat_eq_iff unat_drop_bit_eq by (simp add: drop_bit_eq_div)

lemma contains_words:
  assumes "Family a = Family b" "Mask a \<le> full_mask (Family a)" "Mask b \<le> full_mask (Family a)"
  shows "IPAddr_contains a b \<longleftrightarrow>
      Hi (Addr a) AND Hi (Addr (Netmask a)) = Hi (Addr b) AND Hi (Addr (Netmask a)) \<and>
      Lo (Addr a) AND Lo (Addr (Netmask a)) = Lo (Addr b) AND Lo (Addr (Netmask a))"
proof -
  have "Family (Netmask a) = Family a" "Mask (Netmask a) = full_mask (Family a)" by (simp_all add: Netmask_def Let_def)
  then show ?thesis using assms
    by (auto simp: IPAddr_contains_def IPAddr_And_def IPAddr_Equal_def Uint128_Equal_def Uint128_And_def Let_def)
qed

lemma u128_parts: "u128 u div 2 ^ 64 = unat (Hi u)" "u128 u mod 2 ^ 64 = unat (Lo u)"
  using unat64_lt [of "Lo u"] by (simp_all add: u128_def)

lemma u128_high: "m \<le> 64 \<Longrightarrow> u128 u div 2 ^ (128 - m) = unat (Hi u) div 2 ^ (64 - m)"
proof -
  assume "m \<le> 64"
  then have "128 - m = 64 + (64 - m)" by simp
  then have "(2 :: nat) ^ (128 - m) = 2 ^ 64 * 2 ^ (64 - m)" by (simp only: power_add)
  then show ?thesis by (simp only: div_mult2_eq u128_parts)
qed

lemma u128_div: "k \<le> 64 \<Longrightarrow> u128 w div 2 ^ k = unat (Hi w) * 2 ^ (64 - k) + unat (Lo w) div 2 ^ k"
proof -
  assume "k \<le> 64"
  then have "u128 w = unat (Lo w) + unat (Hi w) * 2 ^ (64 - k) * 2 ^ k"
    by (simp add: u128_def power_add [symmetric])
  then show ?thesis by (simp only: div_mult_self3 [OF power_not_zero]) simp
qed

lemma u128_low: "k \<le> 64 \<Longrightarrow>
    u128 u div 2 ^ k = u128 v div 2 ^ k \<longleftrightarrow> Hi u = Hi v \<and> unat (Lo u) div 2 ^ k = unat (Lo v) div 2 ^ k"
proof -
  assume k: "k \<le> 64"
  note split = u128_div [OF k]
  have lt: "unat (Lo w) div 2 ^ k < 2 ^ (64 - k)" for w
    using unat64_lt [of "Lo w"] k by (simp add: div_less_iff_less_mult power_add [symmetric])
  show ?thesis
  proof
    assume eq: "u128 u div 2 ^ k = u128 v div 2 ^ k"
    have "unat (Hi u) = unat (Hi v)"
      using arg_cong [OF eq, of "\<lambda>n. n div 2 ^ (64 - k)"] lt [of u] lt [of v] by (simp add: split)
    with eq show "Hi u = Hi v \<and> unat (Lo u) div 2 ^ k = unat (Lo v) div 2 ^ k"
      by (simp add: split word_unat_eq_iff)
  qed (simp add: split)
qed

lemma contains_v6:
  assumes "Family a = IPv6family" "Family b = IPv6family" "unat (Mask a) \<le> 128" "unat (Mask b) \<le> 128"
  shows "IPAddr_contains a b \<longleftrightarrow> subnet a (unat (Mask a)) = subnet b (unat (Mask a))"
proof -
  let ?m = "unat (Mask a)"
  have s: "subnet a ?m = u128 (Addr a) div 2 ^ (128 - ?m)" "subnet b ?m = u128 (Addr b) div 2 ^ (128 - ?m)"
    using assms by (simp_all add: ip_width_def ip_val_def subnet_def)
  note eq = contains_words [of a b]
  have le: "Mask a \<le> full_mask (Family a)" "Mask b \<le> full_mask (Family a)"
    using assms by (simp_all add: full_mask_def word_le_nat_alt)
  show ?thesis
  proof (cases "Mask a \<le> 64")
    case True
    then have m: "?m \<le> 64" "unat (64 - Mask a) = 64 - ?m" by (simp_all add: word_le_nat_alt unat_sub)
    then show ?thesis using True assms(1,2) le eq
      by (simp add: s u128_high Netmask_def and_not_mask_eq drop_bit_nat)
  next
    case False
    then have m: "128 - ?m \<le> 64" "unat (128 - Mask a) = 128 - ?m"
      using assms(3) by (simp_all add: word_le_nat_alt unat_sub not_le)
    then show ?thesis using False assms(1,2) le eq
      by (simp add: s u128_low Netmask_def and_not_mask_eq drop_bit_nat)
  qed
qed

lemma netmask_v4:
  fixes w :: uint64
  assumes "unat w div 2 ^ 32 = 65535" "k \<le> 32"
  shows "w AND (ucast (push_bit k (NOT 0) :: uint32) OR IPv4mappedIPv6prefix) = w AND NOT (mask k)"
proof (rule bit_word_eqI)
  fix n :: nat
  assume "n < LENGTH(64)"
  then have n: "n < 64" by simp
  have p: "IPv4mappedIPv6prefix = push_bit 32 (mask 16)" by (simp add: push_bit_eq_mult mask_eq_exp_minus_1)
  have hi: "\<not> bit w n" if "48 \<le> n"
  proof -
    have "unat w < 2 ^ 48" using assms(1) mult_div_mod_eq [of "2 ^ 32" "unat w"] mod_less_divisor [of "2 ^ 32" "unat w"] by simp
    then have "unat w < 2 ^ n" using that by (meson less_le_trans one_le_numeral power_increasing)
    then have "\<not> bit (unat w) n" by (simp add: bit_iff_odd)
    then show ?thesis by (auto simp: bit_unsigned_iff dest: bit_imp_le_length)
  qed
  then have "bit w n \<Longrightarrow> n < 48" by (cases "48 \<le> n") auto
  then show "bit (w AND (ucast (push_bit k (NOT 0) :: uint32) OR IPv4mappedIPv6prefix)) n = bit (w AND NOT (mask k)) n"
    using n assms(2) unfolding p
    by (auto simp: bit_and_iff bit_or_iff bit_not_iff bit_mask_iff bit_push_bit_iff bit_ucast_iff not_le)
qed

lemma contains_v4:
  assumes "wf_ip a" "wf_ip b" "Family a = IPv4family" "Family b = IPv4family"
  shows "IPAddr_contains a b \<longleftrightarrow> subnet a (unat (Mask a)) = subnet b (unat (Mask a))"
proof -
  let ?m = "unat (Mask a)" and ?k = "32 - unat (Mask a)"
  have m: "?m \<le> 32" "unat (Mask b) \<le> 32" using assms by (auto simp: wf_ip_def ip_width_def)
  have k: "unat (32 - Mask a) = ?k" using m(1) by (simp add: unat_sub word_le_nat_alt)
  have le: "Mask a \<le> full_mask (Family a)" "Mask b \<le> full_mask (Family a)"
    using m assms(3) by (simp_all add: full_mask_def word_le_nat_alt)
  have lo: "unat (Lo (Addr a)) div 2 ^ 32 = 65535" "unat (Lo (Addr b)) div 2 ^ 32 = 65535"
    using assms by (auto simp: wf_ip_def)
  have "unat (Lo (Addr ip)) div 2 ^ ?k = 281470681743360 div 2 ^ ?k + ip_val ip div 2 ^ ?k"
    if "wf_ip ip" "Family ip = IPv4family" for ip
  proof -
    have "(2 :: nat) ^ ?k dvd 2 ^ 32 * 65535" by (intro dvd_mult2 le_imp_power_dvd) simp
    then have "(2 :: nat) ^ ?k dvd 281470681743360" by simp
    then show ?thesis using v4_lo [OF that] by (simp add: div_plus_div_distrib_dvd_left)
  qed
  then show ?thesis
    using contains_words [OF _ le] assms lo m(1) v4_lo
    by (simp add: Netmask_def k netmask_v4 [simplified] and_not_mask_eq drop_bit_nat subnet_def ip_width_def)
qed

lemma or_mask_nat: "unat (w OR mask k :: uint64) = unat w div 2 ^ k * 2 ^ k + (2 ^ k - 1)" if "k \<le> 64"
proof -
  let ?n = "unat w"
  have "push_bit k (drop_bit k ?n) + mask k = push_bit k (drop_bit k ?n) OR mask k"
    by (rule disjunctive_add) (auto simp: bit_simps)
  also have "\<dots> = ?n OR mask k" by (rule bit_eqI) (auto simp: bit_simps)
  also have "\<dots> = unat (w OR mask k)"
  proof -
    have "unat (mask k :: uint64) = mask k" using that by (intro bit_eqI) (auto simp: bit_unsigned_iff bit_mask_iff)
    then show ?thesis by (simp add: unsigned_or_eq)
  qed
  finally show ?thesis by (simp add: push_bit_eq_mult drop_bit_eq_div mask_eq_exp_minus_1)
qed

lemma drop_ones: "j \<le> 64 \<Longrightarrow> drop_bit j (NOT 0 :: uint64) = mask (64 - j)"
  by (rule bit_word_eqI) (auto simp: bit_simps)

lemma top_of_block: "n div 2 ^ k * 2 ^ k + (2 ^ k - 1) < 2 ^ m" if "n < 2 ^ m" "k \<le> m" for n :: nat
proof -
  have "n div 2 ^ k < 2 ^ (m - k)" using that by (simp add: div_less_iff_less_mult power_add [symmetric])
  then have "(n div 2 ^ k + 1) * 2 ^ k \<le> 2 ^ (m - k) * 2 ^ k" by (intro mult_right_mono) auto
  also have "\<dots> = 2 ^ m" using that(2) by (simp add: power_add [symmetric])
  finally have "2 ^ k + n div 2 ^ k * 2 ^ k \<le> 2 ^ m" by (simp add: algebra_simps)
  moreover have "(0 :: nat) < 2 ^ k" by simp
  ultimately show ?thesis by linarith
qed

lemma pow2_Suc: obtains p where "(2 :: nat) ^ k = Suc p"
  using gr0_implies_Suc [of "2 ^ k"] by auto

lemma Broadcast_v4:
  assumes "wf_ip ip" "Family ip = IPv4family"
  defines "k \<equiv> 32 - unat (Mask ip)"
  shows "wf_ip (Broadcast ip) \<and> ip_val (Broadcast ip) = ip_val ip div 2 ^ k * 2 ^ k + (2 ^ k - 1)"
proof -
  have m: "unat (Mask ip) \<le> 32" using assms(1,2) by (simp add: wf_ip_def ip_width_def)
  have u: "unat (32 + Mask ip) = 32 + unat (Mask ip)" using m by (simp add: unat_word_ariths)
  have kl: "k \<le> 32" "64 - unat (32 + Mask ip) = k" using m u by (simp_all add: k_def)
  let ?lo = "Lo (Addr ip) OR mask k"
  have eq: "Broadcast ip = ip\<lparr>Addr := (Addr ip)\<lparr>Lo := ?lo\<rparr>\<rparr>"
    using assms(2) u m kl(2) by (simp add: Broadcast_def drop_ones [simplified])
  have "(2 :: nat) ^ k dvd 2 ^ 32 * 65535" using kl(1) by (intro dvd_mult2 le_imp_power_dvd)
  then have d: "(2 :: nat) ^ k dvd 281470681743360" by simp
  have "unat ?lo = (281470681743360 + ip_val ip) div 2 ^ k * 2 ^ k + (2 ^ k - 1)"
    using v4_lo [OF assms(1,2)] kl(1) by (simp add: or_mask_nat)
  also have "\<dots> = 281470681743360 + (ip_val ip div 2 ^ k * 2 ^ k + (2 ^ k - 1))"
    using d by (simp add: div_plus_div_distrib_dvd_left distrib_right)
  finally have lo: "unat ?lo = 281470681743360 + (ip_val ip div 2 ^ k * 2 ^ k + (2 ^ k - 1))" .
  show ?thesis unfolding eq
    using v4_lo [OF assms(1,2)] lo top_of_block [of "ip_val ip" 32 k] kl(1)
    by (intro v4_update [OF assms(1,2)]) simp_all
qed

lemma Broadcast_v6:
  assumes "wf_ip ip" "Family ip \<noteq> IPv4family"
  defines "k \<equiv> 128 - unat (Mask ip)"
  shows "wf_ip (Broadcast ip) \<and> ip_val (Broadcast ip) = ip_val ip div 2 ^ k * 2 ^ k + (2 ^ k - 1)"
proof -
  have m: "unat (Mask ip) \<le> 128" using assms(1,2) by (simp add: wf_ip_def ip_width_def)
  note val = v6_val [OF assms(2)]
  show ?thesis
  proof (cases "Mask ip < 64")
    case True
    let ?h = "64 - unat (Mask ip)"
    have h: "unat (Mask ip) < 64" "k = 64 + ?h" using True m by (simp_all add: word_less_nat_alt k_def)
    have eq: "Broadcast ip = ip\<lparr>Addr := \<lparr>Hi = Hi (Addr ip) OR mask ?h, Lo = NOT 0\<rparr>\<rparr>"
      using assms(2) True h(1) by (simp add: Broadcast_def drop_ones [simplified])
    have "u128 \<lparr>Hi = Hi (Addr ip) OR mask ?h, Lo = NOT 0\<rparr> = u128 (Addr ip) div 2 ^ k * 2 ^ k + (2 ^ k - 1)"
    proof -
      have q: "u128 (Addr ip) div 2 ^ k = unat (Hi (Addr ip)) div 2 ^ ?h"
        using u128_high [of "unat (Mask ip)" "Addr ip"] h by (simp add: k_def)
      obtain p where p: "(2 :: nat) ^ ?h = Suc p" by (rule pow2_Suc)
      have "(2 :: nat) ^ k = 18446744073709551616 * Suc p" using p by (simp add: h(2) power_add)
      moreover have "unat (NOT 0 :: uint64) = 18446744073709551615"
        by (simp add: unsigned_minus_1_eq_mask mask_eq_exp_minus_1)
      ultimately show ?thesis unfolding q using p h(1) by (simp add: u128_def or_mask_nat algebra_simps)
    qed
    then show ?thesis unfolding eq using v6_update [OF assms(1,2)] val by simp
  next
    case False
    then have h: "64 \<le> unat (Mask ip)" "k \<le> 64" "unat (Mask ip - 64) = unat (Mask ip) - 64" "64 - (unat (Mask ip) - 64) = k"
      using m by (simp_all add: word_less_nat_alt not_less k_def unat_sub word_le_nat_alt)
    have eq: "Broadcast ip = ip\<lparr>Addr := (Addr ip)\<lparr>Lo := Lo (Addr ip) OR mask k\<rparr>\<rparr>"
      using assms(2) False h m by (simp add: Broadcast_def drop_ones [simplified])
    have "u128 ((Addr ip)\<lparr>Lo := Lo (Addr ip) OR mask k\<rparr>) = u128 (Addr ip) div 2 ^ k * 2 ^ k + (2 ^ k - 1)"
    proof -
      have "(2 :: nat) ^ (64 - k) * 2 ^ k = 18446744073709551616" using h(2) by (simp flip: power_add)
      then have "u128 (Addr ip) div 2 ^ k * 2 ^ k = unat (Hi (Addr ip)) * 18446744073709551616 + unat (Lo (Addr ip)) div 2 ^ k * 2 ^ k"
        by (simp add: u128_div [OF h(2)] distrib_right)
      moreover obtain p where "(2 :: nat) ^ k = Suc p" by (rule pow2_Suc)
      ultimately show ?thesis using h(2) by (simp add: u128_def or_mask_nat)
    qed
    then show ?thesis unfolding eq using v6_update [OF assms(1,2)] val by simp
  qed
qed

text \<open>
  Subnets. For well-formed addresses \<open>contains\<close> holds exactly when the families agree and the bits
  selected by the first address's mask are the same. \<open>Broadcast\<close> is the last address of the subnet:
  it is well formed, lies in the subnet, and no address of the subnet is above it.
\<close>

theorem ip_subnets:
  assumes "wf_ip a" "wf_ip b"
  shows "(IPAddr_contains a b \<longleftrightarrow> Family a = Family b \<and> subnet a (unat (Mask a)) = subnet b (unat (Mask a))) \<and>
    wf_ip (Broadcast a) \<and> IPAddr_contains a (Broadcast a) \<and>
    (IPAddr_contains a b \<longrightarrow> ip_val b \<le> ip_val (Broadcast a))"
proof -
  let ?m = "unat (Mask a)"
  define k where "k = ip_width a - ?m"
  have con: "IPAddr_contains x y \<longleftrightarrow> Family x = Family y \<and> subnet x (unat (Mask x)) = subnet y (unat (Mask x))"
    if "wf_ip x" "wf_ip y" for x y
  proof (cases "Family x = Family y")
    case True
    then show ?thesis
      using that contains_v4 [OF that] contains_v6 [of x y] by (auto simp: wf_ip_def ip_width_def)
  next
    case False
    then have "Family y \<noteq> Family (Netmask x)" by (simp add: Netmask_def Let_def)
    then show ?thesis using False by (simp add: IPAddr_contains_def IPAddr_And_def Let_def)
  qed
  have b: "wf_ip (Broadcast a)" "ip_val (Broadcast a) = ip_val a div 2 ^ k * 2 ^ k + (2 ^ k - 1)"
    using Broadcast_v4 [OF assms(1)] Broadcast_v6 [OF assms(1)] by (cases "Family a = IPv4family"; simp add: k_def ip_width_def)+
  have f: "Family (Broadcast a) = Family a" by (simp add: Broadcast_def)
  have "(ip_val a div 2 ^ k * 2 ^ k + (2 ^ k - 1)) div 2 ^ k = ip_val a div 2 ^ k"
  proof -
    obtain p where p: "(2 :: nat) ^ k = Suc p" by (rule pow2_Suc)
    show ?thesis by (rule div_nat_eqI) (simp_all add: p)
  qed
  then have s: "subnet a ?m = subnet (Broadcast a) ?m" using b f by (simp add: subnet_def ip_width_def k_def)
  have "ip_val b \<le> ip_val (Broadcast a)" if "Family a = Family b" "subnet a ?m = subnet b ?m"
  proof -
    have "ip_val b div 2 ^ k = ip_val a div 2 ^ k" using that by (simp add: subnet_def ip_width_def k_def)
    then have "ip_val b = ip_val a div 2 ^ k * 2 ^ k + ip_val b mod 2 ^ k" by (metis div_mult_mod_eq)
    moreover have "ip_val b mod 2 ^ k < 2 ^ k" by simp
    ultimately show ?thesis unfolding b(2) by linarith
  qed
  then show ?thesis using con [OF assms] con [OF assms(1) b(1)] f s b(1) by simp
qed

theorem ip_subnets_witness:
  "IPAddr_contains (ip4 0xC0A80000 16) (ip4 0xC0A80102 32) \<and> \<not> IPAddr_contains (ip4 0xC0A80000 24) (ip4 0xC0A80102 32)"
proof -
  have wf: "wf_ip (ip4 0xC0A80000 16)" "wf_ip (ip4 0xC0A80000 24)" "wf_ip (ip4 0xC0A80102 32)"
    by (simp_all add: ip4_def wf_ip_def ip_width_def)
  show ?thesis using ip_subnets [OF wf(1,3)] ip_subnets [OF wf(2,3)]
    by (simp add: ip4_def subnet_def ip_width_def ip_val_def)
qed

section \<open>The stored bytes\<close>

lemma v4_restore:
  fixes w :: uint64
  assumes "unat w div 2 ^ 32 = 65535"
  shows "ucast (ucast w :: uint32) OR IPv4mappedIPv6prefix = w"
proof (rule bit_word_eqI)
  fix n :: nat
  assume "n < LENGTH(64)"
  then have n: "n < 64" by simp
  have p: "IPv4mappedIPv6prefix = push_bit 32 (mask 16)" by (simp add: push_bit_eq_mult mask_eq_exp_minus_1)
  have "unat (drop_bit 32 w) = 65535" using assms unfolding unat_drop_bit_eq by (simp add: drop_bit_eq_div)
  then have "drop_bit 32 w = mask 16" by (simp add: word_unat_eq_iff mask_eq_exp_minus_1)
  then have "bit w (32 + (n - 32)) = bit (mask 16 :: uint64) (n - 32)" by (metis bit_drop_bit_eq comp_apply)
  then show "bit (ucast (ucast w :: uint32) OR IPv4mappedIPv6prefix) n = bit w n"
    using n unfolding p by (auto simp: bit_or_iff bit_ucast_iff bit_push_bit_iff bit_mask_iff not_less)
qed

lemma be_fold_word: "be_fold (be_bytes 8 (v :: uint64)) = v" "be_fold (be_bytes 4 (w :: uint32)) = w"
  using be_fold_be_bytes [of v 8] be_fold_be_bytes [of w 4] unsigned_less [of v, where 'a = nat] unsigned_less [of w, where 'a = nat]
  by simp_all

definition addr_bytes :: "IPAddr \<Rightarrow> bytes" where
  "addr_bytes ip = (if Family ip = IPv4family then be_bytes 4 (ucast (Lo (Addr ip)) :: uint32) else Uint128_GetBytes (Addr ip))"

lemma ToBuffer_eq: "IPAddr_ToBuffer [] ip = Family ip # Mask ip # addr_bytes ip"
  by (simp add: IPAddr_ToBuffer_def addr_bytes_def Uint128_GetBytes_def)

lemma be_nat_append: "be_nat (xs @ ys) = be_nat xs * 256 ^ length ys + be_nat ys"
  by (induction xs) (simp_all add: power_add algebra_simps)

lemma be_nat_addr: "be_nat (addr_bytes ip) = ip_val ip"
proof -
  have "unat (ucast (Lo (Addr ip)) :: uint32) = unat (Lo (Addr ip)) mod 2 ^ 32"
    by (simp add: unsigned_ucast_eq take_bit_eq_mod)
  then show ?thesis
    using unat64_lt [of "Lo (Addr ip)"] unat64_lt [of "Hi (Addr ip)"]
    by (simp add: addr_bytes_def Uint128_GetBytes_def be_nat_append be_nat_be_bytes ip_val_def u128_def)
qed

lemma addr_bytes_compare:
  assumes "wf_ip a" "wf_ip b" "Family a = Family b"
  shows "addr_bytes a < addr_bytes b \<longleftrightarrow> u128 (Addr a) < u128 (Addr b)"
proof -
  have "length (addr_bytes a) = length (addr_bytes b)" using assms(3) by (simp add: addr_bytes_def Uint128_GetBytes_def)
  then have "addr_bytes a < addr_bytes b \<longleftrightarrow> ip_val a < ip_val b" by (simp add: be_nat_mono be_nat_addr)
  moreover have "u128 (Addr a) < u128 (Addr b) \<longleftrightarrow> ip_val a < ip_val b"
    using assms v4_lo [of a] v4_lo [of b] by (cases "Family a = IPv4family") (auto simp: u128_def ip_val_def)
  ultimately show ?thesis by simp
qed

lemma FromBuffer_ToBuffer:
  assumes "wf_ip a" "Hi (Addr z) = 0"
  shows "IPAddr_FromBuffer z (IPAddr_ToBuffer [] a @ rest) = Inr (rest, a)"
proof (cases "Family a = IPv4family")
  case True
  then have "unat (Lo (Addr a)) div 2 ^ 32 = 65535" "Hi (Addr a) = 0" using assms(1) by (simp_all add: wf_ip_def)
  then show ?thesis using True assms(2)
    by (cases a; cases "Addr a"; cases "Addr z")
      (simp add: IPAddr_FromBuffer_def ToBuffer_eq addr_bytes_def be_fold_word v4_restore IPv4size_def)
next
  case False
  then show ?thesis using assms(1)
    by (cases a; cases "Addr a") (auto simp: wf_ip_def IPAddr_FromBuffer_def ToBuffer_eq addr_bytes_def
        Uint128_GetBytes_def Uint128_FromBytes_def be_fold_word IPv6size_def)
qed

text \<open>
  Addresses are stored faithfully: reading back the bytes of a well-formed address, into a fresh
  variable and whatever follows, gives the same address; and the order of the bytes of two
  addresses is the order of \<open>Compare\<close>: family, then mask, then address.
\<close>

theorem ip_buffer:
  assumes "wf_ip a" "wf_ip b" "Hi (Addr z) = 0"
  shows "IPAddr_FromBuffer z (IPAddr_ToBuffer [] a @ rest) = Inr (rest, a) \<and>
    bytes_compare (IPAddr_ToBuffer [] a) (IPAddr_ToBuffer [] b) = IPAddr_Compare a b"
proof
  show "IPAddr_FromBuffer z (IPAddr_ToBuffer [] a @ rest) = Inr (rest, a)"
    using assms by (intro FromBuffer_ToBuffer)
  show "bytes_compare (IPAddr_ToBuffer [] a) (IPAddr_ToBuffer [] b) = IPAddr_Compare a b"
    using addr_bytes_compare [OF assms(1,2)] addr_bytes_compare [OF assms(2,1)]
    by (auto simp: ToBuffer_eq IPAddr_Compare_def Uint128_Compare_u128 three_way_def)
qed

theorem ip_buffer_witness:
  "IPAddr_FromBuffer (ip4 0 0) (IPAddr_ToBuffer [] (ip4 5 24) @ [7]) = Inr ([7], ip4 5 24)"
proof -
  have "wf_ip (ip4 5 24)" "Hi (Addr (ip4 0 0)) = 0" by (simp_all add: ip4_def wf_ip_def ip_width_def)
  from ip_buffer [OF this(1,1,2)] show ?thesis by blast
qed

section \<open>What the parsers accept\<close>

lemma parseIPv4_shape: "parseIPv4 s = Some p \<Longrightarrow> \<exists>a b c d. p = makeIPv4 a b c d"
  by (auto simp: parseIPv4_def split: option.splits prod.splits if_splits)

lemma length_makeIPv4 [simp]: "length (makeIPv4 a b c d) = 16"
  by (simp add: makeIPv4_def v4InV6Prefix_def)

lemma makeIPv4_eq: "makeIPv4 a b c d = [0, 0, 0, 0, 0, 0, 0, 0, 0, 0, 0xff, 0xff, a, b, c, d]"
  by (simp add: makeIPv4_def v4InV6Prefix_def)

lemma parseIPv6_loop_length:
  "pred_option (\<lambda>(s', ip', i', e'). length ip' = length ip) (parseIPv6_loop s ip i e)"
proof (induction s ip i e rule: parseIPv6_loop.induct)
  case (1 s ip i e)
  obtain n c ok where x: "xtoi s = (n, c, ok)" by (cases "xtoi s")
  note IH = 1(1) [OF _ x [symmetric] refl _ _ refl refl refl _ _ refl _ _ refl]
    1(2) [OF _ x [symmetric] refl _ _ refl refl refl _ _ refl]
  show ?case
    unfolding parseIPv6_loop.simps [of s] x Let_def prod.case
    using IH by (auto simp only: option.pred_inject prod.case length_list_update split: if_split option.split)
qed

lemma parseIPv6_loop_Some: "parseIPv6_loop s ip i e = Some (s', ip', i', e') \<Longrightarrow> length ip' = length ip"
  using parseIPv6_loop_length [of ip s i e] by simp

lemma length_fold_update: "length (fold (\<lambda>j ip. ip[f j := g ip j]) js ip) = length ip"
  by (induction js arbitrary: ip) auto

lemma parseIPv6_length: "parseIPv6 s = Some p \<Longrightarrow> length p = 16"
  by (auto simp: parseIPv6_def Let_def expand_ellipsis_def length_fold_update
      split: if_splits option.splits dest!: parseIPv6_loop_Some)

lemma ParseIP_length: "ParseIP_scan s t = Some p \<Longrightarrow> length p = 16"
  by (induction t) (auto dest: parseIPv4_shape parseIPv6_length split: if_splits)

lemma ParseIP_v4: "getFamily t = IPv4family \<Longrightarrow> ParseIP_scan s t = Some p \<Longrightarrow> \<exists>a b c d. p = makeIPv4 a b c d"
  by (induction t) (auto dest: parseIPv4_shape split: if_splits)

lemma getFamily_append1: "getFamily (a @ b) = IPv4family \<Longrightarrow> getFamily a = IPv4family"
  by (induction a) (auto split: if_splits)

lemma getFamily_append2: "getFamily a = IPv4family \<Longrightarrow> getFamily b = IPv4family \<Longrightarrow> getFamily (a @ b) = IPv4family"
  by (induction a) (auto split: if_splits)

lemma getFamily_range: "getFamily s = IPv4family \<or> getFamily s = IPv6family"
  by (induction s) auto

lemma getFamily_trim: "getFamily s = IPv4family \<Longrightarrow> getFamily (trim_right_dots s) = IPv4family"
proof -
  have "s = trim_right_dots s @ rev (takeWhile (\<lambda>c. c = CHR ''.'') (rev s))"
    unfolding trim_right_dots_def by (metis rev_append rev_rev_ident takeWhile_dropWhile_id)
  then show "getFamily s = IPv4family \<Longrightarrow> getFamily (trim_right_dots s) = IPv4family"
    by (metis getFamily_append1)
qed

lemma FromBytes_v4:
  "\<exists>u. Uint128_FromBytes (makeIPv4 a b c d) = Inr u \<and> Hi u = 0 \<and> unat (Lo u) = 281470681743360 + be_nat [a, b, c, d]"
proof -
  have "be_nat [a, b, c, d] < 2 ^ 32" using be_nat_less [of "[a, b, c, d]"] by simp
  then have "unat (of_nat (281470681743360 + be_nat [a, b, c, d]) :: uint64) = 281470681743360 + be_nat [a, b, c, d]"
    by (intro unat_of_nat_small) simp
  moreover have "be_nat [0, 0, 0xff, 0xff, a, b, c, d] = 281470681743360 + be_nat [a, b, c, d]" by simp
  ultimately show ?thesis
    by (simp add: Uint128_FromBytes_def makeIPv4_eq be_fold_be_nat del: be_nat_Cons) simp
qed

lemma v4_wf:
  assumes "Hi u = 0" "unat (Lo u) = 281470681743360 + v" "v < 4294967296" "unat m \<le> 32"
  shows "wf_ip \<lparr>Family = IPv4family, Mask = m, Addr = u\<rparr> \<and> ip_val \<lparr>Family = IPv4family, Mask = m, Addr = u\<rparr> = v"
  using assms v4_update [of "\<lparr>Family = IPv4family, Mask = m, Addr = \<lparr>Hi = 0, Lo = IPv4mappedIPv6prefix\<rparr>\<rparr>" u v]
  by (simp add: wf_ip_def ip_width_def)

lemma parsed_wf:
  assumes "res_bind (Uint128_FromBytes p) (\<lambda>a. Inr \<lparr>Family = f, Mask = m, Addr = a\<rparr>) = Inr ip"
    and "f = IPv4family \<Longrightarrow> (\<exists>a b c d. p = makeIPv4 a b c d) \<and> unat m \<le> 32"
    and "f \<noteq> IPv4family \<Longrightarrow> f = IPv6family \<and> unat m \<le> 128"
  shows "wf_ip ip"
proof (cases "f = IPv4family")
  case True
  then obtain a b c d where p: "p = makeIPv4 a b c d" and m: "unat m \<le> 32" using assms(2) by auto
  obtain u where "Uint128_FromBytes p = Inr u" "Hi u = 0" "unat (Lo u) = 281470681743360 + be_nat [a, b, c, d]"
    using FromBytes_v4 unfolding p by blast
  moreover have "be_nat [a, b, c, d] < 4294967296" using be_nat_less [of "[a, b, c, d]"] by simp
  ultimately show ?thesis using assms(1) v4_wf m True by auto
next
  case False
  then show ?thesis using assms(1,3) by (cases "Uint128_FromBytes p") (auto simp: wf_ip_def ip_width_def)
qed

lemma getFamily_zeros: "getFamily (concat (replicate n ''.0'')) = IPv4family"
  by (cases n) auto

lemma unat_of_int_byte: "0 \<le> i \<Longrightarrow> i \<le> int k \<Longrightarrow> k \<le> 128 \<Longrightarrow> unat (of_int i :: byte) \<le> k"
proof -
  assume a: "0 \<le> i" "i \<le> int k" "k \<le> 128"
  then have "int (unat (of_int i :: byte)) = i" by (simp add: uint_word_of_int)
  with a show ?thesis by linarith
qed

text \<open>
  Whatever \<open>ParseINet\<close> accepts is a well-formed address: the family is one of the two, the mask is
  within the width of the family, and an IPv4 address carries the mapped prefix.
\<close>

theorem ParseINet_wf:
  assumes "ParseINet s = Inr ip"
  shows "wf_ip ip"
proof -
  have plain: "getFamily (trim_right_dots t) = IPv4family" if "getFamily (t @ r) = IPv4family" for t r
    using that getFamily_append1 getFamily_trim by blast
  show ?thesis
  proof (cases "CHR ''/'' \<in> set s")
    case False
    then obtain p where "ParseIP (if getFamily s = IPv4family then trim_right_dots s else s) = Some p"
      and "res_bind (Uint128_FromBytes p) (\<lambda>a. Inr \<lparr>Family = getFamily s, Mask = full_mask (getFamily s), Addr = a\<rparr>) = Inr ip"
      using assms by (auto simp: ParseINet_def Let_def split: option.splits)
    then show ?thesis using plain [of s "[]"] getFamily_range [of s]
      by (intro parsed_wf [of p]) (auto simp: full_mask_def ParseIP_def dest: ParseIP_v4)
  next
    case True
    let ?t = "takeWhile (\<lambda>c. c \<noteq> CHR ''/'') s"
    have t: "getFamily (?t @ dropWhile (\<lambda>c. c \<noteq> CHR ''/'') s) = getFamily s" by simp
    from True assms obtain p m n where "ParseIP (if getFamily s = IPv4family then trim_right_dots ?t @ concat (replicate n ''.0'') else ?t) = Some p"
      and "res_bind (Uint128_FromBytes p) (\<lambda>a. Inr \<lparr>Family = getFamily s, Mask = of_int m, Addr = a\<rparr>) = Inr ip"
      and "\<not> (m < 0 \<or> getFamily s = IPv4family \<and> m > 32 \<or> getFamily s = IPv6family \<and> m > 128)"
      by (auto simp: ParseINet_def Let_def split: option.splits sum.splits if_splits)
    moreover have "\<exists>a b c d. p = makeIPv4 a b c d" if "getFamily s = IPv4family"
      using calculation(1) that plain [of ?t "dropWhile (\<lambda>c. c \<noteq> CHR ''/'') s"]
      by (intro ParseIP_v4) (simp_all add: ParseIP_def getFamily_append2 getFamily_zeros)
    ultimately show ?thesis using getFamily_range [of s]
      by (intro parsed_wf [of p]) (auto simp: unat_of_int_byte)
  qed
qed

theorem ParseINet_wf_witness:
  "\<exists>ip. ParseINet ''10.1/12'' = Inr ip \<and> wf_ip ip \<and> Mask ip = 12"
proof -
  let ?ip = "\<lparr>Family = IPv4family, Mask = 12, Addr = \<lparr>Hi = 0, Lo = 0xFFFF0A010000\<rparr>\<rparr>"
  have "ParseINet ''10.1/12'' = Inr ?ip" by code_simp
  then show ?thesis using ParseINet_wf [of "''10.1/12''" ?ip] by simp
qed

section \<open>Dotted quads\<close>

text \<open>\<open>a.b.c.d\<close> as \<open>String\<close> prints it.\<close>

definition dotted :: "byte list \<Rightarrow> string" where
  "dotted = concat \<circ> (\<lambda>os. case os of [] \<Rightarrow> [] | a # os \<Rightarrow> dec_digits (unat a) # map (\<lambda>b. CHR ''.'' # dec_digits (unat b)) os)"

lemma dtoi_loop_digits:
  assumes "list_all is_digit ds" "foldl (\<lambda>v c. v * 10 + int (digit_val c)) n ds < ip_big" "0 \<le> n"
    and "rest = [] \<or> \<not> is_digit (hd rest)" "0 < i + length ds"
  shows "dtoi_loop (ds @ rest) n i = (foldl (\<lambda>v c. v * 10 + int (digit_val c)) n ds, i + length ds, True)"
  using assms
proof (induction ds arbitrary: n i)
  case Nil
  then show ?case by (cases rest) auto
next
  case (Cons c ds)
  have mono: "0 \<le> m \<Longrightarrow> m \<le> foldl (\<lambda>v c. v * 10 + int (digit_val c)) m xs" for m xs
  proof (induction xs arbitrary: m)
    case (Cons x xs)
    then have "m * 10 + int (digit_val x) \<le> foldl (\<lambda>v c. v * 10 + int (digit_val c)) m (x # xs)" by simp
    with Cons.prems show ?case by linarith
  qed simp
  have "n * 10 + int (digit_val c) < ip_big"
    using mono [of "n * 10 + int (digit_val c)" ds] Cons.prems(2,3) by simp
  with Cons show ?case by (simp add: Let_def)
qed

lemma dtoi_dec:
  assumes "n < 256" "rest = [] \<or> \<not> is_digit (hd rest)"
  shows "dtoi (dec_digits n @ rest) = (int n, length (dec_digits n), True)"
proof -
  have f: "foldl (\<lambda>v c. v * 10 + int (digit_val c)) (int v) ds = int (foldl (\<lambda>v c. v * 10 + digit_val c) v ds)" for v ds
  proof (induction ds arbitrary: v)
    case (Cons c ds)
    then show ?case using Cons [of "v * 10 + digit_val c"] by simp
  qed simp
  have "foldl (\<lambda>v c. v * 10 + int (digit_val c)) 0 (dec_digits n) = int n"
    using f [of 0 "dec_digits n"] parse_dec_digits [of n] by (simp add: parse_dec_def)
  then show ?thesis
    using dtoi_loop_digits [of "dec_digits n" 0 rest 0] assms by (simp add: dtoi_def ip_big_def)
qed

lemma parseIPv4_step:
  assumes "rest = [] \<or> \<not> is_digit (hd rest)"
  shows "parseIPv4_loop (Suc k) 0 (dec_digits (unat b) @ rest) p = parseIPv4_loop k 1 rest (p @ [b])"
    and "0 < i \<Longrightarrow> parseIPv4_loop (Suc k) i (CHR ''.'' # dec_digits (unat b) @ rest) p = parseIPv4_loop k (i + 1) rest (p @ [b])"
proof -
  have b: "unat b < 256" using unsigned_less [of b, where 'a = nat] by simp
  have "\<not> 255 < uint b" using unsigned_less [of b, where 'a = int] by simp
  moreover obtain x xs where x: "dec_digits (unat b) @ rest = x # xs" by (cases "dec_digits (unat b) @ rest") auto
  moreover have "drop (length (dec_digits (unat b))) (x # xs) = rest" unfolding x [symmetric] by simp
  ultimately show "parseIPv4_loop (Suc k) 0 (dec_digits (unat b) @ rest) p = parseIPv4_loop k 1 rest (p @ [b])"
    "0 < i \<Longrightarrow> parseIPv4_loop (Suc k) i (CHR ''.'' # dec_digits (unat b) @ rest) p = parseIPv4_loop k (i + 1) rest (p @ [b])"
    using dtoi_dec [OF b assms] by auto
qed

lemma parseIPv4_dotted: "parseIPv4 (dotted [a, b, c, d]) = Some (makeIPv4 a b c d)"
proof -
  have "parseIPv4_loop (Suc (Suc (Suc (Suc 0)))) 0 (dec_digits (unat a) @ CHR ''.'' # dec_digits (unat b) @
      CHR ''.'' # dec_digits (unat c) @ CHR ''.'' # dec_digits (unat d) @ []) [] = Some ([], [a, b, c, d])"
    by (simp only: parseIPv4_step list.sel not_is_digit simp_thms append_Nil append_Cons add_gr_0 zero_less_one
        parseIPv4_loop.simps(1))
  then show ?thesis by (simp add: parseIPv4_def dotted_def eval_nat_numeral)
qed

lemma dec_digits_set: "c \<in> set (dec_digits n) \<Longrightarrow> is_digit c"
  using dec_digits_digits [of n] by (simp add: list_all_iff)

lemma getFamily_digits: "list_all is_digit ds \<Longrightarrow> getFamily (ds @ CHR ''.'' # s) = IPv4family"
  by (induction ds) (auto simp: is_digit_def)

lemma ParseIP_digits: "list_all is_digit ds \<Longrightarrow> ParseIP_scan t (ds @ CHR ''.'' # s) = parseIPv4 t"
  by (induction ds) (auto simp: is_digit_def)

lemma trim_digits: "trim_right_dots (s @ CHR ''.'' # dec_digits n) = s @ CHR ''.'' # dec_digits n"
proof -
  have "is_digit (last (dec_digits n))" using dec_digits_set [of "last (dec_digits n)" n] by simp
  then have "hd (rev (dec_digits n)) \<noteq> CHR ''.''" by (auto simp: hd_rev is_digit_def)
  then show ?thesis by (cases "rev (dec_digits n)") (auto simp: trim_right_dots_def rev_swap)
qed

lemma dotted_split:
  "dotted [a, b, c, d] = dec_digits (unat a) @ CHR ''.'' # (dec_digits (unat b) @ CHR ''.'' # dec_digits (unat c)) @ CHR ''.'' # dec_digits (unat d)"
  by (simp add: dotted_def)

lemma dotted_chars: "x \<in> set (dotted os) \<Longrightarrow> is_digit x \<or> x = CHR ''.''"
  by (cases os) (auto simp: dotted_def dest: dec_digits_set split: if_splits)

lemma dotted_dots: "length (filter (\<lambda>x. x = CHR ''.'') (dotted [a, b, c, d])) = 3"
proof -
  have "filter (\<lambda>x. x = CHR ''.'') (dec_digits n) = []" for n
    by (auto simp: filter_empty_conv is_digit_def dest!: dec_digits_set)
  then show ?thesis by (simp add: dotted_split)
qed

text \<open>
  A dotted quad with a mask length of at most 32 parses to the IPv4 address with those four octets
  and that mask; without a mask length the mask is 32.
\<close>

theorem ParseINet_dotted:
  assumes "m \<le> 32"
  shows "\<exists>u. Hi u = 0 \<and> unat (Lo u) = 281470681743360 + be_nat [a, b, c, d] \<and>
    ParseINet (dotted [a, b, c, d] @ ''/'' @ dec_digits m) = Inr \<lparr>Family = IPv4family, Mask = of_nat m, Addr = u\<rparr> \<and>
    ParseINet (dotted [a, b, c, d]) = Inr \<lparr>Family = IPv4family, Mask = 32, Addr = u\<rparr>"
proof -
  let ?q = "dotted [a, b, c, d]"
  obtain u where u: "Uint128_FromBytes (makeIPv4 a b c d) = Inr u" "Hi u = 0"
      "unat (Lo u) = 281470681743360 + be_nat [a, b, c, d]"
    using FromBytes_v4 by blast
  have fam: "getFamily (?q @ r) = IPv4family" for r by (simp add: dotted_split getFamily_digits)
  have ip: "ParseIP ?q = Some (makeIPv4 a b c d)"
    using ParseIP_digits [of "dec_digits (unat a)" ?q] parseIPv4_dotted by (simp add: ParseIP_def dotted_split)
  have trim: "trim_right_dots ?q = ?q"
    using trim_digits [of "dec_digits (unat a) @ CHR ''.'' # dec_digits (unat b) @ CHR ''.'' # dec_digits (unat c)" "unat d"]
    by (simp add: dotted_split)
  have slash: "x \<noteq> CHR ''/''" if "x \<in> set ?q" for x using dotted_chars [OF that] by (auto simp: is_digit_def)
  then have tw: "takeWhile (\<lambda>c. c \<noteq> CHR ''/'') (?q @ CHR ''/'' # r) = ?q"
    "dropWhile (\<lambda>c. c \<noteq> CHR ''/'') (?q @ CHR ''/'' # r) = CHR ''/'' # r" for r
    by (simp_all add: takeWhile_append2 dropWhile_append2)
  have "strconv_ParseInt (dec_digits m) 64 = Inr (int m)"
    using assms by (subst ParseInt_digits) simp_all
  then have "ParseINet (?q @ CHR ''/'' # dec_digits m) = Inr \<lparr>Family = IPv4family, Mask = of_nat m, Addr = u\<rparr>"
    using assms u(1) ip fam trim tw dotted_dots by (simp add: ParseINet_def)
  moreover have "CHR ''/'' \<notin> set ?q" using slash by blast
  then have "ParseINet ?q = Inr \<lparr>Family = IPv4family, Mask = 32, Addr = u\<rparr>"
    using u(1) ip fam [of "[]"] trim by (simp add: ParseINet_def full_mask_def)
  ultimately show ?thesis using u by auto
qed

theorem ParseINet_dotted_witness:
  "\<exists>u. unat (Lo u) = 281470681743360 + 3232235777 \<and>
    ParseINet (dotted [192, 168, 1, 1] @ ''/'' @ dec_digits 24) = Inr \<lparr>Family = IPv4family, Mask = 24, Addr = u\<rparr>"
  using ParseINet_dotted [of 24 192 168 1 1] by auto

end
