(* ===== verification/Encoding_Value.thy ===== *)
theory Encoding_Value
  imports Encoding_Bits Duration Ip_Addr
begin

text \<open>
  \<open>pkg/util/encoding/encoding.go\<close>, the value side: the nonsorting varints, the value tag that packs
  a column id and a type, the tagged values, and \<open>PeekValueLength\<close>. The two varints of the standard
  library's package \<open>encoding/binary\<close> (\<open>PutUvarint\<close>, \<open>Uvarint\<close>, \<open>PutVarint\<close>, \<open>Varint\<close>) are
  modelled too. A \<open>float64\<close> is the word of its bits, as \<open>math.Float64bits\<close> gives it.
\<close>

section \<open>Varints\<close>

text \<open>
  The bytes \<open>0x80|byte(x>>7*n), ..., 0x80|byte(x>>7), 0x7f&byte(x)\<close>: groups of seven bits, most
  significant first, all but the last with the continuation bit.
\<close>

fun septets :: "nat \<Rightarrow> uint64 \<Rightarrow> bytes" where
  "septets 0 x = [0x7f AND ucast x]"
| "septets (Suc n) x = (0x80 OR ucast (drop_bit (7 * Suc n) x)) # septets n x"

definition EncodeNonsortingUvarint :: "bytes \<Rightarrow> uint64 \<Rightarrow> bytes" where
  "EncodeNonsortingUvarint appendTo x =
     (if x < 2 ^ 7 then appendTo @ [ucast x]
      else if x < 2 ^ 14 then appendTo @ septets 1 x
      else if x < 2 ^ 21 then appendTo @ septets 2 x
      else if x < 2 ^ 28 then appendTo @ septets 3 x
      else if x < 2 ^ 35 then appendTo @ septets 4 x
      else if x < 2 ^ 42 then appendTo @ septets 5 x
      else if x < 2 ^ 49 then appendTo @ septets 6 x
      else if x < 2 ^ 56 then appendTo @ septets 7 x
      else if x < 2 ^ 63 then appendTo @ septets 8 x
      else appendTo @ septets 9 x)"

text \<open>The loop of the decoder; it returns no error, also when the buffer ends too early.\<close>

fun DecodeNonsortingUvarint_loop :: "bytes \<Rightarrow> bytes \<Rightarrow> nat \<Rightarrow> uint64 \<Rightarrow> bytes \<times> nat \<times> uint64" where
  "DecodeNonsortingUvarint_loop buf [] i value = (buf, 0, 0)"
| "DecodeNonsortingUvarint_loop buf (b # bs) i value =
     (let value = value + ucast (b AND 0x7f)
      in if b < 0x80 then (bs, i + 1, value)
         else DecodeNonsortingUvarint_loop buf bs (i + 1) (push_bit 7 value))"

definition DecodeNonsortingUvarint :: "bytes \<Rightarrow> bytes \<times> nat \<times> uint64" where
  "DecodeNonsortingUvarint buf = DecodeNonsortingUvarint_loop buf buf 0 0"

fun PeekLengthNonsortingUvarint_loop :: "bytes \<Rightarrow> nat \<Rightarrow> nat" where
  "PeekLengthNonsortingUvarint_loop [] i = 0"
| "PeekLengthNonsortingUvarint_loop (b # bs) i =
     (if b AND 0x80 = 0 then i + 1 else PeekLengthNonsortingUvarint_loop bs (i + 1))"

definition PeekLengthNonsortingUvarint :: "bytes \<Rightarrow> nat" where
  "PeekLengthNonsortingUvarint buf = PeekLengthNonsortingUvarint_loop buf 0"

text \<open>Package \<open>encoding/binary\<close>: seven bits per byte, least significant first.\<close>

function PutUvarint :: "uint64 \<Rightarrow> bytes" where
  "PutUvarint x = (if x \<ge> 0x80 then (ucast x OR 0x80) # PutUvarint (drop_bit 7 x) else [ucast x])"
  by pat_completeness auto
termination
proof (relation "measure unat")
  fix x :: uint64
  assume "0x80 \<le> x"
  then have "unat x div 128 < unat x" by (simp add: word_le_nat_alt)
  then show "(drop_bit 7 x, x) \<in> measure unat"
    by (simp add: unat_drop_bit_eq) (simp add: drop_bit_eq_div)
qed simp

declare PutUvarint.simps [simp del]

text \<open>The length is zero when the buffer is too small and negative on overflow.\<close>

fun Uvarint_loop :: "bytes \<Rightarrow> nat \<Rightarrow> uint64 \<Rightarrow> uint64 \<times> int" where
  "Uvarint_loop [] i x = (0, 0)"
| "Uvarint_loop (b # bs) i x =
     (if i = 10 then (0, - (int i + 1))
      else if b < 0x80 then
        if i = 9 \<and> b > 1 then (0, - (int i + 1)) else (x OR push_bit (7 * i) (ucast b), int i + 1)
      else Uvarint_loop bs (i + 1) (x OR push_bit (7 * i) (ucast (b AND 0x7f))))"

definition binary_Uvarint :: "bytes \<Rightarrow> uint64 \<times> int" where
  "binary_Uvarint buf = Uvarint_loop buf 0 0"

definition PutVarint :: "int64 \<Rightarrow> bytes" where
  "PutVarint x =
     (let ux = push_bit 1 x; ux = (if sint x < 0 then NOT ux else ux) in PutUvarint ux)"

definition binary_Varint :: "bytes \<Rightarrow> int64 \<times> int" where
  "binary_Varint buf =
     (case binary_Uvarint buf of (ux, n) \<Rightarrow>
        let x = drop_bit 1 ux in (if ux AND 1 \<noteq> 0 then NOT x else x, n))"

definition EncodeNonsortingStdlibVarint :: "bytes \<Rightarrow> int64 \<Rightarrow> bytes" where
  "EncodeNonsortingStdlibVarint appendTo x = appendTo @ PutVarint x"

definition DecodeNonsortingStdlibVarint :: "bytes \<Rightarrow> go_error + bytes \<times> nat \<times> int64" where
  "DecodeNonsortingStdlibVarint b =
     (case binary_Varint b of (value, len) \<Rightarrow>
        if len \<le> 0 then Inl (Errorf ''int64 varint decoding failed'')
        else Inr (drop (nat len) b, nat len, value))"

definition DecodeNonsortingStdlibUvarint :: "bytes \<Rightarrow> go_error + bytes \<times> nat \<times> uint64" where
  "DecodeNonsortingStdlibUvarint buf =
     (case binary_Uvarint buf of (i, n) \<Rightarrow>
        if n \<le> 0 then Inl (Errorf ''buffer too small'') else Inr (drop (nat n) buf, nat n, i))"

section \<open>The value tag\<close>

definition EncodeValueTag :: "bytes \<Rightarrow> uint32 \<Rightarrow> Type \<Rightarrow> bytes" where
  "EncodeValueTag appendTo colID typ =
     (if typ \<ge> SentinelType then
        EncodeNonsortingUvarint
          (EncodeNonsortingUvarint appendTo (push_bit 4 (ucast colID) OR word_of_int SentinelType))
          (word_of_int typ)
      else if colID = 0 then appendTo @ [word_of_int typ]
      else EncodeNonsortingUvarint appendTo (push_bit 4 (ucast colID) OR word_of_int typ))"

definition DecodeValueTag :: "bytes \<Rightarrow> go_error + int \<times> nat \<times> uint32 \<times> Type" where
  "DecodeValueTag b =
     (if b = [] then Inl (Errorf ''empty array'')
      else case DecodeNonsortingUvarint b of (b, n, tag) \<Rightarrow>
        let colID = ucast (drop_bit 4 tag);
            typ = sint (tag AND 0xf);
            typeOffset = int n - 1;
            dataOffset = n
        in if typ = SentinelType then
             case DecodeNonsortingUvarint b of (_, n, tag) \<Rightarrow>
               Inr (typeOffset, dataOffset + n, colID, sint tag)
           else Inr (typeOffset, dataOffset, colID, typ))"

definition EncodeNullValue :: "bytes \<Rightarrow> uint32 \<Rightarrow> bytes" where
  "EncodeNullValue appendTo colID = EncodeValueTag appendTo colID Type_Null"

definition EncodeNotNullValue :: "bytes \<Rightarrow> uint32 \<Rightarrow> bytes" where
  "EncodeNotNullValue appendTo colID = EncodeValueTag appendTo colID Type_NotNull"

definition EncodeBoolValue :: "bytes \<Rightarrow> uint32 \<Rightarrow> bool \<Rightarrow> bytes" where
  "EncodeBoolValue appendTo colID b = EncodeValueTag appendTo colID (if b then Type_True else Type_False)"

definition EncodeVoidValue :: "bytes \<Rightarrow> uint32 \<Rightarrow> bytes" where
  "EncodeVoidValue appendTo colID = EncodeValueTag appendTo colID Type_Void"

definition DecodeBoolValue :: "bytes \<Rightarrow> go_error + bytes \<times> bool" where
  "DecodeBoolValue buf =
     res_bind (DecodeValueTag buf) (\<lambda>(_, dataOffset, _, typ).
     res_bind (slice_from dataOffset buf) (\<lambda>buf.
       if typ = Type_True then Inr (buf, True)
       else if typ = Type_False then Inr (buf, False)
       else Inl (Errorf ''value type is not True or False'')))"

definition decodeValueTypeAssert :: "bytes \<Rightarrow> Type \<Rightarrow> go_error + bytes" where
  "decodeValueTypeAssert b expected =
     res_bind (DecodeValueTag b) (\<lambda>(_, dataOffset, _, typ).
     res_bind (slice_from dataOffset b) (\<lambda>b.
       if typ \<noteq> expected then Inl (Errorf ''value type is not the expected one'') else Inr b))"

section \<open>The values\<close>

definition EncodeUntaggedIntValue :: "bytes \<Rightarrow> int64 \<Rightarrow> bytes" where
  "EncodeUntaggedIntValue appendTo i = EncodeNonsortingStdlibVarint appendTo i"

definition EncodeIntValue :: "bytes \<Rightarrow> uint32 \<Rightarrow> int64 \<Rightarrow> bytes" where
  "EncodeIntValue appendTo colID i = EncodeUntaggedIntValue (EncodeValueTag appendTo colID Type_Int) i"

definition DecodeUntaggedIntValue :: "bytes \<Rightarrow> go_error + bytes \<times> int64" where
  "DecodeUntaggedIntValue b = res_bind (DecodeNonsortingStdlibVarint b) (\<lambda>(b, _, i). Inr (b, i))"

definition DecodeIntValue :: "bytes \<Rightarrow> go_error + bytes \<times> int64" where
  "DecodeIntValue b = res_bind (decodeValueTypeAssert b Type_Int) DecodeUntaggedIntValue"

definition EncodeUntaggedFloatValue :: "bytes \<Rightarrow> uint64 \<Rightarrow> bytes" where
  "EncodeUntaggedFloatValue appendTo f = EncodeUint64Ascending appendTo f"

definition EncodeFloatValue :: "bytes \<Rightarrow> uint32 \<Rightarrow> uint64 \<Rightarrow> bytes" where
  "EncodeFloatValue appendTo colID f = EncodeUntaggedFloatValue (EncodeValueTag appendTo colID Type_Float) f"

definition DecodeUntaggedFloatValue :: "bytes \<Rightarrow> go_error + bytes \<times> uint64" where
  "DecodeUntaggedFloatValue b =
     (if length b < 8 then Inl (Errorf ''float64 value should be exactly 8 bytes'') else DecodeUint64Ascending b)"

definition DecodeFloatValue :: "bytes \<Rightarrow> go_error + bytes \<times> uint64" where
  "DecodeFloatValue b = res_bind (decodeValueTypeAssert b Type_Float) DecodeUntaggedFloatValue"

definition EncodeUntaggedBytesValue :: "bytes \<Rightarrow> bytes \<Rightarrow> bytes" where
  "EncodeUntaggedBytesValue appendTo data = EncodeNonsortingUvarint appendTo (of_nat (length data)) @ data"

definition EncodeBytesValue :: "bytes \<Rightarrow> uint32 \<Rightarrow> bytes \<Rightarrow> bytes" where
  "EncodeBytesValue appendTo colID data = EncodeUntaggedBytesValue (EncodeValueTag appendTo colID Type_Bytes) data"

definition EncodeArrayValue :: "bytes \<Rightarrow> uint32 \<Rightarrow> bytes \<Rightarrow> bytes" where
  "EncodeArrayValue appendTo colID data = EncodeUntaggedBytesValue (EncodeValueTag appendTo colID Type_Array) data"

definition EncodeJSONValue :: "bytes \<Rightarrow> uint32 \<Rightarrow> bytes \<Rightarrow> bytes" where
  "EncodeJSONValue appendTo colID data = EncodeUntaggedBytesValue (EncodeValueTag appendTo colID Type_JSON) data"

text \<open>The slice expressions \<open>b[int(i):]\<close> and \<open>b[:int(i)]\<close> panic when the length is negative or too large.\<close>

definition DecodeUntaggedBytesValue :: "bytes \<Rightarrow> go_error + bytes \<times> bytes" where
  "DecodeUntaggedBytesValue b =
     (case DecodeNonsortingUvarint b of (b, _, i) \<Rightarrow>
        if sint i < 0 then Inl (GoPanic ''slice bounds out of range'')
        else res_bind (slice_from (nat (sint i)) b) (\<lambda>rest. Inr (rest, take (nat (sint i)) b)))"

definition DecodeBytesValue :: "bytes \<Rightarrow> go_error + bytes \<times> bytes" where
  "DecodeBytesValue b = res_bind (decodeValueTypeAssert b Type_Bytes) DecodeUntaggedBytesValue"

definition EncodeUntaggedTimeValue :: "bytes \<Rightarrow> go_time \<Rightarrow> bytes" where
  "EncodeUntaggedTimeValue appendTo t =
     EncodeNonsortingStdlibVarint (EncodeNonsortingStdlibVarint appendTo (Unix t)) (Nanosecond t)"

definition EncodeTimeValue :: "bytes \<Rightarrow> uint32 \<Rightarrow> go_time \<Rightarrow> bytes" where
  "EncodeTimeValue appendTo colID t = EncodeUntaggedTimeValue (EncodeValueTag appendTo colID Type_Time) t"

definition DecodeUntaggedTimeValue :: "bytes \<Rightarrow> go_error + bytes \<times> go_time" where
  "DecodeUntaggedTimeValue b =
     res_bind (DecodeNonsortingStdlibVarint b) (\<lambda>(b, _, sec).
     res_bind (DecodeNonsortingStdlibVarint b) (\<lambda>(b, _, nsec). Inr (b, timeutil_Unix sec nsec)))"

definition DecodeTimeValue :: "bytes \<Rightarrow> go_error + bytes \<times> go_time" where
  "DecodeTimeValue b = res_bind (decodeValueTypeAssert b Type_Time) DecodeUntaggedTimeValue"

definition EncodeUntaggedTimeTZValue :: "bytes \<Rightarrow> TimeTZ \<Rightarrow> bytes" where
  "EncodeUntaggedTimeTZValue appendTo t =
     EncodeNonsortingStdlibVarint (EncodeNonsortingStdlibVarint appendTo (TimeOfDay t)) (int64_of_int32 (OffsetSecs t))"

definition EncodeTimeTZValue :: "bytes \<Rightarrow> uint32 \<Rightarrow> TimeTZ \<Rightarrow> bytes" where
  "EncodeTimeTZValue appendTo colID t = EncodeUntaggedTimeTZValue (EncodeValueTag appendTo colID Type_TimeTZ) t"

definition DecodeUntaggedTimeTZValue :: "bytes \<Rightarrow> go_error + bytes \<times> TimeTZ" where
  "DecodeUntaggedTimeTZValue b =
     res_bind (DecodeNonsortingStdlibVarint b) (\<lambda>(b, _, timeOfDayMicros).
     res_bind (DecodeNonsortingStdlibVarint b) (\<lambda>(b, _, offsetSecs).
       Inr (b, \<lparr>TimeOfDay = timeOfDayMicros, OffsetSecs = int32_of_int64 offsetSecs\<rparr>)))"

definition DecodeTimeTZValue :: "bytes \<Rightarrow> go_error + bytes \<times> TimeTZ" where
  "DecodeTimeTZValue b = res_bind (decodeValueTypeAssert b Type_TimeTZ) DecodeUntaggedTimeTZValue"

definition EncodeUntaggedDurationValue :: "bytes \<Rightarrow> Duration \<Rightarrow> bytes" where
  "EncodeUntaggedDurationValue appendTo d =
     EncodeNonsortingStdlibVarint
       (EncodeNonsortingStdlibVarint (EncodeNonsortingStdlibVarint appendTo (Months d)) (Days d)) (nanos d)"

definition EncodeDurationValue :: "bytes \<Rightarrow> uint32 \<Rightarrow> Duration \<Rightarrow> bytes" where
  "EncodeDurationValue appendTo colID d = EncodeUntaggedDurationValue (EncodeValueTag appendTo colID Type_Duration) d"

definition DecodeUntaggedDurationValue :: "bytes \<Rightarrow> go_error + bytes \<times> Duration" where
  "DecodeUntaggedDurationValue b =
     res_bind (DecodeNonsortingStdlibVarint b) (\<lambda>(b, _, months).
     res_bind (DecodeNonsortingStdlibVarint b) (\<lambda>(b, _, days).
     res_bind (DecodeNonsortingStdlibVarint b) (\<lambda>(b, _, nanos). Inr (b, DecodeDuration months days nanos))))"

definition DecodeDurationValue :: "bytes \<Rightarrow> go_error + bytes \<times> Duration" where
  "DecodeDurationValue b = res_bind (decodeValueTypeAssert b Type_Duration) DecodeUntaggedDurationValue"

definition EncodeUntaggedBitArrayValue :: "bytes \<Rightarrow> BitArray \<Rightarrow> bytes" where
  "EncodeUntaggedBitArrayValue appendTo d =
     (case EncodingParts d of (ws, _) \<Rightarrow>
        fold (\<lambda>w b. EncodeUint64Ascending b w) ws (EncodeNonsortingUvarint appendTo (of_nat (BitLen d))))"

definition EncodeBitArrayValue :: "bytes \<Rightarrow> uint32 \<Rightarrow> BitArray \<Rightarrow> bytes" where
  "EncodeBitArrayValue appendTo colID d = EncodeUntaggedBitArrayValue (EncodeValueTag appendTo colID Type_BitArray) d"

definition DecodeUntaggedBitArrayValue :: "bytes \<Rightarrow> go_error + bytes \<times> BitArray" where
  "DecodeUntaggedBitArrayValue b =
     (case DecodeNonsortingUvarint b of (b, _, bitLen) \<Rightarrow>
      case EncodingPartsForBitLen bitLen of (ws, lastBits) \<Rightarrow>
        res_bind (decode_words DecodeUint64Ascending (length ws) b) (\<lambda>(b, ws).
        res_bind (FromEncodingParts ws lastBits) (\<lambda>ba. Inr (b, ba))))"

definition DecodeBitArrayValue :: "bytes \<Rightarrow> go_error + bytes \<times> BitArray" where
  "DecodeBitArrayValue b = res_bind (decodeValueTypeAssert b Type_BitArray) DecodeUntaggedBitArrayValue"

text \<open>A \<open>uuid.UUID\<close> is an array of 16 bytes.\<close>

definition EncodeUntaggedUUIDValue :: "bytes \<Rightarrow> bytes \<Rightarrow> bytes" where
  "EncodeUntaggedUUIDValue appendTo u = appendTo @ u"

definition EncodeUUIDValue :: "bytes \<Rightarrow> uint32 \<Rightarrow> bytes \<Rightarrow> bytes" where
  "EncodeUUIDValue appendTo colID u = EncodeUntaggedUUIDValue (EncodeValueTag appendTo colID Type_UUID) u"

definition uuidValueEncodedLength :: nat where
  "uuidValueEncodedLength = 16"

definition DecodeUntaggedUUIDValue :: "bytes \<Rightarrow> go_error + bytes \<times> bytes" where
  "DecodeUntaggedUUIDValue b =
     res_bind (slice_from uuidValueEncodedLength b) (\<lambda>rest. Inr (rest, take uuidValueEncodedLength b))"

definition DecodeUUIDValue :: "bytes \<Rightarrow> go_error + bytes \<times> bytes" where
  "DecodeUUIDValue b = res_bind (decodeValueTypeAssert b Type_UUID) DecodeUntaggedUUIDValue"

definition EncodeUntaggedIPAddrValue :: "bytes \<Rightarrow> IPAddr \<Rightarrow> bytes" where
  "EncodeUntaggedIPAddrValue appendTo u = IPAddr_ToBuffer appendTo u"

definition EncodeIPAddrValue :: "bytes \<Rightarrow> uint32 \<Rightarrow> IPAddr \<Rightarrow> bytes" where
  "EncodeIPAddrValue appendTo colID u = EncodeUntaggedIPAddrValue (EncodeValueTag appendTo colID Type_IPAddr) u"

definition DecodeUntaggedIPAddrValue :: "bytes \<Rightarrow> go_error + bytes \<times> IPAddr" where
  "DecodeUntaggedIPAddrValue b = IPAddr_FromBuffer \<lparr>Family = 0, Mask = 0, Addr = \<lparr>Hi = 0, Lo = 0\<rparr>\<rparr> b"

definition DecodeIPAddrValue :: "bytes \<Rightarrow> go_error + bytes \<times> IPAddr" where
  "DecodeIPAddrValue b = res_bind (decodeValueTypeAssert b Type_IPAddr) DecodeUntaggedIPAddrValue"

section \<open>Peeking at the length\<close>

fun getMultiNonsortingVarintLen_loop :: "bytes \<Rightarrow> nat \<Rightarrow> nat \<Rightarrow> go_error + nat" where
  "getMultiNonsortingVarintLen_loop b 0 p = Inr p"
| "getMultiNonsortingVarintLen_loop b (Suc k) p =
     (if p < length b then
        res_bind (DecodeNonsortingStdlibVarint (drop p b)) (\<lambda>(_, len, _).
          getMultiNonsortingVarintLen_loop b k (p + len))
      else Inr p)"

definition getMultiNonsortingVarintLen :: "bytes \<Rightarrow> nat \<Rightarrow> go_error + nat" where
  "getMultiNonsortingVarintLen b num = getMultiNonsortingVarintLen_loop b num 0"

lemma DecodeNonsortingUvarint_shorter:
  "DecodeNonsortingUvarint b = (r, n, v) \<Longrightarrow> v \<noteq> 0 \<Longrightarrow> length r < length b"
proof -
  have "DecodeNonsortingUvarint_loop buf b i w = (r, n, v) \<Longrightarrow> v \<noteq> 0 \<Longrightarrow> length r < length b" for buf i w
    by (induction b arbitrary: i w) (auto simp: Let_def split: if_splits, fastforce)
  then show "DecodeNonsortingUvarint b = (r, n, v) \<Longrightarrow> v \<noteq> 0 \<Longrightarrow> length r < length b"
    by (simp add: DecodeNonsortingUvarint_def)
qed

text \<open>
  Lengths are Go \<open>int\<close>s: they are read from the data and added with wrap-around. The loop over the
  entries of a tuple slices \<open>rem[entryLen:]\<close>, which panics on a negative or too large entry.
\<close>

function PeekValueLength :: "bytes \<Rightarrow> go_error + int \<times> int64"
  and PeekValueLengthWithOffsetsAndType :: "bytes \<Rightarrow> nat \<Rightarrow> Type \<Rightarrow> go_error + int64"
  and peek_tuple :: "nat \<Rightarrow> bytes \<Rightarrow> int64 \<Rightarrow> go_error + int64" where
  "PeekValueLength b =
     (if b = [] then Inr (0, 0)
      else res_bind (DecodeValueTag b) (\<lambda>(typeOffset, dataOffset, _, typ).
           res_bind (PeekValueLengthWithOffsetsAndType b dataOffset typ) (\<lambda>length. Inr (typeOffset, length))))"
| "PeekValueLengthWithOffsetsAndType b0 dataOffset typ =
     res_bind (slice_from dataOffset b0) (\<lambda>b.
       let off = of_nat dataOffset
       in if typ = Type_Null \<or> typ = Type_Void \<or> typ = Type_True \<or> typ = Type_False then Inr off
          else if typ = Type_Int then
            res_bind (DecodeNonsortingStdlibVarint b) (\<lambda>(_, n, _). Inr (off + of_nat n))
          else if typ = Type_Float then Inr (off + 8)
          else if typ = Type_Bytes \<or> typ = Type_Array \<or> typ = Type_JSON \<or> typ = Type_Geo then
            (case DecodeNonsortingUvarint b of (_, n, i) \<Rightarrow> Inr (off + of_nat n + i))
          else if typ = Type_Box2D then
            res_bind (peekBox2DLength b) (\<lambda>n. Inr (off + of_nat n))
          else if typ = Type_BitArray then
            (case DecodeNonsortingUvarint b of (_, n, bitLen) \<Rightarrow>
               Inr (off + of_nat n + fst (SizesForBitLen bitLen) * 8))
          else if typ = Type_Tuple then
            (case DecodeNonsortingUvarint b of (rem, l, numTuples) \<Rightarrow>
               res_bind (if sint numTuples \<le> 0 then Inr (of_nat l)
                         else peek_tuple (nat (sint numTuples)) rem (of_nat l)) (\<lambda>l. Inr (off + l)))
          else if typ = Type_Decimal then
            res_bind (DecodeNonsortingStdlibUvarint b) (\<lambda>(_, n, i). Inr (off + of_nat n + i))
          else if typ = Type_Time \<or> typ = Type_TimeTZ then
            res_bind (getMultiNonsortingVarintLen b 2) (\<lambda>n. Inr (off + of_nat n))
          else if typ = Type_Duration then
            res_bind (getMultiNonsortingVarintLen b 3) (\<lambda>n. Inr (off + of_nat n))
          else if typ = Type_UUID then Inr (off + of_nat uuidValueEncodedLength)
          else if typ = Type_IPAddr then
            res_bind (index_at b 0) (\<lambda>family.
              if family = IPv4family then Inr (off + of_nat IPv4size)
              else if family = IPv6family then Inr (off + of_nat IPv6size)
              else Inl (Errorf ''got invalid INET IP family''))
          else Inl (Errorf ''unknown type''))"
| "peek_tuple 0 rem l = Inr l"
| "peek_tuple (Suc k) rem l =
     res_bind (PeekValueLength rem) (\<lambda>(_, entryLen).
       if sint entryLen < 0 then Inl (GoPanic ''slice bounds out of range'')
       else res_bind (slice_from (nat (sint entryLen)) rem) (\<lambda>rem. peek_tuple k rem (l + entryLen)))"
  by pat_completeness auto
termination
  by (relation "inv_image (less_than <*lex*> less_than <*lex*> less_than)
      (\<lambda>x. case x of Inl b \<Rightarrow> (length b, 2 :: nat, 0 :: nat)
           | Inr (Inl (b, _)) \<Rightarrow> (length b, 1, 0)
           | Inr (Inr (k, rem, _)) \<Rightarrow> (length rem, 3, k))")
    (auto simp: slice_from_def split: if_splits dest!: DecodeNonsortingUvarint_shorter [OF sym])

declare PeekValueLength.simps [simp del] PeekValueLengthWithOffsetsAndType.simps [simp del]

section \<open>Round trips of the varints\<close>

lemma septet_consts: "(0x7f :: byte) = mask 7" "(0x7f :: uint64) = mask 7" "(0x80 :: byte) = 2 ^ 7"
  by (simp_all add: mask_eq_exp_minus_1)

lemma bit_128: "bit (128 :: nat) n \<longleftrightarrow> n = 7" "bit (128 :: int) n \<longleftrightarrow> n = 7" "bit (128 :: byte) n \<longleftrightarrow> n = 7"
  using bit_exp_iff [of 7 n, where 'a = nat] bit_exp_iff [of 7 n, where 'a = int] bit_exp_iff [of 7 n, where 'a = byte]
  by auto

lemma drop_bit_small: "unat (x :: 'a::len word) < 2 ^ k \<Longrightarrow> drop_bit k x = 0"
  unfolding word_unat_eq_iff unat_drop_bit_eq by (simp add: drop_bit_eq_div)

lemma septet_byte:
  fixes y :: uint64
  shows "ucast ((0x80 OR ucast y :: byte) AND 0x7f) = take_bit 7 y" "\<not> (0x80 OR ucast y :: byte) < 0x80"
    and "ucast ((0x7f AND ucast y :: byte) AND 0x7f) = take_bit 7 y" "(0x7f AND ucast y :: byte) < 0x80"
proof -
  show "ucast ((0x80 OR ucast y :: byte) AND 0x7f) = take_bit 7 y"
    unfolding septet_consts by (rule bit_word_eqI) (auto simp: bit_simps bit_128)
  show "ucast ((0x7f AND ucast y :: byte) AND 0x7f) = take_bit 7 y"
    unfolding septet_consts by (rule bit_word_eqI) (auto simp: bit_simps)
  have "(0x80 :: byte) \<le> 0x80 OR ucast y" by (rule le_word_or2)
  then show "\<not> (0x80 OR ucast y :: byte) < 0x80" by simp
  have "(0x7f AND ucast y :: byte) \<le> 0x7f" by (rule word_and_le2)
  then show "(0x7f AND ucast y :: byte) < 0x80" by (rule order_le_less_trans) simp
qed

lemma septet_step:
  fixes x :: uint64
  shows "push_bit 7 (drop_bit (7 * Suc n) x) + take_bit 7 (drop_bit (7 * n) x) = drop_bit (7 * n) x"
proof -
  have "drop_bit (7 * Suc n) x = drop_bit 7 (drop_bit (7 * n) x)" by (simp add: add.commute)
  then show ?thesis using bits_ident [of 7 "drop_bit (7 * n) x"] by (simp add: add.commute)
qed

lemma decode_septets:
  "DecodeNonsortingUvarint_loop buf (septets n x @ rest) i (push_bit 7 (drop_bit (7 * Suc n) x)) =
     (rest, i + n + 1, x)"
proof (induction n arbitrary: i)
  case 0
  show ?case using septet_step [of 0 x] by (simp add: septet_byte Let_def)
next
  case (Suc n)
  have "push_bit 7 (drop_bit (7 * Suc (Suc n)) x) + take_bit 7 (drop_bit (7 * Suc n) x) = drop_bit (7 * Suc n) x"
    by (rule septet_step)
  then show ?case using Suc [of "i + 1"] by (simp add: septet_byte Let_def del: drop_bit_drop_bit)
qed

text \<open>The number of groups of seven bits after the first.\<close>

definition septet_count :: "uint64 \<Rightarrow> nat" where
  "septet_count x =
     (if x < 2 ^ 7 then 0 else if x < 2 ^ 14 then 1 else if x < 2 ^ 21 then 2 else if x < 2 ^ 28 then 3
      else if x < 2 ^ 35 then 4 else if x < 2 ^ 42 then 5 else if x < 2 ^ 49 then 6
      else if x < 2 ^ 56 then 7 else if x < 2 ^ 63 then 8 else 9)"

lemma EncodeNonsortingUvarint_eq: "EncodeNonsortingUvarint b x = b @ septets (septet_count x) x"
proof (cases "x < 2 ^ 7")
  case True
  then have "unat x < 2 ^ 7" by (simp add: word_less_nat_alt)
  then have "take_bit 7 x = x" by (simp add: take_bit_eq_self_iff_drop_bit_eq_0 drop_bit_small)
  then have "bit x n \<longrightarrow> n < 7" for n by (metis bit_take_bit_iff)
  then have "0x7f AND ucast x = (ucast x :: byte)"
    unfolding septet_consts by (intro bit_word_eqI) (auto simp: bit_simps)
  with True show ?thesis by (simp add: EncodeNonsortingUvarint_def septet_count_def)
qed (simp add: EncodeNonsortingUvarint_def septet_count_def)

lemma septet_count_drop: "drop_bit (7 * Suc (septet_count x)) x = 0"
proof (rule drop_bit_small)
  have "unat x < 2 ^ 64" using unat64_less [of x] by simp
  then show "unat x < 2 ^ (7 * Suc (septet_count x))"
    by (simp add: septet_count_def word_less_nat_alt)
qed

lemma DecodeNonsortingUvarint_Encode:
  "DecodeNonsortingUvarint (EncodeNonsortingUvarint [] x @ rest) =
     (rest, length (EncodeNonsortingUvarint [] x), x)"
proof -
  have "length (septets n x) = Suc n" for n by (induction n) auto
  then show ?thesis
    using decode_septets [of _ "septet_count x" x rest 0] septet_count_drop [of x]
    by (simp add: DecodeNonsortingUvarint_def EncodeNonsortingUvarint_eq del: mult_Suc_right)
qed

lemma septet_high_bit:
  "(0x80 OR ucast y :: byte) AND 0x80 \<noteq> 0" "(0x7f AND ucast (y :: uint64) :: byte) AND 0x80 = 0"
proof -
  have "bit ((0x80 OR ucast y :: byte) AND 0x80) 7" by (simp add: bit_simps)
  then show "(0x80 OR ucast y :: byte) AND 0x80 \<noteq> 0" by auto
  show "(0x7f AND ucast y :: byte) AND 0x80 = 0"
    unfolding septet_consts(1) by (rule bit_word_eqI) (auto simp: bit_simps bit_128)
qed

lemma PeekLength_septets: "PeekLengthNonsortingUvarint_loop (septets n x @ rest) i = i + n + 1"
  by (induction n arbitrary: i) (simp_all add: septet_high_bit)

lemma PeekLengthNonsortingUvarint_Encode:
  "PeekLengthNonsortingUvarint (EncodeNonsortingUvarint [] x @ rest) = length (EncodeNonsortingUvarint [] x)"
proof -
  have "length (septets n x) = Suc n" for n by (induction n) auto
  then show ?thesis by (simp add: PeekLengthNonsortingUvarint_def EncodeNonsortingUvarint_eq PeekLength_septets)
qed

lemma Uvarint_step:
  fixes x :: uint64
  shows "take_bit (7 * i) x OR push_bit (7 * i) (take_bit 7 (drop_bit (7 * i) x)) = take_bit (7 * Suc i) x"
  by (rule bit_word_eqI) (auto simp: bit_simps)

lemma low_septet: "ucast ((ucast (y :: uint64) OR 0x80 :: byte) AND 0x7f) = take_bit 7 y"
  using septet_byte(1) [of y] by (simp add: or.commute)

lemma Uvarint_last:
  fixes x :: uint64
  assumes "\<not> drop_bit (7 * i) x \<ge> 0x80" "i \<le> 9" "drop_bit 70 x = 0"
  shows "Uvarint_loop (PutUvarint (drop_bit (7 * i) x) @ rest) i (take_bit (7 * i) x) = (x, int i + 1)"
proof -
  let ?y = "drop_bit (7 * i) x"
  have y: "unat ?y < 128" using assms(1) by (simp add: word_le_nat_alt)
  then have b: "unat (ucast ?y :: byte) = unat ?y" by (simp add: unat_ucast_byte)
  then have "(ucast (ucast ?y :: byte) :: uint64) = ?y" by (simp add: word_unat_eq_iff unsigned_ucast_eq unsigned_take_bit_eq)
  moreover have "take_bit (7 * i) x OR push_bit (7 * i) ?y = x"
    by (rule bit_word_eqI) (auto simp: bit_simps, metis le_add_diff_inverse not_less)
  moreover have "\<not> (i = 9 \<and> (ucast ?y :: byte) > 1)"
  proof
    assume "i = 9 \<and> (ucast ?y :: byte) > 1"
    then have "i = 9" "1 < unat ?y" using b by (auto simp: word_less_nat_alt)
    moreover have "unat (drop_bit 63 x) = unat x div 2 ^ 63" by (simp add: unat_drop_bit_eq) (simp add: drop_bit_eq_div)
    ultimately show False using unat64_less [of x] by simp
  qed
  moreover have "(ucast ?y :: byte) < 0x80" using b y by (simp add: word_less_nat_alt)
  ultimately show ?thesis using assms(1,2) by (simp add: PutUvarint.simps [of ?y])
qed

lemma Uvarint_PutUvarint:
  fixes x :: uint64
  assumes "i \<le> 9"
  shows "Uvarint_loop (PutUvarint (drop_bit (7 * i) x) @ rest) i (take_bit (7 * i) x) =
    (x, int i + int (length (PutUvarint (drop_bit (7 * i) x))))"
  using assms
proof (induction "9 - i" arbitrary: i)
  case 0
  then have i: "i = 9" by simp
  have "unat (drop_bit 63 x) = unat x div 2 ^ 63" by (simp add: unat_drop_bit_eq) (simp add: drop_bit_eq_div)
  then have "unat (drop_bit 63 x) \<le> 1" using unat64_less [of x] by simp
  then have "\<not> drop_bit (7 * i) x \<ge> 0x80" by (simp add: i word_le_nat_alt)
  then show ?case using Uvarint_last [of i x rest] i by (simp add: PutUvarint.simps drop_bit_word_beyond)
next
  case (Suc k)
  let ?y = "drop_bit (7 * i) x"
  show ?case
  proof (cases "?y \<ge> 0x80")
    case False
    then show ?thesis
      using Uvarint_last [OF False] Suc.prems by (simp add: PutUvarint.simps drop_bit_word_beyond)
  next
    case True
    have next_y: "drop_bit 7 ?y = drop_bit (7 * Suc i) x" by (simp add: add.commute)
    have "\<not> (ucast ?y OR 0x80 :: byte) < 0x80" using septet_byte(2) [of ?y] by (simp add: or.commute)
    moreover have "Uvarint_loop (PutUvarint (drop_bit (7 * Suc i) x) @ rest) (Suc i) (take_bit (7 * Suc i) x) =
        (x, int (Suc i) + int (length (PutUvarint (drop_bit (7 * Suc i) x))))"
      using Suc by (intro Suc.hyps(1)) auto
    ultimately show ?thesis
      using True Suc.hyps(2)
      by (simp add: PutUvarint.simps [of ?y] next_y low_septet Uvarint_step del: mult_Suc_right drop_bit_drop_bit)
  qed
qed

lemma binary_Uvarint_Put: "binary_Uvarint (PutUvarint x @ rest) = (x, int (length (PutUvarint x)))"
  using Uvarint_PutUvarint [of 0 x rest] by (simp add: binary_Uvarint_def)

lemma PutUvarint_nonempty [simp]: "PutUvarint x \<noteq> []"
  by (subst PutUvarint.simps) simp

lemma binary_Varint_Put: "binary_Varint (PutVarint x @ rest) = (x, int (length (PutVarint x)))"
proof -
  have bit63: "bit x 63 \<longleftrightarrow> sint x < 0"
    by (simp add: sint_uint signed_take_bit_negative_iff bit_uint_iff)
  have last: "n < 64 \<Longrightarrow> n = 63 \<or> n < 63" for n :: nat by auto
  have pos: "drop_bit 1 (push_bit 1 x) = x" if "\<not> sint x < 0"
    using that bit63 by (intro bit_word_eqI) (auto simp: bit_simps simp del: push_bit_Suc dest: last)
  have neg: "NOT (drop_bit 1 (NOT (push_bit 1 x))) = x" if "sint x < 0"
    using that bit63 by (intro bit_word_eqI) (auto simp: bit_simps simp del: push_bit_Suc dest: last)
  have parity: "a AND 1 = 0 \<longleftrightarrow> \<not> bit a 0" for a :: uint64
    by (simp add: and_one_eq bit_0 even_iff_mod_2_eq_zero)
  have "push_bit 1 x AND 1 = 0" "NOT (push_bit 1 x) AND 1 \<noteq> 0"
    unfolding parity by (simp_all add: bit_simps del: push_bit_Suc)
  with pos neg show ?thesis
    by (simp add: binary_Varint_def PutVarint_def Let_def binary_Uvarint_Put)
qed

lemma StdlibVarint_roundtrip:
  "DecodeNonsortingStdlibVarint (PutVarint x @ rest) = Inr (rest, length (PutVarint x), x)"
proof -
  have "PutVarint x \<noteq> []" by (simp add: PutVarint_def Let_def)
  then show ?thesis by (simp add: DecodeNonsortingStdlibVarint_def binary_Varint_Put)
qed

section \<open>The value tag, read back\<close>

text \<open>The first uvarint of a tag, and the number of its bytes before the last.\<close>

definition tag_word :: "uint32 \<Rightarrow> Type \<Rightarrow> uint64" where
  "tag_word colID typ = push_bit 4 (ucast colID) OR word_of_int (min typ SentinelType)"

definition tag_offset :: "uint32 \<Rightarrow> Type \<Rightarrow> nat" where
  "tag_offset colID typ = septet_count (tag_word colID typ)"

lemma length_septets [simp]: "length (septets n x) = Suc n"
  by (induction n) auto

lemma length_uvarint: "length (EncodeNonsortingUvarint [] x) = Suc (septet_count x)"
  by (simp add: EncodeNonsortingUvarint_eq)

lemma EncodeNonsortingUvarint_append: "EncodeNonsortingUvarint b x = b @ EncodeNonsortingUvarint [] x"
  by (simp add: EncodeNonsortingUvarint_eq)

lemma EncodeValueTag_eq:
  assumes "0 \<le> typ"
  shows "EncodeValueTag b c typ = b @ EncodeNonsortingUvarint [] (tag_word c typ) @
    (if typ \<ge> SentinelType then EncodeNonsortingUvarint [] (word_of_int typ) else [])"
proof (cases "typ \<ge> SentinelType")
  case True
  then show ?thesis
    unfolding EncodeValueTag_def tag_word_def
    by (subst (1 2) EncodeNonsortingUvarint_append) (simp add: min_def)
next
  case False
  have "EncodeNonsortingUvarint [] (word_of_int typ) = [word_of_int typ]" 
  proof -
    have "uint (word_of_int typ :: uint64) = typ" using assms False by (simp add: uint_word_of_int)
    then have "(word_of_int typ :: uint64) < 2 ^ 7" using False by (simp add: word_less_alt)
    moreover have "ucast (word_of_int typ :: uint64) = (word_of_int typ :: byte)"
      using assms False by (simp add: word_uint_eq_iff unsigned_ucast_eq uint_word_of_int unsigned_take_bit_eq take_bit_eq_mod)
    ultimately show ?thesis by (simp add: EncodeNonsortingUvarint_def)
  qed
  with False show ?thesis
    unfolding EncodeValueTag_def tag_word_def
    by (subst EncodeNonsortingUvarint_append) (simp add: min_def)
qed

lemma tag_word_parts:
  assumes "0 \<le> typ"
  shows "sint (tag_word c typ AND 0xf) = min typ 15" "ucast (drop_bit 4 (tag_word c typ)) = c"
proof -
  define t :: uint64 where "t = word_of_int (min typ SentinelType)"
  have u: "uint t = min typ 15" using assms by (simp add: t_def uint_word_of_int)
  then have "unat t < 2 ^ 4" by (simp add: unat_eq_nat_uint)
  then have small: "drop_bit 4 t = 0" by (rule drop_bit_small)
  have low: "bit t n \<Longrightarrow> n < 4" for n
    using small by (metis bit_take_bit_iff take_bit_eq_self_iff_drop_bit_eq_0)
  have f: "(0xf :: uint64) = mask 4" by (simp add: mask_eq_exp_minus_1)
  have "tag_word c typ AND 0xf = t"
    unfolding tag_word_def t_def [symmetric] f by (rule bit_word_eqI) (use low in \<open>auto simp: bit_simps\<close>)
  moreover have "sint t = min typ 15" using assms unfolding t_def by (intro sint_word_of_int_in64) auto
  ultimately show "sint (tag_word c typ AND 0xf) = min typ 15" by simp
  show "ucast (drop_bit 4 (tag_word c typ)) = c"
    unfolding tag_word_def t_def [symmetric]
    by (rule bit_word_eqI) (use low in \<open>auto simp: bit_simps\<close>)
qed

lemma last_septet: "drop n (septets n x) = [0x7f AND ucast x]"
  by (induction n) auto

lemma DecodeValueTag_tag:
  assumes "0 \<le> typ" "typ < 2 ^ 63"
  shows "DecodeValueTag (EncodeValueTag [] c typ @ rest) =
    Inr (int (tag_offset c typ), length (EncodeValueTag [] c typ), c, typ)"
proof -
  have "EncodeNonsortingUvarint [] x \<noteq> []" for x using length_uvarint [of x] by auto
  moreover have "sint (word_of_int typ :: uint64) = typ" using assms by (intro sint_word_of_int_in64) auto
  ultimately show ?thesis
    using tag_word_parts [OF assms(1), of c]
    by (auto simp: DecodeValueTag_def EncodeValueTag_eq [OF assms(1)] DecodeNonsortingUvarint_Encode Let_def
        tag_offset_def length_uvarint min_def)
qed

lemma DecodeValueTag_stripped:
  assumes "0 \<le> typ" "typ < 2 ^ 63"
  shows "\<exists>c'. DecodeValueTag (drop (tag_offset c typ) (EncodeValueTag [] c typ) @ rest) =
    Inr (0, length (EncodeValueTag [] c typ) - tag_offset c typ, c', typ)"
proof -
  let ?x = "tag_word c typ"
  have s: "drop (tag_offset c typ) (EncodeValueTag [] c typ) @ rest = (0x7f AND ucast ?x) #
      (if typ \<ge> SentinelType then EncodeNonsortingUvarint [] (word_of_int typ) else []) @ rest"
    by (simp add: EncodeValueTag_eq [OF assms(1)] tag_offset_def EncodeNonsortingUvarint_eq [of "[]" ?x] last_septet)
  have "DecodeNonsortingUvarint ((0x7f AND ucast ?x) # r) = (r, 1, take_bit 7 ?x)" for r
    using septet_byte(3,4) [of ?x] by (simp add: DecodeNonsortingUvarint_def Let_def)
  moreover have "take_bit 7 ?x AND 0xf = ?x AND 0xf"
  proof -
    have f: "(0xf :: uint64) = mask 4" by (simp add: mask_eq_exp_minus_1)
    show ?thesis unfolding f by (intro bit_word_eqI) (auto simp: bit_simps)
  qed
  moreover have "sint (word_of_int typ :: uint64) = typ" using assms by (intro sint_word_of_int_in64) auto
  ultimately show ?thesis
    using tag_word_parts(1) [OF assms(1), of c] unfolding s DecodeValueTag_def
    by (auto simp: Let_def DecodeNonsortingUvarint_Encode EncodeValueTag_eq [OF assms(1)] tag_offset_def
        EncodeNonsortingUvarint_eq [of "[]" ?x] min_def)
qed

text \<open>
  The value tag. Every column id and every type is read back, and as \<open>DecodeValueTag\<close> documents, the
  tag without its first \<open>typeOffset\<close> bytes is still a tag of the same type, one that ends at the same place.
\<close>

theorem value_tag_roundtrip:
  assumes "0 \<le> typ" "typ < 2 ^ 63"
  shows "\<exists>typeOffset c'.
    DecodeValueTag (EncodeValueTag [] colID typ @ rest) =
      Inr (int typeOffset, length (EncodeValueTag [] colID typ), colID, typ) \<and>
    DecodeValueTag (drop typeOffset (EncodeValueTag [] colID typ @ rest)) =
      Inr (0, length (EncodeValueTag [] colID typ) - typeOffset, c', typ)"
proof -
  have "tag_offset colID typ \<le> length (EncodeValueTag [] colID typ)"
    by (simp add: EncodeValueTag_eq [OF assms(1)] tag_offset_def EncodeNonsortingUvarint_eq [of "[]" "tag_word colID typ"])
  then show ?thesis
    using DecodeValueTag_tag [OF assms, of colID rest] DecodeValueTag_stripped [OF assms, of colID rest] by auto
qed

theorem value_tag_roundtrip_witness:
  "\<exists>typeOffset c'. DecodeValueTag (EncodeValueTag [] 300 Type_Void @ [7]) =
      Inr (int typeOffset, length (EncodeValueTag [] 300 Type_Void), 300, Type_Void) \<and>
    DecodeValueTag (drop typeOffset (EncodeValueTag [] 300 Type_Void @ [7])) =
      Inr (0, length (EncodeValueTag [] 300 Type_Void) - typeOffset, c', Type_Void)"
  by (rule value_tag_roundtrip) simp_all

section \<open>The contract of a value\<close>

text \<open>
  An encoding is read back whatever follows it, also without its column id; and its length is found,
  with and without the column id.
\<close>

definition reads_back :: "(bytes \<Rightarrow> go_error + bytes \<times> 'a) \<Rightarrow> bytes \<Rightarrow> 'a \<Rightarrow> bool" where
  "reads_back decv b x \<longleftrightarrow> (\<exists>off d c t. DecodeValueTag b = Inr (off, d, c, t) \<and>
     (\<forall>rest. decv (b @ rest) = Inr (rest, x) \<and> decv (drop (nat off) b @ rest) = Inr (rest, x)))"

definition peeks :: "bytes \<Rightarrow> bool" where
  "peeks b \<longleftrightarrow> (\<exists>off d c t. DecodeValueTag b = Inr (off, d, c, t) \<and>
     (\<forall>rest. PeekValueLength (b @ rest) = Inr (off, of_nat (length b)) \<and>
       PeekValueLength (drop (nat off) b @ rest) = Inr (0, of_nat (length b - nat off))))"

text \<open>
  What \<open>PeekValueLength\<close> relies on: a tagged encoding is the tag and then bytes whose length the type's
  case of \<open>PeekValueLengthWithOffsetsAndType\<close> finds.
\<close>

locale value_encoding =
  fixes encv :: "bytes \<Rightarrow> uint32 \<Rightarrow> 'a \<Rightarrow> bytes" and ty :: Type and enc :: "'a \<Rightarrow> bytes" and valid :: "'a \<Rightarrow> bool"
  assumes ty_range: "0 \<le> ty" "ty < 2 ^ 63"
    and encv: "encv b c x = EncodeValueTag b c ty @ enc x"
    and peek_enc: "valid x \<Longrightarrow> PeekValueLengthWithOffsetsAndType (p @ enc x @ rest) (length p) ty =
      Inr (of_nat (length p + length (enc x)))"
begin

lemma tag_nonempty: "EncodeValueTag [] c ty \<noteq> []" "tag_offset c ty < length (EncodeValueTag [] c ty)"
  by (simp_all add: EncodeValueTag_eq [OF ty_range(1)] tag_offset_def EncodeNonsortingUvarint_eq [of "[]" "tag_word c ty"]
      flip: length_0_conv)

lemma peek_value:
  "valid x \<Longrightarrow> PeekValueLength (encv [] c x @ rest) = Inr (int (tag_offset c ty), of_nat (length (encv [] c x)))"
  using peek_enc [of x "EncodeValueTag [] c ty" rest] tag_nonempty(1)
  by (subst PeekValueLength.simps) (simp add: encv DecodeValueTag_tag [OF ty_range])

lemma peek_stripped:
  assumes "valid x"
  shows "PeekValueLength (drop (tag_offset c ty) (encv [] c x) @ rest) =
    Inr (0, of_nat (length (encv [] c x) - tag_offset c ty))"
proof -
  obtain c' where "DecodeValueTag (drop (tag_offset c ty) (EncodeValueTag [] c ty) @ enc x @ rest) =
      Inr (0, length (EncodeValueTag [] c ty) - tag_offset c ty, c', ty)"
    using DecodeValueTag_stripped [OF ty_range] by blast
  then show ?thesis
    using peek_enc [of x "drop (tag_offset c ty) (EncodeValueTag [] c ty)" rest, OF assms] tag_nonempty(2) [of c]
    by (subst PeekValueLength.simps) (simp add: encv)
qed

lemma encv_peeks: "valid x \<Longrightarrow> peeks (encv [] c x)"
  unfolding peeks_def using DecodeValueTag_tag [OF ty_range, of c "enc x"] peek_value [of x c] peek_stripped [of x c]
  by (auto simp: encv)

end

text \<open>A value that is also decoded by a function of its own.\<close>

locale value_codec = value_encoding +
  fixes decv dec :: "bytes \<Rightarrow> go_error + bytes \<times> 'a"
  assumes decv: "decv b = res_bind (decodeValueTypeAssert b ty) dec"
    and dec_enc: "valid x \<Longrightarrow> dec (enc x @ rest) = Inr (rest, x)"
begin

lemma decode_value: "valid x \<Longrightarrow> decv (encv [] c x @ rest) = Inr (rest, x)"
  by (simp add: decv encv decodeValueTypeAssert_def DecodeValueTag_tag [OF ty_range] dec_enc)

lemma decode_stripped:
  assumes "valid x"
  shows "decv (drop (tag_offset c ty) (encv [] c x) @ rest) = Inr (rest, x)"
proof -
  obtain c' where "DecodeValueTag (drop (tag_offset c ty) (EncodeValueTag [] c ty) @ enc x @ rest) =
      Inr (0, length (EncodeValueTag [] c ty) - tag_offset c ty, c', ty)"
    using DecodeValueTag_stripped [OF ty_range] by blast
  then show ?thesis
    using slice_from_append [of "drop (tag_offset c ty) (EncodeValueTag [] c ty)" "enc x @ rest"] tag_nonempty(2) [of c]
    by (simp add: decv encv decodeValueTypeAssert_def dec_enc [OF assms])
qed

lemma encv_reads_back: "valid x \<Longrightarrow> reads_back decv (encv [] c x) x"
  unfolding reads_back_def using DecodeValueTag_tag [OF ty_range, of c "enc x"] decode_value [of x c] decode_stripped [of x c]
  by (auto simp: encv)

lemma decode_other: "0 \<le> t \<Longrightarrow> t < 2 ^ 63 \<Longrightarrow> t \<noteq> ty \<Longrightarrow> \<exists>e. decv (EncodeValueTag [] c t @ rest) = Inl e"
  by (simp add: decv decodeValueTypeAssert_def DecodeValueTag_tag)

end

section \<open>The values satisfy it\<close>

interpretation null_value: value_encoding "\<lambda>b c (_ :: unit). EncodeNullValue b c" Type_Null "\<lambda>_. []" "\<lambda>_. True"
  by unfold_locales (simp_all add: EncodeNullValue_def PeekValueLengthWithOffsetsAndType.simps)

interpretation void_value: value_encoding "\<lambda>b c (_ :: unit). EncodeVoidValue b c" Type_Void "\<lambda>_. []" "\<lambda>_. True"
  by unfold_locales (simp_all add: EncodeVoidValue_def PeekValueLengthWithOffsetsAndType.simps)

interpretation true_value: value_encoding "\<lambda>b c (_ :: unit). EncodeBoolValue b c True" Type_True "\<lambda>_. []" "\<lambda>_. True"
  by unfold_locales (simp_all add: EncodeBoolValue_def PeekValueLengthWithOffsetsAndType.simps)

interpretation false_value: value_encoding "\<lambda>b c (_ :: unit). EncodeBoolValue b c False" Type_False "\<lambda>_. []" "\<lambda>_. True"
  by unfold_locales (simp_all add: EncodeBoolValue_def PeekValueLengthWithOffsetsAndType.simps)

interpretation int_value: value_codec EncodeIntValue Type_Int PutVarint "\<lambda>_. True" DecodeIntValue DecodeUntaggedIntValue
  by unfold_locales
    (simp_all add: EncodeIntValue_def EncodeUntaggedIntValue_def EncodeNonsortingStdlibVarint_def DecodeIntValue_def
      DecodeUntaggedIntValue_def StdlibVarint_roundtrip PeekValueLengthWithOffsetsAndType.simps)

interpretation float_value: value_codec EncodeFloatValue Type_Float "EncodeUint64Ascending []" "\<lambda>_. True"
  DecodeFloatValue DecodeUntaggedFloatValue
proof unfold_locales
  fix x :: uint64 and p rest b c
  show "EncodeFloatValue b c x = EncodeValueTag b c Type_Float @ EncodeUint64Ascending [] x"
    by (simp add: EncodeFloatValue_def EncodeUntaggedFloatValue_def EncodeUint64Ascending_def)
  show "DecodeUntaggedFloatValue (EncodeUint64Ascending [] x @ rest) = Inr (rest, x)"
    using uint64_asc.dec_enc [of x rest] by (simp add: DecodeUntaggedFloatValue_def EncodeUint64Ascending_def)
qed (simp_all add: DecodeFloatValue_def PeekValueLengthWithOffsetsAndType.simps EncodeUint64Ascending_def)

lemma untagged_bytes:
  "EncodeUntaggedBytesValue b data = b @ EncodeUntaggedBytesValue [] data"
  "length data < 2 ^ 63 \<Longrightarrow> DecodeUntaggedBytesValue (EncodeUntaggedBytesValue [] data @ rest) = Inr (rest, data)"
  "DecodeNonsortingUvarint (EncodeUntaggedBytesValue [] data @ rest) =
     (data @ rest, length (EncodeNonsortingUvarint [] (of_nat (length data))), of_nat (length data))"
proof -
  show "EncodeUntaggedBytesValue b data = b @ EncodeUntaggedBytesValue [] data"
    unfolding EncodeUntaggedBytesValue_def by (subst EncodeNonsortingUvarint_append) simp
  show d: "DecodeNonsortingUvarint (EncodeUntaggedBytesValue [] data @ rest) =
     (data @ rest, length (EncodeNonsortingUvarint [] (of_nat (length data))), of_nat (length data))"
    by (simp add: EncodeUntaggedBytesValue_def DecodeNonsortingUvarint_Encode)
  assume "length data < 2 ^ 63"
  then have "sint (of_nat (length data) :: uint64) = int (length data)" by (simp add: sint64_of_nat)
  then show "DecodeUntaggedBytesValue (EncodeUntaggedBytesValue [] data @ rest) = Inr (rest, data)"
    by (simp add: DecodeUntaggedBytesValue_def d)
qed

lemma peek_bytes:
  assumes "typ = Type_Bytes \<or> typ = Type_Array \<or> typ = Type_JSON"
  shows "PeekValueLengthWithOffsetsAndType (p @ EncodeUntaggedBytesValue [] data @ rest) (length p) typ =
    Inr (of_nat (length p + length (EncodeUntaggedBytesValue [] data)))"
  using assms
  by (simp add: PeekValueLengthWithOffsetsAndType.simps untagged_bytes(3), auto simp: EncodeUntaggedBytesValue_def DecodeNonsortingUvarint_Encode add_ac)

interpretation bytes_value: value_codec EncodeBytesValue Type_Bytes "EncodeUntaggedBytesValue []" "\<lambda>d. length d < 2 ^ 63"
  DecodeBytesValue DecodeUntaggedBytesValue
  by unfold_locales (simp_all add: EncodeBytesValue_def DecodeBytesValue_def peek_bytes untagged_bytes(2),
    rule untagged_bytes(1))

interpretation array_value: value_encoding EncodeArrayValue Type_Array "EncodeUntaggedBytesValue []" "\<lambda>_. True"
  by unfold_locales (simp_all add: EncodeArrayValue_def peek_bytes, rule untagged_bytes(1))

interpretation json_value: value_encoding EncodeJSONValue Type_JSON "EncodeUntaggedBytesValue []" "\<lambda>_. True"
  by unfold_locales (simp_all add: EncodeJSONValue_def peek_bytes, rule untagged_bytes(1))

lemma PutVarint_nonempty: "PutVarint x \<noteq> []"
  by (simp add: PutVarint_def Let_def)

lemma multi_varint_step:
  "getMultiNonsortingVarintLen_loop (p @ PutVarint x @ rest) (Suc k) (length p) =
     getMultiNonsortingVarintLen_loop ((p @ PutVarint x) @ rest) k (length (p @ PutVarint x))"
  using PutVarint_nonempty [of x] by (simp add: StdlibVarint_roundtrip)

lemma multi_varint_len:
  "getMultiNonsortingVarintLen (PutVarint x @ PutVarint y @ rest) 2 = Inr (length (PutVarint x @ PutVarint y))"
  "getMultiNonsortingVarintLen (PutVarint x @ PutVarint y @ PutVarint z @ rest) 3 =
     Inr (length (PutVarint x @ PutVarint y @ PutVarint z))"
proof -
  note step = multi_varint_step [of "[]" x "PutVarint y @ r" for r, simplified append_Nil list.size]
    multi_varint_step [of "PutVarint x" y] multi_varint_step [of "PutVarint x @ PutVarint y" z]
  show "getMultiNonsortingVarintLen (PutVarint x @ PutVarint y @ rest) 2 = Inr (length (PutVarint x @ PutVarint y))"
    unfolding getMultiNonsortingVarintLen_def numeral_2_eq_2 step(1) step(2) by simp
  show "getMultiNonsortingVarintLen (PutVarint x @ PutVarint y @ PutVarint z @ rest) 3 =
      Inr (length (PutVarint x @ PutVarint y @ PutVarint z))"
    unfolding getMultiNonsortingVarintLen_def numeral_3_eq_3 step(1) step(2)
    using step(3) [of rest 0] by simp
qed

interpretation time_value: value_codec EncodeTimeValue Type_Time "\<lambda>t. PutVarint (Unix t) @ PutVarint (Nanosecond t)" time_ok
  DecodeTimeValue DecodeUntaggedTimeValue
  by unfold_locales
    (simp_all add: EncodeTimeValue_def EncodeUntaggedTimeValue_def EncodeNonsortingStdlibVarint_def DecodeTimeValue_def
      DecodeUntaggedTimeValue_def StdlibVarint_roundtrip PeekValueLengthWithOffsetsAndType.simps multi_varint_len timeutil_Unix_ok)

lemma int32_of_int64_of_int32: "int32_of_int64 (scast v) = v"
  by (rule bit_word_eqI) (simp add: bit_simps)

interpretation timetz_value: value_codec EncodeTimeTZValue Type_TimeTZ
  "\<lambda>t. PutVarint (TimeOfDay t) @ PutVarint (int64_of_int32 (OffsetSecs t))" "\<lambda>_. True"
  DecodeTimeTZValue DecodeUntaggedTimeTZValue
  by unfold_locales
    (simp_all add: EncodeTimeTZValue_def EncodeUntaggedTimeTZValue_def EncodeNonsortingStdlibVarint_def DecodeTimeTZValue_def
      DecodeUntaggedTimeTZValue_def StdlibVarint_roundtrip PeekValueLengthWithOffsetsAndType.simps multi_varint_len
      int32_of_int64_of_int32)

interpretation duration_value: value_codec EncodeDurationValue Type_Duration
  "\<lambda>d. PutVarint (Months d) @ PutVarint (Days d) @ PutVarint (nanos d)" "\<lambda>_. True"
  DecodeDurationValue DecodeUntaggedDurationValue
  by unfold_locales
    (simp_all add: EncodeDurationValue_def EncodeUntaggedDurationValue_def EncodeNonsortingStdlibVarint_def DecodeDurationValue_def
      DecodeUntaggedDurationValue_def StdlibVarint_roundtrip PeekValueLengthWithOffsetsAndType.simps multi_varint_len DecodeDuration_def)

interpretation uuid_value: value_codec EncodeUUIDValue Type_UUID "\<lambda>u. u" "\<lambda>u. length u = 16" DecodeUUIDValue DecodeUntaggedUUIDValue
  by unfold_locales
    (simp_all add: EncodeUUIDValue_def EncodeUntaggedUUIDValue_def DecodeUUIDValue_def DecodeUntaggedUUIDValue_def
      PeekValueLengthWithOffsetsAndType.simps uuidValueEncodedLength_def)

interpretation ip_value: value_codec EncodeIPAddrValue Type_IPAddr "IPAddr_ToBuffer []" wf_ip DecodeIPAddrValue DecodeUntaggedIPAddrValue
proof unfold_locales
  fix x :: IPAddr and p rest b c
  show "EncodeIPAddrValue b c x = EncodeValueTag b c Type_IPAddr @ IPAddr_ToBuffer [] x"
    by (simp add: EncodeIPAddrValue_def EncodeUntaggedIPAddrValue_def IPAddr_ToBuffer_def Let_def)
  assume "wf_ip x"
  then show "DecodeUntaggedIPAddrValue (IPAddr_ToBuffer [] x @ rest) = Inr (rest, x)"
    by (simp add: DecodeUntaggedIPAddrValue_def FromBuffer_ToBuffer)
  from \<open>wf_ip x\<close> show "PeekValueLengthWithOffsetsAndType (p @ IPAddr_ToBuffer [] x @ rest) (length p) Type_IPAddr =
      Inr (of_nat (length p + length (IPAddr_ToBuffer [] x)))"
    by (auto simp: PeekValueLengthWithOffsetsAndType.simps wf_ip_def ToBuffer_eq index_at_def IPv4size_def IPv6size_def
        addr_bytes_def Uint128_GetBytes_def)
qed (simp_all add: DecodeIPAddrValue_def)

definition bit_value :: "BitArray \<Rightarrow> bytes" where
  "bit_value d = EncodeNonsortingUvarint [] (of_nat (BitLen d)) @ concat (map (EncodeUint64Ascending []) (words d))"

lemma untagged_bits: "EncodeUntaggedBitArrayValue b d = b @ bit_value d"
proof -
  have a: "EncodeUint64Ascending b w = b @ EncodeUint64Ascending [] w" for b w by (simp add: EncodeUint64Ascending_def)
  show ?thesis
    unfolding EncodeUntaggedBitArrayValue_def EncodingParts_def prod.case fold_encode [OF a] bit_value_def
    by (subst EncodeNonsortingUvarint_append) simp
qed

lemma decode_words_uint64:
  "decode_words DecodeUint64Ascending (length ws) (concat (map (EncodeUint64Ascending []) ws) @ rest) = Inr (rest, ws)"
  by (induction ws) (simp_all add: uint64_asc.dec_enc)

interpretation bits_value: value_codec EncodeBitArrayValue Type_BitArray bit_value wf_bits DecodeBitArrayValue DecodeUntaggedBitArrayValue
proof unfold_locales
  fix x :: BitArray and p rest
  assume wf: "wf_bits x"
  note l = BitLen_words [OF wf]
  have parts: "EncodingPartsForBitLen (of_nat (BitLen x)) = (replicate (length (words x)) 0, of_nat (last_of (BitLen x)))"
    using l Parts_eq by simp
  show "DecodeUntaggedBitArrayValue (bit_value x @ rest) = Inr (rest, x)"
    using decode_words_uint64 [of "words x" rest] mk_words [OF wf]
    by (simp add: DecodeUntaggedBitArrayValue_def bit_value_def DecodeNonsortingUvarint_Encode parts FromParts_eq)
  have "length (concat (map (EncodeUint64Ascending []) ws)) = 8 * length ws" for ws
    by (induction ws) (simp_all add: EncodeUint64Ascending_def)
  then show "PeekValueLengthWithOffsetsAndType (p @ bit_value x @ rest) (length p) Type_BitArray =
      Inr (of_nat (length p + length (bit_value x)))"
    using l Sizes_eq [of "BitLen x"]
    by (cases "BitLen x = 0") (simp_all add: SizesForBitLen_def PeekValueLengthWithOffsetsAndType.simps bit_value_def DecodeNonsortingUvarint_Encode)
qed (simp_all add: EncodeBitArrayValue_def DecodeBitArrayValue_def untagged_bits)

lemma bool_reads_back: "reads_back DecodeBoolValue (EncodeBoolValue [] c v) v"
proof -
  let ?t = "if v then Type_True else Type_False"
  have t: "0 \<le> ?t" "?t < 2 ^ 63" by simp_all
  let ?s = "drop (tag_offset c ?t) (EncodeValueTag [] c ?t)"
  have "DecodeBoolValue (EncodeValueTag [] c ?t @ rest) = Inr (rest, v)" for rest
    by (simp add: DecodeBoolValue_def DecodeValueTag_tag [OF t, of c rest])
  moreover have "DecodeBoolValue (?s @ rest) = Inr (rest, v)" for rest
  proof -
    obtain c' where "DecodeValueTag (?s @ rest) = Inr (0, length ?s, c', ?t)"
      using DecodeValueTag_stripped [OF t, of c rest] by auto
    then show ?thesis using slice_from_append [of ?s rest] by (auto simp: DecodeBoolValue_def split: if_splits)
  qed
  ultimately show ?thesis
    unfolding reads_back_def EncodeBoolValue_def using DecodeValueTag_tag [OF t, of c "[]"] by auto
qed

text \<open>
  C39. Values are read back. Each decoder of a tagged value returns what the encoder was given, whatever
  the column id and whatever follows, and also when the column id has been cut off at \<open>typeOffset\<close>.
\<close>

theorem value_roundtrips:
  assumes "length data < 2 ^ 63" "time_ok t" "length u = 16" "wf_ip ip" "wf_bits d"
  shows "reads_back DecodeBoolValue (EncodeBoolValue [] c v) v \<and>
    reads_back DecodeIntValue (EncodeIntValue [] c i) i \<and>
    reads_back DecodeFloatValue (EncodeFloatValue [] c f) f \<and>
    reads_back DecodeBytesValue (EncodeBytesValue [] c data) data \<and>
    reads_back DecodeTimeValue (EncodeTimeValue [] c t) t \<and>
    reads_back DecodeTimeTZValue (EncodeTimeTZValue [] c tz) tz \<and>
    reads_back DecodeDurationValue (EncodeDurationValue [] c dur) dur \<and>
    reads_back DecodeUUIDValue (EncodeUUIDValue [] c u) u \<and>
    reads_back DecodeIPAddrValue (EncodeIPAddrValue [] c ip) ip \<and>
    reads_back DecodeBitArrayValue (EncodeBitArrayValue [] c d) d"
  using assms bool_reads_back int_value.encv_reads_back float_value.encv_reads_back bytes_value.encv_reads_back
    time_value.encv_reads_back timetz_value.encv_reads_back duration_value.encv_reads_back uuid_value.encv_reads_back
    ip_value.encv_reads_back bits_value.encv_reads_back
  by simp

theorem value_roundtrips_witness:
  "reads_back DecodeBytesValue (EncodeBytesValue [] 1000 [1, 2]) [1, 2] \<and>
   reads_back DecodeBitArrayValue (EncodeBitArrayValue [] 1000 \<lparr>words = [0], lastBitsUsed = 64\<rparr>) \<lparr>words = [0], lastBitsUsed = 64\<rparr>"
proof -
  have "length [1, 2 :: byte] < 2 ^ 63" "time_ok \<lparr>Unix = 0, Nanosecond = 5\<rparr>" "length (replicate 16 (0 :: byte)) = 16"
    "wf_ip (ip4 5 24)" "wf_bits \<lparr>words = [0], lastBitsUsed = 64\<rparr>"
    by (simp_all add: time_ok_def ip4_def wf_ip_def ip_width_def wf_bits_def)
  from value_roundtrips [OF this] show ?thesis by blast
qed

text \<open>
  \<open>PeekValueLength\<close> finds the end of every value without decoding it: for every tagged encoding it
  returns the offset of the type and the exact length, whatever follows, and it does so too on the
  encoding without its column id.
\<close>

theorem value_lengths:
  assumes "length data < 2 ^ 63" "time_ok t" "length u = 16" "wf_ip ip" "wf_bits d"
  shows "peeks (EncodeNullValue [] c) \<and> peeks (EncodeVoidValue [] c) \<and> peeks (EncodeBoolValue [] c v) \<and>
    peeks (EncodeIntValue [] c i) \<and> peeks (EncodeFloatValue [] c f) \<and> peeks (EncodeBytesValue [] c data) \<and>
    peeks (EncodeArrayValue [] c data) \<and> peeks (EncodeJSONValue [] c data) \<and> peeks (EncodeTimeValue [] c t) \<and>
    peeks (EncodeTimeTZValue [] c tz) \<and> peeks (EncodeDurationValue [] c dur) \<and> peeks (EncodeUUIDValue [] c u) \<and>
    peeks (EncodeIPAddrValue [] c ip) \<and> peeks (EncodeBitArrayValue [] c d)"
  using assms null_value.encv_peeks void_value.encv_peeks true_value.encv_peeks [of c] false_value.encv_peeks [of c]
    int_value.encv_peeks float_value.encv_peeks bytes_value.encv_peeks array_value.encv_peeks json_value.encv_peeks
    time_value.encv_peeks timetz_value.encv_peeks duration_value.encv_peeks uuid_value.encv_peeks
    ip_value.encv_peeks bits_value.encv_peeks
  by (cases v) simp_all

theorem value_lengths_witness:
  "peeks (EncodeJSONValue [] 77 [1, 2]) \<and> peeks (EncodeIPAddrValue [] 77 (ip4 5 24))"
proof -
  have "length [1, 2 :: byte] < 2 ^ 63" "time_ok \<lparr>Unix = 0, Nanosecond = 5\<rparr>" "length (replicate 16 (0 :: byte)) = 16"
    "wf_ip (ip4 5 24)" "wf_bits \<lparr>words = [0], lastBitsUsed = 64\<rparr>"
    by (simp_all add: time_ok_def ip4_def wf_ip_def ip_width_def wf_bits_def)
  from value_lengths [OF this] show ?thesis by blast
qed

section \<open>Tuples\<close>

lemma peek_tuple_entries:
  assumes "\<forall>e\<in>set es. peeks e" "length (concat es) < 2 ^ 63"
  shows "peek_tuple (length es) (concat es @ rest) l = Inr (l + of_nat (length (concat es)))"
  using assms
proof (induction es arbitrary: l)
  case (Cons e es)
  obtain off where "PeekValueLength (e @ concat es @ rest) = Inr (off, of_nat (length e))"
    using Cons.prems(1) by (auto simp: peeks_def)
  moreover have "sint (of_nat (length e) :: int64) = int (length e)"
    using Cons.prems(2) by (intro sint64_of_nat) simp
  ultimately show ?case using Cons by (simp add: add.assoc)
qed simp

lemma peeks_nonempty: "peeks e \<Longrightarrow> e \<noteq> []"
  by (auto simp: peeks_def DecodeValueTag_def)

text \<open>
  Tuples nest: the tag, the number of entries and the entries, each an encoding whose length
  \<open>PeekValueLength\<close> finds (a tuple again, for instance), is itself such an encoding. So the loop
  skips every entry exactly, to any depth.
\<close>

theorem tuple_lengths:
  assumes "\<forall>e\<in>set es. peeks e" "length (concat es) < 2 ^ 63"
  shows "peeks (EncodeNonsortingUvarint (EncodeValueTag [] c Type_Tuple) (of_nat (length es)) @ concat es)"
proof -
  have "length es \<le> length (concat es)"
    using assms(1) by (induction es) (auto simp: Suc_le_eq add_strict_increasing dest: peeks_nonempty)
  then have n: "sint (of_nat (length es) :: uint64) = int (length es)" using assms(2) by (intro sint64_of_nat) simp
  have enc: "value_encoding (\<lambda>b c (_ :: unit). EncodeNonsortingUvarint (EncodeValueTag b c Type_Tuple) (of_nat (length es)) @ concat es)
      Type_Tuple (\<lambda>_. EncodeNonsortingUvarint [] (of_nat (length es)) @ concat es) (\<lambda>_. True)"
  proof
    fix p rest b c
    show "EncodeNonsortingUvarint (EncodeValueTag b c Type_Tuple) (of_nat (length es)) @ concat es =
        EncodeValueTag b c Type_Tuple @ EncodeNonsortingUvarint [] (of_nat (length es)) @ concat es"
      by (subst EncodeNonsortingUvarint_append) simp
    show "PeekValueLengthWithOffsetsAndType (p @ (EncodeNonsortingUvarint [] (of_nat (length es)) @ concat es) @ rest) (length p) Type_Tuple =
        Inr (of_nat (length p + length (EncodeNonsortingUvarint [] (of_nat (length es)) @ concat es)))"
      using n peek_tuple_entries [OF assms]
      by (cases "es = []") (simp_all add: PeekValueLengthWithOffsetsAndType.simps DecodeNonsortingUvarint_Encode)
  qed simp_all
  from value_encoding.encv_peeks [OF enc] show ?thesis by simp
qed

theorem tuple_lengths_witness:
  "peeks (EncodeNonsortingUvarint (EncodeValueTag [] 3 Type_Tuple) (of_nat (length [EncodeIntValue [] 0 5, EncodeNullValue [] 0])) @
    concat [EncodeIntValue [] 0 5, EncodeNullValue [] 0])"
proof (rule tuple_lengths)
  show "\<forall>e\<in>set [EncodeIntValue [] 0 5, EncodeNullValue [] 0]. peeks e"
    using int_value.encv_peeks null_value.encv_peeks by simp
  have "length (PutVarint 5) = 1" by (simp add: PutVarint_def PutUvarint.simps)
  then show "length (concat [EncodeIntValue [] 0 5, EncodeNullValue [] 0]) < 2 ^ 63"
    by (simp add: EncodeIntValue_def EncodeUntaggedIntValue_def EncodeNonsortingStdlibVarint_def EncodeNullValue_def EncodeValueTag_def)
qed

section \<open>Malformed values\<close>

lemma unterminated_uvarint: "list_all (\<lambda>b. 0x80 \<le> b) bs \<Longrightarrow> DecodeNonsortingUvarint_loop buf bs i v = (buf, 0, 0)"
  by (induction bs arbitrary: i v) (auto simp: Let_def)

text \<open>
  What the decoder of a byte string does with malformed input. A length that ends in the middle is
  not noticed: the result is the empty string and no error. A length beyond the end of the buffer, or
  beyond \<open>2 ^ 63\<close>, is a slice out of range.
\<close>

theorem bytes_value_malformed:
  "(list_all (\<lambda>b. 0x80 \<le> b) bs \<longrightarrow> DecodeUntaggedBytesValue bs = Inr (bs, [])) \<and>
   (length rest < unat n \<longrightarrow>
     DecodeUntaggedBytesValue (EncodeNonsortingUvarint [] n @ rest) = Inl (GoPanic ''slice bounds out of range''))"
proof (intro conjI impI)
  show "DecodeUntaggedBytesValue bs = Inr (bs, [])" if "list_all (\<lambda>b. 0x80 \<le> b) bs"
    using that by (simp add: DecodeUntaggedBytesValue_def DecodeNonsortingUvarint_def unterminated_uvarint)
  assume n: "length rest < unat n"
  have "nat (sint n) = unat n" if "\<not> sint n < 0"
    using that uint_of_nonneg [of n] by (simp flip: nat_uint_eq)
  with n show "DecodeUntaggedBytesValue (EncodeNonsortingUvarint [] n @ rest) = Inl (GoPanic ''slice bounds out of range'')"
    by (simp add: DecodeUntaggedBytesValue_def DecodeNonsortingUvarint_Encode slice_from_def)
qed

theorem bytes_value_malformed_witness:
  "DecodeUntaggedBytesValue [0x81, 0x82] = Inr ([0x81, 0x82], []) \<and>
   DecodeUntaggedBytesValue (EncodeNonsortingUvarint [] 3 @ [7]) = Inl (GoPanic ''slice bounds out of range'')"
  using bytes_value_malformed [of "[0x81, 0x82]" "[7]" 3] by simp

end
