(* ===== verification/Keys_Spans.thy ===== *)
theory Keys_Spans
  imports Go_Prelude "HOL-Library.Sublist" "HOL-Library.Multiset"
begin

text \<open>
  Keys and spans: \<open>PrefixEnd\<close> of \<open>pkg/keysbase/data.go\<close>, the keys and spans of
  \<open>pkg/roachpb/data.go\<close>, the range descriptors' spans of \<open>pkg/roachpb/metadata.go\<close>,
  \<open>MergeSpans\<close> and \<open>SubtractSpans\<close> of \<open>pkg/roachpb/merge_spans.go\<close>, and \<open>UndoPrefixEnd\<close> of
  \<open>pkg/util/encoding/encoding.go\<close>. The meaning of a span is the set of keys it covers, and each
  operation is proved to compute on those sets.

  A Go slice that is \<open>nil\<close> is told apart from an empty one only where the code does so, for the
  end key of a span in \<open>MergeSpans\<close>: an end key is an \<open>option\<close>, with \<^const>\<open>None\<close> for \<open>nil\<close>.
\<close>

section \<open>Keys\<close>

definition KeyMax :: bytes where
  "KeyMax = [0xff, 0xff]"

text \<open>The loop of \<open>PrefixEnd\<close> runs over the bytes from the last to the first: the argument is reversed.\<close>

fun PrefixEnd_loop :: "bytes \<Rightarrow> bytes option" where
  "PrefixEnd_loop [] = None"
| "PrefixEnd_loop (c # cs) = (let c = c + 1 in if c \<noteq> 0 then Some (rev (c # cs)) else PrefixEnd_loop cs)"

definition PrefixEnd :: "bytes \<Rightarrow> bytes" where
  "PrefixEnd b =
     (if b = [] then KeyMax
      else case PrefixEnd_loop (rev b) of Some e \<Rightarrow> e | None \<Rightarrow> b)"

definition UndoPrefixEnd :: "bytes \<Rightarrow> bytes option" where
  "UndoPrefixEnd b =
     (if length b = 0 \<or> b ! (length b - 1) = 0 then None
      else Some (b[length b - 1 := b ! (length b - 1) - 1]))"

text \<open>\<open>spare\<close> is what the backing array holds beyond the length of the slice.\<close>

definition BytesNext :: "bytes \<Rightarrow> bytes \<Rightarrow> bytes" where
  "BytesNext b spare =
     (case spare of x # _ \<Rightarrow> if x = 0 then b @ [x] else b @ [0] | [] \<Rightarrow> b @ [0])"

definition Key_Next :: "bytes \<Rightarrow> bytes" where
  "Key_Next k = BytesNext k []"

definition Key_IsPrev :: "bytes \<Rightarrow> bytes \<Rightarrow> bool" where
  "Key_IsPrev k m \<longleftrightarrow>
     int (length m) - 1 = int (length k) \<and> m ! (length m - 1) = 0 \<and> k = take (length m - 1) m"

section \<open>Spans\<close>

record Span =
  Key :: bytes
  EndKey :: "bytes option"

definition nil_bytes :: "bytes option \<Rightarrow> bytes" where
  "nil_bytes b = (case b of None \<Rightarrow> [] | Some b \<Rightarrow> b)"

abbreviation endk :: "Span \<Rightarrow> bytes" where
  "endk s \<equiv> nil_bytes (EndKey s)"

definition empty_span :: Span where
  "empty_span = \<lparr>Key = [], EndKey = None\<rparr>"

definition Span_Equal :: "Span \<Rightarrow> Span \<Rightarrow> bool" where
  "Span_Equal s ob \<longleftrightarrow> Key s = Key ob \<and> endk s = endk ob"

definition Span_Valid :: "Span \<Rightarrow> bool" where
  "Span_Valid s \<longleftrightarrow>
     (if length (Key s) = 0 \<and> length (endk s) = 0 then False
      else if length (endk s) = 0 then True
      else if bytes_compare (Key s) (endk s) \<ge> 0 then False
      else True)"

definition Span_Overlaps :: "Span \<Rightarrow> Span \<Rightarrow> bool" where
  "Span_Overlaps s ob \<longleftrightarrow>
     (if \<not> Span_Valid s \<or> \<not> Span_Valid ob then False
      else if length (endk s) = 0 \<and> length (endk ob) = 0 then Key s = Key ob
      else if length (endk s) = 0 then
        bytes_compare (Key s) (Key ob) \<ge> 0 \<and> bytes_compare (Key s) (endk ob) < 0
      else if length (endk ob) = 0 then
        bytes_compare (Key ob) (Key s) \<ge> 0 \<and> bytes_compare (Key ob) (endk s) < 0
      else bytes_compare (endk s) (Key ob) > 0 \<and> bytes_compare (Key s) (endk ob) < 0)"

definition Span_Intersect :: "Span \<Rightarrow> Span \<Rightarrow> Span" where
  "Span_Intersect s ob =
     (if \<not> Span_Overlaps s ob then empty_span
      else if length (endk s) = 0 then s
      else if length (endk ob) = 0 then ob
      else let key = Key s; key = (if bytes_compare key (Key ob) < 0 then Key ob else key);
               endKey = EndKey s;
               endKey = (if bytes_compare (nil_bytes endKey) (endk ob) > 0 then EndKey ob else endKey)
           in \<lparr>Key = key, EndKey = endKey\<rparr>)"

definition Span_Combine :: "Span \<Rightarrow> Span \<Rightarrow> Span" where
  "Span_Combine s ob =
     (if \<not> Span_Valid s \<or> \<not> Span_Valid ob then empty_span
      else let mn = Key s; mx = Key s;
               mx = (if length (endk s) > 0 then endk s else mx);
               (mn, mx) = (if bytes_compare (Key ob) mn < 0 then (Key ob, mx)
                           else if bytes_compare (Key ob) mx > 0 then (mn, Key ob) else (mn, mx));
               mx = (if length (endk ob) > 0 \<and> bytes_compare (endk ob) mx > 0 then endk ob else mx)
           in if mn = mx then \<lparr>Key = mn, EndKey = None\<rparr>
              else if Key s = mx \<or> Key ob = mx then \<lparr>Key = mn, EndKey = Some (Key_Next mx)\<rparr>
              else \<lparr>Key = mn, EndKey = Some mx\<rparr>)"

definition Span_Contains :: "Span \<Rightarrow> Span \<Rightarrow> bool" where
  "Span_Contains s ob \<longleftrightarrow>
     (if \<not> Span_Valid s \<or> \<not> Span_Valid ob then False
      else if length (endk s) = 0 \<and> length (endk ob) = 0 then Key s = Key ob
      else if length (endk s) = 0 then False
      else if length (endk ob) = 0 then
        bytes_compare (Key ob) (Key s) \<ge> 0 \<and> bytes_compare (Key ob) (endk s) < 0
      else bytes_compare (Key s) (Key ob) \<le> 0 \<and> bytes_compare (endk s) (endk ob) \<ge> 0)"

definition Span_ContainsKey :: "Span \<Rightarrow> bytes \<Rightarrow> bool" where
  "Span_ContainsKey s key \<longleftrightarrow> bytes_compare key (Key s) \<ge> 0 \<and> bytes_compare key (endk s) < 0"

definition Span_CompareKey :: "Span \<Rightarrow> bytes \<Rightarrow> int" where
  "Span_CompareKey s key =
     (if bytes_compare key (Key s) \<ge> 0 then if bytes_compare key (endk s) < 0 then 0 else 1 else - 1)"

definition ProperlyContainsKey :: "Span \<Rightarrow> bytes \<Rightarrow> bool" where
  "ProperlyContainsKey s key \<longleftrightarrow> bytes_compare key (Key s) > 0 \<and> bytes_compare key (endk s) < 0"

definition AsRange :: "Span \<Rightarrow> bytes \<times> bytes" where
  "AsRange s =
     (let startKey = Key s; endKey = endk s
      in if length endKey = 0 then let endKey = Key_Next (Key s) in (take (length startKey) endKey, endKey)
         else (startKey, endKey))"

definition SplitOnKey :: "Span \<Rightarrow> bytes \<Rightarrow> Span \<times> Span" where
  "SplitOnKey s key =
     (if bytes_compare key (Key s) \<le> 0 \<or> bytes_compare key (endk s) \<ge> 0 then (s, empty_span)
      else (\<lparr>Key = Key s, EndKey = Some key\<rparr>, \<lparr>Key = key, EndKey = EndKey s\<rparr>))"

fun Spans_ContainsKey :: "Span list \<Rightarrow> bytes \<Rightarrow> bool" where
  "Spans_ContainsKey [] key = False"
| "Spans_ContainsKey (span # a) key = (if Span_ContainsKey span key then True else Spans_ContainsKey a key)"

section \<open>Ranges of addressed keys\<close>

record RSpan =
  RKey :: bytes
  REndKey :: bytes

record RangeDescriptor =
  StartKey :: bytes
  DescEndKey :: bytes

definition RSpan_ContainsKey :: "RSpan \<Rightarrow> bytes \<Rightarrow> bool" where
  "RSpan_ContainsKey rs key \<longleftrightarrow> bytes_compare key (RKey rs) \<ge> 0 \<and> bytes_compare key (REndKey rs) < 0"

definition RSpan_ContainsKeyInverted :: "RSpan \<Rightarrow> bytes \<Rightarrow> bool" where
  "RSpan_ContainsKeyInverted rs key \<longleftrightarrow> bytes_compare key (RKey rs) > 0 \<and> bytes_compare key (REndKey rs) \<le> 0"

definition RSpan_ContainsKeyRange :: "RSpan \<Rightarrow> bytes \<Rightarrow> bytes \<Rightarrow> bool" where
  "RSpan_ContainsKeyRange rs start en \<longleftrightarrow>
     (if length en = 0 then RSpan_ContainsKey rs start
      else let comp = bytes_compare en start
           in if comp < 0 then False
              else if comp = 0 then RSpan_ContainsKey rs start
              else bytes_compare start (RKey rs) \<ge> 0 \<and> bytes_compare (REndKey rs) en \<ge> 0)"

definition RangeDescriptor_RSpan :: "RangeDescriptor \<Rightarrow> RSpan" where
  "RangeDescriptor_RSpan r = \<lparr>RKey = StartKey r, REndKey = DescEndKey r\<rparr>"

definition RangeDescriptor_ContainsKeyRange :: "RangeDescriptor \<Rightarrow> bytes \<Rightarrow> bytes \<Rightarrow> bool" where
  "RangeDescriptor_ContainsKeyRange r start en = RSpan_ContainsKeyRange (RangeDescriptor_RSpan r) start en"

definition RSpan_Intersect :: "RSpan \<Rightarrow> RangeDescriptor \<Rightarrow> go_error + RSpan" where
  "RSpan_Intersect rs desc =
     (if \<not> bytes_compare (RKey rs) (DescEndKey desc) < 0 \<or> \<not> bytes_compare (StartKey desc) (REndKey rs) < 0
      then Inl (Errorf ''span and descriptor's range do not overlap'')
      else let key = RKey rs;
               key = (if bytes_compare key (StartKey desc) < 0 then StartKey desc else key);
               endKey = REndKey rs;
               endKey = (if \<not> RangeDescriptor_ContainsKeyRange desc (StartKey desc) endKey
                         then DescEndKey desc else endKey)
           in Inr \<lparr>RKey = key, REndKey = endKey\<rparr>)"

section \<open>Merging and subtracting\<close>

text \<open>\<open>sortedSpans.Less\<close> compares the start keys and then the end keys; \<open>Spans.Less\<close> the start keys only.\<close>

definition sort_spans :: "Span list \<Rightarrow> Span list" where
  "sort_spans spans = sort_key (\<lambda>s. (Key s, endk s)) spans"

text \<open>One iteration of the loop of \<open>MergeSpans\<close>; \<open>r\<close> is never empty.\<close>

definition merge_step :: "Span \<Rightarrow> Span list \<times> bool \<Rightarrow> Span list \<times> bool" where
  "merge_step cur = (\<lambda>(r, distinct).
     let prev = last r in
     if length (endk cur) = 0 \<and> length (endk prev) = 0 then
       if bytes_compare (Key cur) (Key prev) \<noteq> 0 then (r @ [cur], distinct) else (r, False)
     else if length (endk prev) = 0 then
       if bytes_compare (Key cur) (Key prev) = 0 then (butlast r @ [prev\<lparr>EndKey := EndKey cur\<rparr>], False)
       else (r @ [cur], distinct)
     else let c = bytes_compare (endk prev) (Key cur) in
       if c \<ge> 0 then
         if EndKey cur \<noteq> None then
           if bytes_compare (endk prev) (endk cur) < 0 then
             (butlast r @ [prev\<lparr>EndKey := EndKey cur\<rparr>], if c > 0 then False else distinct)
           else (r, False)
         else if c = 0 then (butlast r @ [prev\<lparr>EndKey := Some (Key_Next (Key cur))\<rparr>], distinct)
         else (r, False)
       else (r @ [cur], distinct))"

definition MergeSpans :: "Span list \<Rightarrow> Span list \<times> bool" where
  "MergeSpans spans =
     (case sort_spans spans of [] \<Rightarrow> ([], True)
      | s # ss \<Rightarrow> fold merge_step ss ([s], True))"

definition appendRemaining :: "Span list \<Rightarrow> Span \<Rightarrow> Span list" where
  "appendRemaining remaining s =
     (if length remaining > 0 \<and> endk (last remaining) = Key s
      then butlast remaining @ [(last remaining)\<lparr>EndKey := EndKey s\<rparr>]
      else remaining @ [s])"

text \<open>
  One iteration of the loop of \<open>SubtractSpans\<close>, on what is left of the two lists: the first spans
  \<open>t\<close> and \<open>d\<close> and those after them.
\<close>

definition subtract_step :: "Span \<Rightarrow> Span list \<Rightarrow> Span \<Rightarrow> Span list \<Rightarrow> Span list \<Rightarrow> Span list \<times> Span list \<times> Span list" where
  "subtract_step t ts d ds remaining =
     (let tStart = Key t; tEnd = endk t; dStart = Key d; dEnd = endk d in
      if tStart = tEnd then (ts, d # ds, remaining)
      else if bytes_compare dStart tEnd \<ge> 0 then (ts, d # ds, appendRemaining remaining t)
      else if bytes_compare dEnd tStart \<le> 0 then (t # ts, ds, remaining)
      else let endCmp = bytes_compare dEnd tEnd in
        if bytes_compare dStart tStart \<le> 0 then
          if endCmp < 0 then (t\<lparr>Key := dEnd\<rparr> # ts, ds, remaining)
          else if endCmp > 0 then (ts, d # ds, remaining)
          else (ts, ds, remaining)
        else let remaining = appendRemaining remaining \<lparr>Key = tStart, EndKey = Some dStart\<rparr> in
          if endCmp < 0 then (t\<lparr>Key := dEnd\<rparr> # ts, ds, remaining)
          else if endCmp > 0 then (ts, d # ds, remaining)
          else (ts, ds, remaining))"

lemma subtract_step_shrinks:
  "subtract_step t ts d ds remaining = (ts', ds', r') \<Longrightarrow> length ts' + length ds' < Suc (length ts) + Suc (length ds)"
  by (auto simp: subtract_step_def Let_def split: if_splits)

function subtract_loop :: "Span list \<Rightarrow> Span list \<Rightarrow> Span list \<Rightarrow> Span list" where
  "subtract_loop [] ds remaining = remaining"
| "subtract_loop (t # ts) [] remaining = remaining @ t # ts"
| "subtract_loop (t # ts) (d # ds) remaining =
     (case subtract_step t ts d ds remaining of (ts', ds', remaining') \<Rightarrow> subtract_loop ts' ds' remaining')"
  by pat_completeness auto
termination
  by (relation "measure (\<lambda>(ts, ds, r). length ts + length ds)") (auto split: prod.split dest: subtract_step_shrinks)

definition SubtractSpans :: "Span list \<Rightarrow> Span list \<Rightarrow> Span list" where
  "SubtractSpans todo done =
     (if length done = 0 then todo
      else subtract_loop (sort_key Key todo) (sort_key Key done) [])"

section \<open>Successors and prefixes\<close>

lemma BytesNext_spare: "BytesNext b spare = b @ [0]"
  by (simp add: BytesNext_def split: list.split)

lemma Key_Next_eq: "Key_Next k = k @ [0]"
  by (simp add: Key_Next_def BytesNext_spare)

lemma less_Key_Next: "k < Key_Next m \<longleftrightarrow> k \<le> (m :: bytes)"
  unfolding Key_Next_eq
proof (induction m arbitrary: k)
  case Nil
  then show ?case by (cases k) auto
next
  case (Cons c m)
  then show ?case by (cases k) auto
qed

lemma Key_Next_less: "Key_Next k \<le> m \<longleftrightarrow> k < m"
  using less_Key_Next [of m k] by (meson linorder_not_le)

lemma less_Key_Next_self [simp]: "k < Key_Next k" "\<not> Key_Next k < k" "Key_Next k \<noteq> k" "k \<noteq> Key_Next k" "k \<le> Key_Next k"
proof -
  show "k < Key_Next k" by (simp add: less_Key_Next)
  then show "\<not> Key_Next k < k" "Key_Next k \<noteq> k" "k \<noteq> Key_Next k" "k \<le> Key_Next k" by auto
qed

lemma Key_Next_nonempty [simp]: "Key_Next k \<noteq> []" "[] \<noteq> Key_Next k"
  by (simp_all add: Key_Next_eq)

lemma PrefixEnd_loop_Some:
  assumes "PrefixEnd_loop cs = Some e"
  shows "\<exists>p c n. rev cs = p @ c # replicate n 0xff \<and> c \<noteq> 0xff \<and> e = p @ [c + 1]"
  using assms
proof (induction cs)
  case (Cons c cs)
  show ?case
  proof (cases "c + 1 = 0")
    case False
    moreover have "c \<noteq> 0xff" using False by auto
    ultimately show ?thesis using Cons.prems by (intro exI [of _ "rev cs"] exI [of _ c] exI [of _ 0]) (simp add: Let_def)
  next
    case True
    then have "c = - 1" by (simp add: eq_neg_iff_add_eq_0)
    then have c: "c = 0xff" by simp
    from Cons True obtain p c' n where "rev cs = p @ c' # replicate n 0xff" "c' \<noteq> 0xff" "e = p @ [c' + 1]"
      by (auto simp: Let_def)
    with c show ?thesis
      by (intro exI [of _ p] exI [of _ c'] exI [of _ "Suc n"]) (simp add: replicate_append_same)
  qed
qed simp

lemma minus1_byte: "(- 1 :: byte) = 0xff"
  by simp

lemma PrefixEnd_loop_None: "PrefixEnd_loop cs = None \<longleftrightarrow> (\<forall>c\<in>set cs. c = 0xff)"
proof (induction cs)
  case (Cons c cs)
  have "c + 1 = 0 \<longleftrightarrow> c = 0xff" using eq_neg_iff_add_eq_0 [of c 1] by (simp only: minus1_byte)
  with Cons show ?case by (auto simp: Let_def)
qed simp

lemma prefix_range_byte:
  fixes c :: byte
  assumes "c \<noteq> 0xff"
  shows "prefix (c # replicate n 0xff) k \<longleftrightarrow> c # replicate n 0xff \<le> k \<and> k < [c + 1]"
proof -
  have ff: "b \<le> 0xff" for b :: byte using word_n1_ge [of b] by (simp only: minus1_byte)
  have rep: "prefix (replicate n 0xff) xs \<longleftrightarrow> replicate n 0xff \<le> xs" for xs :: bytes
  proof (induction n arbitrary: xs)
    case (Suc n)
    show ?case
    proof (cases xs)
      case (Cons x xs')
      have "0xff < x \<longleftrightarrow> False" using ff [of x] by (simp add: not_less)
      then show ?thesis using Suc [of xs'] Cons by auto
    qed simp
  qed simp
  have succ: "x < c + 1 \<longleftrightarrow> x \<le> c" for x
  proof -
    have "c \<noteq> - 1" using assms unfolding minus1_byte .
    then have "1 + c \<noteq> 0" by (metis add.commute add_eq_0_iff)
    then show ?thesis using unatSuc [of c] by (simp add: word_less_nat_alt word_le_nat_alt add.commute less_Suc_eq_le)
  qed
  show ?thesis
  proof (cases k)
    case (Cons x xs)
    then show ?thesis using rep [of xs] succ [of x] by (auto simp: not_less)
  qed simp
qed

lemma prefix_append_le: "(p @ xs) \<le> (p @ ys) \<longleftrightarrow> xs \<le> (ys :: bytes)" and prefix_append_lt: "(p @ xs) < (p @ ys) \<longleftrightarrow> xs < (ys :: bytes)"
  by (induction p) auto

lemma between_prefix: "p @ xs \<le> k \<Longrightarrow> k < p @ [c] \<Longrightarrow> prefix p (k :: bytes)"
  by (induction p arbitrary: k) (auto split: list.splits simp: neq_Nil_conv, case_tac k, auto)

text \<open>
  The keys that start with a prefix \<open>b\<close> are exactly those from \<open>b\<close> up to \<open>PrefixEnd b\<close>, for every \<open>b\<close> with
  a byte that is not maximal.
\<close>

theorem PrefixEnd_range:
  assumes "\<exists>c\<in>set b. c \<noteq> 0xff"
  shows "prefix b k \<longleftrightarrow> b \<le> k \<and> k < PrefixEnd b"
proof -
  from assms have ne: "b \<noteq> []" by auto
  from assms obtain e where e: "PrefixEnd_loop (rev b) = Some e"
    using PrefixEnd_loop_None [of "rev b"] by (cases "PrefixEnd_loop (rev b)") auto
  have pe: "PrefixEnd b = e" using e ne by (simp add: PrefixEnd_def)
  obtain p c n where b: "b = p @ c # replicate n 0xff" "c \<noteq> 0xff" "PrefixEnd b = p @ [c + 1]"
    using PrefixEnd_loop_Some [OF e] unfolding rev_rev_ident pe by blast
  show "prefix b k \<longleftrightarrow> b \<le> k \<and> k < PrefixEnd b"
  proof (cases "prefix p k")
    case True
    then obtain k' where k: "k = p @ k'" by (auto elim: prefixE)
    show ?thesis unfolding b(3) unfolding b(1) k prefix_append_le prefix_append_lt same_prefix_prefix
      by (rule prefix_range_byte [OF b(2)])
  next
    case False
    then show ?thesis unfolding b(3) unfolding b(1) using between_prefix [of p _ k "c + 1"] append_prefixD by blast
  qed
qed

theorem PrefixEnd_range_witness: "prefix [1, 0xff :: byte] [1, 0xff, 7] \<longleftrightarrow> [1, 0xff] \<le> [1, 0xff, 7 :: byte] \<and> [1, 0xff, 7] < PrefixEnd [1, 0xff]"
  by (rule PrefixEnd_range) simp

lemma PrefixEnd_snoc: "c \<noteq> 0xff \<Longrightarrow> PrefixEnd (p @ [c]) = p @ [c + 1]"
proof -
  assume "c \<noteq> 0xff"
  then have "c \<noteq> - 1" unfolding minus1_byte .
  then have "c + 1 \<noteq> 0" by (simp add: eq_neg_iff_add_eq_0)
  then show ?thesis by (simp add: PrefixEnd_def Let_def)
qed

text \<open>
  \<open>UndoPrefixEnd\<close> undoes \<open>PrefixEnd\<close> in one direction only. Whenever it succeeds, \<open>PrefixEnd\<close> gives
  back its argument, but it fails on every key that ends in a zero byte, minimal or not; and
  \<open>UndoPrefixEnd (PrefixEnd p)\<close> is \<open>p\<close> only for a \<open>p\<close> that does not end in a maximal byte.
\<close>

theorem UndoPrefixEnd_inverse:
  "(UndoPrefixEnd b = Some p \<longrightarrow> PrefixEnd p = b) \<and> UndoPrefixEnd (q @ [0]) = None \<and>
   (c \<noteq> 0xff \<longrightarrow> UndoPrefixEnd (PrefixEnd (q @ [c])) = Some (q @ [c])) \<and>
   (c \<noteq> 0xff \<longrightarrow> UndoPrefixEnd (PrefixEnd (q @ [c, 0xff])) = Some (q @ [c]))"
proof (intro conjI impI)
  assume u: "UndoPrefixEnd b = Some p"
  then obtain q x where b: "b = q @ [x]" by (cases b rule: rev_cases) (auto simp: UndoPrefixEnd_def)
  with u have x: "x \<noteq> 0" "p = q @ [x - 1]" by (auto simp: UndoPrefixEnd_def split: if_splits)
  from x(1) have "x - 1 \<noteq> - 1" by simp
  then have "x - 1 \<noteq> 0xff" unfolding minus1_byte .
  then show "PrefixEnd p = b" using PrefixEnd_snoc [of "x - 1" q] b x by simp
next
  assume "c \<noteq> 0xff"
  then have "c \<noteq> - 1" unfolding minus1_byte .
  then have c: "c + 1 \<noteq> 0" by (simp add: eq_neg_iff_add_eq_0)
  then show "UndoPrefixEnd (PrefixEnd (q @ [c])) = Some (q @ [c])"
    using \<open>c \<noteq> 0xff\<close> by (simp add: PrefixEnd_snoc UndoPrefixEnd_def)
  have "PrefixEnd (q @ [c, 0xff]) = q @ [c + 1]" using c by (simp add: PrefixEnd_def Let_def)
  then show "UndoPrefixEnd (PrefixEnd (q @ [c, 0xff])) = Some (q @ [c])" using c by (simp add: UndoPrefixEnd_def)
qed (simp add: UndoPrefixEnd_def)

theorem UndoPrefixEnd_inverse_witness:
  "UndoPrefixEnd (PrefixEnd [1, 0xff]) = Some [1] \<and> PrefixEnd [1, 4] = [1, 5]"
proof -
  have "UndoPrefixEnd [1, 5] = Some [1, 4]" by (simp add: UndoPrefixEnd_def)
  then show ?thesis using UndoPrefixEnd_inverse [of "[1, 5]" "[1, 4]" "[]" 1] by simp
qed

section \<open>Spans as sets of keys\<close>

definition span_set :: "Span \<Rightarrow> bytes set" where
  "span_set s = (if \<not> Span_Valid s then {} else if endk s = [] then {Key s} else {k. Key s \<le> k \<and> k < endk s})"

lemma Nil_less_bytes [simp]: "[] < (b :: bytes) \<longleftrightarrow> b \<noteq> []"
  by (cases b) auto

lemma Span_Valid_iff: "Span_Valid s \<longleftrightarrow> (if endk s = [] then Key s \<noteq> [] else Key s < endk s)"
  by (auto simp: Span_Valid_def)

lemma span_set_single: "endk s = [] \<Longrightarrow> span_set s = (if Key s = [] then {} else {Key s})"
  by (simp add: span_set_def Span_Valid_iff)

lemma span_set_range: "endk s \<noteq> [] \<Longrightarrow> span_set s = {k. Key s \<le> k \<and> k < endk s}"
  by (auto simp: span_set_def Span_Valid_iff)

lemma span_set_empty_iff: "span_set s = {} \<longleftrightarrow> \<not> Span_Valid s"
proof (cases "endk s = []")
  case False
  have "Key s \<in> {k. Key s \<le> k \<and> k < endk s}" if "Key s < endk s" using that by simp
  with False show ?thesis by (auto simp: span_set_range Span_Valid_iff)
qed (simp add: span_set_single Span_Valid_iff)

text \<open>The span from the lowest to the highest key of a set, nothing left out.\<close>

definition hull :: "bytes set \<Rightarrow> bytes set" where
  "hull U = {k. \<exists>a\<in>U. \<exists>b\<in>U. a \<le> k \<and> k \<le> b}"

lemma range_inter:
  "{k. a \<le> k \<and> k < b} \<inter> {k. c \<le> k \<and> k < d} = {k :: bytes. max a c \<le> k \<and> k < min b d}"
  by auto

lemma range_union:
  "a \<le> c \<Longrightarrow> c \<le> b \<Longrightarrow> {k. a \<le> k \<and> k < b} \<union> {k. c \<le> k \<and> k < d} = {k :: bytes. a \<le> k \<and> k < max b d}"
proof (rule set_eqI)
  fix k
  assume "a \<le> c" "c \<le> b"
  then show "k \<in> {k. a \<le> k \<and> k < b} \<union> {k. c \<le> k \<and> k < d} \<longleftrightarrow> k \<in> {k. a \<le> k \<and> k < max b d}"
    using order_trans [of a c k] order_trans [of c b k] by (cases "k < b") (auto simp: less_max_iff_disj not_less)
qed

lemma range_nonempty: "{k :: bytes. a \<le> k \<and> k < b} \<noteq> {} \<longleftrightarrow> a < b"
  using order_le_less_trans by fastforce

lemma range_subset: "a < b \<Longrightarrow> {k. a \<le> k \<and> k < b} \<subseteq> {k :: bytes. c \<le> k \<and> k < d} \<longleftrightarrow> c \<le> a \<and> b \<le> d"
proof
  assume ab: "a < b" and sub: "{k. a \<le> k \<and> k < b} \<subseteq> {k. c \<le> k \<and> k < d}"
  have "a \<in> {k. c \<le> k \<and> k < d}" using sub ab by auto
  moreover have "b \<le> d"
  proof (rule ccontr)
    assume "\<not> b \<le> d"
    then have "max a d \<in> {k. a \<le> k \<and> k < b}" using ab by (auto simp: max_def)
    with sub have "max a d < d" by blast
    then show False by simp
  qed
  ultimately show "c \<le> a \<and> b \<le> d" by simp
qed auto

lemma Overlaps_iff: "Span_Overlaps s t \<longleftrightarrow> span_set s \<inter> span_set t \<noteq> {}"
proof (cases "Span_Valid s \<and> Span_Valid t")
  case False
  then show ?thesis using span_set_empty_iff by (auto simp: Span_Overlaps_def)
next
  case True
  show ?thesis
  proof (cases "endk s = [] \<or> endk t = []")
    case True
    then show ?thesis using \<open>Span_Valid s \<and> Span_Valid t\<close>
      by (auto simp: Span_Overlaps_def span_set_def)
  next
    case False
    then have e: "endk s \<noteq> []" "endk t \<noteq> []" by simp_all
    have "span_set s \<inter> span_set t \<noteq> {} \<longleftrightarrow> max (Key s) (Key t) < min (endk s) (endk t)"
      unfolding span_set_range [OF e(1)] span_set_range [OF e(2)] range_inter range_nonempty ..
    then show ?thesis using False \<open>Span_Valid s \<and> Span_Valid t\<close>
      by (auto simp: Span_Overlaps_def Span_Valid_iff)
  qed
qed

lemma Intersect_set: "span_set (Span_Intersect s t) = span_set s \<inter> span_set t"
proof (cases "Span_Overlaps s t")
  case False
  then show ?thesis using Overlaps_iff [of s t]
    by (simp add: Span_Intersect_def empty_span_def span_set_single nil_bytes_def)
next
  case True
  then have v: "Span_Valid s" "Span_Valid t" by (auto simp: Span_Overlaps_def split: if_splits)
  have ne: "span_set s \<inter> span_set t \<noteq> {}" using True Overlaps_iff by blast
  show ?thesis
  proof (cases "endk s = [] \<or> endk t = []")
    case True
    then show ?thesis using ne v \<open>Span_Overlaps s t\<close> by (auto simp: Span_Intersect_def span_set_def split: if_splits)
  next
    case False
    then have "Span_Intersect s t = \<lparr>Key = max (Key s) (Key t), EndKey = (if endk t < endk s then EndKey t else EndKey s)\<rparr>"
      using True by (auto simp: Span_Intersect_def Let_def max_def not_less)
    then have "Key (Span_Intersect s t) = max (Key s) (Key t)" "endk (Span_Intersect s t) = min (endk s) (endk t)"
      by (auto simp: min_def)
    then show ?thesis using False by (simp add: span_set_range range_inter min_def)
  qed
qed

lemma Contains_iff:
  "Span_Contains s t \<longleftrightarrow> Span_Valid s \<and> Span_Valid t \<and> span_set t \<subseteq> span_set s \<and> \<not> (endk s = [] \<and> endk t \<noteq> [])"
proof (cases "Span_Valid s \<and> Span_Valid t")
  case True
  then show ?thesis using range_subset [of "Key t" "endk t" "Key s" "endk s"]
    by (auto simp: Span_Contains_def span_set_def Span_Valid_iff)
qed (auto simp: Span_Contains_def)

text \<open>The exclusive upper bound of a span; a single key is a span of one element.\<close>

definition up :: "Span \<Rightarrow> bytes" where
  "up s = (if endk s = [] then Key_Next (Key s) else endk s)"

lemma span_set_up: "Span_Valid s \<Longrightarrow> span_set s = {k. Key s \<le> k \<and> k < up s}"
  by (auto simp: span_set_def up_def less_Key_Next)

lemma Key_less_up: "Span_Valid s \<Longrightarrow> Key s < up s"
  by (auto simp: Span_Valid_iff up_def less_Key_Next split: if_splits)

lemma hull_ranges:
  assumes "a < b" "c < d"
  shows "hull ({k. a \<le> k \<and> k < b} \<union> {k. c \<le> k \<and> k < d}) = {k :: bytes. min a c \<le> k \<and> k < max b d}" (is "hull ?U = _")
proof (rule set_eqI)
  fix k
  have m: "min a c \<in> ?U" using assms by (auto simp: min_def)
  have "\<exists>y\<in>?U. k \<le> y" if "k < max b d"
  proof (cases "k < b")
    case True
    then have "max k a \<in> ?U" using assms by (auto simp: max_def)
    then show ?thesis by (meson max.cobounded1)
  next
    case False
    then have "max k c \<in> ?U" using assms that by (auto simp: max_def split: if_splits)
    then show ?thesis by (meson max.cobounded1)
  qed
  then show "k \<in> hull ?U \<longleftrightarrow> k \<in> {k. min a c \<le> k \<and> k < max b d}"
    using m unfolding hull_def by (auto simp: min_def max_def split: if_splits)
qed

text \<open>The lower and the exclusive upper bound that \<open>Combine\<close> computes.\<close>

lemma Combine_eq:
  assumes "Span_Valid s" "Span_Valid t"
  shows "Span_Combine s t =
    (if endk s = [] \<and> endk t = [] \<and> Key s = Key t then \<lparr>Key = Key s, EndKey = None\<rparr>
     else \<lparr>Key = min (Key s) (Key t), EndKey = Some (max (up s) (up t))\<rparr>)"
proof -
  let ?a = "Key s" and ?c = "Key t"
  have next_le: "Key_Next x \<le> y" "max (Key_Next x) y = y" "max y (Key_Next x) = y" if "x < y" for x y :: bytes
    using that Key_Next_less [of x y] by (auto simp: max_def)
  have le_next: "max (Key_Next x) y = Key_Next x" "max y (Key_Next x) = Key_Next x" if "y \<le> x" for x y :: bytes
    using that less_Key_Next [of y x] by (auto simp: max_def)
  have next_max: "max (Key_Next x) (Key_Next y) = Key_Next (max x y)" for x y :: bytes
    using less_Key_Next [of "Key_Next x" y] Key_Next_less [of x y] Key_Next_less [of x "Key_Next y"] less_Key_Next [of x y]
    by (auto simp: max_def not_le)
  consider "endk s = []" "endk t = []" | "endk s = []" "endk t \<noteq> []" | "endk s \<noteq> []" "endk t = []" | "endk s \<noteq> []" "endk t \<noteq> []"
    by blast
  then show ?thesis
  proof cases
    case 1
    then show ?thesis using assms by (cases ?a ?c rule: linorder_cases) (auto simp: Span_Combine_def Let_def up_def next_max)
  next
    case 2
    then have "?c < endk t" using assms by (simp add: Span_Valid_iff)
    with 2 show ?thesis using assms
      by (cases ?a ?c rule: linorder_cases; cases ?a "endk t" rule: linorder_cases)
        (auto simp: Span_Combine_def Let_def up_def next_le le_next)
  next
    case 3
    then have "?a < endk s" using assms by (simp add: Span_Valid_iff)
    with 3 show ?thesis using assms
      by (cases ?a ?c rule: linorder_cases; cases ?c "endk s" rule: linorder_cases)
        (auto simp: Span_Combine_def Let_def up_def next_le le_next)
  next
    case 4
    then have "?a < endk s" "?c < endk t" using assms by (simp_all add: Span_Valid_iff)
    note lt = this
    have m: "(if endk s < endk t then endk t else endk s) = max (endk s) (endk t)" by (auto simp: max_def)
    have ne: "?a \<noteq> max (endk s) (endk t)" "?c \<noteq> max (endk s) (endk t)" using lt by (auto simp: max_def split: if_splits)
    consider "?c < ?a" | "\<not> ?c < ?a" "endk s < ?c" | "\<not> ?c < ?a" "\<not> endk s < ?c" by blast
    then show ?thesis
    proof cases
      case 1
      then have "min ?a ?c = ?c" by (auto simp: min_def)
      then show ?thesis using assms 4 ne m 1 by (simp add: Span_Combine_def Let_def up_def)
    next
      case 2
      then have "endk s < endk t" "max (endk s) (endk t) = endk t" using lt by (auto simp: max_def)
      then show ?thesis using assms 4 ne lt 2 by (simp add: Span_Combine_def Let_def up_def)
    next
      case 3
      then have "min ?a ?c = ?a" by (auto simp: min_def)
      then show ?thesis using assms 4 ne m 3 by (simp add: Span_Combine_def Let_def up_def)
    qed
  qed
qed

lemma nil_bytes_simps [simp]: "nil_bytes None = []" "nil_bytes (Some b) = b"
  by (simp_all add: nil_bytes_def)

lemma Combine_bounds:
  assumes "Span_Valid s" "Span_Valid t"
  shows "Span_Valid (Span_Combine s t) \<and> Key (Span_Combine s t) = min (Key s) (Key t) \<and>
    up (Span_Combine s t) = max (up s) (up t)"
proof (cases "endk s = [] \<and> endk t = [] \<and> Key s = Key t")
  case True
  then have "Span_Combine s t = \<lparr>Key = Key s, EndKey = None\<rparr>" using Combine_eq [OF assms] by simp
  with True assms show ?thesis by (simp add: Span_Valid_iff up_def)
next
  case False
  then have c: "Span_Combine s t = \<lparr>Key = min (Key s) (Key t), EndKey = Some (max (up s) (up t))\<rparr>"
    using Combine_eq [OF assms] by simp
  have lt: "min (Key s) (Key t) < max (up s) (up t)" using Key_less_up [OF assms(1)] by (auto simp: min_def max_def)
  then have "max (up s) (up t) \<noteq> []" by (metis not_less_Nil)
  with lt show ?thesis by (simp add: c Span_Valid_iff up_def [of "\<lparr>Key = k, EndKey = e\<rparr>" for k e])
qed

lemma Combine_set:
  assumes "Span_Valid s" "Span_Valid t"
  shows "span_set (Span_Combine s t) = hull (span_set s \<union> span_set t)"
  using hull_ranges [OF Key_less_up Key_less_up, OF assms] Combine_bounds [OF assms] assms
  by (simp add: span_set_up)

text \<open>
  Spans compute on sets of keys: \<open>Overlaps\<close> is a common key, \<open>Intersect\<close> the intersection,
  \<open>Combine\<close> the smallest contiguous set that holds both, \<open>Contains\<close> inclusion (but a single key
  is never said to contain a range, not even the range of just that key), and \<open>SplitOnKey\<close> cuts a
  span into the keys below and the keys from the split key on.
\<close>

theorem span_operations:
  assumes "Span_Valid s" "Span_Valid t"
  shows "(Span_Overlaps s t \<longleftrightarrow> span_set s \<inter> span_set t \<noteq> {}) \<and>
    span_set (Span_Intersect s t) = span_set s \<inter> span_set t \<and>
    span_set (Span_Combine s t) = hull (span_set s \<union> span_set t) \<and>
    (Span_Contains s t \<longleftrightarrow> span_set t \<subseteq> span_set s \<and> (endk s = [] \<longrightarrow> endk t = [])) \<and>
    (\<forall>l r. SplitOnKey s k = (l, r) \<longrightarrow> ProperlyContainsKey s k \<longrightarrow>
      span_set l = {x\<in>span_set s. x < k} \<and> span_set r = {x\<in>span_set s. k \<le> x}) \<and>
    (\<not> ProperlyContainsKey s k \<longrightarrow> SplitOnKey s k = (s, empty_span))"
proof -
  have split: "span_set l = {x\<in>span_set s. x < k} \<and> span_set r = {x\<in>span_set s. k \<le> x}"
    if "SplitOnKey s k = (l, r)" "ProperlyContainsKey s k" for l r
  proof -
    have k: "Key s < k" "k < endk s" using that(2) by (simp_all add: ProperlyContainsKey_def)
    then have ne: "endk s \<noteq> []" "k \<noteq> []" by (metis not_less_Nil)+
    have "l = \<lparr>Key = Key s, EndKey = Some k\<rparr>" "r = \<lparr>Key = k, EndKey = EndKey s\<rparr>"
      using that(1) k by (auto simp: SplitOnKey_def not_less split: if_splits)
    then show ?thesis using k ne by (auto simp: span_set_range nil_bytes_def split: option.splits)
  qed
  show ?thesis
    using split Overlaps_iff Intersect_set Combine_set [OF assms] Contains_iff [of s t] assms
    by (auto simp: SplitOnKey_def ProperlyContainsKey_def)
qed

theorem span_operations_witness:
  "Span_Overlaps \<lparr>Key = [1], EndKey = Some [5]\<rparr> \<lparr>Key = [4], EndKey = None\<rparr> \<longleftrightarrow>
    span_set \<lparr>Key = [1], EndKey = Some [5]\<rparr> \<inter> span_set \<lparr>Key = [4], EndKey = None\<rparr> \<noteq> {}"
proof -
  have "Span_Valid \<lparr>Key = [1], EndKey = Some [5]\<rparr>" "Span_Valid \<lparr>Key = [4], EndKey = None\<rparr>"
    by (simp_all add: Span_Valid_iff nil_bytes_def)
  from span_operations [OF this] show ?thesis by blast
qed

section \<open>Merging\<close>

text \<open>
  The spans \<open>MergeSpans\<close> is meant for: valid, and an end key that is not there is \<open>nil\<close>, not an
  empty slice.
\<close>

definition nil_ended :: "Span \<Rightarrow> bool" where
  "nil_ended s \<longleftrightarrow> Span_Valid s \<and> EndKey s \<noteq> Some []"

definition spans_set :: "Span list \<Rightarrow> bytes set" where
  "spans_set ss = (\<Union>s\<in>set ss. span_set s)"

text \<open>All keys of the first span are below all keys of the second.\<close>

definition below :: "Span \<Rightarrow> Span \<Rightarrow> bool" where
  "below s t \<longleftrightarrow> up s \<le> Key t"

abbreviation disjoint_spans :: "Span list \<Rightarrow> bool" where
  "disjoint_spans \<equiv> sorted_wrt (\<lambda>s t. span_set s \<inter> span_set t = {})"

lemma spans_set_simps [simp]:
  "spans_set [] = {}" "spans_set (s # ss) = span_set s \<union> spans_set ss"
  "spans_set (ss @ ts) = spans_set ss \<union> spans_set ts"
  by (auto simp: spans_set_def)

lemma nil_ended_endk: "nil_ended s \<Longrightarrow> endk s = [] \<longleftrightarrow> EndKey s = None"
  by (auto simp: nil_ended_def nil_bytes_def split: option.splits)

text \<open>What one iteration does with the last merged span and the next one.\<close>

definition merged :: "Span \<Rightarrow> Span \<Rightarrow> Span list \<Rightarrow> bool" where
  "merged prev cur new \<longleftrightarrow> list_all nil_ended new \<and> new \<noteq> [] \<and> Key (hd new) = Key prev \<and>
     spans_set new = span_set prev \<union> span_set cur \<and> sorted_wrt below new \<and> Key (last new) \<le> Key cur"

lemma ranges_disjoint:
  "Span_Valid s \<Longrightarrow> Span_Valid t \<Longrightarrow> Key s \<le> Key t \<Longrightarrow> span_set s \<inter> span_set t = {} \<longleftrightarrow> below s t"
  using Key_less_up [of t] unfolding span_set_up below_def by (auto simp: not_le)

lemma merged_append: "nil_ended prev \<Longrightarrow> nil_ended cur \<Longrightarrow> up prev \<le> Key cur \<Longrightarrow> merged prev cur [prev, cur]"
  by (simp add: merged_def below_def)

lemma merged_same: "nil_ended prev \<Longrightarrow> Key prev \<le> Key cur \<Longrightarrow> span_set cur \<subseteq> span_set prev \<Longrightarrow> merged prev cur [prev]"
  by (auto simp: merged_def)

lemma merged_extend:
  assumes "nil_ended prev" "nil_ended cur" "Key prev \<le> Key cur" "Key cur \<le> up prev" "e \<noteq> []" "e = max (up prev) (up cur)"
  shows "merged prev cur [prev\<lparr>EndKey := Some e\<rparr>]"
proof -
  have v: "Span_Valid prev" "Span_Valid cur" using assms by (simp_all add: nil_ended_def)
  have "Key prev < e" using assms(6) Key_less_up [OF v(1)] by (auto simp: max_def)
  moreover have "span_set (prev\<lparr>EndKey := Some e\<rparr>) = {k. Key prev \<le> k \<and> k < e}"
    using assms(5) by (simp add: span_set_range nil_bytes_def)
  then have "span_set (prev\<lparr>EndKey := Some e\<rparr>) = span_set prev \<union> span_set cur"
    unfolding span_set_up [OF v(1)] span_set_up [OF v(2)] range_union [OF assms(3,4)] assms(6) .
  ultimately show ?thesis using assms(3,5) by (simp add: merged_def nil_ended_def Span_Valid_iff nil_bytes_def)
qed

definition step_ok :: "Span \<Rightarrow> Span \<Rightarrow> Span list \<Rightarrow> bool" where
  "step_ok prev cur new \<longleftrightarrow> merged prev cur new \<and>
     (\<forall>r d. merge_step cur (r @ [prev], d) = (r @ new, d \<and> up prev \<le> Key cur))"

lemma nil_endedE:
  assumes "nil_ended s"
  obtains "EndKey s = None" "endk s = []" "up s = Key_Next (Key s)"
  | e where "EndKey s = Some e" "e \<noteq> []" "endk s = e" "up s = e" "Key s < e"
  using assms by (cases "EndKey s") (auto simp: nil_ended_def up_def nil_bytes_def Span_Valid_iff)

lemma step_single:
  assumes "nil_ended prev" "nil_ended cur" "Key prev \<le> Key cur" "EndKey prev = None"
  shows "\<exists>new. step_ok prev cur new"
proof (cases "Key prev = Key cur")
  case False
  have p: "endk prev = []" "up prev = Key_Next (Key prev)" using assms(4) by (simp_all add: nil_bytes_def up_def)
  with False assms(3) have "up prev \<le> Key cur" by (simp add: Key_Next_less)
  with False assms p merged_append show ?thesis by (intro exI [of _ "[prev, cur]"]) (simp add: step_ok_def merge_step_def)
next
  case True
  have p: "endk prev = []" "up prev = Key_Next (Key prev)" using assms(4) by (simp_all add: nil_bytes_def up_def)
  then have nd: "\<not> up prev \<le> Key cur" using True by (simp add: not_le)
  from assms(2) show ?thesis
  proof (cases rule: nil_endedE)
    case 1
    then have "merged prev cur [prev]" using True p assms by (intro merged_same) (simp_all add: span_set_single)
    with 1 True nd p show ?thesis by (intro exI [of _ "[prev]"]) (simp add: step_ok_def merge_step_def)
  next
    case (2 q)
    then have "merged prev cur [prev\<lparr>EndKey := Some q\<rparr>]"
      using True assms p by (intro merged_extend) (auto simp: Key_Next_less max_def)
    with 2 True nd p show ?thesis
      by (intro exI [of _ "[prev\<lparr>EndKey := Some q\<rparr>]"]) (simp add: step_ok_def merge_step_def)
  qed
qed

lemma step_range:
  assumes "nil_ended prev" "nil_ended cur" "Key prev \<le> Key cur" "EndKey prev = Some p" "p \<noteq> []"
  shows "\<exists>new. step_ok prev cur new"
proof -
  have p: "endk prev = p" "up prev = p" using assms(4,5) by (simp_all add: nil_bytes_def up_def)
  show ?thesis
  proof (cases "p < Key cur")
    case True
    then show ?thesis using assms p merged_append by (intro exI [of _ "[prev, cur]"]) (auto simp: step_ok_def merge_step_def Let_def)
  next
    case ge: False
    from assms(2) show ?thesis
    proof (cases rule: nil_endedE)
      case 1
      have "merged prev cur [prev\<lparr>EndKey := Some (Key_Next p)\<rparr>]" if "p = Key cur"
        using that assms 1 p by (intro merged_extend) (auto simp: max_def)
      moreover have "merged prev cur [prev]" if "p \<noteq> Key cur"
        using that assms 1 p ge by (intro merged_same) (auto simp: span_set_single span_set_range)
      ultimately have "merged prev cur (if p = Key cur then [prev\<lparr>EndKey := Some (Key_Next p)\<rparr>] else [prev])"
        by simp
      with 1 p assms(5) ge show ?thesis
        by (intro exI [of _ "if p = Key cur then [prev\<lparr>EndKey := Some (Key_Next p)\<rparr>] else [prev]"])
          (auto simp: step_ok_def merge_step_def Let_def)
    next
      case (2 q)
      have "merged prev cur [prev\<lparr>EndKey := Some q\<rparr>]" if "p < q"
        using that assms 2 p ge by (intro merged_extend) (auto simp: max_def)
      moreover have "merged prev cur [prev]" if "\<not> p < q"
        using that assms 2 p ge by (intro merged_same) (auto simp: span_set_range)
      ultimately have "merged prev cur (if p < q then [prev\<lparr>EndKey := Some q\<rparr>] else [prev])"
        by simp
      with 2 p assms(5) ge show ?thesis
        by (intro exI [of _ "if p < q then [prev\<lparr>EndKey := Some q\<rparr>] else [prev]"])
          (auto simp: step_ok_def merge_step_def Let_def)
    qed
  qed
qed

lemma merge_step_last:
  assumes "nil_ended prev" "nil_ended cur" "Key prev \<le> Key cur"
  shows "\<exists>new. (\<forall>r d. merge_step cur (r @ [prev], d) = (r @ new, d \<and> span_set prev \<inter> span_set cur = {})) \<and> merged prev cur new"
proof -
  have "\<exists>new. step_ok prev cur new"
    using assms(1)
  proof (cases rule: nil_endedE)
    case 1
    with assms show ?thesis by (intro step_single)
  next
    case (2 e)
    with assms show ?thesis by (intro step_range)
  qed
  moreover have "span_set prev \<inter> span_set cur = {} \<longleftrightarrow> up prev \<le> Key cur"
    using ranges_disjoint [of prev cur] assms by (simp add: below_def nil_ended_def)
  ultimately show ?thesis by (auto simp: step_ok_def)
qed

text \<open>The invariant of the loop: what the spans read so far have become.\<close>

definition merge_inv :: "Span list \<Rightarrow> Span list \<times> bool \<Rightarrow> bool" where
  "merge_inv seen = (\<lambda>(r, d). r \<noteq> [] \<and> list_all nil_ended r \<and> spans_set r = spans_set seen \<and>
     sorted_wrt below r \<and> (d \<longleftrightarrow> disjoint_spans seen))"

lemma below_trans: "nil_ended t \<Longrightarrow> below s t \<Longrightarrow> below t u \<Longrightarrow> below s u"
  using Key_less_up [of t] by (auto simp: below_def nil_ended_def)

lemma merge_step_inv:
  assumes "merge_inv seen (r, d)" "nil_ended cur" "Key (last r) \<le> Key cur" 
  shows "merge_inv (seen @ [cur]) (merge_step cur (r, d)) \<and> Key (last (fst (merge_step cur (r, d)))) \<le> Key cur"
proof -
  define q prev where "q = butlast r" "prev = last r"
  have r: "r = q @ [prev]" using assms(1) by (simp add: merge_inv_def q_prev_def)
  have inv: "list_all nil_ended q" "nil_ended prev" "spans_set q \<union> span_set prev = spans_set seen"
    "sorted_wrt below q" "\<forall>s\<in>set q. below s prev" "d \<longleftrightarrow> disjoint_spans seen"
    using assms(1) by (auto simp: merge_inv_def r sorted_wrt_append)
  have le: "Key prev \<le> Key cur" using assms(3) r by simp
  obtain new where new: "\<forall>r d. merge_step cur (r @ [prev], d) = (r @ new, d \<and> span_set prev \<inter> span_set cur = {})" "merged prev cur new"
    using merge_step_last [OF inv(2) assms(2) le] by blast
  have "span_set s \<inter> span_set cur = {}" if "s \<in> set q" for s
  proof -
    have "nil_ended s" "below s prev" using that inv by (auto simp: list_all_iff)
    then have "Span_Valid s" "up s \<le> Key prev" "Key prev \<le> Key cur" using assms(3) r by (auto simp: nil_ended_def below_def)
    then show ?thesis using assms(2) by (auto simp: span_set_up nil_ended_def)
  qed
  then have "spans_set q \<inter> span_set cur = {}" by (auto simp: spans_set_def)
  then have "spans_set seen \<inter> span_set cur = {} \<longleftrightarrow> span_set prev \<inter> span_set cur = {}" using inv(3) by blast
  then have d: "(d \<and> span_set prev \<inter> span_set cur = {}) \<longleftrightarrow> disjoint_spans (seen @ [cur])"
    using inv(6) by (auto simp: sorted_wrt_append spans_set_def)
  obtain n ns where ns: "new = n # ns" using new(2) by (cases new) (auto simp: merged_def)
  have "below s n" if "s \<in> set q" for s using inv(5) that new(2) ns by (auto simp: below_def merged_def)
  moreover have "below n t" "nil_ended n" if "t \<in> set ns" for t using that new(2) ns by (auto simp: merged_def)
  ultimately have "\<forall>s\<in>set q. \<forall>t\<in>set new. below s t" using below_trans ns by fastforce
  then show ?thesis using new inv d r by (auto simp: merge_inv_def merged_def sorted_wrt_append)
qed

lemma merge_fold_inv:
  assumes "merge_inv seen (r, d)" "list_all nil_ended ss" "sorted (map Key ss)" "\<forall>s\<in>set ss. Key (last r) \<le> Key s"
  shows "merge_inv (seen @ ss) (fold merge_step ss (r, d))"
  using assms
proof (induction ss arbitrary: seen r d)
  case (Cons s ss)
  obtain r' d' where s: "merge_step s (r, d) = (r', d')" by fastforce
  have "merge_inv (seen @ [s]) (r', d')" "Key (last r') \<le> Key s"
    using merge_step_inv [OF Cons.prems(1), of s] Cons.prems s by auto
  then have "merge_inv ((seen @ [s]) @ ss) (fold merge_step ss (r', d'))"
    using Cons.prems by (intro Cons.IH) auto
  then show ?case using s by simp
qed simp

lemma sorted_wrt_perm:
  assumes "mset xs = mset ys" "\<And>x y. P x y \<Longrightarrow> P y x"
  shows "sorted_wrt P xs \<longleftrightarrow> sorted_wrt P ys"
  using assms(1)
proof (induction xs arbitrary: ys)
  case (Cons x xs)
  then have "x \<in> set ys" by (metis list.set_intros(1) set_mset_mset)
  then obtain us vs where ys: "ys = us @ x # vs" by (auto dest: split_list)
  then have m: "mset xs = mset (us @ vs)" using Cons.prems by simp
  then have "set xs = set us \<union> set vs" by (metis set_append set_mset_mset)
  then show ?case using Cons.IH [OF m] assms(2) unfolding ys by (auto simp: sorted_wrt_append)
qed simp



text \<open>
  An end key that is empty but not \<open>nil\<close> makes \<open>MergeSpans\<close> drop a key: merging the range
  \<open>[b, c)\<close> with the single key \<open>c\<close> given in this form loses \<open>c\<close>, which with a \<open>nil\<close> end key it keeps.
\<close>

theorem MergeSpans_drops_key:
  "[3] \<in> span_set \<lparr>Key = [3], EndKey = Some []\<rparr> \<and>
   [3] \<notin> spans_set (fst (MergeSpans [\<lparr>Key = [2], EndKey = Some [3]\<rparr>, \<lparr>Key = [3], EndKey = Some []\<rparr>])) \<and>
   [3] \<in> spans_set (fst (MergeSpans [\<lparr>Key = [2], EndKey = Some [3]\<rparr>, \<lparr>Key = [3], EndKey = None\<rparr>]))"
  by (simp add: MergeSpans_def sort_spans_def merge_step_def nil_bytes_def Key_Next_eq span_set_def Span_Valid_iff)

section \<open>Subtracting\<close>

definition proper :: "Span \<Rightarrow> bool" where
  "proper s \<longleftrightarrow> Key s < endk s"

lemma proper_set: "proper s \<Longrightarrow> span_set s = {k. Key s \<le> k \<and> k < endk s}"
  and proper_up: "proper s \<Longrightarrow> up s = endk s"
proof -
  have "endk s \<noteq> []" if "proper s" using that not_less_Nil [of "Key s"] by (auto simp: proper_def)
  then show "proper s \<Longrightarrow> span_set s = {k. Key s \<le> k \<and> k < endk s}" "proper s \<Longrightarrow> up s = endk s"
    by (simp_all add: span_set_range up_def)
qed

lemma proper_valid: "proper s \<Longrightarrow> Span_Valid s"
  by (auto simp: proper_def Span_Valid_iff)

text \<open>Every key of the list is below the bound.\<close>

definition bounded :: "Span list \<Rightarrow> bytes \<Rightarrow> bool" where
  "bounded ss k \<longleftrightarrow> (\<forall>s\<in>set ss. endk s \<le> k)"

abbreviation ascending :: "Span list \<Rightarrow> bool" where
  "ascending ss \<equiv> list_all proper ss \<and> sorted_wrt below ss"

lemma bounded_mono: "bounded ss k \<Longrightarrow> k \<le> l \<Longrightarrow> bounded ss l"
  by (auto simp: bounded_def)

lemma appendRemaining_spec:
  assumes "ascending rem" "proper s" "bounded rem (Key s)"
  shows "ascending (appendRemaining rem s) \<and> spans_set (appendRemaining rem s) = spans_set rem \<union> span_set s \<and>
    bounded (appendRemaining rem s) (endk s)"
proof (cases "rem \<noteq> [] \<and> endk (last rem) = Key s")
  case True
  then obtain q l where r: "rem = q @ [l]" "endk l = Key s" by (metis append_butlast_last_id)
  then have l: "proper l" "proper (l\<lparr>EndKey := EndKey s\<rparr>)" using assms by (auto simp: proper_def)
  have "span_set (l\<lparr>EndKey := EndKey s\<rparr>) = span_set l \<union> span_set s"
    using l assms(2) r(2) range_union [of "Key l" "Key s" "endk l" "endk s"] by (auto simp: proper_set proper_def max_def)
  moreover have "bounded (q @ [l\<lparr>EndKey := EndKey s\<rparr>]) (endk s)"
    using assms(2,3) r by (auto simp: bounded_def proper_def)
  ultimately show ?thesis using assms(1) l True r
    by (auto simp: appendRemaining_def sorted_wrt_append below_def)
next
  case False
  have "below r s" if "r \<in> set rem" for r using that assms by (auto simp: below_def proper_up bounded_def list_all_iff)
  with False assms show ?thesis by (auto simp: appendRemaining_def sorted_wrt_append bounded_def proper_def)
qed

lemma ascending_Cons: "ascending (t # ts) \<longleftrightarrow> proper t \<and> (\<forall>u\<in>set ts. endk t \<le> Key u) \<and> ascending ts"
  by (auto simp: below_def proper_up)

lemma spans_above: "ascending ts \<Longrightarrow> \<forall>u\<in>set ts. b \<le> Key u \<Longrightarrow> spans_set ts \<subseteq> {k. b \<le> k}"
  by (auto simp: spans_set_def list_all_iff proper_set)

lemma disjoint_below: "A \<subseteq> {k. k < b} \<Longrightarrow> B \<subseteq> {k. b \<le> k} \<Longrightarrow> A \<inter> B = {} \<and> B \<inter> A = {}" for A B :: "bytes set"
  by (auto simp: not_less [symmetric])

lemma set_below: "proper t \<Longrightarrow> span_set t \<subseteq> {k. Key t \<le> k} \<inter> {k. k < endk t}"
  by (auto simp: proper_set)

text \<open>What holds before each iteration.\<close>

definition sub_inv :: "Span list \<Rightarrow> Span list \<Rightarrow> Span list \<Rightarrow> bool" where
  "sub_inv ts ds rem \<longleftrightarrow> ascending ts \<and> ascending ds \<and> ascending rem \<and> (ts \<noteq> [] \<longrightarrow> bounded rem (Key (hd ts)))"

lemma bounded_hd: "bounded rem b \<Longrightarrow> \<forall>u\<in>set ts. b \<le> Key u \<Longrightarrow> ts \<noteq> [] \<longrightarrow> bounded rem (Key (hd ts))"
  by (cases ts) (auto intro: bounded_mono)

lemma sub_inv_uncovered:
  assumes "sub_inv (t # ts) (d # ds) rem" "endk t \<le> Key d"
  shows "sub_inv ts (d # ds) (appendRemaining rem t) \<and>
    spans_set (appendRemaining rem t) \<union> (spans_set ts - spans_set (d # ds)) = spans_set rem \<union> (spans_set (t # ts) - spans_set (d # ds))"
proof -
  have t: "proper t" "\<forall>u\<in>set ts. endk t \<le> Key u" "ascending ts" and d: "ascending (d # ds)"
    and r: "ascending rem" "bounded rem (Key t)"
    using assms(1) unfolding sub_inv_def ascending_Cons [of t] by auto
  note app = appendRemaining_spec [OF r(1) t(1) r(2)]
  have "\<forall>u\<in>set (d # ds). endk t \<le> Key u" using d assms(2) unfolding ascending_Cons [of d] by (auto simp: proper_def)
  then have "span_set t \<inter> spans_set (d # ds) = {}" using disjoint_below [of "span_set t" "endk t"] spans_above [OF d] set_below [OF t(1)] by simp
  then show ?thesis using app t d bounded_hd [of "appendRemaining rem t" "endk t" ts] by (auto simp: sub_inv_def)
qed

lemma sub_inv_done:
  assumes "sub_inv (t # ts) (d # ds) rem" "endk d \<le> Key t"
  shows "sub_inv (t # ts) ds rem \<and>
    spans_set rem \<union> (spans_set (t # ts) - spans_set ds) = spans_set rem \<union> (spans_set (t # ts) - spans_set (d # ds))"
proof -
  have t: "ascending (t # ts)" and d: "proper d" "ascending ds" using assms(1) unfolding sub_inv_def ascending_Cons [of d] by auto
  have "\<forall>u\<in>set (t # ts). endk d \<le> Key u" using t assms(2) unfolding ascending_Cons [of t] by (auto simp: proper_def)
  then have "spans_set (t # ts) \<inter> span_set d = {}" using disjoint_below [of "span_set d" "endk d"] spans_above [OF t] set_below [OF d(1)] by simp
  then show ?thesis using assms d by (auto simp: sub_inv_def)
qed

text \<open>Replacing the first todo span by its part before the done span, and by its part after it.\<close>

lemma sub_inv_front:
  assumes "sub_inv (t # ts) (d # ds) rem" "Key t < Key d" "Key d < endk t"
  defines "a \<equiv> \<lparr>Key = Key t, EndKey = Some (Key d)\<rparr>"
  shows "sub_inv (t\<lparr>Key := Key d\<rparr> # ts) (d # ds) (appendRemaining rem a) \<and>
    spans_set (appendRemaining rem a) \<union> (spans_set (t\<lparr>Key := Key d\<rparr> # ts) - spans_set (d # ds)) =
      spans_set rem \<union> (spans_set (t # ts) - spans_set (d # ds))"
proof -
  have t: "proper t" "\<forall>u\<in>set ts. endk t \<le> Key u" "ascending ts" and d: "ascending (d # ds)"
    and r: "ascending rem" "bounded rem (Key t)"
    using assms(1) unfolding sub_inv_def ascending_Cons [of t] by auto
  have a: "proper a" "endk a = Key d" "Key a = Key t" and t': "proper (t\<lparr>Key := Key d\<rparr>)"
    using assms(2,3) by (simp_all add: a_def proper_def nil_bytes_def)
  note app = appendRemaining_spec [of rem a, OF r(1) a(1), unfolded a, OF r(2)]
  have "\<forall>u\<in>set (d # ds). Key d \<le> Key u" using d unfolding ascending_Cons [of d] by (auto simp: proper_def)
  then have dis: "span_set a \<inter> spans_set (d # ds) = {}"
    using disjoint_below [of "span_set a" "Key d"] spans_above [OF d] set_below [OF a(1)] unfolding a by simp
  have "span_set t = span_set a \<union> span_set (t\<lparr>Key := Key d\<rparr>)"
    using range_union [of "Key t" "Key d" "Key d" "endk t"] assms(2,3) t(1) a t' by (simp add: proper_set less_imp_le max_absorb2)
  then have "spans_set (appendRemaining rem a) \<union> (spans_set (t\<lparr>Key := Key d\<rparr> # ts) - spans_set (d # ds)) =
      spans_set rem \<union> (spans_set (t # ts) - spans_set (d # ds))"
    using app dis by auto
  moreover have "ascending (t\<lparr>Key := Key d\<rparr> # ts)" unfolding ascending_Cons using t t' by simp
  ultimately show ?thesis using app d by (simp add: sub_inv_def)
qed

lemma sub_inv_back:
  assumes "sub_inv (t # ts) (d # ds) rem" "Key d \<le> Key t" "Key t < endk d" "endk d < endk t"
  shows "sub_inv (t\<lparr>Key := endk d\<rparr> # ts) ds rem \<and>
    spans_set rem \<union> (spans_set (t\<lparr>Key := endk d\<rparr> # ts) - spans_set ds) = spans_set rem \<union> (spans_set (t # ts) - spans_set (d # ds))"
proof -
  have t: "proper t" "\<forall>u\<in>set ts. endk t \<le> Key u" "ascending ts" and d: "proper d" "ascending ds"
    and r: "ascending rem" "bounded rem (Key t)"
    using assms(1) unfolding sub_inv_def ascending_Cons [of t] ascending_Cons [of d] by auto
  have t': "proper (t\<lparr>Key := endk d\<rparr>)" using assms(4) by (simp add: proper_def)
  have asc: "ascending (t\<lparr>Key := endk d\<rparr> # ts)" unfolding ascending_Cons using t t' by simp
  have "\<forall>u\<in>set (t\<lparr>Key := endk d\<rparr> # ts). endk d \<le> Key u" using t assms(4) by auto
  then have "spans_set (t\<lparr>Key := endk d\<rparr> # ts) \<inter> span_set d = {}"
    using disjoint_below [of "span_set d" "endk d"] spans_above [OF asc] set_below [OF d(1)] by simp
  moreover have "span_set t - span_set d = span_set (t\<lparr>Key := endk d\<rparr>)"
    using assms(2-4) t(1) d(1) t' by (auto simp: proper_set)
  ultimately have "spans_set (t\<lparr>Key := endk d\<rparr> # ts) - spans_set ds = spans_set (t # ts) - spans_set (d # ds)" by auto
  then show ?thesis using asc d r assms(3) bounded_mono [of rem "Key t" "endk d"] by (simp add: sub_inv_def)
qed

lemma sub_inv_covered:
  assumes "sub_inv (t # ts) (d # ds) rem" "Key d \<le> Key t" "endk t \<le> endk d"
  shows "sub_inv ts (d # ds) rem \<and>
    spans_set rem \<union> (spans_set ts - spans_set (d # ds)) = spans_set rem \<union> (spans_set (t # ts) - spans_set (d # ds))"
proof -
  have t: "proper t" "\<forall>u\<in>set ts. endk t \<le> Key u" "ascending ts" and d: "proper d" "ascending (d # ds)"
    and r: "ascending rem" "bounded rem (Key t)"
    using assms(1) unfolding sub_inv_def ascending_Cons [of t] by auto
  have "span_set t \<subseteq> span_set d" using assms(2,3) t(1) d(1) by (auto simp: proper_set)
  then show ?thesis using t d r bounded_hd [of rem "endk t" ts] bounded_mono [of rem "Key t" "endk t"]
    by (auto simp: sub_inv_def proper_def)
qed

lemma subtract_step_inv:
  assumes "sub_inv (t # ts) (d # ds) rem" "subtract_step t ts d ds rem = (ts', ds', rem')"
  shows "sub_inv ts' ds' rem' \<and> spans_set rem' \<union> (spans_set ts' - spans_set ds') =
    spans_set rem \<union> (spans_set (t # ts) - spans_set (d # ds))"
proof -
  have t: "Key t < endk t" "Key d < endk d" "Key t \<noteq> endk t" using assms(1) by (auto simp: sub_inv_def proper_def)
  consider "endk t \<le> Key d" | "Key d < endk t" "endk d \<le> Key t" | "Key d < endk t" "Key t < endk d" by fastforce
  then show ?thesis
  proof cases
    case 1
    then show ?thesis using assms t sub_inv_uncovered [OF assms(1)] by (simp add: subtract_step_def Let_def)
  next
    case 2
    moreover have "\<not> endk t \<le> Key d" using 2 by (simp add: not_le)
    ultimately show ?thesis using assms t sub_inv_done [OF assms(1)] by (simp add: subtract_step_def Let_def)
  next
    case 3
    let ?a = "\<lparr>Key = Key t, EndKey = Some (Key d)\<rparr>"
    define u r where "u = (if Key d \<le> Key t then t else t\<lparr>Key := Key d\<rparr>)"
      and "r = (if Key d \<le> Key t then rem else appendRemaining rem ?a)"
    have step: "(ts', ds', rem') = (if endk d < endk t then (t\<lparr>Key := endk d\<rparr> # ts, ds, r)
        else if endk t < endk d then (ts, d # ds, r) else (ts, ds, r))"
    proof -
      have "\<not> endk t \<le> Key d" "\<not> endk d \<le> Key t" using 3 by (simp_all add: not_le)
      then show ?thesis using assms(2) t by (auto simp: subtract_step_def Let_def r_def split: if_splits)
    qed
    have u: "Key d \<le> Key u" "Key u < endk d" "EndKey u = EndKey t" "u\<lparr>Key := endk d\<rparr> = t\<lparr>Key := endk d\<rparr>"
      using 3 t by (auto simp: u_def)
    have front: "sub_inv (u # ts) (d # ds) r \<and> spans_set r \<union> (spans_set (u # ts) - spans_set (d # ds)) =
        spans_set rem \<union> (spans_set (t # ts) - spans_set (d # ds))"
      using assms(1) sub_inv_front [OF assms(1)] 3 by (simp add: u_def r_def)
    show ?thesis
    proof (cases "endk d < endk t")
      case True
      then show ?thesis using sub_inv_back [of u ts d ds r] front u step by simp
    next
      case False
      then have cov: "sub_inv ts (d # ds) r \<and> spans_set r \<union> (spans_set ts - spans_set (d # ds)) =
          spans_set rem \<union> (spans_set (t # ts) - spans_set (d # ds))"
        using sub_inv_covered [of u ts d ds r] front u by simp
      moreover have "sub_inv ts ds r \<and> spans_set r \<union> (spans_set ts - spans_set ds) = spans_set r \<union> (spans_set ts - spans_set (d # ds))"
        if "endk d = endk t"
      proof (cases ts)
        case Nil
        then show ?thesis using cov by (auto simp: sub_inv_def)
      next
        case (Cons v vs)
        then have "endk d \<le> Key v" using that assms(1) by (auto simp: sub_inv_def below_def proper_up)
        then show ?thesis using sub_inv_done [of v vs d ds r] cov Cons by simp
      qed
      ultimately show ?thesis using step False by (auto split: if_splits)
    qed
  qed
qed

lemma subtract_loop_spec:
  "sub_inv ts ds rem \<Longrightarrow> ascending (subtract_loop ts ds rem) \<and>
    spans_set (subtract_loop ts ds rem) = spans_set rem \<union> (spans_set ts - spans_set ds)"
proof (induction ts ds rem rule: subtract_loop.induct)
  case (1 ds rem)
  then show ?case by (simp add: sub_inv_def)
next
  case (2 t ts rem)
  have "below r u" if "r \<in> set rem" "u \<in> set (t # ts)" for r u
  proof -
    have "Key t \<le> Key u" using that(2) 2 unfolding sub_inv_def ascending_Cons [of t] by (auto simp: proper_def)
    then show ?thesis using that(1) 2 by (auto simp: sub_inv_def below_def bounded_def list_all_iff proper_up)
  qed
  then show ?case using 2 by (auto simp: sub_inv_def sorted_wrt_append)
next
  case (3 t ts d ds rem)
  obtain ts' ds' rem' where s: "subtract_step t ts d ds rem = (ts', ds', rem')" by (cases "subtract_step t ts d ds rem")
  show ?case using 3(1) [OF s [symmetric] refl] subtract_step_inv [OF 3(2) s] s by simp
qed

lemma sort_disjoint_ascending:
  assumes "list_all proper ss" "disjoint_spans ss"
  shows "ascending (sort_key Key ss)"
proof -
  have p: "list_all proper (sort_key Key ss)" using assms(1) by (simp add: list_all_iff)
  have "disjoint_spans (sort_key Key ss)"
    using assms(2) by (subst sorted_wrt_perm [of _ ss]) (auto simp: mset_sort)
  moreover have "sorted_wrt (\<lambda>s t. Key s \<le> Key t) (sort_key Key ss)" using sorted_sort_key [of Key ss] by (simp add: sorted_map)
  ultimately have "sorted_wrt (\<lambda>s t. span_set s \<inter> span_set t = {} \<and> Key s \<le> Key t) (sort_key Key ss)"
    by (simp add: sorted_wrt_iff_nth_less)
  then have "sorted_wrt below (sort_key Key ss)"
    using p ranges_disjoint by (intro sorted_wrt_mono_rel [of "sort_key Key ss" _ below]) (auto simp: list_all_iff proper_valid)
  with p show ?thesis by simp
qed



section \<open>Range descriptors\<close>

lemma RSpan_Intersect_bounds:
  "RSpan_Intersect rs desc = Inr r \<longleftrightarrow> RKey rs < DescEndKey desc \<and> StartKey desc < REndKey rs \<and>
     r = \<lparr>RKey = max (RKey rs) (StartKey desc), REndKey = min (REndKey rs) (DescEndKey desc)\<rparr>"
proof (cases "RKey rs < DescEndKey desc \<and> StartKey desc < REndKey rs")
  case True
  then have "REndKey rs \<noteq> []" "\<not> REndKey rs < StartKey desc" "REndKey rs \<noteq> StartKey desc" by (auto dest: leD simp: not_less_Nil)
  then have "RangeDescriptor_ContainsKeyRange desc (StartKey desc) (REndKey rs) \<longleftrightarrow> REndKey rs \<le> DescEndKey desc"
    by (simp add: RangeDescriptor_ContainsKeyRange_def RangeDescriptor_RSpan_def RSpan_ContainsKeyRange_def Let_def)
  with True show ?thesis by (auto simp: RSpan_Intersect_def Let_def max_def min_def)
qed (auto simp: RSpan_Intersect_def)

text \<open>
  Cutting a request to a range: the result covers the keys that both the span and the range cover,
  and there is an error when the bounds show that there are none.
\<close>

lemma RSpan_Intersect_keys:
  "RSpan_Intersect rs desc = Inr r \<Longrightarrow>
     RSpan_ContainsKey r k \<longleftrightarrow> RSpan_ContainsKey rs k \<and> RSpan_ContainsKey (RangeDescriptor_RSpan desc) k"
  "RSpan_Intersect rs desc = Inl e \<Longrightarrow> \<not> (RSpan_ContainsKey rs k \<and> RSpan_ContainsKey (RangeDescriptor_RSpan desc) k)"
proof -
  show "RSpan_ContainsKey r k \<longleftrightarrow> RSpan_ContainsKey rs k \<and> RSpan_ContainsKey (RangeDescriptor_RSpan desc) k"
    if "RSpan_Intersect rs desc = Inr r"
    using that unfolding RSpan_Intersect_bounds by (auto simp: RSpan_ContainsKey_def RangeDescriptor_RSpan_def)
  assume "RSpan_Intersect rs desc = Inl e"
  then have "\<not> (RKey rs < DescEndKey desc \<and> StartKey desc < REndKey rs)" using RSpan_Intersect_bounds [of rs desc] by fastforce
  then show "\<not> (RSpan_ContainsKey rs k \<and> RSpan_ContainsKey (RangeDescriptor_RSpan desc) k)"
    by (auto simp: RSpan_ContainsKey_def RangeDescriptor_RSpan_def)
qed

end
