(* ===== verification/Mvcc_Key.thy ===== *)
theory Mvcc_Key
  imports Keys_Spans Hlc_Timestamp Encoding_Bytes
begin

text \<open>
  \<open>pkg/storage/mvcc_key.go\<close> and \<open>pkg/storage/enginepb/decode.go\<close>: versioned keys. A key with a
  timestamp is stored as the key, a zero byte, the bytes of the timestamp without its zero tail, and
  a byte with their number plus one. The encoders fill a buffer in place; the model keeps the buffer
  and its writes, so that the claim that a reused buffer makes no difference has content.
\<close>

section \<open>Writing into buffers\<close>

text \<open>
  \<open>copy(buf, src)\<close> copies as much as fits. \<open>buf[pos] = b\<close> and \<open>binary.BigEndian.PutUint64(buf, v)\<close>
  panic when the buffer is too short.
\<close>

definition copy_to :: "bytes \<Rightarrow> bytes \<Rightarrow> bytes" where
  "copy_to buf xs = take (length buf) xs @ drop (length xs) buf"

definition put_byte :: "bytes \<Rightarrow> nat \<Rightarrow> byte \<Rightarrow> go_error + bytes" where
  "put_byte buf pos b = (if pos < length buf then Inr (buf[pos := b]) else Inl index_out_of_range)"

definition put_uint :: "nat \<Rightarrow> bytes \<Rightarrow> 'a::len word \<Rightarrow> go_error + bytes" where
  "put_uint n buf v = (if n \<le> length buf then Inr (copy_to buf (be_bytes n v)) else Inl index_out_of_range)"

text \<open>A call on the tail \<open>buf[pos:]\<close>, whose writes are seen through \<open>buf\<close>.\<close>

definition on_tail :: "nat \<Rightarrow> bytes \<Rightarrow> (bytes \<Rightarrow> go_error + bytes) \<Rightarrow> go_error + bytes" where
  "on_tail pos buf f =
     res_bind (slice_from pos buf) (\<lambda>tail. res_bind (f tail) (\<lambda>tail. Inr (take pos buf @ tail)))"

section \<open>Versioned keys\<close>

abbreviation (input) mvccEncodedTimeSentinelLen :: nat where "mvccEncodedTimeSentinelLen \<equiv> 1"
abbreviation (input) mvccEncodedTimeWallLen :: nat where "mvccEncodedTimeWallLen \<equiv> 8"
abbreviation (input) mvccEncodedTimeLogicalLen :: nat where "mvccEncodedTimeLogicalLen \<equiv> 4"
abbreviation (input) mvccEncodedTimeSyntheticLen :: nat where "mvccEncodedTimeSyntheticLen \<equiv> 1"
abbreviation (input) mvccEncodedTimeLengthLen :: nat where "mvccEncodedTimeLengthLen \<equiv> 1"

record MVCCKey =
  UserKey :: bytes
  Timestamp :: Timestamp

definition MakeMVCCMetadataKey :: "bytes \<Rightarrow> MVCCKey" where
  "MakeMVCCMetadataKey key = \<lparr>UserKey = key, Timestamp = Timestamp_zero\<rparr>"

definition IsValue :: "MVCCKey \<Rightarrow> bool" where
  "IsValue k \<longleftrightarrow> \<not> Timestamp_IsEmpty (Timestamp k)"

definition MVCCKey_Next :: "MVCCKey \<Rightarrow> go_error + MVCCKey" where
  "MVCCKey_Next k =
     res_bind (Timestamp_Prev (Timestamp k)) (\<lambda>ts.
       if Timestamp_IsEmpty ts then Inr (MakeMVCCMetadataKey (Key_Next (UserKey k)))
       else Inr \<lparr>UserKey = UserKey k, Timestamp = ts\<rparr>)"

definition MVCCKey_Compare :: "MVCCKey \<Rightarrow> MVCCKey \<Rightarrow> int" where
  "MVCCKey_Compare k ob =
     (let c = bytes_compare (UserKey k) (UserKey ob) in
      if c \<noteq> 0 then c
      else if Timestamp_IsEmpty (Timestamp k) \<and> \<not> Timestamp_IsEmpty (Timestamp ob) then - 1
      else if \<not> Timestamp_IsEmpty (Timestamp k) \<and> Timestamp_IsEmpty (Timestamp ob) then 1
      else - Timestamp_Compare (Timestamp k) (Timestamp ob))"

definition MVCCKey_Less :: "MVCCKey \<Rightarrow> MVCCKey \<Rightarrow> bool" where
  "MVCCKey_Less k l \<longleftrightarrow>
     (let c = bytes_compare (UserKey k) (UserKey l) in
      if c \<noteq> 0 then c < 0
      else if \<not> IsValue k then IsValue l
      else if \<not> IsValue l then False
      else Timestamp_Less (Timestamp l) (Timestamp k))"

definition MVCCKey_Equal :: "MVCCKey \<Rightarrow> MVCCKey \<Rightarrow> bool" where
  "MVCCKey_Equal k l \<longleftrightarrow>
     bytes_compare (UserKey k) (UserKey l) = 0 \<and> Timestamp_EqOrdering (Timestamp k) (Timestamp l)"

definition MVCCVersionTimestampSize :: nat where
  "MVCCVersionTimestampSize = 12"

definition EncodedSize :: "MVCCKey \<Rightarrow> nat" where
  "EncodedSize k = (let n = length (UserKey k) + 1 in if IsValue k then n + MVCCVersionTimestampSize else n)"

subsection \<open>Lengths\<close>

definition encodedMVCCKeyLength :: "MVCCKey \<Rightarrow> nat" where
  "encodedMVCCKeyLength key =
     (let keyLen = length (UserKey key) + mvccEncodedTimeSentinelLen in
      if \<not> Timestamp_IsEmpty (Timestamp key) then
        let keyLen = keyLen + (mvccEncodedTimeWallLen + mvccEncodedTimeLengthLen) in
        if Logical (Timestamp key) \<noteq> 0 \<or> Synthetic (Timestamp key) then
          let keyLen = keyLen + mvccEncodedTimeLogicalLen in
          if Synthetic (Timestamp key) then keyLen + mvccEncodedTimeSyntheticLen else keyLen
        else keyLen
      else keyLen)"

definition MVCCKey_Len :: "MVCCKey \<Rightarrow> nat" where
  "MVCCKey_Len k = encodedMVCCKeyLength k"

definition encodedMVCCKeyPrefixLength :: "bytes \<Rightarrow> nat" where
  "encodedMVCCKeyPrefixLength key = length key + mvccEncodedTimeSentinelLen"

definition encodedMVCCTimestampLength :: "Timestamp \<Rightarrow> nat" where
  "encodedMVCCTimestampLength ts =
     (let tsLen = encodedMVCCKeyLength \<lparr>UserKey = [], Timestamp = ts\<rparr> - mvccEncodedTimeSentinelLen
      in if tsLen > 0 then tsLen - mvccEncodedTimeLengthLen else tsLen)"

definition encodedMVCCTimestampSuffixLength :: "Timestamp \<Rightarrow> nat" where
  "encodedMVCCTimestampSuffixLength ts =
     encodedMVCCKeyLength \<lparr>UserKey = [], Timestamp = ts\<rparr> - mvccEncodedTimeSentinelLen"

subsection \<open>Encoding\<close>

definition encodeMVCCTimestampToBuf :: "bytes \<Rightarrow> Timestamp \<Rightarrow> go_error + bytes" where
  "encodeMVCCTimestampToBuf buf ts =
     res_bind (put_uint 8 buf (WallTime ts)) (\<lambda>buf.
       if Logical ts \<noteq> 0 \<or> Synthetic ts then
         res_bind (on_tail mvccEncodedTimeWallLen buf (\<lambda>tail. put_uint 4 tail (Logical ts))) (\<lambda>buf.
           if Synthetic ts then put_byte buf (mvccEncodedTimeWallLen + mvccEncodedTimeLogicalLen) 1
           else Inr buf)
       else Inr buf)"

definition encodeMVCCTimestamp :: "Timestamp \<Rightarrow> go_error + bytes" where
  "encodeMVCCTimestamp ts =
     (let tsLen = encodedMVCCTimestampLength ts in
      if tsLen = 0 then Inr [] else encodeMVCCTimestampToBuf (replicate tsLen 0) ts)"

definition EncodeMVCCTimestampSuffix :: "Timestamp \<Rightarrow> go_error + bytes" where
  "EncodeMVCCTimestampSuffix ts =
     (let tsLen = encodedMVCCTimestampLength ts in
      if tsLen = 0 then Inr []
      else res_bind (encodeMVCCTimestampToBuf (replicate (tsLen + mvccEncodedTimeLengthLen) 0) ts)
             (\<lambda>buf. put_byte buf tsLen (of_nat (tsLen + mvccEncodedTimeLengthLen))))"

definition encodeMVCCKeyToBuf :: "bytes \<Rightarrow> MVCCKey \<Rightarrow> nat \<Rightarrow> go_error + bytes" where
  "encodeMVCCKeyToBuf buf key keyLen =
     (let buf = copy_to buf (UserKey key); pos = length (UserKey key) in
      res_bind (put_byte buf pos 0) (\<lambda>buf.
        let pos = pos + mvccEncodedTimeSentinelLen;
            tsLen = int keyLen - int pos - int mvccEncodedTimeLengthLen in
        if tsLen > 0 then
          res_bind (on_tail pos buf (\<lambda>tail. encodeMVCCTimestampToBuf tail (Timestamp key))) (\<lambda>buf.
            let pos = pos + nat tsLen in
            put_byte buf pos (word_of_int (tsLen + int mvccEncodedTimeLengthLen)))
        else Inr buf))"

definition EncodeMVCCKey :: "MVCCKey \<Rightarrow> go_error + bytes" where
  "EncodeMVCCKey key =
     (let keyLen = encodedMVCCKeyLength key in encodeMVCCKeyToBuf (replicate keyLen 0) key keyLen)"

text \<open>\<open>backing\<close> is the array behind the given buffer, up to its capacity.\<close>

definition EncodeMVCCKeyToBuf :: "bytes \<Rightarrow> MVCCKey \<Rightarrow> go_error + bytes" where
  "EncodeMVCCKeyToBuf backing key =
     (let keyLen = encodedMVCCKeyLength key;
          buf = (if length backing < keyLen then replicate keyLen 0 else take keyLen backing)
      in encodeMVCCKeyToBuf buf key keyLen)"

definition EncodeMVCCKeyPrefix :: "bytes \<Rightarrow> go_error + bytes" where
  "EncodeMVCCKeyPrefix key = EncodeMVCCKey (MakeMVCCMetadataKey key)"

subsection \<open>Decoding\<close>

definition SplitMVCCKey :: "bytes \<Rightarrow> (bytes \<times> bytes) option" where
  "SplitMVCCKey mvccKey =
     (if length mvccKey = 0 then None
      else let tsLen = unat (mvccKey ! (length mvccKey - 1));
               keyPartEnd = int (length mvccKey) - 1 - int tsLen in
        if keyPartEnd < 0 then None
        else let key = take (nat keyPartEnd) mvccKey;
                 ts = (if tsLen > 0 then drop (nat keyPartEnd + 1) (take (length mvccKey - 1) mvccKey) else [])
             in Some (key, ts))"

definition decodeMVCCTimestamp :: "bytes \<Rightarrow> go_error + Timestamp" where
  "decodeMVCCTimestamp encodedTS =
     (if length encodedTS = 0 then Inr Timestamp_zero
      else if length encodedTS = 8 then
        Inr \<lparr>WallTime = be_fold (take 8 encodedTS), Logical = 0, Synthetic = False\<rparr>
      else if length encodedTS = 12 then
        Inr \<lparr>WallTime = be_fold (take 8 encodedTS), Logical = be_fold (take 4 (drop 8 encodedTS)),
             Synthetic = False\<rparr>
      else if length encodedTS = 13 then
        Inr \<lparr>WallTime = be_fold (take 8 encodedTS), Logical = be_fold (take 4 (drop 8 encodedTS)),
             Synthetic = (encodedTS ! 12 \<noteq> 0)\<rparr>
      else Inl (Errorf ''bad timestamp''))"

definition decodeMVCCTimestampSuffix :: "bytes \<Rightarrow> go_error + Timestamp" where
  "decodeMVCCTimestampSuffix encodedTS =
     (if length encodedTS = 0 then Inr Timestamp_zero
      else let encodedLen = length encodedTS; suffixLen = unat (encodedTS ! (encodedLen - 1)) in
        if suffixLen \<noteq> encodedLen then Inl (Errorf ''bad timestamp: found length suffix, actual length'')
        else decodeMVCCTimestamp (take (encodedLen - 1) encodedTS))"

text \<open>\<open>DecodeKey\<close> repeats the switch of \<open>decodeMVCCTimestamp\<close>, with its own error.\<close>

definition DecodeKey :: "bytes \<Rightarrow> go_error + bytes \<times> Timestamp" where
  "DecodeKey encodedKey =
     (case SplitMVCCKey encodedKey of
        None \<Rightarrow> Inl (Errorf ''invalid encoded mvcc key'')
      | Some (key, encodedTS) \<Rightarrow>
          (if length encodedTS = 0 then Inr (key, Timestamp_zero)
           else if length encodedTS = 8 then
             Inr (key, \<lparr>WallTime = be_fold (take 8 encodedTS), Logical = 0, Synthetic = False\<rparr>)
           else if length encodedTS = 12 then
             Inr (key, \<lparr>WallTime = be_fold (take 8 encodedTS), Logical = be_fold (take 4 (drop 8 encodedTS)),
                        Synthetic = False\<rparr>)
           else if length encodedTS = 13 then
             Inr (key, \<lparr>WallTime = be_fold (take 8 encodedTS), Logical = be_fold (take 4 (drop 8 encodedTS)),
                        Synthetic = (encodedTS ! 12 \<noteq> 0)\<rparr>)
           else Inl (Errorf ''invalid encoded mvcc key: bad timestamp'')))"

definition DecodeMVCCKey :: "bytes \<Rightarrow> go_error + MVCCKey" where
  "DecodeMVCCKey encodedKey =
     res_bind (DecodeKey encodedKey) (\<lambda>(k, ts). Inr \<lparr>UserKey = k, Timestamp = ts\<rparr>)"

section \<open>The order of versioned keys\<close>

definition mvcc_order :: "MVCCKey \<Rightarrow> bytes \<times> int \<times> int \<times> int" where
  "mvcc_order k = (UserKey k, if IsValue k then (1, - fst (ts_key (Timestamp k)), - snd (ts_key (Timestamp k))) else (0, 0, 0))"

lemma MVCCKey_Compare_order: "MVCCKey_Compare k l = three_way (mvcc_order k) (mvcc_order l)"
  by (auto simp: MVCCKey_Compare_def mvcc_order_def IsValue_def Let_def Timestamp_Compare_key ts_key_def
      three_way_def Timestamp_IsEmpty_def)

interpretation mvcc_cmp: keyed_comparator MVCCKey_Compare mvcc_order
  by unfold_locales (rule MVCCKey_Compare_order)

lemma MVCCKey_Less_order: "MVCCKey_Less k l \<longleftrightarrow> mvcc_order k < mvcc_order l"
  by (auto simp: MVCCKey_Less_def mvcc_order_def Let_def ts_order) (auto simp: ts_key_def)

section \<open>The layout\<close>

definition ts_bytes :: "Timestamp \<Rightarrow> bytes" where
  "ts_bytes ts = be_bytes 8 (WallTime ts) @
     (if Logical ts \<noteq> 0 \<or> Synthetic ts then be_bytes 4 (Logical ts) @ (if Synthetic ts then [1] else []) else [])"

definition ts_suffix :: "Timestamp \<Rightarrow> bytes" where
  "ts_suffix ts = (if Timestamp_IsEmpty ts then [] else ts_bytes ts @ [of_nat (length (ts_bytes ts) + 1)])"

definition mvcc_bytes :: "MVCCKey \<Rightarrow> bytes" where
  "mvcc_bytes k = UserKey k @ 0 # ts_suffix (Timestamp k)"

lemma length_ts_bytes:
  "length (ts_bytes ts) = (if Synthetic ts then 13 else if Logical ts = 0 then 8 else 12)"
  by (simp add: ts_bytes_def)

lemma ts_bytes_not_Nil [simp]: "ts_bytes ts \<noteq> []"
  using length_ts_bytes [of ts] by (auto split: if_splits)

lemma encodedMVCCTimestampLength_eq:
  "encodedMVCCTimestampLength ts = (if Timestamp_IsEmpty ts then 0 else length (ts_bytes ts))"
  by (simp add: encodedMVCCTimestampLength_def encodedMVCCKeyLength_def Let_def length_ts_bytes)

lemma encodedMVCCKeyLength_eq: "encodedMVCCKeyLength k = length (mvcc_bytes k)"
  by (simp add: encodedMVCCKeyLength_def Let_def mvcc_bytes_def ts_suffix_def length_ts_bytes)

lemma put_byte_append: "put_byte (xs @ y # zs) (length xs) b = Inr (xs @ b # zs)"
  by (simp add: put_byte_def)

lemma put_uint_append: "length xs = n \<Longrightarrow> put_uint n (xs @ ys) v = Inr (be_bytes n v @ ys)"
  by (simp add: put_uint_def copy_to_def)

lemma on_tail_append: "length xs = n \<Longrightarrow> on_tail n (xs @ ys) f = res_bind (f ys) (\<lambda>t. Inr (xs @ t))"
  by (auto simp: on_tail_def slice_from_def)

text \<open>Whatever the buffer held, the writes cover it.\<close>

lemma encodeMVCCTimestampToBuf_eq:
  assumes "length buf = length (ts_bytes ts)"
  shows "encodeMVCCTimestampToBuf (buf @ rest) ts = Inr (ts_bytes ts @ rest)"
proof -
  define xs ys zs where "xs = take 8 buf" and "ys = take 4 (drop 8 buf)" and "zs = drop 12 buf"
  have buf: "buf = xs @ ys @ zs" 
    using append_take_drop_id [of 8 buf] append_take_drop_id [of 4 "drop 8 buf"] by (simp add: xs_def ys_def zs_def)
  have len: "length xs = 8" "length ys = (if Logical ts \<noteq> 0 \<or> Synthetic ts then 4 else 0)"
    "length zs = (if Synthetic ts then 1 else 0)"
    using assms by (auto simp: length_ts_bytes xs_def ys_def zs_def)
  have z: "\<exists>z. zs = [z]" if "Synthetic ts" using len(3) that by (auto simp: length_Suc_conv)
  show ?thesis
    using len z by (auto simp: encodeMVCCTimestampToBuf_def buf put_uint_append on_tail_append ts_bytes_def put_byte_def list_update_append)
qed

lemma encodeMVCCKeyToBuf_eq:
  assumes "length buf = encodedMVCCKeyLength k"
  shows "encodeMVCCKeyToBuf buf k (encodedMVCCKeyLength k) = Inr (mvcc_bytes k)"
proof -
  define n where "n = length (UserKey k)"
  have len: "length buf = Suc (n + length (ts_suffix (Timestamp k)))"
    using assms by (simp add: encodedMVCCKeyLength_eq mvcc_bytes_def n_def)
  then have n: "n < length buf" by simp
  obtain a c d where buf: "buf = a @ c # d" "length a = n" "length d = length (ts_suffix (Timestamp k))"
    using len n by (intro that [OF id_take_nth_drop [OF n]]) simp_all
  have copy: "copy_to buf (UserKey k) = UserKey k @ c # d" using buf by (simp add: copy_to_def n_def)
  have put: "put_byte (UserKey k @ c # d) n 0 = Inr (UserKey k @ 0 # d)" unfolding n_def by (rule put_byte_append)
  show ?thesis
  proof (cases "Timestamp_IsEmpty (Timestamp k)")
    case True
    then show ?thesis using put buf(3)
      by (simp add: encodeMVCCKeyToBuf_def copy encodedMVCCKeyLength_eq mvcc_bytes_def ts_suffix_def n_def)
  next
    case False
    let ?t = "ts_bytes (Timestamp k)"
    obtain e f where d: "d = e @ [f]" "length e = length ?t"
      using buf(3) False by (cases d rule: rev_cases) (auto simp: ts_suffix_def)
    have len: "encodedMVCCKeyLength k = n + 2 + length ?t"
      using False by (simp add: encodedMVCCKeyLength_eq mvcc_bytes_def ts_suffix_def n_def)
    have tail: "on_tail (n + 1) (UserKey k @ 0 # d) (\<lambda>t. encodeMVCCTimestampToBuf t (Timestamp k)) =
        Inr ((UserKey k @ 0 # ?t) @ [f])"
      using on_tail_append [of "UserKey k @ [0]" "n + 1" d] encodeMVCCTimestampToBuf_eq [OF d(2), of "[f]"]
      by (simp add: n_def d(1))
    have "put_byte ((UserKey k @ 0 # ?t) @ [f]) (n + 1 + length ?t) b = Inr ((UserKey k @ 0 # ?t) @ [b])" for b
      using put_byte_append [of "UserKey k @ 0 # ?t" f "[]" b] by (simp add: n_def)
    then show ?thesis using put tail False unfolding encodeMVCCKeyToBuf_def copy len
      by (simp add: n_def mvcc_bytes_def ts_suffix_def Let_def)
  qed
qed

lemma EncodeMVCCKey_eq: "EncodeMVCCKey k = Inr (mvcc_bytes k)"
  by (simp add: EncodeMVCCKey_def encodeMVCCKeyToBuf_eq)

lemma EncodeMVCCKeyToBuf_eq: "EncodeMVCCKeyToBuf backing k = Inr (mvcc_bytes k)"
  by (simp add: EncodeMVCCKeyToBuf_def encodeMVCCKeyToBuf_eq)

lemma encodeMVCCTimestamp_eq:
  "encodeMVCCTimestamp ts = Inr (if Timestamp_IsEmpty ts then [] else ts_bytes ts)"
  using encodeMVCCTimestampToBuf_eq [of "replicate (length (ts_bytes ts)) 0" ts "[]"]
  by (simp add: encodeMVCCTimestamp_def encodedMVCCTimestampLength_eq)

lemma EncodeMVCCTimestampSuffix_eq: "EncodeMVCCTimestampSuffix ts = Inr (ts_suffix ts)"
proof (cases "Timestamp_IsEmpty ts")
  case False
  have "encodeMVCCTimestampToBuf (replicate (length (ts_bytes ts) + 1) 0) ts = Inr (ts_bytes ts @ [0])"
    using encodeMVCCTimestampToBuf_eq [of "replicate (length (ts_bytes ts)) 0" ts "[0]"]
    by (simp add: replicate_append_same)
  then show ?thesis using False put_byte_append [of "ts_bytes ts" 0 "[]"]
    by (simp add: EncodeMVCCTimestampSuffix_def encodedMVCCTimestampLength_eq ts_suffix_def)
qed (simp add: EncodeMVCCTimestampSuffix_def encodedMVCCTimestampLength_eq ts_suffix_def)

section \<open>Reading back\<close>

lemma be_fold_wall [simp]: "be_fold (be_bytes 8 (v :: 64 word)) = v"
  using unsigned_less [of v] by (intro be_fold_be_bytes) simp

lemma be_fold_logical [simp]: "be_fold (be_bytes 4 (v :: 32 word)) = v"
  using unsigned_less [of v] by (intro be_fold_be_bytes) simp

lemma decodeMVCCTimestamp_ts_bytes: "decodeMVCCTimestamp (ts_bytes ts) = Inr ts"
proof -
  have n: "length (ts_bytes ts) = (if Synthetic ts then 13 else if Logical ts = 0 then 8 else 12)" by (rule length_ts_bytes)
  then show ?thesis unfolding decodeMVCCTimestamp_def n
    by (cases ts) (auto simp: ts_bytes_def nth_append)
qed

lemma SplitMVCCKey_bytes:
  "SplitMVCCKey (mvcc_bytes k) = Some (UserKey k, if IsValue k then ts_bytes (Timestamp k) else [])"
proof (cases "IsValue k")
  case True
  let ?t = "ts_bytes (Timestamp k)"
  have "unat (of_nat (length ?t + 1) :: byte) = length ?t + 1"
    by (rule unat_of_nat_small) (simp add: length_ts_bytes)
  moreover have "mvcc_bytes k = (UserKey k @ 0 # ?t) @ [of_nat (length ?t + 1)]"
    using True by (simp add: mvcc_bytes_def ts_suffix_def IsValue_def)
  ultimately show ?thesis using True by (simp add: SplitMVCCKey_def nth_append Let_def)
qed (simp add: SplitMVCCKey_def mvcc_bytes_def ts_suffix_def IsValue_def nth_append)

lemma DecodeKey_decodeMVCCTimestamp:
  "DecodeKey b = (case SplitMVCCKey b of None \<Rightarrow> Inl (Errorf ''invalid encoded mvcc key'')
     | Some (k, t) \<Rightarrow> (case decodeMVCCTimestamp t of Inl e \<Rightarrow> Inl (Errorf ''invalid encoded mvcc key: bad timestamp'')
         | Inr ts \<Rightarrow> Inr (k, ts)))"
  by (auto simp: DecodeKey_def decodeMVCCTimestamp_def split: option.split)

lemma DecodeKey_bytes: "DecodeKey (mvcc_bytes k) = Inr (UserKey k, Timestamp k)"
  by (auto simp: DecodeKey_decodeMVCCTimestamp SplitMVCCKey_bytes decodeMVCCTimestamp_ts_bytes)
    (auto simp: decodeMVCCTimestamp_def IsValue_def Timestamp_IsEmpty_def)

text \<open>
  C19. Encoding a versioned key never fails, gives the same bytes in a fresh and in a reused buffer, as many
  as \<open>Len\<close> announces, and decoding returns the key with its timestamp, the synthetic flag included.
  The timestamp alone is read back from its suffix as well.
\<close>

theorem mvcc_key_roundtrip:
  "\<exists>b. EncodeMVCCKey k = Inr b \<and> EncodeMVCCKeyToBuf backing k = Inr b \<and> length b = MVCCKey_Len k \<and>
     DecodeMVCCKey b = Inr k \<and>
     res_bind (EncodeMVCCTimestampSuffix (Timestamp k)) decodeMVCCTimestampSuffix = Inr (Timestamp k)"
proof -
  let ?t = "ts_bytes (Timestamp k)"
  have "unat (of_nat (length ?t + 1) :: byte) = length ?t + 1"
    by (rule unat_of_nat_small) (simp add: length_ts_bytes)
  then have "decodeMVCCTimestampSuffix (ts_suffix (Timestamp k)) = Inr (Timestamp k)"
    by (simp add: decodeMVCCTimestampSuffix_def ts_suffix_def nth_append decodeMVCCTimestamp_ts_bytes)
      (simp add: Timestamp_IsEmpty_def)
  then show ?thesis
    by (simp add: EncodeMVCCKey_eq EncodeMVCCKeyToBuf_eq MVCCKey_Len_def encodedMVCCKeyLength_eq
        DecodeMVCCKey_def DecodeKey_bytes EncodeMVCCTimestampSuffix_eq)
qed

section \<open>The next key\<close>

lemma IsEmpty_ts_key: "\<not> Synthetic t \<Longrightarrow> Timestamp_IsEmpty t \<longleftrightarrow> ts_key t = (0, 0)"
  using ts_key_eq_iff [of t Timestamp_zero] by (simp add: Timestamp_IsEmpty_def) (simp add: Timestamp_zero_def ts_key_def)

lemma Timestamp_Prev_greatest:
  assumes "Timestamp_Prev t = Inr p" "Timestamp_Less u t" "ts_nonneg u"
  shows "Timestamp_LessEq u p"
  using assms(1)
proof (cases rule: Timestamp_Prev_cases)
  case tick
  with assms(2) show ?thesis by (auto simp: ts_order) (auto simp: ts_key_def)
next
  case borrow
  with assms(2,3) show ?thesis using sint32_range [of "Logical u"]
    by (auto simp: ts_order ts_nonneg_def) (auto simp: ts_key_def)
qed

lemma Timestamp_Prev_nonneg:
  assumes "Timestamp_Prev t = Inr p" "ts_nonneg t" shows "ts_nonneg p \<and> Timestamp_Less p t"
  using assms(1)
proof (cases rule: Timestamp_Prev_cases)
  case tick
  with assms(2) show ?thesis by (auto simp: ts_order ts_nonneg_def) (auto simp: ts_key_def)
next
  case borrow
  with assms(2) show ?thesis by (auto simp: ts_order ts_nonneg_def) (auto simp: ts_key_def)
qed

text \<open>The keys a node writes: no negative component, and not synthetic.\<close>

definition plain_key :: "MVCCKey \<Rightarrow> bool" where
  "plain_key k \<longleftrightarrow> ts_nonneg (Timestamp k) \<and> \<not> Synthetic (Timestamp k)"

lemma Next_panics: "plain_key k \<Longrightarrow> MVCCKey_Next k = Inl e \<Longrightarrow> \<not> IsValue k"
  by (auto simp: MVCCKey_Next_def res_bind_Inl Timestamp_Prev_def IsValue_def plain_key_def IsEmpty_ts_key ts_nonneg_def
      split: if_splits) (auto simp: ts_key_def)

text \<open>
  \<open>MVCCKey.Next\<close> panics on a key without a timestamp; on a versioned key it returns the least key above
  it: the same key at the previous timestamp, or the next key without a timestamp.
\<close>

theorem MVCCKey_Next_successor:
  assumes "plain_key k"
  shows "(case MVCCKey_Next k of Inl e \<Rightarrow> \<not> IsValue k
    | Inr n \<Rightarrow> plain_key n \<and> MVCCKey_Compare k n < 0 \<and>
        (\<forall>l. plain_key l \<and> MVCCKey_Less k l \<longrightarrow> MVCCKey_Compare n l \<le> 0))"
proof (cases "MVCCKey_Next k")
  case (Inl e)
  then show ?thesis using Next_panics [OF assms] by simp
next
  case (Inr n)
  then obtain p where p: "Timestamp_Prev (Timestamp k) = Inr p"
    and n: "n = (if Timestamp_IsEmpty p then MakeMVCCMetadataKey (Key_Next (UserKey k)) else \<lparr>UserKey = UserKey k, Timestamp = p\<rparr>)"
    by (auto simp: MVCCKey_Next_def split: if_splits)
  have pk: "ts_nonneg (Timestamp k)" "\<not> Synthetic (Timestamp k)" using assms by (auto simp: plain_key_def)
  note pp = Timestamp_Prev_nonneg [OF p pk(1)]
  have s: "\<not> Synthetic p" using Timestamp_Prev_Synthetic [OF p] pk by simp
  have v: "IsValue k" using pp pk by (auto simp: IsValue_def IsEmpty_ts_key ts_order ts_nonneg_def ts_key_def)
  have "plain_key n" using pp s n by (auto simp: plain_key_def MakeMVCCMetadataKey_def ts_nonneg_def Timestamp_zero_def)
  moreover have "mvcc_order k < mvcc_order n"
    using pp v n by (auto simp: mvcc_order_def MakeMVCCMetadataKey_def IsValue_def ts_order less_prod_def)
  moreover have "mvcc_order n \<le> mvcc_order l" if l: "plain_key l" "mvcc_order k < mvcc_order l" for l
  proof (cases "UserKey l = UserKey k")
    case True
    with l(2) v have lv: "IsValue l" "Timestamp_Less (Timestamp l) (Timestamp k)"
      by (auto simp: mvcc_order_def ts_order less_prod_def split: if_splits)
    then have "ts_key (Timestamp l) \<le> ts_key p" using Timestamp_Prev_greatest [OF p] l(1)
      by (simp add: ts_order plain_key_def)
    moreover have "ts_key (Timestamp l) \<noteq> (0, 0)" "ts_nonneg (Timestamp l)"
      using lv(1) l(1) by (auto simp: IsValue_def plain_key_def IsEmpty_ts_key)
    ultimately show ?thesis using True n lv(1) s
      by (auto simp: mvcc_order_def IsValue_def IsEmpty_ts_key less_eq_prod_def ts_nonneg_def ts_key_def)
  next
    case False
    with l(2) have "UserKey k < UserKey l" by (auto simp: mvcc_order_def less_prod_def)
    moreover from this have "Key_Next (UserKey k) \<le> UserKey l" by (simp add: Key_Next_less)
    ultimately show ?thesis using n
      by (auto simp: mvcc_order_def less_eq_prod_def MakeMVCCMetadataKey_def IsValue_def Timestamp_IsEmpty_def
          order.order_iff_strict)
  qed
  ultimately show ?thesis using Inr by (simp add: MVCCKey_Compare_order MVCCKey_Less_order)
qed

theorem MVCCKey_Next_successor_witness:
  "MVCCKey_Next \<lparr>UserKey = [7], Timestamp = \<lparr>WallTime = 0, Logical = 1, Synthetic = False\<rparr>\<rparr> =
     Inr \<lparr>UserKey = [7, 0], Timestamp = Timestamp_zero\<rparr> \<and>
   MVCCKey_Compare \<lparr>UserKey = [7], Timestamp = \<lparr>WallTime = 0, Logical = 1, Synthetic = False\<rparr>\<rparr>
     \<lparr>UserKey = [7, 0], Timestamp = Timestamp_zero\<rparr> < 0"
proof -
  let ?k = "\<lparr>UserKey = [7], Timestamp = \<lparr>WallTime = 0, Logical = 1, Synthetic = False\<rparr>\<rparr>"
  have n: "MVCCKey_Next ?k = Inr \<lparr>UserKey = [7, 0], Timestamp = Timestamp_zero\<rparr>"
    by (simp add: MVCCKey_Next_def Timestamp_Prev_def Timestamp_IsEmpty_def Timestamp_zero_def MakeMVCCMetadataKey_def
        Key_Next_eq)
  have "plain_key ?k" by (simp add: plain_key_def ts_nonneg_def)
  from MVCCKey_Next_successor [OF this] show ?thesis unfolding n by simp
qed

section \<open>The order of the encoded timestamps\<close>

lemma be_bytes_append_less_iff:
  assumes "unat v < 256 ^ n" "unat w < 256 ^ n"
  shows "be_bytes n v @ r < be_bytes n w @ s \<longleftrightarrow> v < w \<or> v = w \<and> r < s"
  using be_bytes_append_less [of v w n r s, OF _ assms] be_bytes_append_less [of w v n s r, OF _ assms(2,1)]
  by (cases v w rule: linorder_cases) (auto simp: append_left_less_iff)

lemma ts_bytes_less:
  "ts_bytes t < ts_bytes s \<longleftrightarrow> WallTime t < WallTime s \<or> WallTime t = WallTime s \<and>
     (Logical t < Logical s \<or> Logical t = Logical s \<and> \<not> Synthetic t \<and> Synthetic s)"
proof -
  have w: "unat (v :: 64 word) < 256 ^ 8" for v using unsigned_less [of v] by simp
  have l: "unat (v :: 32 word) < 256 ^ 4" for v using unsigned_less [of v] by simp
  have lo: "be_bytes 4 v @ r < be_bytes 4 v' @ r' \<longleftrightarrow> v < v' \<or> v = v' \<and> r < r'" for v v' :: "32 word" and r r'
    by (rule be_bytes_append_less_iff [OF l l])
  have ne: "be_bytes 4 (v :: 32 word) \<noteq> []" for v by (metis length_be_bytes list.size(3) zero_neq_numeral)
  show ?thesis unfolding ts_bytes_def be_bytes_append_less_iff [OF w w]
    using lo [of "Logical t" "[]" "Logical s" "[]"] lo [of "Logical t" "[]" "Logical s" "[1]"]
      lo [of "Logical t" "[1]" "Logical s" "[]"] lo [of "Logical t" "[1]" "Logical s" "[1]"] ne
    by (auto simp: word_gt_0 neq_Nil_conv)
qed

lemma nonneg_less_iff: "0 \<le> sint v \<Longrightarrow> 0 \<le> sint w \<Longrightarrow> v < w \<longleftrightarrow> sint v < sint (w :: 'a::len word)"
  by (simp add: word_less_def uint_of_nonneg)

lemma ts_bytes_order:
  assumes "ts_nonneg t" "ts_nonneg s"
  shows "ts_bytes t < ts_bytes s \<longleftrightarrow> ts_key t < ts_key s \<or> ts_key t = ts_key s \<and> \<not> Synthetic t \<and> Synthetic s"
  using assms by (auto simp: ts_bytes_less ts_nonneg_def nonneg_less_iff ts_key_def sint_eq_iff)

end
