(* ===== verification/Key_Space.thy ===== *)
theory Key_Space
  imports Keys_Spans Encoding_Bytes
begin

text \<open>
  \<open>pkg/keys\<close> (\<open>constants.go\<close>, \<open>keys.go\<close>): the layout of the key space below the SQL keys. Local keys start
  with the byte \<open>01\<close> and come in five kinds, store-local, by range id (replicated or not), range-local and
  lock-table keys; \<open>Addr\<close> finds the ordinary key that a range-local key belongs to. The metadata of the
  ranges is indexed in two levels, by keys that start with \<open>02\<close> and \<open>03\<close>.
\<close>

section \<open>Constants\<close>

text \<open>The conversion \<open>[]byte("...")\<close> of a literal.\<close>

definition ascii :: "string \<Rightarrow> bytes" where
  "ascii s = map of_char s"

definition LocalPrefix :: bytes where "LocalPrefix = [0x01]"
definition LocalMax :: bytes where "LocalMax = [0x02]"
definition localSuffixLength :: nat where "localSuffixLength = 4"

definition LocalRangeIDPrefix :: bytes where "LocalRangeIDPrefix = LocalPrefix @ ascii ''i''"
definition LocalRangeIDReplicatedInfix :: bytes where "LocalRangeIDReplicatedInfix = ascii ''r''"
definition LocalAbortSpanSuffix :: bytes where "LocalAbortSpanSuffix = ascii ''abc-''"
definition LocalRangeGCThresholdSuffix :: bytes where "LocalRangeGCThresholdSuffix = ascii ''lgc-''"
definition LocalRangeAppliedStateSuffix :: bytes where "LocalRangeAppliedStateSuffix = ascii ''rask''"
definition LocalRangeLeaseSuffix :: bytes where "LocalRangeLeaseSuffix = ascii ''rll-''"
definition LocalRangePriorReadSummarySuffix :: bytes where "LocalRangePriorReadSummarySuffix = ascii ''rprs''"
definition LocalRangeVersionSuffix :: bytes where "LocalRangeVersionSuffix = ascii ''rver''"

definition localRangeIDUnreplicatedInfix :: bytes where "localRangeIDUnreplicatedInfix = ascii ''u''"
definition LocalRangeTombstoneSuffix :: bytes where "LocalRangeTombstoneSuffix = ascii ''rftb''"
definition LocalRaftHardStateSuffix :: bytes where "LocalRaftHardStateSuffix = ascii ''rfth''"
definition LocalRaftLogSuffix :: bytes where "LocalRaftLogSuffix = ascii ''rftl''"
definition LocalRaftReplicaIDSuffix :: bytes where "LocalRaftReplicaIDSuffix = ascii ''rftr''"
definition LocalRaftTruncatedStateSuffix :: bytes where "LocalRaftTruncatedStateSuffix = ascii ''rftt''"
definition LocalRangeLastReplicaGCTimestampSuffix :: bytes where
  "LocalRangeLastReplicaGCTimestampSuffix = ascii ''rlrt''"

definition LocalRangePrefix :: bytes where "LocalRangePrefix = LocalPrefix @ ascii ''k''"
definition LocalRangeProbeSuffix :: bytes where "LocalRangeProbeSuffix = ascii ''prbe''"
definition LocalQueueLastProcessedSuffix :: bytes where "LocalQueueLastProcessedSuffix = ascii ''qlpt''"
definition LocalRangeDescriptorSuffix :: bytes where "LocalRangeDescriptorSuffix = ascii ''rdsc''"
definition LocalTransactionSuffix :: bytes where "LocalTransactionSuffix = ascii ''txn-''"

definition LocalStorePrefix :: bytes where "LocalStorePrefix = LocalPrefix @ ascii ''s''"
definition localStoreClusterVersionSuffix :: bytes where "localStoreClusterVersionSuffix = ascii ''cver''"
definition localStoreGossipSuffix :: bytes where "localStoreGossipSuffix = ascii ''goss''"
definition localStoreHLCUpperBoundSuffix :: bytes where "localStoreHLCUpperBoundSuffix = ascii ''hlcu''"
definition localStoreIdentSuffix :: bytes where "localStoreIdentSuffix = ascii ''iden''"
definition localStoreUnsafeReplicaRecoverySuffix :: bytes where
  "localStoreUnsafeReplicaRecoverySuffix = ascii ''loqr'' @ ascii ''applied''"
definition localStoreNodeTombstoneSuffix :: bytes where "localStoreNodeTombstoneSuffix = ascii ''ntmb''"
definition localStoreCachedSettingsSuffix :: bytes where "localStoreCachedSettingsSuffix = ascii ''stng''"
definition localStoreLastUpSuffix :: bytes where "localStoreLastUpSuffix = ascii ''uptm''"

definition LocalRangeLockTablePrefix :: bytes where "LocalRangeLockTablePrefix = LocalPrefix @ ascii ''z''"
definition LockTableSingleKeyInfix :: bytes where "LockTableSingleKeyInfix = ascii ''k''"
definition LockTableSingleKeyStart :: bytes where
  "LockTableSingleKeyStart = LocalRangeLockTablePrefix @ LockTableSingleKeyInfix"
definition LockTableSingleKeyEnd :: bytes where
  "LockTableSingleKeyEnd = LocalRangeLockTablePrefix @ PrefixEnd LockTableSingleKeyInfix"

definition meta1PrefixByte :: byte where "meta1PrefixByte = 0x02"
definition meta2PrefixByte :: byte where "meta2PrefixByte = 0x03"
definition Meta1Prefix :: bytes where "Meta1Prefix = [meta1PrefixByte]"
definition Meta1KeyMax :: bytes where "Meta1KeyMax = Meta1Prefix @ KeyMax"
definition Meta2Prefix :: bytes where "Meta2Prefix = [meta2PrefixByte]"
definition Meta2KeyMax :: bytes where "Meta2KeyMax = Meta2Prefix @ KeyMax"
definition SystemPrefix :: bytes where "SystemPrefix = [0x04]"
definition NodeLivenessPrefix :: bytes where "NodeLivenessPrefix = SystemPrefix @ 0 # ascii ''liveness-''"
definition StatusPrefix :: bytes where "StatusPrefix = SystemPrefix @ ascii ''status-''"
definition StatusNodePrefix :: bytes where "StatusNodePrefix = StatusPrefix @ ascii ''node-''"

section \<open>Store-local keys\<close>

definition MakeStoreKey :: "bytes \<Rightarrow> bytes \<Rightarrow> bytes" where
  "MakeStoreKey suff detail = LocalStorePrefix @ suff @ detail"

definition DecodeStoreKey :: "bytes \<Rightarrow> go_error + bytes \<times> bytes" where
  "DecodeStoreKey key =
     (if \<not> prefix LocalStorePrefix key then Inl (Errorf ''key does not have prefix'')
      else let key = drop (length LocalStorePrefix) key in
        if length key < localSuffixLength then Inl (Errorf ''malformed key does not contain local store suffix'')
        else Inr (take localSuffixLength key, drop localSuffixLength key))"

definition StoreIdentKey :: bytes where "StoreIdentKey = MakeStoreKey localStoreIdentSuffix []"
definition StoreGossipKey :: bytes where "StoreGossipKey = MakeStoreKey localStoreGossipSuffix []"
definition StoreClusterVersionKey :: bytes where
  "StoreClusterVersionKey = MakeStoreKey localStoreClusterVersionSuffix []"
definition StoreLastUpKey :: bytes where "StoreLastUpKey = MakeStoreKey localStoreLastUpSuffix []"
definition StoreHLCUpperBoundKey :: bytes where
  "StoreHLCUpperBoundKey = MakeStoreKey localStoreHLCUpperBoundSuffix []"

definition StoreNodeTombstoneKey :: "int32 \<Rightarrow> bytes" where
  "StoreNodeTombstoneKey nodeID = MakeStoreKey localStoreNodeTombstoneSuffix (EncodeUint32Ascending [] nodeID)"

text \<open>The error of the integer decoder is returned after the check for trailing bytes; it leaves none.\<close>

definition DecodeNodeTombstoneKey :: "bytes \<Rightarrow> go_error + int32" where
  "DecodeNodeTombstoneKey key =
     res_bind (DecodeStoreKey key) (\<lambda>(suff, detail).
       if suff \<noteq> localStoreNodeTombstoneSuffix then Inl (Errorf ''key with suffix'')
       else res_bind (DecodeUint32Ascending detail) (\<lambda>(detail, nodeID).
         if length detail \<noteq> 0 then Inl (Errorf ''invalid key has trailing garbage'') else Inr nodeID))"

definition StoreCachedSettingsKey :: "bytes \<Rightarrow> bytes" where
  "StoreCachedSettingsKey settingKey =
     MakeStoreKey localStoreCachedSettingsSuffix (EncodeBytesAscending [] settingKey)"

definition DecodeStoreCachedSettingsKey :: "bytes \<Rightarrow> go_error + bytes" where
  "DecodeStoreCachedSettingsKey key =
     res_bind (DecodeStoreKey key) (\<lambda>(suff, detail).
       if suff \<noteq> localStoreCachedSettingsSuffix then Inl (Errorf ''key with suffix'')
       else res_bind (DecodeBytesAscending detail []) (\<lambda>(detail, settingKey).
         if length detail \<noteq> 0 then Inl (Errorf ''invalid key has trailing garbage'') else Inr settingKey))"

definition LocalStoreUnsafeReplicaRecoveryKeyMin :: bytes where
  "LocalStoreUnsafeReplicaRecoveryKeyMin = MakeStoreKey localStoreUnsafeReplicaRecoverySuffix []"

definition uuid_FromBytes :: "bytes \<Rightarrow> go_error + bytes" where
  "uuid_FromBytes data = (if length data \<noteq> 16 then Inl (Errorf ''uuid: UUID must be exactly 16 bytes long'') else Inr data)"

definition StoreUnsafeReplicaRecoveryKey :: "bytes \<Rightarrow> bytes" where
  "StoreUnsafeReplicaRecoveryKey uuid = LocalStoreUnsafeReplicaRecoveryKeyMin @ uuid"

definition DecodeStoreUnsafeReplicaRecoveryKey :: "bytes \<Rightarrow> go_error + bytes" where
  "DecodeStoreUnsafeReplicaRecoveryKey key =
     (if \<not> prefix LocalStoreUnsafeReplicaRecoveryKeyMin key then Inl (Errorf ''key does not have prefix'')
      else case uuid_FromBytes (drop (length LocalStoreUnsafeReplicaRecoveryKeyMin) key) of
        Inl e \<Rightarrow> Inl (Errorf ''failed to get uuid from unsafe replica recovery key'')
      | Inr entryID \<Rightarrow> Inr entryID)"

text \<open>\<open>uint64(nodeID)\<close> extends the sign of a 32-bit node id.\<close>

definition NodeLivenessKey :: "int32 \<Rightarrow> bytes" where
  "NodeLivenessKey nodeID = EncodeUvarintAscending NodeLivenessPrefix (scast nodeID)"

definition NodeStatusKey :: "int32 \<Rightarrow> bytes" where
  "NodeStatusKey nodeID = EncodeUvarintAscending StatusNodePrefix (scast nodeID)"

section \<open>Keys by range id\<close>

definition makePrefixWithRangeID :: "bytes \<Rightarrow> int64 \<Rightarrow> bytes \<Rightarrow> bytes" where
  "makePrefixWithRangeID pre rangeID infx = EncodeUvarintAscending pre rangeID @ infx"

definition MakeRangeIDPrefix :: "int64 \<Rightarrow> bytes" where
  "MakeRangeIDPrefix rangeID = makePrefixWithRangeID LocalRangeIDPrefix rangeID []"

definition MakeRangeIDReplicatedPrefix :: "int64 \<Rightarrow> bytes" where
  "MakeRangeIDReplicatedPrefix rangeID = makePrefixWithRangeID LocalRangeIDPrefix rangeID LocalRangeIDReplicatedInfix"

definition MakeRangeIDUnreplicatedPrefix :: "int64 \<Rightarrow> bytes" where
  "MakeRangeIDUnreplicatedPrefix rangeID = makePrefixWithRangeID LocalRangeIDPrefix rangeID localRangeIDUnreplicatedInfix"

definition makeRangeIDReplicatedKey :: "int64 \<Rightarrow> bytes \<Rightarrow> bytes \<Rightarrow> go_error + bytes" where
  "makeRangeIDReplicatedKey rangeID suff detail =
     (if length suff \<noteq> localSuffixLength then Inl (GoPanic ''suffix len'')
      else Inr (MakeRangeIDReplicatedPrefix rangeID @ suff @ detail))"

definition makeRangeIDUnreplicatedKey :: "int64 \<Rightarrow> bytes \<Rightarrow> bytes \<Rightarrow> go_error + bytes" where
  "makeRangeIDUnreplicatedKey rangeID suff detail =
     (if length suff \<noteq> localSuffixLength then Inl (GoPanic ''suffix len'')
      else Inr (MakeRangeIDUnreplicatedPrefix rangeID @ suff @ detail))"

definition DecodeRangeIDKey :: "bytes \<Rightarrow> go_error + int64 \<times> bytes \<times> bytes \<times> bytes" where
  "DecodeRangeIDKey key =
     (if \<not> prefix LocalRangeIDPrefix key then Inl (Errorf ''key does not have prefix'')
      else res_bind (DecodeUvarintAscending (drop (length LocalRangeIDPrefix) key)) (\<lambda>(b, rangeInt).
        if length b < localSuffixLength + 1 then
          Inl (Errorf ''malformed key does not contain range ID infix and suffix'')
        else let infx = take 1 b; b = drop 1 b; suff = take localSuffixLength b; b = drop localSuffixLength b
             in Inr (rangeInt, infx, suff, b)))"

text \<open>The methods of \<open>RangeIDPrefixBuf\<close>; \<open>b\<close> is the prefix made by \<open>MakeRangeIDPrefix\<close>.\<close>

definition replicatedPrefix :: "bytes \<Rightarrow> bytes" where "replicatedPrefix b = b @ LocalRangeIDReplicatedInfix"
definition unreplicatedPrefix :: "bytes \<Rightarrow> bytes" where "unreplicatedPrefix b = b @ localRangeIDUnreplicatedInfix"

definition AbortSpanKey :: "bytes \<Rightarrow> bytes \<Rightarrow> bytes" where
  "AbortSpanKey b txnID = EncodeBytesAscending (replicatedPrefix b @ LocalAbortSpanSuffix) txnID"
definition RangeAppliedStateKey :: "bytes \<Rightarrow> bytes" where
  "RangeAppliedStateKey b = replicatedPrefix b @ LocalRangeAppliedStateSuffix"
definition RangeLeaseKey :: "bytes \<Rightarrow> bytes" where
  "RangeLeaseKey b = replicatedPrefix b @ LocalRangeLeaseSuffix"
definition RangePriorReadSummaryKey :: "bytes \<Rightarrow> bytes" where
  "RangePriorReadSummaryKey b = replicatedPrefix b @ LocalRangePriorReadSummarySuffix"
definition RangeGCThresholdKey :: "bytes \<Rightarrow> bytes" where
  "RangeGCThresholdKey b = replicatedPrefix b @ LocalRangeGCThresholdSuffix"
definition RangeVersionKey :: "bytes \<Rightarrow> bytes" where
  "RangeVersionKey b = replicatedPrefix b @ LocalRangeVersionSuffix"
definition RangeTombstoneKey :: "bytes \<Rightarrow> bytes" where
  "RangeTombstoneKey b = unreplicatedPrefix b @ LocalRangeTombstoneSuffix"
definition RaftTruncatedStateKey :: "bytes \<Rightarrow> bytes" where
  "RaftTruncatedStateKey b = unreplicatedPrefix b @ LocalRaftTruncatedStateSuffix"
definition RaftHardStateKey :: "bytes \<Rightarrow> bytes" where
  "RaftHardStateKey b = unreplicatedPrefix b @ LocalRaftHardStateSuffix"
definition RaftLogPrefix :: "bytes \<Rightarrow> bytes" where
  "RaftLogPrefix b = unreplicatedPrefix b @ LocalRaftLogSuffix"
definition RaftLogKey :: "bytes \<Rightarrow> uint64 \<Rightarrow> bytes" where
  "RaftLogKey b logIndex = EncodeUint64Ascending (RaftLogPrefix b) logIndex"
definition RaftReplicaIDKey :: "bytes \<Rightarrow> bytes" where
  "RaftReplicaIDKey b = unreplicatedPrefix b @ LocalRaftReplicaIDSuffix"
definition RangeLastReplicaGCTimestampKey :: "bytes \<Rightarrow> bytes" where
  "RangeLastReplicaGCTimestampKey b = unreplicatedPrefix b @ LocalRangeLastReplicaGCTimestampSuffix"

definition DecodeAbortSpanKey :: "bytes \<Rightarrow> bytes \<Rightarrow> go_error + bytes" where
  "DecodeAbortSpanKey key dest =
     res_bind (DecodeRangeIDKey key) (\<lambda>(rangeID, infx, suff, detail).
       if suff \<noteq> LocalAbortSpanSuffix then Inl (Errorf ''key does not contain the AbortSpan suffix'')
       else res_bind (DecodeBytesAscending detail dest) (\<lambda>(detail, idBytes).
         if length detail > 0 then Inl (Errorf ''key has leftover bytes after decode'')
         else uuid_FromBytes idBytes))"

section \<open>Range-local keys and lock-table keys\<close>

definition MakeRangeKeyPrefix :: "bytes \<Rightarrow> bytes" where
  "MakeRangeKeyPrefix key = EncodeBytesAscending LocalRangePrefix key"

definition MakeRangeKey :: "bytes \<Rightarrow> bytes \<Rightarrow> bytes \<Rightarrow> go_error + bytes" where
  "MakeRangeKey key suff detail =
     (if length suff \<noteq> localSuffixLength then Inl (GoPanic ''suffix len'')
      else Inr (MakeRangeKeyPrefix key @ suff @ detail))"

definition DecodeRangeKey :: "bytes \<Rightarrow> go_error + bytes \<times> bytes \<times> bytes" where
  "DecodeRangeKey key =
     (if \<not> prefix LocalRangePrefix key then Inl (Errorf ''key does not have prefix'')
      else res_bind (DecodeBytesAscending (drop (length LocalRangePrefix) key) []) (\<lambda>(b, startKey).
        if length b < localSuffixLength then Inl (Errorf ''key does not have suffix of length'')
        else Inr (startKey, take localSuffixLength b, drop localSuffixLength b)))"

definition RangeDescriptorKey :: "bytes \<Rightarrow> go_error + bytes" where
  "RangeDescriptorKey key = MakeRangeKey key LocalRangeDescriptorSuffix []"

definition QueueLastProcessedKey :: "bytes \<Rightarrow> bytes \<Rightarrow> go_error + bytes" where
  "QueueLastProcessedKey key queue = MakeRangeKey key LocalQueueLastProcessedSuffix queue"

definition RangeProbeKey :: "bytes \<Rightarrow> go_error + bytes" where
  "RangeProbeKey key = MakeRangeKey key LocalRangeProbeSuffix []"

definition LockTableSingleKey :: "bytes \<Rightarrow> bytes" where
  "LockTableSingleKey key = EncodeBytesAscending (LocalRangeLockTablePrefix @ LockTableSingleKeyInfix) key"

definition DecodeLockTableSingleKey :: "bytes \<Rightarrow> go_error + bytes" where
  "DecodeLockTableSingleKey key =
     (if \<not> prefix LocalRangeLockTablePrefix key then Inl (Errorf ''key does not have prefix'')
      else let b = drop (length LocalRangeLockTablePrefix) key in
        if \<not> prefix LockTableSingleKeyInfix b then Inl (Errorf ''key is not for a single-key lock'')
        else let b = drop (length LockTableSingleKeyInfix) b in
          res_bind (DecodeBytesAscending b []) (\<lambda>(b, lockedKey).
            if length b \<noteq> 0 then Inl (Errorf ''key has left-over bytes after decoding'')
            else Inr lockedKey))"

section \<open>Addresses\<close>

definition IsLocal :: "bytes \<Rightarrow> bool" where
  "IsLocal k \<longleftrightarrow> prefix LocalPrefix k"

lemma decodeBytes_loop_length:
  "decodeBytes_loop e b r = Inr (rest, x) \<Longrightarrow> length x + length rest + 2 \<le> length r + length b"
proof (induction e b r rule: decodeBytes_loop.induct)
  case (1 e b r)
  show ?case
  proof (cases "index_byte b (e_escape e)")
    case None
    then show ?thesis using "1.prems" by (simp add: decodeBytes_loop.simps)
  next
    case (Some i)
    then show ?thesis using "1.prems" "1.IH" [OF Some _ refl]
      by (subst (asm) decodeBytes_loop.simps) (fastforce simp: Let_def split: if_splits)
  qed
qed

lemma DecodeBytesAscending_length: "DecodeBytesAscending b [] = Inr (rest, x) \<Longrightarrow> length x + length rest + 3 \<le> length b"
  by (cases b) (auto simp: DecodeBytesAscending_def decodeBytesInternal_def dest: decodeBytes_loop_length split: if_splits)

text \<open>The loop of \<open>Addr\<close>: a key is unwrapped as long as it is local.\<close>

function Addr_loop :: "bytes \<Rightarrow> go_error + bytes" where
  "Addr_loop k =
     (if prefix LocalStorePrefix k then Inl (Errorf ''store-local key is not addressable'')
      else if prefix LocalRangeIDPrefix k then Inl (Errorf ''local range ID key is not addressable'')
      else if \<not> prefix LocalRangePrefix k then Inl (Errorf ''local key malformed; should contain prefix'')
      else res_bind (DecodeBytesAscending (drop (length LocalRangePrefix) k) []) (\<lambda>(_, k).
        if \<not> IsLocal k then Inr k else Addr_loop k))"
  by pat_completeness auto
termination
  by (relation "measure length") (auto dest!: DecodeBytesAscending_length)

declare Addr_loop.simps [simp del]

definition Addr :: "bytes \<Rightarrow> go_error + bytes" where
  "Addr k = (if \<not> IsLocal k then Inr k else Addr_loop k)"

definition MustAddr :: "bytes \<Rightarrow> go_error + bytes" where
  "MustAddr k = (case Addr k of Inl e \<Rightarrow> Inl (GoPanic ''could not take address'') | Inr rk \<Rightarrow> Inr rk)"

definition AddrUpperBound :: "bytes \<Rightarrow> go_error + bytes" where
  "AddrUpperBound k =
     res_bind (Addr k) (\<lambda>rk.
       if IsLocal k \<and> k \<noteq> MakeRangeKeyPrefix rk then Inr (Key_Next rk) else Inr rk)"

definition SpanAddr :: "Span \<Rightarrow> go_error + RSpan" where
  "SpanAddr span =
     res_bind (Addr (Key span)) (\<lambda>rk.
       if length (endk span) > 0 then
         res_bind (Addr (endk span)) (\<lambda>rek. Inr \<lparr>RKey = rk, REndKey = rek\<rparr>)
       else Inr \<lparr>RKey = rk, REndKey = []\<rparr>)"

definition TransactionKey :: "bytes \<Rightarrow> bytes \<Rightarrow> go_error + bytes" where
  "TransactionKey key txnID =
     (case Addr key of Inl e \<Rightarrow> Inl (GoPanic ''Addr'')
      | Inr rk \<Rightarrow> MakeRangeKey rk LocalTransactionSuffix txnID)"

section \<open>The two levels of range metadata\<close>

definition RangeMetaKey :: "bytes \<Rightarrow> bytes" where
  "RangeMetaKey key =
     (case key of [] \<Rightarrow> []
      | c # _ \<Rightarrow> if c = meta1PrefixByte then []
                else if c = meta2PrefixByte then Meta1Prefix @ drop (length Meta2Prefix) key
                else Meta2Prefix @ key)"

definition meta_UserKey :: "bytes \<Rightarrow> bytes" where
  "meta_UserKey key =
     (case key of [] \<Rightarrow> Meta1Prefix
      | c # _ \<Rightarrow> if c = meta1PrefixByte then Meta2Prefix @ drop (length Meta1Prefix) key
                else if c = meta2PrefixByte then drop (length Meta2Prefix) key
                else key)"

text \<open>\<open>Meta1Prefix\<close> is not a local key: \<open>MustAddr\<close> gives it back.\<close>

definition InMeta1 :: "bytes \<Rightarrow> bool" where
  "InMeta1 k \<longleftrightarrow> k = [] \<or> (case MustAddr Meta1Prefix of Inr p \<Rightarrow> prefix p k | Inl e \<Rightarrow> False)"

definition validateRangeMetaKey :: "bytes \<Rightarrow> go_error + unit" where
  "validateRangeMetaKey key =
     (if key = [] then Inr ()
      else if length key < length Meta1Prefix then Inl (Errorf ''too short'')
      else let pre = take (length Meta1Prefix) key; body = drop (length Meta1Prefix) key in
        if pre \<noteq> Meta2Prefix \<and> pre \<noteq> Meta1Prefix then Inl (Errorf ''not a meta key'')
        else if bytes_compare KeyMax body < 0 then Inl (Errorf ''body of meta key range lookup is > KeyMax'')
        else Inr ())"

definition MetaScanBounds :: "bytes \<Rightarrow> go_error + RSpan" where
  "MetaScanBounds key =
     res_bind (validateRangeMetaKey key) (\<lambda>_.
       if key = Meta2KeyMax then Inl (Errorf ''Meta2KeyMax can't be used as the key of scan'')
       else if key = [] then Inr \<lparr>RKey = Meta1Prefix, REndKey = PrefixEnd Meta1Prefix\<rparr>
       else if key = Meta1KeyMax then Inr \<lparr>RKey = Meta1KeyMax, REndKey = PrefixEnd Meta1Prefix\<rparr>
       else Inr \<lparr>RKey = Key_Next key, REndKey = PrefixEnd (take (length Meta1Prefix) key)\<rparr>)"

definition MetaReverseScanBounds :: "bytes \<Rightarrow> go_error + RSpan" where
  "MetaReverseScanBounds key =
     res_bind (validateRangeMetaKey key) (\<lambda>_.
       if key = [] \<or> key = Meta1Prefix then
         Inl (Errorf ''KeyMin and Meta1Prefix can't be used as the key of reverse scan'')
       else if key = Meta2Prefix then Inr \<lparr>RKey = Meta1Prefix, REndKey = Key_Next key\<rparr>
       else Inr \<lparr>RKey = take (length Meta1Prefix) key, REndKey = Key_Next key\<rparr>)"

section \<open>The range of a batch\<close>

text \<open>What \<open>Range\<close> uses of a request: its header and whether it is a ranged request.\<close>

record request =
  IsRange :: bool
  Header :: Span

definition range_step :: "request \<Rightarrow> bytes \<times> bytes \<Rightarrow> go_error + bytes \<times> bytes" where
  "range_step req = (\<lambda>(from, to).
     let h = Header req in
     if \<not> IsRange req \<and> length (endk h) \<noteq> 0 then Inl (Errorf ''end key specified for non-range operation'')
     else res_bind (Addr (Key h)) (\<lambda>key.
       let from = (if bytes_compare key from < 0 then key else from) in
       res_bind (if \<not> bytes_compare key to < 0 then
                   if bytes_compare key KeyMax > 0 then Inl (Errorf ''must be less than KeyMax'')
                   else Inr (Key_Next key)
                 else Inr to) (\<lambda>to.
         if length (endk h) = 0 then Inr (from, to)
         else res_bind (AddrUpperBound (endk h)) (\<lambda>endKey.
           if bytes_compare KeyMax endKey < 0 then Inl (Errorf ''must be less than or equal to KeyMax'')
           else Inr (from, if bytes_compare to endKey < 0 then endKey else to)))))"

fun range_loop :: "request list \<Rightarrow> bytes \<times> bytes \<Rightarrow> go_error + bytes \<times> bytes" where
  "range_loop [] acc = Inr acc"
| "range_loop (r # reqs) acc = res_bind (range_step r acc) (range_loop reqs)"

definition keys_Range :: "request list \<Rightarrow> go_error + RSpan" where
  "keys_Range reqs = res_bind (range_loop reqs (KeyMax, [])) (\<lambda>(from, to). Inr \<lparr>RKey = from, REndKey = to\<rparr>)"

section \<open>Reading local keys back\<close>

named_theorems key_consts \<open>the values of the constants\<close>

lemma local_prefixes [key_consts]:
  "LocalPrefix = [1]" "LocalRangeIDPrefix = [1, 105]" "LocalRangePrefix = [1, 107]" "LocalStorePrefix = [1, 115]"
  "LocalRangeLockTablePrefix = [1, 122]" "LockTableSingleKeyInfix = [107]" "LocalRangeIDReplicatedInfix = [114]"
  "localRangeIDUnreplicatedInfix = [117]" "localSuffixLength = 4"
  by (simp_all add: LocalPrefix_def LocalRangeIDPrefix_def LocalRangePrefix_def LocalStorePrefix_def
      LocalRangeLockTablePrefix_def LockTableSingleKeyInfix_def LocalRangeIDReplicatedInfix_def
      localRangeIDUnreplicatedInfix_def localSuffixLength_def ascii_def)

lemma meta_prefixes [key_consts]:
  "Meta1Prefix = [2]" "Meta2Prefix = [3]" "meta1PrefixByte = 2" "meta2PrefixByte = 3" "KeyMax = [0xff, 0xff]"
  "Meta1KeyMax = [2, 0xff, 0xff]" "Meta2KeyMax = [3, 0xff, 0xff]"
  by (simp_all add: Meta1Prefix_def Meta2Prefix_def meta1PrefixByte_def meta2PrefixByte_def KeyMax_def
      Meta1KeyMax_def Meta2KeyMax_def)

lemma suffix_lengths [simp]:
  "length LocalAbortSpanSuffix = 4" "length LocalRangeDescriptorSuffix = 4" "length LocalQueueLastProcessedSuffix = 4"
  "length LocalRangeProbeSuffix = 4" "length LocalTransactionSuffix = 4" "length localStoreNodeTombstoneSuffix = 4"
  "length localStoreCachedSettingsSuffix = 4" "length LocalRaftLogSuffix = 4"
  by (simp_all add: LocalAbortSpanSuffix_def LocalRangeDescriptorSuffix_def LocalQueueLastProcessedSuffix_def
      LocalRangeProbeSuffix_def LocalTransactionSuffix_def localStoreNodeTombstoneSuffix_def
      localStoreCachedSettingsSuffix_def LocalRaftLogSuffix_def ascii_def)

lemma EncodeBytesAscending_append: "EncodeBytesAscending b data = b @ EncodeBytesAscending [] data"
  by (simp add: EncodeBytesAscending_eq)

lemma DecodeBytesAscending_Encode [simp]: "DecodeBytesAscending (EncodeBytesAscending [] x @ rest) [] = Inr (rest, x)"
  by (rule bytes_asc.dec_enc) simp

lemma DecodeBytesAscending_Encode0 [simp]: "DecodeBytesAscending (EncodeBytesAscending [] x) [] = Inr ([], x)"
  using DecodeBytesAscending_Encode [of x "[]"] by simp

lemma DecodeUvarintAscending_Encode [simp]: "DecodeUvarintAscending (EncodeUvarintAscending [] v @ rest) = Inr (rest, v)"
  by (rule uvarint_asc.dec_enc) simp

lemma MakeRangeIDPrefix_eq: "MakeRangeIDPrefix r = [1, 105] @ EncodeUvarintAscending [] r"
  by (simp add: MakeRangeIDPrefix_def makePrefixWithRangeID_def key_consts encode_varint_append(1) [of "[1, 105]"])

lemma MakeRangeKeyPrefix_eq: "MakeRangeKeyPrefix k = [1, 107] @ EncodeBytesAscending [] k"
  by (simp add: MakeRangeKeyPrefix_def EncodeBytesAscending_append [of "[1, 107]"] key_consts)

lemma LockTableSingleKey_eq: "LockTableSingleKey k = [1, 122, 107] @ EncodeBytesAscending [] k"
  by (simp add: LockTableSingleKey_def EncodeBytesAscending_append [of "[1, 122, 107]"] key_consts)

lemma DecodeRangeIDKey_eq:
  "length suff = 4 \<Longrightarrow> DecodeRangeIDKey (MakeRangeIDPrefix r @ c # suff @ detail) = Inr (r, [c], suff, detail)"
  by (simp add: DecodeRangeIDKey_def MakeRangeIDPrefix_eq key_consts)

lemma makeRangeID_keys:
  "makeRangeIDReplicatedKey r suff detail =
     (if length suff = 4 then Inr (MakeRangeIDPrefix r @ 114 # suff @ detail) else Inl (GoPanic ''suffix len''))"
  "makeRangeIDUnreplicatedKey r suff detail =
     (if length suff = 4 then Inr (MakeRangeIDPrefix r @ 117 # suff @ detail) else Inl (GoPanic ''suffix len''))"
  by (simp_all add: makeRangeIDReplicatedKey_def makeRangeIDUnreplicatedKey_def MakeRangeIDReplicatedPrefix_def
      MakeRangeIDUnreplicatedPrefix_def MakeRangeIDPrefix_def makePrefixWithRangeID_def key_consts)

text \<open>
  C29. The decoders of local keys return what the constructors were given: the range id with its infix,
  suffix and detail, the start key of a range-local key, the key of a lock, the transaction of an abort
  span entry, the node of a tombstone, a cached setting and the id of a recovery entry.
\<close>

theorem local_key_roundtrips:
  assumes "length suff = 4" "length uuid = 16"
  shows "res_bind (makeRangeIDReplicatedKey r suff detail) DecodeRangeIDKey =
      Inr (r, LocalRangeIDReplicatedInfix, suff, detail) \<and>
    res_bind (makeRangeIDUnreplicatedKey r suff detail) DecodeRangeIDKey =
      Inr (r, localRangeIDUnreplicatedInfix, suff, detail) \<and>
    DecodeAbortSpanKey (AbortSpanKey (MakeRangeIDPrefix r) uuid) [] = Inr uuid \<and>
    res_bind (MakeRangeKey k suff detail) DecodeRangeKey = Inr (k, suff, detail) \<and>
    DecodeLockTableSingleKey (LockTableSingleKey k) = Inr k \<and>
    DecodeNodeTombstoneKey (StoreNodeTombstoneKey n) = Inr n \<and>
    DecodeStoreCachedSettingsKey (StoreCachedSettingsKey k) = Inr k \<and>
    DecodeStoreUnsafeReplicaRecoveryKey (StoreUnsafeReplicaRecoveryKey uuid) = Inr uuid"
proof (intro conjI)
  show "DecodeAbortSpanKey (AbortSpanKey (MakeRangeIDPrefix r) uuid) [] = Inr uuid"
    using assms DecodeRangeIDKey_eq [of LocalAbortSpanSuffix r 114 "EncodeBytesAscending [] uuid"]
    by (simp add: AbortSpanKey_def DecodeAbortSpanKey_def replicatedPrefix_def uuid_FromBytes_def key_consts
        EncodeBytesAscending_append [of "MakeRangeIDPrefix r @ 114 # LocalAbortSpanSuffix"])
  show "DecodeNodeTombstoneKey (StoreNodeTombstoneKey n) = Inr n"
    using uint32_asc.dec_enc [of n "[]"]
    by (simp add: DecodeNodeTombstoneKey_def StoreNodeTombstoneKey_def DecodeStoreKey_def MakeStoreKey_def key_consts)
qed (use assms in \<open>simp_all add: makeRangeID_keys DecodeRangeIDKey_eq MakeRangeKey_def DecodeRangeKey_def
  MakeRangeKeyPrefix_eq DecodeLockTableSingleKey_def LockTableSingleKey_eq DecodeStoreCachedSettingsKey_def
  StoreCachedSettingsKey_def DecodeStoreKey_def MakeStoreKey_def DecodeStoreUnsafeReplicaRecoveryKey_def
  StoreUnsafeReplicaRecoveryKey_def uuid_FromBytes_def key_consts\<close>)

theorem local_key_roundtrips_witness:
  "res_bind (makeRangeIDReplicatedKey 7 LocalAbortSpanSuffix [1, 2]) DecodeRangeIDKey =
     Inr (7, LocalRangeIDReplicatedInfix, LocalAbortSpanSuffix, [1, 2])"
  using local_key_roundtrips [of LocalAbortSpanSuffix "replicate 16 0" 7 "[1, 2]" "[]" 0] by simp

section \<open>The order of local keys\<close>

lemma RangeKeyPrefix_less_iff:
  "MakeRangeKeyPrefix a @ x < MakeRangeKeyPrefix b @ y \<longleftrightarrow> a < b \<or> a = b \<and> x < y"
  using bytes_asc.enc_less_iff [of a x b y] by (simp add: MakeRangeKeyPrefix_eq)

lemma LockTableSingleKey_bounds:
  "LockTableSingleKeyStart \<le> LockTableSingleKey k \<and> LockTableSingleKey k < LockTableSingleKeyEnd"
  by (simp add: LockTableSingleKeyStart_def LockTableSingleKeyEnd_def LockTableSingleKey_eq key_consts PrefixEnd_def)

text \<open>
  Local keys sort by what they are made of: by range id and then by what follows, by start key and then
  by what follows, raft log entries by index. The lock-table keys sort as the keys that are locked, all
  of them between the two bounds of the lock table, so a scan of a span is a scan of its locks.
\<close>

theorem local_key_order:
  "(MakeRangeIDPrefix r @ x < MakeRangeIDPrefix r' @ y \<longleftrightarrow> r < r' \<or> r = r' \<and> x < y) \<and>
   (MakeRangeKeyPrefix k @ x < MakeRangeKeyPrefix l @ y \<longleftrightarrow> k < l \<or> k = l \<and> x < y) \<and>
   (RaftLogKey b i < RaftLogKey b j \<longleftrightarrow> i < j) \<and>
   (LockTableSingleKey k < LockTableSingleKey l \<longleftrightarrow> k < l) \<and>
   LockTableSingleKeyStart \<le> LockTableSingleKey k \<and> LockTableSingleKey k < LockTableSingleKeyEnd"
  using uvarint_asc.enc_less_iff [of r x r' y] uint64_asc.enc_compare [of i j] bytes_asc.enc_compare [of k l]
    LockTableSingleKey_bounds [of k] RangeKeyPrefix_less_iff [of k x l y]
  by (simp add: MakeRangeIDPrefix_eq LockTableSingleKey_eq RaftLogKey_def encode_append(3) [of "RaftLogPrefix b"]
      append_left_less_iff)

section \<open>Address resolution\<close>

lemma decodeBytes_loop_Errorf: "decodeBytes_loop e b r = Inl err \<Longrightarrow> \<exists>m. err = Errorf m"
proof (induction e b r rule: decodeBytes_loop.induct)
  case (1 e b r)
  show ?case using "1.prems" "1.IH"
    by (simp add: decodeBytes_loop.simps [of e b r] Let_def split: option.splits if_splits) blast+
qed

lemma DecodeBytesAscending_Errorf: "DecodeBytesAscending b r = Inl err \<Longrightarrow> \<exists>m. err = Errorf m"
  by (auto simp: DecodeBytesAscending_def decodeBytesInternal_def dest: decodeBytes_loop_Errorf split: if_splits)

lemma Addr_loop_result:
  "case Addr_loop k of Inr a \<Rightarrow> \<not> IsLocal a | Inl e \<Rightarrow> \<exists>m. e = Errorf m"
proof (induction k rule: Addr_loop.induct)
  case (1 k)
  then show ?case
    by (subst Addr_loop.simps)
      (cases "DecodeBytesAscending (drop (length LocalRangePrefix) k) []", auto dest: DecodeBytesAscending_Errorf)
qed

lemma Addr_range_local: "Addr (MakeRangeKeyPrefix k @ x) = Addr k"
  by (simp add: Addr_def IsLocal_def MakeRangeKeyPrefix_eq)
    (simp add: Addr_loop.simps [of "1 # 107 # EncodeBytesAscending [] k @ x"] key_consts IsLocal_def)

text \<open>
  C27. \<open>Addr\<close> returns for every key: an ordinary key is its own address, the address of a range-local key is
  that of the key it is made from, whatever suffix follows and however often it was wrapped, and the
  result is never local. The only failures are returned errors, and only on local keys.
\<close>

theorem Addr_resolves:
  "(case Addr k of Inr a \<Rightarrow> \<not> IsLocal a \<and> (\<not> IsLocal k \<longrightarrow> a = k) | Inl e \<Rightarrow> IsLocal k \<and> (\<exists>m. e = Errorf m)) \<and>
   Addr (MakeRangeKeyPrefix k @ x) = Addr k"
  using Addr_loop_result [of k] Addr_range_local [of k x] by (auto simp: Addr_def split: sum.splits)

theorem Addr_resolves_witness:
  "Addr (MakeRangeKeyPrefix (MakeRangeKeyPrefix [9] @ [5]) @ [6]) = Inr [9]"
  using Addr_resolves [of "MakeRangeKeyPrefix [9] @ [5]" "[6]"] Addr_resolves [of "[9]" "[5]"]
  by (simp add: Addr_def [of "[9]"] IsLocal_def key_consts)

text \<open>
  As the end of a span, a range-local key is resolved exactly: a key is below the resolved end if and
  only if some range-local key made from it is below the given end.
\<close>

theorem AddrUpperBound_exact:
  assumes "\<not> IsLocal b"
  shows "\<exists>ub. AddrUpperBound (MakeRangeKeyPrefix b @ y) = Inr ub \<and>
    (a < ub \<longleftrightarrow> (\<exists>x. MakeRangeKeyPrefix a @ x < MakeRangeKeyPrefix b @ y))"
proof -
  have l: "IsLocal (MakeRangeKeyPrefix b @ y)" by (simp add: IsLocal_def MakeRangeKeyPrefix_eq key_consts)
  have A: "Addr (MakeRangeKeyPrefix b @ y) = Inr b" unfolding Addr_range_local using assms by (simp add: Addr_def)
  have "AddrUpperBound (MakeRangeKeyPrefix b @ y) = Inr (if y = [] then b else Key_Next b)"
    using l unfolding AddrUpperBound_def A by simp
  moreover have "(\<exists>x. x < y) \<longleftrightarrow> y \<noteq> []" using Nil_less_bytes by (metis not_less_Nil)
  ultimately show ?thesis by (auto simp: RangeKeyPrefix_less_iff less_Key_Next order.order_iff_strict)
qed

theorem AddrUpperBound_exact_witness:
  "\<exists>ub. AddrUpperBound (MakeRangeKeyPrefix [9] @ [1]) = Inr ub \<and>
    ([9] < ub \<longleftrightarrow> (\<exists>x. MakeRangeKeyPrefix [9] @ x < MakeRangeKeyPrefix [9] @ [1]))"
  by (rule AddrUpperBound_exact) (simp add: IsLocal_def key_consts)

section \<open>Looking up ranges\<close>

text \<open>The keys that are neither local nor range metadata, up to the end of the key space.\<close>

definition ordinary :: "bytes \<Rightarrow> bool" where
  "ordinary k \<longleftrightarrow> k \<noteq> [] \<and> hd k > 3 \<and> k \<le> KeyMax"

lemma ordinary_meta:
  assumes "ordinary k"
  shows "RangeMetaKey k = 3 # k" "RangeMetaKey (3 # k) = 2 # k" "meta_UserKey (3 # k) = k" "meta_UserKey (2 # k) = 3 # k"
proof -
  obtain c cs where k: "k = c # cs" "c > 3" using assms by (cases k) (auto simp: ordinary_def)
  then have "c \<noteq> 2" "c \<noteq> 3" by (auto simp: word_less_def)
  then show "RangeMetaKey k = 3 # k" "RangeMetaKey (3 # k) = 2 # k" "meta_UserKey (3 # k) = k" "meta_UserKey (2 # k) = 3 # k"
    using k by (simp_all add: RangeMetaKey_def meta_UserKey_def key_consts)
qed

lemma MetaScanBounds_meta:
  assumes "k \<le> KeyMax" "k \<noteq> []" "c = 2 \<or> c = 3"
  shows "MetaScanBounds (c # k) =
    (if c = 3 \<and> k = KeyMax then Inl (Errorf ''Meta2KeyMax can't be used as the key of scan'')
     else Inr \<lparr>RKey = (if k = KeyMax then c # k else Key_Next (c # k)), REndKey = [c + 1]\<rparr>)"
  using assms by (auto simp: MetaScanBounds_def validateRangeMetaKey_def key_consts PrefixEnd_def Key_Next_eq not_less)

lemma MetaReverseScanBounds_meta:
  assumes "k \<le> KeyMax" "k \<noteq> []" "c = 2 \<or> c = 3"
  shows "MetaReverseScanBounds (c # k) = Inr \<lparr>RKey = [c], REndKey = Key_Next (c # k)\<rparr>"
  using assms by (auto simp: MetaReverseScanBounds_def validateRangeMetaKey_def key_consts not_less)

lemma scan_contains:
  assumes "c = 2 \<or> c = 3"
  shows "RSpan_ContainsKey \<lparr>RKey = Key_Next (c # k), REndKey = [c + 1]\<rparr> (c # e) \<longleftrightarrow> k < (e :: bytes)"
    "RSpan_ContainsKey \<lparr>RKey = [c], REndKey = Key_Next (c # k)\<rparr> (c # e) \<longleftrightarrow> e \<le> (k :: bytes)"
  using assms Key_Next_less [of "c # k" "c # e"] less_Key_Next [of "c # e" "c # k"]
  by (auto simp: RSpan_ContainsKey_def)

text \<open>
  C17. The index of the ranges. A range is recorded under the metadata key of its end key. The scan for a key
  covers exactly the records of the ranges that end above the key, at both levels of the index, so its
  first record is the range of the key; a reverse scan covers exactly those that end at or below it.
  \<open>UserKey\<close> undoes \<open>RangeMetaKey\<close>.
\<close>

theorem range_lookup:
  assumes "ordinary k" "ordinary e" "k \<noteq> KeyMax"
  shows "meta_UserKey (RangeMetaKey k) = k \<and>
    (\<exists>rs. MetaScanBounds (RangeMetaKey k) = Inr rs \<and> (RSpan_ContainsKey rs (RangeMetaKey e) \<longleftrightarrow> k < e)) \<and>
    (\<exists>rs. MetaScanBounds (RangeMetaKey (RangeMetaKey k)) = Inr rs \<and>
       (RSpan_ContainsKey rs (RangeMetaKey (RangeMetaKey e)) \<longleftrightarrow> k < e)) \<and>
    (\<exists>rs. MetaReverseScanBounds (RangeMetaKey k) = Inr rs \<and> (RSpan_ContainsKey rs (RangeMetaKey e) \<longleftrightarrow> e \<le> k))"
proof -
  have k: "k \<le> KeyMax" "k \<noteq> []" using assms(1) by (auto simp: ordinary_def)
  note m = ordinary_meta [OF assms(1)] ordinary_meta [OF assms(2)]
  show ?thesis
    using MetaScanBounds_meta [OF k, of 3] MetaScanBounds_meta [OF k, of 2] MetaReverseScanBounds_meta [OF k, of 3]
      scan_contains(1) [of 3 k e] scan_contains(1) [of 2 k e] scan_contains(2) [of 3 k e] assms(3)
    unfolding m by simp
qed

theorem range_lookup_witness:
  "\<exists>rs. MetaScanBounds (RangeMetaKey [0x61]) = Inr rs \<and> (RSpan_ContainsKey rs (RangeMetaKey [0x62]) \<longleftrightarrow> [0x61] < [0x62 :: byte])"
  using range_lookup [of "[0x61]" "[0x62]"] by (simp add: ordinary_def key_consts)

section \<open>Batches\<close>

definition covers :: "bytes \<times> bytes \<Rightarrow> request \<Rightarrow> bool" where
  "covers ft r \<longleftrightarrow> (\<exists>a. Addr (Key (Header r)) = Inr a \<and> fst ft \<le> a \<and> a < snd ft \<and>
     (endk (Header r) \<noteq> [] \<longrightarrow> (\<exists>e. AddrUpperBound (endk (Header r)) = Inr e \<and> e \<le> snd ft \<and> e \<le> KeyMax)))"

lemma range_step_spec:
  assumes "range_step r (from, to) = Inr (from', to')"
  shows "covers (from', to') r \<and> from' \<le> from \<and> to \<le> to'"
proof -
  obtain a where a: "Addr (Key (Header r)) = Inr a"
    using assms by (auto simp: range_step_def Let_def split: if_splits)
  define to1 where "to1 = (if a < to then to else Key_Next a)"
  have t1: "a < to1" "to \<le> to1" by (auto simp: to1_def less_Key_Next not_less intro: order.trans [OF _ order.strict_implies_order])
  have "\<exists>e. from' = (if a < from then a else from) \<and> (endk (Header r) = [] \<and> to' = to1 \<or>
      AddrUpperBound (endk (Header r)) = Inr e \<and> \<not> KeyMax < e \<and> to' = (if to1 < e then e else to1))"
  proof (cases "endk (Header r) = []")
    case True
    then show ?thesis using assms a by (auto simp: range_step_def Let_def to1_def split: if_splits)
  next
    case False
    then show ?thesis using assms a
      by (cases "AddrUpperBound (endk (Header r))") (simp_all add: range_step_def Let_def to1_def split: if_splits)
  qed
  then show ?thesis using a t1 by (auto simp: covers_def not_less split: if_splits intro: order.trans less_trans)
qed

lemma covers_mono: "covers (f, t) r \<Longrightarrow> f' \<le> f \<Longrightarrow> t \<le> t' \<Longrightarrow> covers (f', t') r"
  unfolding covers_def by (force intro: order.trans less_le_trans)

lemma range_loop_spec:
  "range_loop reqs (from, to) = Inr (from', to') \<Longrightarrow>
     (\<forall>r\<in>set reqs. covers (from', to') r) \<and> from' \<le> from \<and> to \<le> to'"
proof (induction reqs arbitrary: "from" to)
  case (Cons r reqs)
  then obtain f t where s: "range_step r (from, to) = Inr (f, t)" "range_loop reqs (f, t) = Inr (from', to')" by auto
  from range_step_spec [OF s(1)] Cons.IH [OF s(2)] show ?case
    by (auto intro: covers_mono order.trans)
qed simp

text \<open>
  C28. The range of a batch covers the resolved span of every request in it: the address of its key, and
  everything below the resolved end key.
\<close>

theorem keys_Range_covers:
  assumes "keys_Range reqs = Inr rs" "r \<in> set reqs"
  shows "\<exists>a. Addr (Key (Header r)) = Inr a \<and> RSpan_ContainsKey rs a \<and>
    (endk (Header r) \<noteq> [] \<longrightarrow> (\<exists>e. AddrUpperBound (endk (Header r)) = Inr e \<and> e \<le> REndKey rs))"
proof -
  obtain f t where "range_loop reqs (KeyMax, []) = Inr (f, t)" "rs = \<lparr>RKey = f, REndKey = t\<rparr>"
    using assms(1) by (auto simp: keys_Range_def)
  then show ?thesis using range_loop_spec [of reqs KeyMax "[]" f t] assms(2)
    by (auto simp: covers_def RSpan_ContainsKey_def)
qed

theorem keys_Range_covers_witness:
  "\<exists>a. Addr [9] = Inr a \<and> RSpan_ContainsKey \<lparr>RKey = [5], REndKey = [9, 0]\<rparr> a"
proof -
  let ?rs = "[\<lparr>IsRange = False, Header = \<lparr>Key = [9], EndKey = None\<rparr>\<rparr>, \<lparr>IsRange = True, Header = \<lparr>Key = [5], EndKey = Some [7]\<rparr>\<rparr>]"
  have "keys_Range ?rs = Inr \<lparr>RKey = [5], REndKey = [9, 0]\<rparr>"
    by (simp add: keys_Range_def range_step_def Addr_def IsLocal_def key_consts nil_bytes_def AddrUpperBound_def Key_Next_eq)
  from keys_Range_covers [OF this, of "hd ?rs"] show ?thesis by auto
qed

end
