(* ===== verification/Engine_Key.thy ===== *)
theory Engine_Key
  imports Mvcc_Key Key_Space
begin

text \<open>
  \<open>pkg/storage/engine_key.go\<close> and the comparer and the block property collector of
  \<open>pkg/storage/pebble.go\<close>: keys as the storage engine sees them, a key and a version that is empty, a
  timestamp, or the strength and the transaction of a lock. The comparer works on the encoded bytes
  without decoding them. What Pebble's own comparer does is a parameter of the definitions that call it.
\<close>

section \<open>Engine keys\<close>

record EngineKey =
  EKey :: bytes
  Version :: bytes

abbreviation (input) engineKeyNoVersion :: nat where "engineKeyNoVersion \<equiv> 0"
abbreviation (input) engineKeyVersionWallTimeLen :: nat where "engineKeyVersionWallTimeLen \<equiv> 8"
abbreviation (input) engineKeyVersionWallAndLogicalTimeLen :: nat where "engineKeyVersionWallAndLogicalTimeLen \<equiv> 12"
abbreviation (input) engineKeyVersionWallLogicalAndSyntheticTimeLen :: nat where
  "engineKeyVersionWallLogicalAndSyntheticTimeLen \<equiv> 13"
abbreviation (input) engineKeyVersionLockTableLen :: nat where "engineKeyVersionLockTableLen \<equiv> 17"

definition EncodedLen :: "EngineKey \<Rightarrow> nat" where
  "EncodedLen k =
     (let n = length (EKey k) + 1; versionLen = length (Version k) in
      if versionLen > 0 then n + (1 + versionLen) else n)"

definition encodeToSizedBuf :: "EngineKey \<Rightarrow> bytes \<Rightarrow> go_error + bytes" where
  "encodeToSizedBuf k buf =
     (let buf = copy_to buf (EKey k); pos = length (EKey k);
          suffixLen = int (length buf) - int pos - 1 in
      res_bind (if suffixLen > 0 then
                  res_bind (put_byte buf pos 0) (\<lambda>buf.
                    on_tail (pos + 1) buf (\<lambda>tail. Inr (copy_to tail (Version k))))
                else Inr buf)
        (\<lambda>buf. put_byte buf (length buf - 1) (word_of_int suffixLen)))"

definition EngineKey_Encode :: "EngineKey \<Rightarrow> go_error + bytes" where
  "EngineKey_Encode k = encodeToSizedBuf k (replicate (EncodedLen k) 0)"

definition EncodeToBuf :: "EngineKey \<Rightarrow> bytes \<Rightarrow> go_error + bytes" where
  "EncodeToBuf k backing =
     (let encodedLen = EncodedLen k;
          buf = (if length backing < encodedLen then replicate encodedLen 0 else take encodedLen backing)
      in encodeToSizedBuf k buf)"

definition IsMVCCKey :: "EngineKey \<Rightarrow> bool" where
  "IsMVCCKey k \<longleftrightarrow>
     (let l = length (Version k) in
      l = engineKeyNoVersion \<or> l = engineKeyVersionWallTimeLen \<or> l = engineKeyVersionWallAndLogicalTimeLen \<or>
      l = engineKeyVersionWallLogicalAndSyntheticTimeLen)"

definition IsLockTableKey :: "EngineKey \<Rightarrow> bool" where
  "IsLockTableKey k \<longleftrightarrow> length (Version k) = engineKeyVersionLockTableLen"

definition ToMVCCKey :: "EngineKey \<Rightarrow> go_error + MVCCKey" where
  "ToMVCCKey k =
     (let v = Version k; l = length v in
      if l = engineKeyNoVersion then Inr \<lparr>UserKey = EKey k, Timestamp = Timestamp_zero\<rparr>
      else if l = engineKeyVersionWallTimeLen then
        Inr \<lparr>UserKey = EKey k, Timestamp = \<lparr>WallTime = be_fold (take 8 v), Logical = 0, Synthetic = False\<rparr>\<rparr>
      else if l = engineKeyVersionWallAndLogicalTimeLen then
        Inr \<lparr>UserKey = EKey k, Timestamp =
          \<lparr>WallTime = be_fold (take 8 v), Logical = be_fold (take 4 (drop 8 v)), Synthetic = False\<rparr>\<rparr>
      else if l = engineKeyVersionWallLogicalAndSyntheticTimeLen then
        Inr \<lparr>UserKey = EKey k, Timestamp =
          \<lparr>WallTime = be_fold (take 8 v), Logical = be_fold (take 4 (drop 8 v)), Synthetic = (v ! 12 \<noteq> 0)\<rparr>\<rparr>
      else Inl (Errorf ''version is not an encoded timestamp''))"

text \<open>\<open>lock.Strength\<close> is a 32-bit integer with the named values 0 to 3.\<close>

type_synonym Strength = int32

abbreviation (input) lock_None :: Strength where "lock_None \<equiv> 0"
abbreviation (input) lock_Exclusive :: Strength where "lock_Exclusive \<equiv> 3"

record LockTableKey =
  LKey :: bytes
  LStrength :: Strength
  TxnUUID :: bytes

definition ToLockTableKey :: "EngineKey \<Rightarrow> go_error + LockTableKey" where
  "ToLockTableKey k =
     res_bind (DecodeLockTableSingleKey (EKey k)) (\<lambda>lockedKey.
       if length (Version k) = engineKeyVersionLockTableLen then
         let st = ucast (Version k ! 0) :: Strength in
         if sint st < sint lock_None \<or> sint st > sint lock_Exclusive then Inl (Errorf ''unknown strength'')
         else Inr \<lparr>LKey = lockedKey, LStrength = st, TxnUUID = drop 1 (Version k)\<rparr>
       else Inl (Errorf ''version is not valid for a LockTableKey''))"

definition EngineKey_Validate :: "EngineKey \<Rightarrow> go_error + unit" where
  "EngineKey_Validate k =
     (case (ToMVCCKey k, ToLockTableKey k) of
        (Inl _, Inl _) \<Rightarrow> Inl (Errorf ''key is neither an MVCCKey or LockTableKey'')
      | _ \<Rightarrow> Inr ())"

definition DecodeEngineKey :: "bytes \<Rightarrow> EngineKey option" where
  "DecodeEngineKey b =
     (if length b = 0 then None
      else let versionLen = unat (b ! (length b - 1));
               keyPartEnd = int (length b) - 1 - int versionLen in
        if keyPartEnd < 0 then None
        else Some \<lparr>EKey = take (nat keyPartEnd) b,
                   Version = (if versionLen > 0 then drop (nat keyPartEnd + 1) (take (length b - 1) b) else [])\<rparr>)"

definition GetKeyPartFromEngineKey :: "bytes \<Rightarrow> bytes option" where
  "GetKeyPartFromEngineKey engineKey =
     (if length engineKey = 0 then None
      else let versionLen = unat (engineKey ! (length engineKey - 1));
               keyPartEnd = int (length engineKey) - 1 - int versionLen in
        if keyPartEnd < 0 then None else Some (take (nat keyPartEnd) engineKey))"

text \<open>The version is written into the spare capacity behind the key, or into a new slice.\<close>

definition ToEngineKey :: "LockTableKey \<Rightarrow> go_error + EngineKey" where
  "ToEngineKey lk =
     (if length (TxnUUID lk) \<noteq> 16 then Inl (GoPanic ''invalid TxnUUID'')
      else if LStrength lk \<noteq> lock_Exclusive then Inl (GoPanic ''unsupported lock strength'')
      else Inr \<lparr>EKey = LockTableSingleKey (LKey lk), Version = ucast (LStrength lk) # TxnUUID lk\<rparr>)"

section \<open>The comparer\<close>

definition EngineKeyCompare :: "bytes \<Rightarrow> bytes \<Rightarrow> int" where
  "EngineKeyCompare a b =
     (let aEnd = int (length a) - 1; bEnd = int (length b) - 1 in
      if aEnd < 0 \<or> bEnd < 0 then bytes_compare a b
      else
        let aSep = aEnd - uint (a ! nat aEnd); bSep = bEnd - uint (b ! nat bEnd);
            (aSep, bSep) = (if aSep = - 1 \<and> bSep = - 1 then (0, 0) else (aSep, bSep)) in
        if aSep < 0 \<or> bSep < 0 then bytes_compare a b
        else
          let c = bytes_compare (take (nat aSep) a) (take (nat bSep) b) in
          if c \<noteq> 0 then c
          else
            let aTS = drop (nat aSep) (take (nat aEnd) a); bTS = drop (nat bSep) (take (nat bEnd) b) in
            if length aTS = 0 then if length bTS = 0 then 0 else - 1
            else if length bTS = 0 then 1
            else bytes_compare bTS aTS)"

text \<open>
  The separator and the successor of the comparer call those of Pebble's default comparer, \<open>dflt\<close>,
  which appends to the given slice.
\<close>

definition EngineComparer_Separator ::
  "(bytes \<Rightarrow> bytes \<Rightarrow> bytes \<Rightarrow> bytes) \<Rightarrow> bytes \<Rightarrow> bytes \<Rightarrow> bytes \<Rightarrow> bytes" where
  "EngineComparer_Separator dflt dst a b =
     (case GetKeyPartFromEngineKey a of None \<Rightarrow> dst @ a
      | Some aKey \<Rightarrow> (case GetKeyPartFromEngineKey b of None \<Rightarrow> dst @ a
        | Some bKey \<Rightarrow>
            if aKey = bKey then dst @ a
            else let n = length dst; dst' = dflt dst aKey bKey; buf = drop n dst' in
              if aKey = buf then take n dst' @ a else dst' @ [0]))"

definition EngineComparer_Successor :: "(bytes \<Rightarrow> bytes \<Rightarrow> bytes) \<Rightarrow> bytes \<Rightarrow> bytes \<Rightarrow> bytes" where
  "EngineComparer_Successor dflt dst a =
     (case GetKeyPartFromEngineKey a of None \<Rightarrow> dst @ a
      | Some aKey \<Rightarrow>
          let n = length dst; dst' = dflt dst aKey; buf = drop n dst' in
          if aKey = buf then take n dst' @ a else dst' @ [0])"

definition EngineComparer_Split :: "bytes \<Rightarrow> nat" where
  "EngineComparer_Split k = (case GetKeyPartFromEngineKey k of None \<Rightarrow> length k | Some key \<Rightarrow> length key + 1)"

section \<open>The time interval of a block\<close>

record TimeIntervalCollector =
  tc_min :: bytes
  tc_max :: bytes

definition tc_add :: "TimeIntervalCollector \<Rightarrow> bytes \<Rightarrow> go_error + TimeIntervalCollector" where
  "tc_add tc b =
     (if length b = 0 then Inr tc
      else let versionLen = unat (b ! (length b - 1)) in
        if versionLen = 0 then Inr tc
        else let prefixPartEnd = int (length b) - 1 - int versionLen in
          if prefixPartEnd < - 1 \<or> (prefixPartEnd \<ge> 0 \<and> b ! nat prefixPartEnd \<noteq> 0) then Inl (Errorf ''invalid key'')
          else let versionLen = versionLen - 1 in
            if versionLen = engineKeyVersionWallTimeLen \<or> versionLen = engineKeyVersionWallAndLogicalTimeLen \<or>
               versionLen = engineKeyVersionWallLogicalAndSyntheticTimeLen then
              let b = drop (nat (prefixPartEnd + 1)) (take (length b - 1) b);
                  mn = (if length (tc_min tc) = 0 \<or> bytes_compare b (tc_min tc) < 0 then b else tc_min tc);
                  mx = (if length (tc_max tc) = 0 \<or> bytes_compare b (tc_max tc) > 0 then b else tc_max tc)
              in Inr \<lparr>tc_min = mn, tc_max = mx\<rparr>
            else Inr tc)"

definition decodeWallTime :: "bytes \<Rightarrow> uint64" where
  "decodeWallTime ts = be_fold (take engineKeyVersionWallTimeLen ts)"

definition FinishDataBlock :: "TimeIntervalCollector \<Rightarrow> TimeIntervalCollector \<times> (go_error + uint64 \<times> uint64)" where
  "FinishDataBlock tc =
     (if length (tc_min tc) = 0 then (tc, Inr (0, 0))
      else let lower = decodeWallTime (tc_min tc); upper = decodeWallTime (tc_max tc) + 1;
               tc = \<lparr>tc_min = [], tc_max = []\<rparr> in
        if lower \<ge> upper then (tc, Inl (Errorf ''corrupt timestamps lower >= upper'')) else (tc, Inr (lower, upper)))"

fun tc_add_all :: "TimeIntervalCollector \<Rightarrow> bytes list \<Rightarrow> go_error + TimeIntervalCollector" where
  "tc_add_all tc [] = Inr tc"
| "tc_add_all tc (b # bs) = res_bind (tc_add tc b) (\<lambda>tc. tc_add_all tc bs)"

section \<open>The layout\<close>

definition engine_bytes :: "EngineKey \<Rightarrow> bytes" where
  "engine_bytes k = EKey k @ 0 # (if Version k = [] then [] else Version k @ [of_nat (length (Version k) + 1)])"

lemma encodeToSizedBuf_eq:
  assumes "length buf = EncodedLen k"
  shows "encodeToSizedBuf k buf = Inr (engine_bytes k)"
proof (cases "Version k = []")
  case True
  with assms have n: "length buf = Suc (length (EKey k))" by (simp add: EncodedLen_def)
  then obtain x where "drop (length (EKey k)) buf = [x]"
    by (cases "drop (length (EKey k)) buf") (auto dest: arg_cong [of _ _ length])
  then show ?thesis using n True by (simp add: encodeToSizedBuf_def copy_to_def put_byte_def engine_bytes_def)
next
  case False
  define n where "n = length (EKey k)"
  have len: "length buf = n + (2 + length (Version k))" using assms False by (simp add: EncodedLen_def n_def)
  then obtain c e where d: "drop n buf = c # e" "length e = Suc (length (Version k))"
    by (cases "drop n buf") (auto dest: arg_cong [of _ _ length])
  then obtain v f where e: "e = v @ [f]" "length v = length (Version k)" by (cases e rule: rev_cases) auto
  have copy: "copy_to buf (EKey k) = EKey k @ c # e" using len d by (simp add: copy_to_def n_def)
  have tail: "on_tail (Suc n) (EKey k @ 0 # e) (\<lambda>tail. Inr (copy_to tail (Version k))) = Inr ((EKey k @ 0 # Version k) @ [f])"
    using on_tail_append [of "EKey k @ [0]" "Suc n" e] e by (simp add: n_def copy_to_def)
  show ?thesis
    using tail put_byte_append [of "EKey k" c e 0] put_byte_append [of "EKey k @ 0 # Version k" f "[]"] False len d(2)
    unfolding encodeToSizedBuf_def copy by (simp add: n_def engine_bytes_def Let_def add.commute)
qed

lemma EngineKey_Encode_eq: "EngineKey_Encode k = Inr (engine_bytes k)"
  by (simp add: EngineKey_Encode_def encodeToSizedBuf_eq)

lemma EncodeToBuf_eq: "EncodeToBuf k backing = Inr (engine_bytes k)"
  by (simp add: EncodeToBuf_def encodeToSizedBuf_eq)

text \<open>A version whose length fits the length byte.\<close>

abbreviation short_version :: "EngineKey \<Rightarrow> bool" where
  "short_version k \<equiv> length (Version k) < 255"

lemma version_byte:
  assumes "n < 255"
  shows "unat (1 + of_nat n :: byte) = n + 1" "uint (1 + of_nat n :: byte) = int n + 1"
proof -
  show u: "unat (1 + of_nat n :: byte) = n + 1" using assms unat_of_nat_small [of "n + 1", where ?'a = 8] by simp
  have "int (unat (1 + of_nat n :: byte)) = int n + 1" unfolding u by simp
  then show "uint (1 + of_nat n :: byte) = int n + 1" by simp
qed

lemma DecodeEngineKey_bytes: "short_version k \<Longrightarrow> DecodeEngineKey (engine_bytes k) = Some k"
  by (cases k) (simp add: DecodeEngineKey_def engine_bytes_def nth_append version_byte Let_def)

lemma GetKeyPart_bytes: "short_version k \<Longrightarrow> GetKeyPartFromEngineKey (engine_bytes k) = Some (EKey k)"
  by (simp add: GetKeyPartFromEngineKey_def engine_bytes_def nth_append version_byte Let_def)

definition mvcc_engine_key :: "MVCCKey \<Rightarrow> EngineKey" where
  "mvcc_engine_key k = \<lparr>EKey = UserKey k, Version = (if IsValue k then ts_bytes (Timestamp k) else [])\<rparr>"

lemma mvcc_engine_bytes: "mvcc_bytes k = engine_bytes (mvcc_engine_key k)"
  by (simp add: mvcc_bytes_def engine_bytes_def mvcc_engine_key_def ts_suffix_def IsValue_def)

lemma mvcc_short_version [simp]: "short_version (mvcc_engine_key k)"
  by (simp add: mvcc_engine_key_def length_ts_bytes)

lemma ToMVCCKey_decode:
  "ToMVCCKey k = (case decodeMVCCTimestamp (Version k) of
     Inl e \<Rightarrow> Inl (Errorf ''version is not an encoded timestamp'') | Inr ts \<Rightarrow> Inr \<lparr>UserKey = EKey k, Timestamp = ts\<rparr>)"
  by (auto simp: ToMVCCKey_def decodeMVCCTimestamp_def Let_def)

lemma ToMVCCKey_mvcc: "ToMVCCKey (mvcc_engine_key k) = Inr k"
  by (cases k) (auto simp: ToMVCCKey_decode mvcc_engine_key_def decodeMVCCTimestamp_ts_bytes,
      simp add: decodeMVCCTimestamp_def IsValue_def Timestamp_IsEmpty_def)

lemma ToLockTableKey_ToEngineKey:
  "ToEngineKey lk = Inr k \<Longrightarrow> ToLockTableKey k = Inr lk \<and> IsLockTableKey k \<and> \<not> IsMVCCKey k"
  by (cases lk) (auto simp: ToEngineKey_def ToLockTableKey_def IsLockTableKey_def IsMVCCKey_def
      LockTableSingleKey_eq DecodeLockTableSingleKey_def key_consts split: if_splits)

text \<open>
  Every engine key with a version of less than 255 bytes is read back, whatever buffer it was encoded
  into. A versioned key and the engine key of its timestamp have the same bytes, and each is recovered
  from the other; a lock-table key is recovered from its engine key, which is not taken for a versioned one.
\<close>

theorem engine_key_roundtrip:
  assumes "short_version k"
  shows "(\<exists>b. EngineKey_Encode k = Inr b \<and> EncodeToBuf k backing = Inr b \<and> length b = EncodedLen k \<and>
      DecodeEngineKey b = Some k \<and> GetKeyPartFromEngineKey b = Some (EKey k)) \<and>
    (\<exists>b e. EncodeMVCCKey m = Inr b \<and> DecodeEngineKey b = Some e \<and> EngineKey_Encode e = Inr b \<and>
      IsMVCCKey e \<and> ToMVCCKey e = Inr m) \<and>
    (\<forall>e. ToEngineKey lk = Inr e \<longrightarrow> ToLockTableKey e = Inr lk \<and> IsLockTableKey e \<and> \<not> IsMVCCKey e)"
proof (intro conjI allI impI)
  have "length (engine_bytes k) = EncodedLen k" by (simp add: engine_bytes_def EncodedLen_def)
  then show "\<exists>b. EngineKey_Encode k = Inr b \<and> EncodeToBuf k backing = Inr b \<and> length b = EncodedLen k \<and>
      DecodeEngineKey b = Some k \<and> GetKeyPartFromEngineKey b = Some (EKey k)"
    using assms by (simp add: EngineKey_Encode_eq EncodeToBuf_eq DecodeEngineKey_bytes GetKeyPart_bytes)
  have "IsMVCCKey (mvcc_engine_key m)" by (auto simp: IsMVCCKey_def mvcc_engine_key_def length_ts_bytes)
  then show "\<exists>b e. EncodeMVCCKey m = Inr b \<and> DecodeEngineKey b = Some e \<and> EngineKey_Encode e = Inr b \<and>
      IsMVCCKey e \<and> ToMVCCKey e = Inr m"
    by (simp add: EncodeMVCCKey_eq mvcc_engine_bytes DecodeEngineKey_bytes EngineKey_Encode_eq ToMVCCKey_mvcc)
qed (use ToLockTableKey_ToEngineKey in blast)+

theorem engine_key_roundtrip_witness:
  "\<exists>b. EngineKey_Encode \<lparr>EKey = [1, 2], Version = [3, 4, 5]\<rparr> = Inr b \<and>
     DecodeEngineKey b = Some \<lparr>EKey = [1, 2], Version = [3, 4, 5]\<rparr>"
  using engine_key_roundtrip [of "\<lparr>EKey = [1, 2], Version = [3, 4, 5]\<rparr>" "[]" "MakeMVCCMetadataKey [7]"
      "\<lparr>LKey = [], LStrength = 3, TxnUUID = []\<rparr>"] by auto

section \<open>The order of the engine\<close>

text \<open>Versions sort in reverse, except that no version comes first.\<close>

datatype engine_version = EngineVersion bytes

instantiation engine_version :: linorder
begin

fun less_eq_engine_version :: "engine_version \<Rightarrow> engine_version \<Rightarrow> bool" where
  "less_eq_engine_version (EngineVersion a) (EngineVersion b) \<longleftrightarrow> a = [] \<or> b \<noteq> [] \<and> b \<le> a"

fun less_engine_version :: "engine_version \<Rightarrow> engine_version \<Rightarrow> bool" where
  "less_engine_version (EngineVersion a) (EngineVersion b) \<longleftrightarrow> b \<noteq> [] \<and> (a = [] \<or> b < a)"

instance
proof
  fix x y z :: engine_version
  obtain a b c where xyz: "x = EngineVersion a" "y = EngineVersion b" "z = EngineVersion c"
    by (metis engine_version.exhaust)
  show "(x < y) = (x \<le> y \<and> \<not> y \<le> x)" by (auto simp: xyz)
  show "x \<le> x" by (simp add: xyz)
  show "x \<le> y \<Longrightarrow> y \<le> z \<Longrightarrow> x \<le> z" by (auto simp: xyz)
  show "x \<le> y \<Longrightarrow> y \<le> x \<Longrightarrow> x = y" by (auto simp: xyz)
  show "x \<le> y \<or> y \<le> x" by (auto simp: xyz)
qed

end

text \<open>The key of the order, on the raw bytes: the part before the sentinel, and what follows up to the length.\<close>

definition engine_order :: "bytes \<Rightarrow> bytes \<times> engine_version" where
  "engine_order b = (case GetKeyPartFromEngineKey b of
     Some k \<Rightarrow> (k, EngineVersion (drop (length k) (butlast b))) | None \<Rightarrow> ([], EngineVersion []))"

lemma GetKeyPart_Some:
  assumes "GetKeyPartFromEngineKey b = Some k"
  shows "b \<noteq> []" "int (length b) - 1 - uint (b ! (length b - 1)) = int (length k)"
    "k = take (length k) b" "length k < length b"
proof -
  define u where "u = uint (b ! (length b - 1))"
  have u: "0 \<le> u" by (simp add: u_def)
  have b: "b \<noteq> []" and z: "0 \<le> int (length b) - 1 - u" and k: "k = take (nat (int (length b) - 1 - u)) b"
    using assms by (auto simp: GetKeyPartFromEngineKey_def Let_def u_def split: if_splits)
  have n: "nat (int (length b) - 1 - u) < length b" using u b z by (subst nat_less_iff) auto
  then have "length k = nat (int (length b) - 1 - u)" using k by simp
  then show "int (length b) - 1 - uint (b ! (length b - 1)) = int (length k)" "k = take (length k) b" "length k < length b"
    using z k n by (simp_all add: u_def)
  show "b \<noteq> []" by (rule b)
qed

lemma EngineKeyCompare_order:
  assumes a: "GetKeyPartFromEngineKey a = Some ka" and b: "GetKeyPartFromEngineKey b = Some kb"
  shows "EngineKeyCompare a b = three_way (engine_order a) (engine_order b)"
proof -
  note A = GetKeyPart_Some [OF a] and B = GetKeyPart_Some [OF b]
  have n: "nat (int (length a) - 1) = length a - 1" "nat (int (length b) - 1) = length b - 1" by simp_all
  have nn: "\<not> int (length a) - 1 < 0" "\<not> int (length b) - 1 < 0" using A(1) B(1) by (simp_all add: Suc_le_eq)
  have "EngineKeyCompare a b =
    (let c = bytes_compare (take (length ka) a) (take (length kb) b) in
      if c \<noteq> 0 then c
      else let aTS = drop (length ka) (butlast a); bTS = drop (length kb) (butlast b) in
        if length aTS = 0 then if length bTS = 0 then 0 else - 1
        else if length bTS = 0 then 1 else bytes_compare bTS aTS)"
    unfolding EngineKeyCompare_def Let_def n A(2) B(2) using nn by (simp add: butlast_conv_take)
  then show ?thesis
    using A(3) B(3) by (simp add: engine_order_def a b Let_def) (auto simp: three_way_def less_prod_def)
qed

lemma engine_order_bytes:
  "short_version k \<Longrightarrow> engine_order (engine_bytes k) = (EKey k, EngineVersion (if Version k = [] then [] else 0 # Version k))"
  by (simp add: engine_order_def GetKeyPart_bytes) (simp add: engine_bytes_def butlast_append)

lemma EngineKeyCompare_bytes:
  "short_version k \<Longrightarrow> short_version l \<Longrightarrow> EngineKeyCompare (engine_bytes k) (engine_bytes l) =
     three_way (EKey k, EngineVersion (Version k)) (EKey l, EngineVersion (Version l))"
  by (simp add: EngineKeyCompare_order [OF GetKeyPart_bytes GetKeyPart_bytes] engine_order_bytes)
    (auto simp: three_way_def less_prod_def)

lemma EngineKeyCompare_refl [simp]: "EngineKeyCompare a a = 0"
  by (auto simp: EngineKeyCompare_def Let_def three_way_def)

lemma EngineVersion_ts_less:
  assumes "ts_nonneg t" "ts_nonneg s"
  shows "EngineVersion (ts_bytes t) < EngineVersion (ts_bytes s) \<longleftrightarrow>
    ts_key s < ts_key t \<or> ts_key t = ts_key s \<and> Synthetic t \<and> \<not> Synthetic s"
  using ts_bytes_order [OF assms(2,1)] by auto

lemma three_way_refine:
  fixes a b :: "'a::linorder" and v w :: "'b::linorder" and s t :: "'c::linorder" and e f :: bool
  assumes "v < w \<longleftrightarrow> s < t \<or> s = t \<and> e < f" "w < v \<longleftrightarrow> t < s \<or> t = s \<and> f < e"
  shows "three_way (a, v) (b, w) =
    (if three_way (a, s) (b, t) \<noteq> 0 then three_way (a, s) (b, t) else three_way e f)"
proof (cases "a = b")
  case True
  then show ?thesis using assms by (auto simp: three_way_def)
next
  case False
  then show ?thesis by (auto simp: three_way_def)
qed

lemma mvcc_version_less:
  assumes "ts_nonneg (Timestamp k)" "ts_nonneg (Timestamp l)"
  shows "EngineVersion (Version (mvcc_engine_key k)) < EngineVersion (Version (mvcc_engine_key l)) \<longleftrightarrow>
    snd (mvcc_order k) < snd (mvcc_order l) \<or>
    snd (mvcc_order k) = snd (mvcc_order l) \<and> Synthetic (Timestamp l) < Synthetic (Timestamp k)"
proof -
  have zero: "\<not> IsValue m \<Longrightarrow> \<not> Synthetic (Timestamp m)" for m
    by (simp add: IsValue_def Timestamp_IsEmpty_def Timestamp_zero_def)
  have "snd (mvcc_order k) < snd (mvcc_order l) \<longleftrightarrow> ts_key (Timestamp l) < ts_key (Timestamp k)"
    "snd (mvcc_order k) = snd (mvcc_order l) \<longleftrightarrow> ts_key (Timestamp k) = ts_key (Timestamp l)" if "IsValue k" "IsValue l"
    using that by (auto simp: mvcc_order_def ts_key_def)
  then show ?thesis using EngineVersion_ts_less [OF assms] zero [of k] zero [of l]
    by (cases "IsValue k"; cases "IsValue l") (auto simp: mvcc_engine_key_def, auto simp: mvcc_order_def)
qed

text \<open>
  C5. The engine, which compares encoded bytes, sorts versioned keys as \<open>MVCCKey.Compare\<close> does; where that
  comparison finds no difference but one of the two timestamps is synthetic, the engine still tells the
  keys apart and sorts the synthetic one first.
\<close>

theorem engine_order_is_mvcc_order:
  assumes "ts_nonneg (Timestamp k)" "ts_nonneg (Timestamp l)" "EncodeMVCCKey k = Inr a" "EncodeMVCCKey l = Inr b"
  shows "EngineKeyCompare a b =
    (if MVCCKey_Compare k l \<noteq> 0 then MVCCKey_Compare k l
     else three_way (Synthetic (Timestamp l)) (Synthetic (Timestamp k)))"
proof -
  have ab: "a = engine_bytes (mvcc_engine_key k)" "b = engine_bytes (mvcc_engine_key l)"
    using assms(3,4) by (simp_all add: EncodeMVCCKey_eq mvcc_engine_bytes)
  have uk: "EKey (mvcc_engine_key m) = UserKey m" for m by (simp add: mvcc_engine_key_def)
  define S where "S m = snd (mvcc_order m)" for m
  have prod_order: "mvcc_order m = (UserKey m, S m)" for m by (simp add: S_def mvcc_order_def)
  show ?thesis unfolding ab MVCCKey_Compare_order EngineKeyCompare_bytes [OF mvcc_short_version mvcc_short_version]
      uk prod_order
    by (rule three_way_refine) (fact mvcc_version_less [OF assms(1,2), folded S_def] mvcc_version_less [OF assms(2,1), folded S_def])+
qed

theorem engine_order_is_mvcc_order_witness:
  "EngineKeyCompare (mvcc_bytes \<lparr>UserKey = [7], Timestamp = \<lparr>WallTime = 5, Logical = 0, Synthetic = True\<rparr>\<rparr>)
     (mvcc_bytes \<lparr>UserKey = [7], Timestamp = \<lparr>WallTime = 5, Logical = 0, Synthetic = False\<rparr>\<rparr>) = - 1"
  by (subst engine_order_is_mvcc_order [OF _ _ EncodeMVCCKey_eq EncodeMVCCKey_eq])
    (simp_all add: ts_nonneg_def MVCCKey_Compare_order mvcc_order_def three_way_def IsValue_def Timestamp_IsEmpty_def
      Timestamp_zero_def ts_key_def)

section \<open>What Pebble relies on\<close>

text \<open>
  The suffixes that Pebble compares on their own sort as if they followed a common key; this is the case
  the comparer treats by moving the separator from -1 to 0.
\<close>

lemma EngineKeyCompare_suffix:
  assumes "v \<noteq> []" "w \<noteq> []" "length v < 255" "length w < 255"
  shows "EngineKeyCompare (v @ [of_nat (length v + 1)]) (w @ [of_nat (length w + 1)]) = bytes_compare w v"
  using assms by (simp add: EngineKeyCompare_def Let_def nth_append version_byte)

definition version_suffix :: "bytes \<Rightarrow> bytes" where
  "version_suffix v = (if v = [] then [] else v @ [of_nat (length v + 1)])"

lemma EngineKeyCompare_Nil: "b \<noteq> [] \<Longrightarrow> EngineKeyCompare [] b = - 1" "a \<noteq> [] \<Longrightarrow> EngineKeyCompare a [] = 1"
  by (simp_all add: EngineKeyCompare_def three_way_def)

lemma suffixes_compare:
  assumes "length v < 255" "length w < 255"
  shows "EngineKeyCompare (version_suffix v) (version_suffix w) =
    EngineKeyCompare (engine_bytes \<lparr>EKey = k, Version = v\<rparr>) (engine_bytes \<lparr>EKey = k, Version = w\<rparr>)"
  using assms EngineKeyCompare_suffix [of v w]
  by (auto simp: EngineKeyCompare_bytes version_suffix_def EngineKeyCompare_Nil three_way_def)

lemma Separator_between:
  assumes sep: "\<And>dst a b. a < b \<Longrightarrow> \<exists>s. dsep dst a b = dst @ s \<and> a \<le> s \<and> s < b"
    and less: "EngineKeyCompare a b < 0"
  shows "\<exists>s. EngineComparer_Separator dsep dst a b = dst @ s \<and> EngineKeyCompare a s \<le> 0 \<and> EngineKeyCompare s b < 0"
proof (cases "\<exists>ka kb. GetKeyPartFromEngineKey a = Some ka \<and> GetKeyPartFromEngineKey b = Some kb \<and> ka \<noteq> kb")
  case True
  then obtain ka kb where k: "GetKeyPartFromEngineKey a = Some ka" "GetKeyPartFromEngineKey b = Some kb" "ka \<noteq> kb" by blast
  have "ka \<le> kb" using less k by (simp add: EngineKeyCompare_order [OF k(1,2)]) (auto simp: engine_order_def k less_prod_def)
  with k(3) have lt: "ka < kb" by simp
  obtain s where s: "dsep dst ka kb = dst @ s" "ka \<le> s" "s < kb" using sep [OF lt] by blast
  have g: "GetKeyPartFromEngineKey (s @ [0]) = Some s" by (simp add: GetKeyPartFromEngineKey_def)
  show ?thesis
  proof (cases "s = ka")
    case True
    then show ?thesis using s k less by (simp add: EngineComparer_Separator_def Let_def)
  next
    case False
    with s have "ka < s" by simp
    then have "EngineKeyCompare a (s @ [0]) \<le> 0" "EngineKeyCompare (s @ [0]) b < 0"
      using s k by (simp_all add: EngineKeyCompare_order [OF k(1) g] EngineKeyCompare_order [OF g k(2)])
        (simp_all add: engine_order_def k g less_prod_def less_eq_prod_def)
    then show ?thesis using False s k by (simp add: EngineComparer_Separator_def Let_def)
  qed
next
  case False
  then show ?thesis using less by (auto simp: EngineComparer_Separator_def split: option.split)
qed

lemma Successor_above:
  assumes succ: "\<And>dst a. \<exists>s. dsucc dst a = dst @ s \<and> a \<le> s"
  shows "\<exists>s. EngineComparer_Successor dsucc dst a = dst @ s \<and> EngineKeyCompare a s \<le> 0"
proof (cases "GetKeyPartFromEngineKey a")
  case (Some ka)
  obtain s where s: "dsucc dst ka = dst @ s" "ka \<le> s" using succ by blast
  have g: "GetKeyPartFromEngineKey (s @ [0]) = Some s" by (simp add: GetKeyPartFromEngineKey_def)
  have "EngineKeyCompare a (s @ [0]) \<le> 0" if "ka < s"
    using that by (simp add: EngineKeyCompare_order [OF Some g]) (simp add: engine_order_def Some g less_eq_prod_def)
  then show ?thesis using s Some by (auto simp: EngineComparer_Successor_def Let_def order.order_iff_strict)
qed (simp add: EngineComparer_Successor_def)

lemma Split_bytes:
  "short_version k \<Longrightarrow> take (EngineComparer_Split (engine_bytes k)) (engine_bytes k) = engine_bytes (k\<lparr>Version := []\<rparr>)"
  by (simp add: EngineComparer_Split_def GetKeyPart_bytes) (simp add: engine_bytes_def)

text \<open>
  C25. What Pebble asks of a comparer. The comparison is a total order on the keys that can be split.
  Given that Pebble's own separator and successor keep their promise on plain byte strings, those of the
  engine keep it on engine keys: a separator lies between its arguments, a successor is not below its
  argument. Cutting two keys after their split point keeps their order, a cut key sorts before the
  key itself, and bare suffixes compare as if they followed the same key.
\<close>

theorem engine_comparer_contract:
  assumes sep: "\<forall>dst a b. a < b \<longrightarrow> (\<exists>s. dsep dst a b = dst @ s \<and> a \<le> s \<and> s < b)"
    and succ: "\<forall>dst a. \<exists>s. dsucc dst a = dst @ s \<and> a \<le> s"
    and less: "EngineKeyCompare x y < 0"
    and short: "short_version k" "short_version l" "short_version m"
  shows "(\<exists>s. EngineComparer_Separator dsep dst x y = dst @ s \<and> EngineKeyCompare x s \<le> 0 \<and> EngineKeyCompare s y < 0) \<and>
    (\<exists>s. EngineComparer_Successor dsucc dst x = dst @ s \<and> EngineKeyCompare x s \<le> 0) \<and>
    (let a = engine_bytes k; b = engine_bytes l; c = engine_bytes m;
         pre = (\<lambda>b. take (EngineComparer_Split b) b) in
      EngineKeyCompare b a = - EngineKeyCompare a b \<and>
      (EngineKeyCompare a b = 0 \<longleftrightarrow> k = l) \<and>
      (EngineKeyCompare a b \<le> 0 \<and> EngineKeyCompare b c \<le> 0 \<longrightarrow> EngineKeyCompare a c \<le> 0) \<and>
      EngineKeyCompare (pre a) a \<le> 0 \<and>
      (EngineKeyCompare a b \<le> 0 \<longrightarrow> EngineKeyCompare (pre a) (pre b) \<le> 0) \<and>
      (EKey k = EKey l \<longrightarrow> EngineKeyCompare (version_suffix (Version k)) (version_suffix (Version l)) = EngineKeyCompare a b))"
proof (intro conjI)
  show "\<exists>s. EngineComparer_Separator dsep dst x y = dst @ s \<and> EngineKeyCompare x s \<le> 0 \<and> EngineKeyCompare s y < 0"
    using sep less by (intro Separator_between) auto
  show "\<exists>s. EngineComparer_Successor dsucc dst x = dst @ s \<and> EngineKeyCompare x s \<le> 0"
    using succ by (intro Successor_above) auto
  let ?o = "\<lambda>k. (EKey k, EngineVersion (Version k))"
  have cmp: "EngineKeyCompare (engine_bytes k) (engine_bytes l) = three_way (?o k) (?o l)" if "short_version k" "short_version l" for k l
    using that by (rule EngineKeyCompare_bytes)
  have eq: "?o k = ?o l \<longleftrightarrow> k = l" by (cases k; cases l) simp
  have le: "?o k \<le> ?o l \<Longrightarrow> EKey k \<le> EKey l" by (auto simp: less_eq_prod_def)
  have suff: "EngineKeyCompare (version_suffix (Version k)) (version_suffix (Version l)) = three_way (?o k) (?o l)"
    if "EKey k = EKey l"
    using suffixes_compare [OF short(1,2), of "EKey k"] that cmp [OF short(1,2)] by (cases k; cases l) simp
  show "let a = engine_bytes k; b = engine_bytes l; c = engine_bytes m; pre = (\<lambda>b. take (EngineComparer_Split b) b) in
      EngineKeyCompare b a = - EngineKeyCompare a b \<and>
      (EngineKeyCompare a b = 0 \<longleftrightarrow> k = l) \<and>
      (EngineKeyCompare a b \<le> 0 \<and> EngineKeyCompare b c \<le> 0 \<longrightarrow> EngineKeyCompare a c \<le> 0) \<and>
      EngineKeyCompare (pre a) a \<le> 0 \<and>
      (EngineKeyCompare a b \<le> 0 \<longrightarrow> EngineKeyCompare (pre a) (pre b) \<le> 0) \<and>
      (EKey k = EKey l \<longrightarrow> EngineKeyCompare (version_suffix (Version k)) (version_suffix (Version l)) = EngineKeyCompare a b)"
    using short suff le order.trans [of "?o k" "?o l" "?o m"] unfolding Let_def
    by (simp add: Split_bytes cmp three_way_minus eq [simplified] del: less_eq_prod_simp)
      (auto simp: less_eq_prod_def)
qed

theorem engine_comparer_contract_witness:
  "EngineComparer_Separator (\<lambda>dst a b. dst @ a) [] [1, 0] [2, 0] = [1, 0] \<and>
   (\<exists>s. EngineComparer_Separator (\<lambda>dst a b. dst @ a) [] [1, 0] [2, 0] = s \<and>
      EngineKeyCompare [1, 0] s \<le> 0 \<and> EngineKeyCompare s [2, 0] < 0)"
proof -
  have "EngineKeyCompare [1, 0] [2, 0] < 0" by (simp add: EngineKeyCompare_def Let_def)
  then show ?thesis
    using engine_comparer_contract [of "\<lambda>dst a b. dst @ a" "\<lambda>dst a. dst @ a" "[1, 0]" "[2, 0]"
        "\<lparr>EKey = [], Version = []\<rparr>" "\<lparr>EKey = [], Version = []\<rparr>" "\<lparr>EKey = [], Version = []\<rparr>" "[]"]
    by (simp add: EngineComparer_Separator_def GetKeyPartFromEngineKey_def)
qed

section \<open>The interval of a block\<close>

abbreviation tc_empty :: TimeIntervalCollector where
  "tc_empty \<equiv> \<lparr>tc_min = [], tc_max = []\<rparr>"

definition versions :: "MVCCKey list \<Rightarrow> bytes set" where
  "versions ks = (\<lambda>k. ts_bytes (Timestamp k)) ` {k \<in> set ks. IsValue k}"

definition tc_inv :: "TimeIntervalCollector \<Rightarrow> bytes set \<Rightarrow> bool" where
  "tc_inv tc V \<longleftrightarrow> (if V = {} then tc = tc_empty
     else tc_min tc \<in> V \<and> tc_max tc \<in> V \<and> (\<forall>v\<in>V. tc_min tc \<le> v \<and> v \<le> tc_max tc))"

text \<open>A key and its bare suffix have the same effect.\<close>

lemma tc_add_suffix:
  "tc_add tc (ts_suffix ts) = tc_add tc (mvcc_bytes \<lparr>UserKey = k, Timestamp = ts\<rparr>)"
proof (cases "Timestamp_IsEmpty ts")
  case False
  let ?t = "ts_bytes ts"
  have "length ?t < 255" by (simp add: length_ts_bytes)
  note u = version_byte [OF this]
  have "mvcc_bytes \<lparr>UserKey = k, Timestamp = ts\<rparr> = (k @ 0 # ?t) @ [of_nat (length ?t + 1)]"
    using False by (simp add: mvcc_bytes_def ts_suffix_def)
  moreover have "nat (int (length k) + 1) = Suc (length k)" by simp
  ultimately show ?thesis using False u by (simp add: tc_add_def Let_def ts_suffix_def nth_append)
qed (simp add: tc_add_def mvcc_bytes_def ts_suffix_def)

lemma tc_add_key:
  "tc_add tc (mvcc_bytes k) = Inr (if IsValue k then
     \<lparr>tc_min = (if tc_min tc = [] \<or> ts_bytes (Timestamp k) < tc_min tc then ts_bytes (Timestamp k) else tc_min tc),
      tc_max = (if tc_max tc = [] \<or> tc_max tc < ts_bytes (Timestamp k) then ts_bytes (Timestamp k) else tc_max tc)\<rparr> else tc)"
proof (cases "IsValue k")
  case True
  let ?t = "ts_bytes (Timestamp k)"
  have "length ?t < 255" by (simp add: length_ts_bytes)
  note u = version_byte [OF this]
  have "tc_add tc (ts_suffix (Timestamp k)) = tc_add tc (mvcc_bytes k)"
    using tc_add_suffix [of tc "Timestamp k" "UserKey k"] by (simp add: mvcc_bytes_def)
  moreover have "length ?t = 8 \<or> length ?t = 12 \<or> length ?t = 13" by (simp add: length_ts_bytes)
  ultimately show ?thesis using True u
    by (simp add: tc_add_def Let_def ts_suffix_def IsValue_def nth_append)
next
  case False
  then show ?thesis by (simp add: tc_add_def mvcc_bytes_def ts_suffix_def IsValue_def nth_append)
qed

lemma tc_add_inv:
  assumes "tc_inv tc (versions ks)"
  shows "\<exists>tc'. tc_add tc (mvcc_bytes k) = Inr tc' \<and> tc_inv tc' (versions (ks @ [k]))"
proof (cases "IsValue k")
  case True
  then have v: "versions (ks @ [k]) = insert (ts_bytes (Timestamp k)) (versions ks)" by (auto simp: versions_def)
  have ne: "w \<noteq> []" if "w \<in> versions ks" for w using that by (auto simp: versions_def)
  show ?thesis
  proof (cases "versions ks = {}")
    case e: True
    then show ?thesis using assms True v by (simp add: tc_add_key tc_inv_def)
  next
    case e: False
    then show ?thesis using assms True v ne
      by (simp add: tc_add_key tc_inv_def) (auto simp: not_less intro: order.trans less_imp_le)
  qed
next
  case False
  then have "versions (ks @ [k]) = versions ks" by (auto simp: versions_def)
  then show ?thesis using assms False by (simp add: tc_add_key)
qed

lemma tc_add_all_inv:
  "tc_inv tc (versions ks) \<Longrightarrow> \<exists>tc'. tc_add_all tc (map mvcc_bytes ls) = Inr tc' \<and> tc_inv tc' (versions (ks @ ls))"
proof (induction ls arbitrary: tc ks)
  case (Cons l ls)
  obtain tc' where "tc_add tc (mvcc_bytes l) = Inr tc'" "tc_inv tc' (versions (ks @ [l]))" using tc_add_inv [OF Cons.prems] by blast
  then show ?case using Cons.IH [of tc' "ks @ [l]"] by simp
qed simp

lemma decodeWallTime_ts [simp]: "decodeWallTime (ts_bytes ts) = WallTime ts"
  by (simp add: decodeWallTime_def ts_bytes_def)

lemma ts_bytes_wall: "ts_bytes t \<le> ts_bytes s \<Longrightarrow> WallTime t \<le> WallTime s"
  using ts_bytes_less [of s t] by (meson leD leI)

lemma wall_inc: "0 \<le> sint (w :: 64 word) \<Longrightarrow> v \<le> w \<Longrightarrow> v < w + 1"
proof -
  assume "0 \<le> sint w" "v \<le> w"
  then have "uint w < 9223372036854775808" using sint64_range [of w] uint_of_nonneg [of w] by simp
  then have "uint (w + 1) = uint w + 1" by (simp add: uint_word_ariths)
  with \<open>v \<le> w\<close> show ?thesis by (simp add: word_less_def word_le_def)
qed

text \<open>
  C26. The interval recorded for a block contains the wall time of every versioned key of the block: no key
  fails, the interval is not reported corrupt, and the collector is reset for the next block. Adding the
  bare suffix of a key, as when the suffixes of a table are rewritten, has the effect of adding the key.
\<close>

theorem block_interval_covers:
  assumes "list_all (\<lambda>k. 0 \<le> sint (WallTime (Timestamp k))) ks"
  shows "\<exists>tc lower upper. tc_add_all tc_empty (map mvcc_bytes ks) = Inr tc \<and>
    FinishDataBlock tc = (tc_empty, Inr (lower, upper)) \<and>
    list_all (\<lambda>k. IsValue k \<longrightarrow> lower \<le> WallTime (Timestamp k) \<and> WallTime (Timestamp k) < upper) ks \<and>
    tc_add tc (ts_suffix ts) = tc_add tc (mvcc_bytes \<lparr>UserKey = key, Timestamp = ts\<rparr>)"
proof -
  have "tc_inv tc_empty (versions [])" by (simp add: tc_inv_def versions_def)
  then obtain tc where tc: "tc_add_all tc_empty (map mvcc_bytes ks) = Inr tc" "tc_inv tc (versions ks)"
    using tc_add_all_inv [of tc_empty "[]" ks] by auto
  show ?thesis
  proof (cases "versions ks = {}")
    case True
    then have "list_all (\<lambda>k. \<not> IsValue k) ks" "tc = tc_empty" using tc(2) by (auto simp: versions_def list_all_iff tc_inv_def)
    then show ?thesis using tc(1) by (auto simp: FinishDataBlock_def list_all_iff tc_add_suffix [of _ _ key])
  next
    case False
    with tc(2) have inv: "tc_min tc \<in> versions ks" "tc_max tc \<in> versions ks" "\<forall>v\<in>versions ks. tc_min tc \<le> v \<and> v \<le> tc_max tc"
      by (simp_all add: tc_inv_def)
    then obtain k l where kl: "tc_min tc = ts_bytes (Timestamp k)" "tc_max tc = ts_bytes (Timestamp l)" "k \<in> set ks" "l \<in> set ks"
      and all: "\<forall>m\<in>set ks. IsValue m \<longrightarrow> ts_bytes (Timestamp k) \<le> ts_bytes (Timestamp m) \<and> ts_bytes (Timestamp m) \<le> ts_bytes (Timestamp l)"
      and v: "IsValue k" "IsValue l"
      by (auto simp: versions_def)
    have l: "0 \<le> sint (WallTime (Timestamp l))" using assms kl(4) by (auto simp: list_all_iff)
    have b: "WallTime (Timestamp k) \<le> WallTime (Timestamp m) \<and> WallTime (Timestamp m) < WallTime (Timestamp l) + 1"
      if "m \<in> set ks" "IsValue m" for m
      using all that by (auto intro: ts_bytes_wall wall_inc [OF l])
    have "\<not> WallTime (Timestamp l) + 1 \<le> WallTime (Timestamp k)" using b [OF kl(3) v(1)] by simp
    then have "FinishDataBlock tc = (tc_empty, Inr (WallTime (Timestamp k), WallTime (Timestamp l) + 1))"
      using kl(1,2) by (simp add: FinishDataBlock_def Let_def)
    then show ?thesis using tc(1) b by (auto simp: list_all_iff tc_add_suffix [of _ _ key])
  qed
qed

theorem block_interval_covers_witness:
  "\<exists>tc. tc_add_all tc_empty (map mvcc_bytes [\<lparr>UserKey = [7], Timestamp = \<lparr>WallTime = 5, Logical = 0, Synthetic = False\<rparr>\<rparr>]) = Inr tc \<and>
     FinishDataBlock tc = (tc_empty, Inr (5, 6))"
proof -
  let ?ks = "[\<lparr>UserKey = [7], Timestamp = \<lparr>WallTime = 5, Logical = 0, Synthetic = False\<rparr>\<rparr>]"
  have "list_all (\<lambda>k. 0 \<le> sint (WallTime (Timestamp k))) ?ks" by simp
  from block_interval_covers [OF this, of Timestamp_zero "[]"] show ?thesis
    by (auto simp: tc_add_key IsValue_def Timestamp_IsEmpty_def Timestamp_zero_def FinishDataBlock_def Let_def)
qed

end
