(* ===== verification/Sql_Keys.thy ===== *)
theory Sql_Keys
  imports Key_Space Mvcc_Key Encoding_Peek
begin

text \<open>
  \<open>pkg/keys/sql.go\<close> and the row keys of \<open>pkg/keys/keys.go\<close>: the keys of SQL data. A key of a tenant other
  than the system tenant starts with \<open>fe\<close> and the tenant id, then come the table id, the index id, the
  columns and the column family. The family is found from the end of a key: its length is in the last byte.
\<close>

section \<open>Tenants\<close>

definition tenantPrefixByte :: byte where "tenantPrefixByte = 0xfe"
definition TenantPrefix :: bytes where "TenantPrefix = [tenantPrefixByte]"

definition SystemTenantID :: uint64 where "SystemTenantID = 1"

definition checkValid :: "uint64 \<Rightarrow> go_error + unit" where
  "checkValid tid = (if tid = 0 then Inl (GoPanic ''invalid tenant ID 0'') else Inr ())"

definition MakeTenantID :: "uint64 \<Rightarrow> go_error + uint64" where
  "MakeTenantID tid = res_bind (checkValid tid) (\<lambda>_. Inr tid)"

definition TenantID_ToUint64 :: "uint64 \<Rightarrow> go_error + uint64" where
  "TenantID_ToUint64 t = res_bind (checkValid t) (\<lambda>_. Inr t)"

definition MakeTenantPrefix :: "uint64 \<Rightarrow> go_error + bytes" where
  "MakeTenantPrefix tenID =
     (if tenID = SystemTenantID then Inr []
      else res_bind (TenantID_ToUint64 tenID) (\<lambda>v. Inr (EncodeUvarintAscending TenantPrefix v)))"

definition DecodeTenantPrefix :: "bytes \<Rightarrow> go_error + bytes \<times> uint64" where
  "DecodeTenantPrefix key =
     (case key of [] \<Rightarrow> Inr ([], SystemTenantID)
      | c # cs \<Rightarrow>
          if c \<noteq> tenantPrefixByte then Inr (key, SystemTenantID)
          else res_bind (DecodeUvarintAscending cs) (\<lambda>(rm, tenID).
            res_bind (MakeTenantID tenID) (\<lambda>t. Inr (rm, t))))"

section \<open>Families and rows\<close>

definition MakeTableIDIndexID :: "bytes \<Rightarrow> uint32 \<Rightarrow> uint32 \<Rightarrow> bytes" where
  "MakeTableIDIndexID key tableID indexID =
     (let key = EncodeUvarintAscending key (ucast tableID) in EncodeUvarintAscending key (ucast indexID))"

definition DecodeTableIDIndexID :: "bytes \<Rightarrow> go_error + bytes \<times> uint32 \<times> uint32" where
  "DecodeTableIDIndexID key =
     res_bind (DecodeUvarintAscending key) (\<lambda>(key, tableID).
     res_bind (DecodeUvarintAscending key) (\<lambda>(key, indexID). Inr (key, ucast tableID, ucast indexID)))"

definition MakeFamilyKey :: "bytes \<Rightarrow> uint32 \<Rightarrow> bytes" where
  "MakeFamilyKey key famID =
     (if famID = 0 then EncodeUvarintAscending key 0
      else let size = length key; key = EncodeUvarintAscending key (ucast famID)
           in EncodeUvarintAscending key (of_nat (length key - size)))"

definition GetRowPrefixLength :: "bytes \<Rightarrow> go_error + int" where
  "GetRowPrefixLength key =
     (let n = int (length key) in
      case DecodeTenantPrefix key of
        Inl (GoPanic e) \<Rightarrow> Inl (GoPanic e)
      | Inl _ \<Rightarrow> Inl (Errorf ''not a valid table key'')
      | Inr (sqlKey, _) \<Rightarrow>
          let sqlN = length sqlKey in
          if PeekType sqlKey \<noteq> Type_Int then Inr n
          else let colFamIDLenByte = drop (sqlN - 1) sqlKey in
            if PeekType colFamIDLenByte \<noteq> Type_Int then Inl (Errorf ''not a valid table key'')
            else res_bind (DecodeUvarintAscending colFamIDLenByte) (\<lambda>(_, colFamIDLen).
              if unat colFamIDLen > sqlN - 1 then Inl (Errorf ''malformed table key'')
              else Inr (n - int (unat colFamIDLen) - 1)))"

definition EnsureSafeSplitKey :: "bytes \<Rightarrow> go_error + bytes" where
  "EnsureSafeSplitKey key = res_bind (GetRowPrefixLength key) (\<lambda>idx. Inr (take (nat idx) key))"

definition DecodeFamilyKey :: "bytes \<Rightarrow> go_error + uint32" where
  "DecodeFamilyKey key =
     res_bind (GetRowPrefixLength key) (\<lambda>n.
       if n \<le> 0 \<or> n \<ge> int (length key) then Inl (Errorf ''invalid row prefix, got prefix length'')
       else res_bind (DecodeUvarintAscending (drop (nat n) key)) (\<lambda>(_, colFamilyID).
         if colFamilyID > 0xffffffff then Inl (Errorf ''column family ID overflow'')
         else Inr (ucast colFamilyID)))"

section \<open>The codec of a tenant\<close>

text \<open>The encoder and the decoder of a tenant hold its prefix, here the first argument.\<close>

definition TablePrefix :: "bytes \<Rightarrow> uint32 \<Rightarrow> bytes" where
  "TablePrefix e tableID = EncodeUvarintAscending e (ucast tableID)"

definition IndexPrefix :: "bytes \<Rightarrow> uint32 \<Rightarrow> uint32 \<Rightarrow> bytes" where
  "IndexPrefix e tableID indexID = EncodeUvarintAscending (TablePrefix e tableID) (ucast indexID)"

definition DescMetadataPrefix :: "bytes \<Rightarrow> bytes" where
  "DescMetadataPrefix e = IndexPrefix e 3 1"

definition DescMetadataKey :: "bytes \<Rightarrow> uint32 \<Rightarrow> bytes" where
  "DescMetadataKey e descID =
     (let k = DescMetadataPrefix e; k = EncodeUvarintAscending k (ucast descID) in MakeFamilyKey k 2)"

definition TenantMetadataKey :: "bytes \<Rightarrow> uint64 \<Rightarrow> go_error + bytes" where
  "TenantMetadataKey e tenID =
     (let k = IndexPrefix e 8 1 in
      res_bind (TenantID_ToUint64 tenID) (\<lambda>v. Inr (MakeFamilyKey (EncodeUvarintAscending k v) 0)))"

definition SequenceKey :: "bytes \<Rightarrow> uint32 \<Rightarrow> bytes" where
  "SequenceKey e tableID =
     (let k = IndexPrefix e tableID 1; k = EncodeUvarintAscending k 0 in MakeFamilyKey k 0)"

definition ZoneKeyPrefix :: "bytes \<Rightarrow> uint32 \<Rightarrow> bytes" where
  "ZoneKeyPrefix e zid = EncodeUvarintAscending (IndexPrefix e 5 1) (ucast zid)"

definition ZoneKey :: "bytes \<Rightarrow> uint32 \<Rightarrow> bytes" where
  "ZoneKey e zid = MakeFamilyKey (ZoneKeyPrefix e zid) 2"

definition StripTenantPrefix :: "bytes \<Rightarrow> bytes \<Rightarrow> go_error + bytes" where
  "StripTenantPrefix d key =
     (if \<not> prefix d key then Inl (Errorf ''invalid tenant id prefix'') else Inr (drop (length d) key))"

definition DecodeTablePrefix :: "bytes \<Rightarrow> bytes \<Rightarrow> go_error + bytes \<times> uint32" where
  "DecodeTablePrefix d key =
     res_bind (StripTenantPrefix d key) (\<lambda>key.
       if PeekType key \<noteq> Type_Int then Inl (Errorf ''invalid key prefix'')
       else res_bind (DecodeUvarintAscending key) (\<lambda>(key, tableID). Inr (key, ucast tableID)))"

definition DecodeIndexPrefix :: "bytes \<Rightarrow> bytes \<Rightarrow> go_error + bytes \<times> uint32 \<times> uint32" where
  "DecodeIndexPrefix d key =
     res_bind (DecodeTablePrefix d key) (\<lambda>(key, tableID).
       if PeekType key \<noteq> Type_Int then Inl (Errorf ''invalid key prefix'')
       else res_bind (DecodeUvarintAscending key) (\<lambda>(key, indexID). Inr (key, tableID, ucast indexID)))"

definition DecodeDescMetadataID :: "bytes \<Rightarrow> bytes \<Rightarrow> go_error + uint32" where
  "DecodeDescMetadataID d key =
     res_bind (DecodeIndexPrefix d key) (\<lambda>(remaining, tableID, _).
       if tableID \<noteq> 3 then Inl (Errorf ''key is not a descriptor table entry'')
       else res_bind (DecodeUvarintAscending remaining) (\<lambda>(_, did).
         if did > 0xffffffff then Inl (Errorf ''descriptor ID exceeds uint32 bounds'') else Inr (ucast did)))"

definition DecodeTenantMetadataID :: "bytes \<Rightarrow> bytes \<Rightarrow> go_error + uint64" where
  "DecodeTenantMetadataID d key =
     res_bind (DecodeIndexPrefix d key) (\<lambda>(remaining, tableID, _).
       if tableID \<noteq> 8 then Inl (Errorf ''key is not a tenant table entry'')
       else res_bind (DecodeUvarintAscending remaining) (\<lambda>(_, tid). MakeTenantID tid))"

text \<open>The rewritten key reuses the end of the given one when the new prefix is not longer than the old.\<close>

definition rewriteKeyToTenantPrefix :: "bytes \<Rightarrow> bytes \<Rightarrow> go_error + bytes" where
  "rewriteKeyToTenantPrefix key pre =
     (if length pre = 0 \<and> prefix TenantPrefix key \<or> \<not> prefix pre key then
        res_bind (DecodeTenantPrefix key) (\<lambda>(suff, _).
          let extra = int (length key) - int (length pre) - int (length suff) in
          if extra \<ge> 0 then Inr (copy_to (drop (nat extra) key) pre)
          else let key = replicate (length pre + length suff) 0; n = min (length key) (length pre); key = copy_to key pre
               in Inr (take n key @ copy_to (drop n key) suff))
      else Inr key)"

definition RewriteSpanToTenantPrefix :: "Span \<Rightarrow> bytes \<Rightarrow> go_error + Span" where
  "RewriteSpanToTenantPrefix sp pre =
     res_bind (rewriteKeyToTenantPrefix (Key sp) pre) (\<lambda>key.
     res_bind (rewriteKeyToTenantPrefix (endk sp) pre) (\<lambda>endKey.
       Inr \<lparr>Key = key, EndKey = (if endKey = endk sp then EndKey sp else Some endKey)\<rparr>))"

section \<open>Tenants do not overlap\<close>

abbreviation uv :: "uint64 \<Rightarrow> bytes" where
  "uv v \<equiv> EncodeUvarintAscending [] v"

definition tenant_bytes :: "uint64 \<Rightarrow> bytes" where
  "tenant_bytes t = (if t = 1 then [] else 0xfe # uv t)"

lemma MakeTenantPrefix_eq: "t \<noteq> 0 \<Longrightarrow> MakeTenantPrefix t = Inr (tenant_bytes t)"
  by (simp add: MakeTenantPrefix_def SystemTenantID_def TenantID_ToUint64_def checkValid_def tenant_bytes_def
      TenantPrefix_def tenantPrefixByte_def encode_varint_append(1) [of "[0xfe]"])

lemma uv_tag: "\<exists>n bs. uv v = of_nat n # bs \<and> 136 \<le> n \<and> n \<le> 253"
proof -
  obtain n bs where n: "uv v = of_nat n # bs" "128 \<le> n" "n \<le> 253" using Varint_tags(2) by blast
  obtain m cs where m: "uv v = of_nat m # cs" "136 \<le> m" "m < 256" using Uvarint_asc_tag by blast
  have "unat (of_nat n :: byte) = n" using n by (simp add: unat_of_nat_small)
  moreover have "unat (of_nat m :: byte) = m" using m by (simp add: unat_of_nat_small)
  moreover have "of_nat n = (of_nat m :: byte)" using n(1) m(1) by simp
  ultimately have "n = m" by metis
  with n m show ?thesis by blast
qed

lemma PeekType_uv [simp]: "PeekType (uv v @ rest) = Type_Int"
  using uv_tag [of v] PeekType_int_tag by fastforce

lemma uv_not_tenant: "\<exists>c cs. uv v = c # cs \<and> c \<noteq> 0xfe"
proof -
  obtain n bs where n: "uv v = of_nat n # bs" "n \<le> 253" using uv_tag [of v] by blast
  then have u: "unat (of_nat n :: byte) = n" by (simp add: unat_of_nat_small)
  have "of_nat n < (0xfe :: byte)" using n(2) u by (simp add: word_less_nat_alt)
  then have "of_nat n \<noteq> (0xfe :: byte)" by simp
  with n show ?thesis by blast
qed

lemma DecodeTenantPrefix_bytes:
  assumes "t \<noteq> 0" "t = 1 \<longrightarrow> rest = [] \<or> hd rest \<noteq> 0xfe"
  shows "DecodeTenantPrefix (tenant_bytes t @ rest) = Inr (rest, t)"
  using assms by (auto simp: DecodeTenantPrefix_def tenant_bytes_def tenantPrefixByte_def SystemTenantID_def
      MakeTenantID_def checkValid_def split: list.split)

lemma tenant_bytes_prefix:
  assumes "t \<noteq> 1" "u \<noteq> 1" "prefix (tenant_bytes u) (tenant_bytes t @ rest)" shows "t = u"
  using assms uvarint_asc.enc_inj [of t rest u] by (auto simp: tenant_bytes_def prefix_def)

text \<open>
  C18. The prefix of a tenant determines the tenant and is stripped exactly; the key spaces of two tenants do
  not interleave, they lie in the order of the tenant ids, all of them above the keys of the system
  tenant's tables. Only the tenant id zero makes the prefix panic.
\<close>

theorem tenant_key_spaces:
  assumes "t \<noteq> 0" "u \<noteq> 0" "t \<noteq> 1" "u \<noteq> 1"
  shows "\<exists>p q. MakeTenantPrefix t = Inr p \<and> MakeTenantPrefix u = Inr q \<and>
    DecodeTenantPrefix (p @ x) = Inr (x, t) \<and> StripTenantPrefix p (p @ x) = Inr x \<and>
    (p @ x < q @ y \<longleftrightarrow> t < u \<or> t = u \<and> x < y) \<and>
    (prefix q (p @ x) \<longleftrightarrow> t = u) \<and> TablePrefix [] tableID @ y < p \<and>
    MakeTenantPrefix 0 = Inl (GoPanic ''invalid tenant ID 0'')"
proof -
  obtain n bs where n: "uv (ucast tableID) = of_nat n # bs" "n \<le> 253" using uv_tag by blast
  then have "unat (of_nat n :: byte) = n" by (simp add: unat_of_nat_small)
  then have "of_nat n < (0xfe :: byte)" using n(2) by (simp add: word_less_nat_alt)
  then have "TablePrefix [] tableID @ y < tenant_bytes t" using assms n(1) by (simp add: TablePrefix_def tenant_bytes_def)
  moreover have "tenant_bytes t @ x < tenant_bytes u @ y \<longleftrightarrow> t < u \<or> t = u \<and> x < y"
    using assms uvarint_asc.enc_less_iff [of t x u y] by (simp add: tenant_bytes_def)
  moreover have "prefix (tenant_bytes u) (tenant_bytes t @ x) \<longleftrightarrow> t = u" using tenant_bytes_prefix assms by auto
  moreover have "MakeTenantPrefix 0 = Inl (GoPanic ''invalid tenant ID 0'')"
    by (simp add: MakeTenantPrefix_def SystemTenantID_def TenantID_ToUint64_def checkValid_def)
  ultimately show ?thesis using assms by (simp add: MakeTenantPrefix_eq DecodeTenantPrefix_bytes StripTenantPrefix_def)
qed

theorem tenant_key_spaces_witness:
  "\<exists>p q. MakeTenantPrefix 5 = Inr p \<and> MakeTenantPrefix 7 = Inr q \<and> (p @ [9] < q @ [1] \<longleftrightarrow> (5 :: uint64) < 7 \<or> 5 = (7 :: uint64) \<and> [9] < [1 :: byte])"
  using tenant_key_spaces [of 5 7 "[9]" "[1]" 0] by auto

section \<open>Tables, indexes, rows and families\<close>

lemma IndexPrefix_eq: "IndexPrefix e tab ind = e @ uv (ucast tab) @ uv (ucast ind)"
  using encode_varint_append(1) [of e "ucast tab"] encode_varint_append(1) [of "e @ uv (ucast tab)" "ucast ind"]
  by (simp add: IndexPrefix_def TablePrefix_def)

lemma ucast_64_32 [simp]: "ucast (ucast (x :: uint32) :: uint64) = x"
  by (rule bit_word_eqI) (auto simp: bit_simps)

lemma ucast_le_max [simp]: "\<not> (0xffffffff :: uint64) < ucast (x :: uint32)"
  using unsigned_less [of x, where ?'a = nat] by (simp add: word_less_nat_alt not_less unsigned_ucast_eq take_bit_nat_eq_self)

lemma ucast_eq_iff [simp]: "ucast (x :: uint32) = (ucast y :: uint64) \<longleftrightarrow> x = y"
  by (metis ucast_64_32)

lemma ucast_less_iff [simp]: "(ucast x :: uint64) < ucast y \<longleftrightarrow> x < (y :: uint32)"
proof -
  have "uint (ucast z :: uint64) = uint z" for z :: uint32
    using unsigned_less [of z, where ?'a = int] by (simp add: unsigned_ucast_eq take_bit_int_eq_self)
  then show ?thesis by (simp add: word_less_def)
qed

lemma DecodeIndexPrefix_eq: "DecodeIndexPrefix e (IndexPrefix e tab ind @ rest) = Inr (rest, tab, ind)"
  by (simp add: DecodeIndexPrefix_def DecodeTablePrefix_def StripTenantPrefix_def IndexPrefix_eq)

text \<open>What \<open>MakeFamilyKey\<close> appends to a row.\<close>

definition family_bytes :: "uint32 \<Rightarrow> bytes" where
  "family_bytes fam = (if fam = 0 then [136] else uv (ucast fam) @ [of_nat (136 + length (uv (ucast fam)))])"

lemma length_uv: "1 \<le> length (uv v) \<and> length (uv v) \<le> 9"
  using byte_width_bounds [of "unat v"] by (simp add: Uvarint_asc_eq)

lemma uv_small: "n \<le> 109 \<Longrightarrow> uv (of_nat n) = [of_nat (136 + n)]"
  using small_tag [of "of_nat n"] unat_of_nat_small [of n, where ?'a = 64] by (simp add: Uvarint_asc_eq)

lemma MakeFamilyKey_eq: "MakeFamilyKey row fam = row @ family_bytes fam"
proof (cases "fam = 0")
  case True
  then show ?thesis using encode_varint_append(1) [of row 0] uv_small [of 0] by (simp add: MakeFamilyKey_def family_bytes_def)
next
  case False
  have "length (uv (ucast fam)) \<le> 109" using length_uv [of "ucast fam"] by linarith
  then show ?thesis using False encode_varint_append(1) [of row "ucast fam"] uv_small [of "length (uv (ucast fam))"]
      encode_varint_append(1) [of "row @ uv (ucast fam)" "of_nat (length (uv (ucast fam)))"]
    by (simp add: MakeFamilyKey_def family_bytes_def Let_def)
qed

lemma family_tail:
  "\<exists>f n. family_bytes fam = f @ [of_nat (136 + n)] \<and> length f = n \<and> n \<le> 9"
  using length_uv [of "ucast fam"] by (cases "fam = 0") (auto simp: family_bytes_def intro: exI [of _ "uv (ucast fam)"])

lemma DecodeUvarint_family: "\<exists>rest. DecodeUvarintAscending (family_bytes fam) = Inr (rest, ucast fam)"
proof (cases "fam = 0")
  case True
  then show ?thesis using uvarint_asc.dec_enc [of 0 "[]"] uv_small [of 0] by (simp add: family_bytes_def)
qed (simp add: family_bytes_def)

lemma DecodeTenantPrefix_table:
  "t \<noteq> 0 \<Longrightarrow> DecodeTenantPrefix (tenant_bytes t @ uv v @ rest) = Inr (uv v @ rest, t)"
  using uv_not_tenant [of v] by (intro DecodeTenantPrefix_bytes) auto

lemma GetRowPrefixLength_family:
  assumes "t \<noteq> 0" and row: "row = tenant_bytes t @ uv v @ cols"
  shows "GetRowPrefixLength (MakeFamilyKey row fam) = Inr (int (length row))"
proof -
  obtain f n where f: "family_bytes fam = f @ [of_nat (136 + n)]" "length f = n" "n \<le> 9" using family_tail by blast
  let ?sql = "uv v @ cols @ f @ [of_nat (136 + n)]"
  have dec: "DecodeTenantPrefix (MakeFamilyKey row fam) = Inr (?sql, t)"
    using DecodeTenantPrefix_table [OF assms(1), of v "cols @ family_bytes fam"] by (simp add: MakeFamilyKey_eq row f)
  have tail: "drop (length ?sql - 1) ?sql = [of_nat (136 + n)]" by simp
  have "PeekType [of_nat (136 + n)] = Type_Int" using f(3) by (intro PeekType_int_tag) auto
  moreover have "DecodeUvarintAscending [of_nat (136 + n)] = Inr ([], of_nat n)"
    using DecodeUvarintAscending_Encode [of "of_nat n" "[]"] uv_small [of n] f(3) by simp
  moreover have "unat (of_nat n :: uint64) = n" using f(3) by (simp add: unat_of_nat_small)
  moreover have "n \<le> length ?sql - 1" using f(2) by simp
  moreover have "int (length (row @ f @ [of_nat (136 + n)])) - int n - 1 = int (length row)" using f(2) by simp
  ultimately show ?thesis unfolding GetRowPrefixLength_def dec
    using tail f by (simp add: Let_def MakeFamilyKey_eq del: length_append drop_append)
qed

text \<open>
  Index prefixes are read back and sort by table, then by index, then by what follows. Descriptor and
  tenant metadata keys give back their ids.
\<close>

theorem sql_prefix_roundtrip:
  assumes "tenID \<noteq> 0"
  shows "DecodeIndexPrefix e (IndexPrefix e tab ind @ x) = Inr (x, tab, ind) \<and>
    (IndexPrefix e tab ind @ x < IndexPrefix e tab' ind' @ y \<longleftrightarrow>
       tab < tab' \<or> tab = tab' \<and> (ind < ind' \<or> ind = ind' \<and> x < y)) \<and>
    DecodeTableIDIndexID (MakeTableIDIndexID [] tab ind @ x) = Inr (x, tab, ind) \<and>
    DecodeDescMetadataID e (DescMetadataKey e descID) = Inr descID \<and>
    res_bind (TenantMetadataKey e tenID) (DecodeTenantMetadataID e) = Inr tenID"
proof (intro conjI)
  show "IndexPrefix e tab ind @ x < IndexPrefix e tab' ind' @ y \<longleftrightarrow>
      tab < tab' \<or> tab = tab' \<and> (ind < ind' \<or> ind = ind' \<and> x < y)"
    using uvarint_asc.enc_less_iff [of "ucast tab" "uv (ucast ind) @ x" "ucast tab'" "uv (ucast ind') @ y"]
      uvarint_asc.enc_less_iff [of "ucast ind" x "ucast ind'" y]
    by (auto simp: IndexPrefix_eq append_left_less_iff)
  show "DecodeTableIDIndexID (MakeTableIDIndexID [] tab ind @ x) = Inr (x, tab, ind)"
    using encode_varint_append(1) [of "uv (ucast tab)" "ucast ind"] by (simp add: DecodeTableIDIndexID_def MakeTableIDIndexID_def)
  show "DecodeDescMetadataID e (DescMetadataKey e descID) = Inr descID"
    using encode_varint_append(1) [of "IndexPrefix e 3 1" "ucast descID"] DecodeIndexPrefix_eq [of e 3 1]
    by (simp add: DecodeDescMetadataID_def DescMetadataKey_def DescMetadataPrefix_def MakeFamilyKey_eq)
  show "res_bind (TenantMetadataKey e tenID) (DecodeTenantMetadataID e) = Inr tenID"
    using assms encode_varint_append(1) [of "IndexPrefix e 8 1" tenID] DecodeIndexPrefix_eq [of e 8 1]
    by (simp add: DecodeTenantMetadataID_def TenantMetadataKey_def MakeFamilyKey_eq TenantID_ToUint64_def checkValid_def
        MakeTenantID_def)
qed (rule DecodeIndexPrefix_eq)

theorem sql_prefix_roundtrip_witness:
  "DecodeDescMetadataID [0xfe, 0x8f] (DescMetadataKey [0xfe, 0x8f] 52) = Inr 52"
  using sql_prefix_roundtrip [of 1 "[0xfe, 0x8f]" 0 0 "[]" 0 0 "[]" 52] by simp



section \<open>Moving keys between tenants\<close>

lemma copy_to_extra: "length old = length pre \<Longrightarrow> copy_to (old @ suff) pre = pre @ suff"
  by (simp add: copy_to_def)

lemma rewrite_key:
  assumes t: "t \<noteq> 0" "u \<noteq> 0" and sys: "x = [] \<or> hd x \<noteq> 0xfe"
  shows "rewriteKeyToTenantPrefix (tenant_bytes t @ x) (tenant_bytes u) = Inr (tenant_bytes u @ x)"
proof (cases "t = u")
  case True
  then show ?thesis using sys
    by (cases x) (auto simp: rewriteKeyToTenantPrefix_def tenant_bytes_def TenantPrefix_def tenantPrefixByte_def)
next
  case False
  let ?p = "tenant_bytes t" and ?q = "tenant_bytes u"
  have cond: "length ?q = 0 \<and> prefix TenantPrefix (?p @ x) \<or> \<not> prefix ?q (?p @ x)"
  proof (cases "u = 1")
    case True
    then show ?thesis using False by (simp add: tenant_bytes_def TenantPrefix_def tenantPrefixByte_def)
  next
    case u: False
    then show ?thesis using tenant_bytes_prefix [of t u x] False sys
      by (cases "t = 1"; cases x) (auto simp: tenant_bytes_def prefix_def)
  qed
  have dec: "DecodeTenantPrefix (?p @ x) = Inr (x, t)" using t sys by (intro DecodeTenantPrefix_bytes) auto
  show ?thesis
  proof (cases "length ?q \<le> length ?p")
    case True
    then have "drop (nat (int (length (?p @ x)) - int (length ?q) - int (length x))) (?p @ x) =
        drop (length ?p - length ?q) ?p @ x" by (simp add: nat_diff_distrib')
    moreover have "copy_to (drop (length ?p - length ?q) ?p @ x) ?q = ?q @ x"
      using True by (intro copy_to_extra) simp
    ultimately show ?thesis using cond dec True by (simp add: rewriteKeyToTenantPrefix_def)
  next
    case False
    then have "\<not> 0 \<le> int (length (?p @ x)) - int (length ?q) - int (length x)" by simp
    then show ?thesis using cond dec by (simp add: rewriteKeyToTenantPrefix_def copy_to_def Let_def)
  qed
qed

text \<open>
  Rewriting a span to another tenant changes exactly the tenant of its two keys, between any two
  tenants, the system tenant included, and keeps the keys as they are when they have the tenant already.
\<close>

theorem RewriteSpan_tenant:
  assumes "MakeTenantPrefix t = Inr p" "MakeTenantPrefix u = Inr q" "x = [] \<or> hd x \<noteq> 0xfe" "y = [] \<or> hd y \<noteq> 0xfe"
  shows "RewriteSpanToTenantPrefix \<lparr>Key = p @ x, EndKey = Some (p @ y)\<rparr> q = Inr \<lparr>Key = q @ x, EndKey = Some (q @ y)\<rparr>"
proof -
  have "t \<noteq> 0" "u \<noteq> 0" using assms(1,2) by (auto simp: MakeTenantPrefix_def SystemTenantID_def TenantID_ToUint64_def checkValid_def)
  moreover from this have "p = tenant_bytes t" "q = tenant_bytes u" using assms(1,2) by (simp_all add: MakeTenantPrefix_eq)
  ultimately show ?thesis using assms(3,4) by (simp add: RewriteSpanToTenantPrefix_def rewrite_key nil_bytes_def)
qed

theorem RewriteSpan_tenant_witness:
  "RewriteSpanToTenantPrefix \<lparr>Key = [0xbc], EndKey = Some [0xbd]\<rparr> [0xfe, 0x8f] =
     Inr \<lparr>Key = [0xfe, 0x8f, 0xbc], EndKey = Some [0xfe, 0x8f, 0xbd]\<rparr>"
proof -
  have "MakeTenantPrefix 1 = Inr []" "MakeTenantPrefix 7 = Inr [0xfe, 0x8f]"
    by (simp_all add: MakeTenantPrefix_eq tenant_bytes_def EncodeUvarintAscending_def)
  from RewriteSpan_tenant [OF this, of "[0xbc]" "[0xbd]"] show ?thesis by simp
qed

end
