(* ===== verification/Scan_Results.thy ===== *)
theory Scan_Results
  imports Sql_Keys
begin

text \<open>
  The result buffer of a scan (\<open>pebbleResults\<close> in \<open>pkg/storage/pebble_mvcc_scanner.go\<close>) and the functions
  that read a batch back (\<open>pkg/storage/enginepb/decode.go\<close>). Pairs are appended to a buffer of bounded
  capacity, full buffers are put aside, and a ring buffer remembers the offsets of the last pairs so that
  a row that does not fit can be cut off again. The whole is a refinement of a list of pairs.
\<close>

section \<open>Batches\<close>

definition le_uint32 :: "nat \<Rightarrow> bytes" where
  "le_uint32 n = rev (be_bytes 4 (of_nat n :: uint32))"

definition read_le32 :: "bytes \<Rightarrow> uint32" where
  "read_le32 b = be_fold (rev (take 4 b))"

text \<open>The slice expression \<open>b[lo:hi]\<close>, for a slice that fills its array.\<close>

definition slice_range :: "nat \<Rightarrow> nat \<Rightarrow> bytes \<Rightarrow> go_error + bytes" where
  "slice_range lo hi b =
     (if lo \<le> hi \<and> hi \<le> length b then Inr (take (hi - lo) (drop lo b)) else Inl (GoPanic ''slice bounds out of range''))"

abbreviation (input) kvLenSize :: nat where "kvLenSize \<equiv> 8"

definition ScanDecodeKeyValue :: "bytes \<Rightarrow> go_error + bytes \<times> Timestamp \<times> bytes \<times> bytes" where
  "ScanDecodeKeyValue repr =
     (if length repr < kvLenSize then Inl (Errorf ''unexpected batch EOF'')
      else let valSize = read_le32 repr; keyEnd = read_le32 (drop 4 repr) + 8 in
        if keyEnd + valSize > of_nat (length repr) then Inl (Errorf ''expected bytes, but only remaining'')
        else
          res_bind (slice_range kvLenSize (unat keyEnd) repr) (\<lambda>rawKey.
          res_bind (slice_range (unat keyEnd) (unat (keyEnd + valSize)) repr) (\<lambda>val.
          res_bind (slice_from (unat (keyEnd + valSize)) repr) (\<lambda>orepr.
          res_bind (DecodeKey rawKey) (\<lambda>(key, ts). Inr (key, ts, val, orepr))))))"

definition ScanDecodeKeyValueNoTS :: "bytes \<Rightarrow> go_error + bytes \<times> bytes \<times> bytes" where
  "ScanDecodeKeyValueNoTS repr =
     (if length repr < kvLenSize then Inl (Errorf ''unexpected batch EOF'')
      else let valSize = read_le32 repr; keyEnd = read_le32 (drop 4 repr) + 8 in
        if length repr < unat (keyEnd + valSize) then Inl (Errorf ''expected bytes, but only remaining'')
        else
          res_bind (slice_from (unat (keyEnd + valSize)) repr) (\<lambda>ret.
          res_bind (slice_range (unat keyEnd) (unat (keyEnd + valSize)) repr) (\<lambda>val.
          res_bind (slice_range kvLenSize (unat keyEnd) repr) (\<lambda>rawKey.
            case SplitMVCCKey rawKey of
              None \<Rightarrow> Inl (Errorf ''invalid encoded mvcc key'')
            | Some (key, _) \<Rightarrow> Inr (key, val, ret)))))"

section \<open>The result buffer\<close>

text \<open>A byte slice with its capacity.\<close>

type_synonym buffer = "bytes \<times> nat"

record pebbleResults =
  res_count :: int64
  res_bytes :: int64
  repr :: buffer
  bufs :: "buffer list"
  lastOffsetsEnabled :: bool
  lastOffsets :: "nat list"
  lastOffsetIdx :: nat

definition results_clear :: pebbleResults where
  "results_clear = \<lparr>res_count = 0, res_bytes = 0, repr = ([], 0), bufs = [], lastOffsetsEnabled = False,
     lastOffsets = [], lastOffsetIdx = 0\<rparr>"

definition results_sizeOf :: "nat \<Rightarrow> nat \<Rightarrow> nat" where
  "results_sizeOf lenKey lenValue = kvLenSize + lenKey + lenValue"

abbreviation (input) results_minSize :: nat where "results_minSize \<equiv> 16"
abbreviation (input) results_maxSize :: nat where "results_maxSize \<equiv> 134217728"

text \<open>The loop that doubles the size of a new buffer; it is entered with a positive size.\<close>

function double_size :: "nat \<Rightarrow> nat \<Rightarrow> nat" where
  "double_size newSize lenToAdd =
     (if newSize < lenToAdd \<and> newSize < results_maxSize \<and> newSize > 0 then double_size (newSize * 2) lenToAdd else newSize)"
  by pat_completeness auto
termination
  by (relation "measure (\<lambda>(n, l). results_maxSize - n)") auto

declare double_size.simps [simp del]

definition new_size :: "nat \<Rightarrow> nat \<Rightarrow> nat" where
  "new_size capacity lenToAdd =
     (let newSize = 2 * capacity;
          newSize = (if newSize = 0 \<or> newSize > results_maxSize then results_minSize else newSize)
      in if lenToAdd \<ge> results_maxSize then lenToAdd else double_size newSize lenToAdd)"

text \<open>
  \<open>grow\<close> is the answer of the memory account to the request for a new buffer. The bytes of the extended
  buffer are all overwritten, by the two lengths, the key and the value. On an error the second
  component is set and the state is the one the caller is left with.
\<close>

definition results_put :: "(nat \<Rightarrow> go_error option) \<Rightarrow> pebbleResults \<Rightarrow> bytes \<Rightarrow> bytes \<Rightarrow> pebbleResults \<times> go_error option" where
  "results_put grow p key val =
     (let lenKey = length key; lenValue = length val; lenToAdd = results_sizeOf lenKey lenValue;
          (p, err) =
            (if length (fst (repr p)) + lenToAdd > snd (repr p) then
               let newSize = new_size (snd (repr p)) lenToAdd;
                   p = (if length (fst (repr p)) > 0 then p\<lparr>bufs := bufs p @ [repr p]\<rparr> else p)
               in case grow newSize of Some e \<Rightarrow> (p, Some e) | None \<Rightarrow> (p\<lparr>repr := ([], newSize)\<rparr>, None)
             else (p, None)) in
      case err of Some e \<Rightarrow> (p, Some e)
      | None \<Rightarrow>
          let startIdx = length (fst (repr p)) in
          if startIdx + lenToAdd > snd (repr p) then (p, Some (GoPanic ''slice bounds out of range''))
          else
            let p = p\<lparr>repr := (fst (repr p) @ le_uint32 lenValue @ le_uint32 lenKey @ key @ val, snd (repr p)),
                      res_count := res_count p + 1, res_bytes := res_bytes p + of_nat lenToAdd\<rparr> in
            if lastOffsetsEnabled p then
              if lastOffsetIdx p \<ge> length (lastOffsets p) then (p, Some index_out_of_range)
              else
                let p = p\<lparr>lastOffsets := (lastOffsets p)[lastOffsetIdx p := startIdx], lastOffsetIdx := lastOffsetIdx p + 1\<rparr>
                in (if lastOffsetIdx p = length (lastOffsets p) then p\<lparr>lastOffsetIdx := 0\<rparr> else p, None)
            else (p, None))"

definition results_finish :: "pebbleResults \<Rightarrow> pebbleResults \<times> bytes list" where
  "results_finish p =
     (let p = (if length (fst (repr p)) > 0 then p\<lparr>bufs := bufs p @ [repr p], repr := ([], 0)\<rparr> else p)
      in (p, map fst (bufs p)))"

subsection \<open>Rows\<close>

definition getRowPrefix :: "bytes \<Rightarrow> go_error + bytes option" where
  "getRowPrefix key =
     (if length key = 0 then Inr None
      else case GetRowPrefixLength key of
        Inl (GoPanic e) \<Rightarrow> Inl (GoPanic e)
      | Inl _ \<Rightarrow> Inr None
      | Inr n \<Rightarrow> if n \<le> 0 \<or> n \<ge> int (length key) then Inr None else Inr (Some (take (nat n) key)))"

definition extractResultKey :: "bytes \<Rightarrow> go_error + bytes" where
  "extractResultKey r =
     res_bind (slice_range 4 8 r) (\<lambda>b.
       let keyLen = read_le32 b in
       res_bind (slice_range 8 (unat (8 + keyLen)) r) (\<lambda>raw.
         case SplitMVCCKey raw of None \<Rightarrow> Inr [] | Some (key, _) \<Rightarrow> Inr key))"

definition continuesFirstRow :: "pebbleResults \<Rightarrow> bytes \<Rightarrow> go_error + bool" where
  "continuesFirstRow p key =
     (let rp = (case bufs p of b # _ \<Rightarrow> fst b | [] \<Rightarrow> fst (repr p)) in
      if length rp = 0 then Inr True
      else res_bind (getRowPrefix key) (\<lambda>rowPrefix.
        case rowPrefix of None \<Rightarrow> Inr False
        | Some _ \<Rightarrow> res_bind (extractResultKey rp) (\<lambda>k. res_bind (getRowPrefix k) (\<lambda>rp. Inr (rowPrefix = rp)))))"

definition prev_idx :: "pebbleResults \<Rightarrow> nat" where
  "prev_idx p = (if lastOffsetIdx p = 0 then length (lastOffsets p) - 1 else lastOffsetIdx p - 1)"

definition lastRowHasFinalColumnFamily :: "pebbleResults \<Rightarrow> go_error + bool" where
  "lastRowHasFinalColumnFamily p =
     (if \<not> lastOffsetsEnabled p \<or> res_count p = 0 then Inr False
      else if prev_idx p \<ge> length (lastOffsets p) then Inl index_out_of_range
      else
        res_bind (slice_from (lastOffsets p ! prev_idx p) (fst (repr p))) (\<lambda>r.
        res_bind (extractResultKey r) (\<lambda>key.
          case DecodeFamilyKey key of
            Inl (GoPanic e) \<Rightarrow> Inl (GoPanic e)
          | Inl _ \<Rightarrow> Inr False
          | Inr colFamilyID \<Rightarrow> Inr (int (unat colFamilyID) = int (length (lastOffsets p)) - 1))))"

text \<open>The loop of \<open>maybeTrimPartialLastRow\<close>, with the number of iterations that are left.\<close>

fun trim_loop :: "nat \<Rightarrow> pebbleResults \<Rightarrow> bytes \<Rightarrow> bytes option \<Rightarrow> pebbleResults \<times> (go_error + bytes option)" where
  "trim_loop 0 p trimRowPrefix firstTrimmedKey = (p, Inl (Errorf ''row exceeds expected max size''))"
| "trim_loop (Suc i) p trimRowPrefix firstTrimmedKey =
     (let lastIdx = prev_idx p; lastOffset = lastOffsets p ! lastIdx in
      case slice_from lastOffset (fst (repr p)) of Inl e \<Rightarrow> (p, Inl e)
      | Inr r \<Rightarrow> (case extractResultKey r of Inl e \<Rightarrow> (p, Inl e)
        | Inr key \<Rightarrow> (case getRowPrefix key of Inl e \<Rightarrow> (p, Inl e)
          | Inr rowPrefix \<Rightarrow>
              if rowPrefix \<noteq> Some trimRowPrefix then (p, Inr firstTrimmedKey)
              else
                let p = p\<lparr>repr := (take lastOffset (fst (repr p)), snd (repr p)), res_count := res_count p - 1,
                          res_bytes := res_bytes p - of_nat (length r), lastOffsetIdx := lastIdx,
                          lastOffsets := (lastOffsets p)[lastIdx := 0]\<rparr>;
                    firstTrimmedKey = Some key in
                if length (fst (repr p)) = 0 then
                  if bufs p = [] then (p, Inr firstTrimmedKey)
                  else trim_loop i (p\<lparr>repr := last (bufs p), bufs := butlast (bufs p)\<rparr>) trimRowPrefix firstTrimmedKey
                else trim_loop i p trimRowPrefix firstTrimmedKey)))"

definition maybeTrimPartialLastRow :: "pebbleResults \<Rightarrow> bytes \<Rightarrow> pebbleResults \<times> (go_error + bytes option)" where
  "maybeTrimPartialLastRow p nextKey =
     (if \<not> lastOffsetsEnabled p \<or> length (fst (repr p)) = 0 then (p, Inr None)
      else case getRowPrefix nextKey of Inl e \<Rightarrow> (p, Inl e)
        | Inr None \<Rightarrow> (p, Inr None)
        | Inr (Some trimRowPrefix) \<Rightarrow> trim_loop (length (lastOffsets p)) p trimRowPrefix None)"

section \<open>One pair\<close>

type_synonym kv = "bytes \<times> bytes"

definition entry :: "kv \<Rightarrow> bytes" where
  "entry kv = le_uint32 (length (snd kv)) @ le_uint32 (length (fst kv)) @ fst kv @ snd kv"

definition entry_size :: "kv \<Rightarrow> nat" where
  "entry_size kv = results_sizeOf (length (fst kv)) (length (snd kv))"

text \<open>The lengths of a pair are stored in 32 bits.\<close>

abbreviation fits :: "kv \<Rightarrow> bool" where
  "fits kv \<equiv> entry_size kv < 2 ^ 32"

lemma length_le_uint32 [simp]: "length (le_uint32 n) = 4"
  by (simp add: le_uint32_def)

lemma length_entry [simp]: "length (entry kv) = entry_size kv"
  by (simp add: entry_def entry_size_def results_sizeOf_def)

lemma entry_size_pos [simp]: "0 < entry_size kv" "entry_size kv \<noteq> 0"
  by (simp_all add: entry_size_def results_sizeOf_def)

lemma read_le32_le [simp]: "read_le32 (le_uint32 n @ rest) = of_nat n" "read_le32 (le_uint32 n) = of_nat n"
  by (simp_all add: read_le32_def le_uint32_def)

lemma unat_sizes:
  assumes "8 + a + b < 2 ^ 32"
  shows "unat (of_nat a + 8 :: uint32) = a + 8" "unat (of_nat a + 8 + of_nat b :: uint32) = a + 8 + b"
    "unat (8 + of_nat a :: uint32) = 8 + a"
proof -
  have "unat (of_nat (a + 8) :: uint32) = a + 8" "unat (of_nat (a + 8 + b) :: uint32) = a + 8 + b"
    "unat (of_nat (8 + a) :: uint32) = 8 + a" using assms by (intro unat_of_nat_small; simp)+
  then show "unat (of_nat a + 8 :: uint32) = a + 8" "unat (of_nat a + 8 + of_nat b :: uint32) = a + 8 + b"
    "unat (8 + of_nat a :: uint32) = 8 + a" by (simp_all add: add.commute)
qed

lemma entry_slices:
  assumes "fits (k, v)"
  shows "slice_range 8 (length k + 8) (entry (k, v) @ rest) = Inr k"
    "slice_range (length k + 8) (length k + 8 + length v) (entry (k, v) @ rest) = Inr v"
    "slice_from (length k + 8 + length v) (entry (k, v) @ rest) = Inr rest"
    "read_le32 (entry (k, v) @ rest) = of_nat (length v)" "read_le32 (drop 4 (entry (k, v) @ rest)) = of_nat (length k)"
  by (simp_all add: slice_range_def entry_def slice_from_def entry_size_def results_sizeOf_def)



section \<open>The buffer as a list of pairs\<close>

definition chunk_bytes :: "kv list \<Rightarrow> bytes" where
  "chunk_bytes kvs = concat (map entry kvs)"

lemma chunk_bytes_simps [simp]:
  "chunk_bytes [] = []" "chunk_bytes (kvs @ [kv]) = chunk_bytes kvs @ entry kv" "chunk_bytes kvs = [] \<longleftrightarrow> kvs = []"
proof -
  have "entry kv \<noteq> []" for kv using length_entry [of kv] entry_size_pos [of kv] by (metis list.size(3))
  then show "chunk_bytes kvs = [] \<longleftrightarrow> kvs = []" by (cases kvs) (auto simp: chunk_bytes_def)
qed (simp_all add: chunk_bytes_def)

lemma chunk_bytes_single: "chunk_bytes [kv] = entry kv"
  by (simp add: chunk_bytes_def)

text \<open>The offsets of the pairs, each in its own buffer.\<close>

definition chunk_offsets :: "kv list \<Rightarrow> nat list" where
  "chunk_offsets kvs = map (\<lambda>i. length (chunk_bytes (take i kvs))) [0..<length kvs]"

definition offsets :: "kv list list \<Rightarrow> kv list \<Rightarrow> nat list" where
  "offsets chunks cur = concat (map chunk_offsets chunks) @ chunk_offsets cur"

lemma chunk_offsets_simps [simp]:
  "chunk_offsets [] = []" "chunk_offsets (kvs @ [kv]) = chunk_offsets kvs @ [length (chunk_bytes kvs)]"
  "length (chunk_offsets kvs) = length kvs"
  by (simp_all add: chunk_offsets_def)

lemma offsets_simps [simp]:
  "offsets chunks (cur @ [kv]) = offsets chunks cur @ [length (chunk_bytes cur)]"
  "offsets (chunks @ [cur]) [] = offsets chunks cur"
  "length (offsets chunks cur) = length (concat chunks @ cur)"
  by (simp_all add: offsets_def length_concat comp_def)

text \<open>
  The place in the ring of the offset of the \<open>j\<close>-th pair from the end; \<open>v\<close> of these places are valid.
\<close>

definition ring_pos :: "nat \<Rightarrow> nat \<Rightarrow> nat \<Rightarrow> nat" where
  "ring_pos n idx j = (if j < idx then idx - 1 - j else idx + n - 1 - j)"

definition ring :: "nat list \<Rightarrow> nat \<Rightarrow> nat \<Rightarrow> nat list \<Rightarrow> bool" where
  "ring offs idx v os \<longleftrightarrow> idx < length offs \<and> v \<le> length offs \<and> v \<le> length os \<and>
     (\<forall>j<v. offs ! ring_pos (length offs) idx j = rev os ! j)"

lemma ring_push:
  assumes "ring offs idx v os"
  shows "ring (offs[idx := off]) (if idx + 1 = length offs then 0 else idx + 1) (min (length offs) (v + 1)) (os @ [off])"
proof -
  let ?n = "length offs" and ?idx = "if idx + 1 = length offs then 0 else idx + 1"
  have "offs[idx := off] ! ring_pos ?n ?idx j = rev (os @ [off]) ! j" if j: "j < min ?n (v + 1)" for j
  proof (cases j)
    case 0
    then have "ring_pos ?n ?idx j = idx" using assms by (auto simp: ring_def ring_pos_def)
    then show ?thesis using 0 assms by (simp add: ring_def)
  next
    case (Suc i)
    then have "ring_pos ?n ?idx j = ring_pos ?n idx i" "ring_pos ?n idx i \<noteq> idx"
      using assms j by (auto simp: ring_def ring_pos_def)
    then show ?thesis using Suc assms j by (simp add: ring_def)
  qed
  then show ?thesis using assms by (auto simp: ring_def)
qed

lemma ring_pop:
  assumes "ring offs idx (Suc v) (os @ [off])"
  defines "idx' \<equiv> if idx = 0 then length offs - 1 else idx - 1"
  shows "offs ! idx' = off" "ring (offs[idx' := 0]) idx' v os"
proof -
  let ?n = "length offs"
  have "ring_pos ?n idx 0 = idx'" using assms by (auto simp: ring_pos_def ring_def)
  moreover have "offs ! ring_pos ?n idx 0 = off" using assms by (auto simp: ring_def)
  ultimately show "offs ! idx' = off" by simp
  have i: "idx' < ?n" using assms by (auto simp: ring_def)
  have "offs[idx' := 0] ! ring_pos ?n idx' j = rev os ! j" if j: "j < v" for j
  proof -
    have "ring_pos ?n idx' j = ring_pos ?n idx (Suc j)" "ring_pos ?n idx (Suc j) \<noteq> idx'"
      using assms j by (auto simp: ring_def ring_pos_def)
    moreover have "offs ! ring_pos ?n idx (Suc j) = rev (os @ [off]) ! Suc j"
      using assms(1) j unfolding ring_def by auto
    ultimately show ?thesis by simp
  qed
  then show "ring (offs[idx' := 0]) idx' v os" using assms i by (auto simp: ring_def)
qed

text \<open>The state holds the pairs \<open>concat chunks @ cur\<close>.\<close>

definition holds :: "pebbleResults \<Rightarrow> nat \<Rightarrow> kv list list \<Rightarrow> kv list \<Rightarrow> bool" where
  "holds p v chunks cur \<longleftrightarrow>
     map fst (bufs p) = map chunk_bytes chunks \<and> fst (repr p) = chunk_bytes cur \<and>
     [] \<notin> set chunks \<and> (cur = [] \<longrightarrow> chunks = []) \<and>
     res_count p = of_nat (length (concat chunks @ cur)) \<and>
     res_bytes p = of_nat (sum_list (map entry_size (concat chunks @ cur))) \<and>
     lastOffsetsEnabled p \<and> ring (lastOffsets p) (lastOffsetIdx p) v (offsets chunks cur)"

lemma double_size_enough:
  "0 < n \<Longrightarrow> l < results_maxSize \<Longrightarrow> l \<le> double_size n l"
proof (induction n l rule: double_size.induct)
  case (1 n l)
  then show ?case by (subst double_size.simps) auto
qed

lemma new_size_enough: "l \<le> new_size c l"
  using double_size_enough [of "2 * c" l] double_size_enough [of 16 l] by (auto simp: new_size_def Let_def)

lemma results_put_holds:
  fixes k x :: bytes
  assumes h: "holds p v chunks cur" and g: "\<And>n. grow n = None"
  defines "q \<equiv> fst (results_put grow p k x)"
  shows "\<exists>chunks' cur'. results_put grow p k x = (q, None) \<and> concat chunks' @ cur' = (concat chunks @ cur) @ [(k, x)] \<and>
    length (lastOffsets q) = length (lastOffsets p) \<and>
    holds q (min (length (lastOffsets p)) (v + 1)) chunks' cur'"
proof -
  let ?n = "results_sizeOf (length k) (length x)"
  let ?e = "le_uint32 (length x) @ le_uint32 (length k) @ k @ x"
  have e: "entry (k, x) = ?e" "entry_size (k, x) = ?n" by (simp_all add: entry_def entry_size_def)
  have r: "ring (lastOffsets p) (lastOffsetIdx p) v (offsets chunks cur)" using h by (simp add: holds_def)
  then have i: "\<not> length (lastOffsets p) \<le> lastOffsetIdx p" by (simp add: ring_def)
  show ?thesis
  proof (cases "length (fst (repr p)) + ?n > snd (repr p)")
    case False
    then show ?thesis using h ring_push [OF r, of "length (chunk_bytes cur)"] i
      by (intro exI [of _ chunks] exI [of _ "cur @ [(k, x)]"])
        (simp add: q_def results_put_def Let_def holds_def e algebra_simps split: if_splits)
  next
    case True
    define chunks' where "chunks' = (if cur = [] then chunks else chunks @ [cur])"
    have c: "concat chunks' = concat chunks @ cur" "offsets chunks' [] = offsets chunks cur" "[] \<notin> set chunks'"
      using h by (auto simp: chunks'_def holds_def)
    have "?n \<le> new_size (snd (repr p)) ?n" by (rule new_size_enough)
    then have n: "\<not> new_size (snd (repr p)) ?n < ?n" by simp
    have "offsets chunks' [(k, x)] = offsets chunks cur @ [0]"
      using offsets_simps(1) [of chunks' "[]" "(k, x)"] c by simp
    then show ?thesis using h True ring_push [OF r, of 0] i c n g
      by (intro exI [of _ chunks'] exI [of _ "[(k, x)]"])
        (simp add: q_def results_put_def Let_def holds_def e algebra_simps chunk_bytes_single chunks'_def split: if_splits)
  qed
qed

section \<open>Cutting off a row\<close>

definition kv_key :: "kv \<Rightarrow> bytes" where
  "kv_key kv = (case SplitMVCCKey (fst kv) of None \<Rightarrow> [] | Some (k, _) \<Rightarrow> k)"

lemma extractResultKey_entry:
  assumes "fits kv" shows "extractResultKey (entry kv) = Inr (kv_key kv)"
proof -
  obtain k v where kv: "kv = (k, v)" by (cases kv)
  have u: "8 + length k + length v < 2 ^ 32" using assms by (simp add: kv entry_size_def results_sizeOf_def)
  have "slice_range 4 8 (entry (k, v)) = Inr (le_uint32 (length k))"
    by (simp add: slice_range_def entry_size_def results_sizeOf_def) (simp add: entry_def)
  moreover have "slice_range 8 (8 + length k) (entry (k, v)) = Inr k"
    using entry_slices(1) [of k v "[]"] assms by (simp add: kv add.commute)
  ultimately show ?thesis
    by (auto simp: extractResultKey_def Let_def unat_sizes(3) [OF u] kv_key_def kv split: option.split)
qed

text \<open>One iteration that removes a pair.\<close>

definition trim_one :: "pebbleResults \<Rightarrow> pebbleResults" where
  "trim_one p =
     (let lastIdx = prev_idx p; lastOffset = lastOffsets p ! lastIdx;
          p = p\<lparr>repr := (take lastOffset (fst (repr p)), snd (repr p)), res_count := res_count p - 1,
                res_bytes := res_bytes p - of_nat (length (fst (repr p)) - lastOffset), lastOffsetIdx := lastIdx,
                lastOffsets := (lastOffsets p)[lastIdx := 0]\<rparr>
      in if length (fst (repr p)) = 0 \<and> bufs p \<noteq> [] then p\<lparr>repr := last (bufs p), bufs := butlast (bufs p)\<rparr> else p)"

lemma last_offset:
  assumes "holds p (Suc v) chunks (cur @ [kv])"
  shows "lastOffsets p ! prev_idx p = length (chunk_bytes cur)"
    "ring ((lastOffsets p)[prev_idx p := 0]) (prev_idx p) v (offsets chunks cur)"
proof -
  have "ring (lastOffsets p) (lastOffsetIdx p) (Suc v) (offsets chunks cur @ [length (chunk_bytes cur)])"
    using assms by (simp add: holds_def)
  from ring_pop [OF this] show "lastOffsets p ! prev_idx p = length (chunk_bytes cur)"
    "ring ((lastOffsets p)[prev_idx p := 0]) (prev_idx p) v (offsets chunks cur)" by (simp_all add: prev_idx_def)
qed

lemma trim_one_holds:
  assumes h: "holds p (Suc v) chunks (cur @ [kv])"
  shows "\<exists>chunks' cur'. holds (trim_one p) v chunks' cur' \<and> concat chunks' @ cur' = concat chunks @ cur"
proof (cases "cur = [] \<and> chunks \<noteq> []")
  case True
  then obtain cs c where c: "chunks = cs @ [c]" by (cases chunks rule: rev_cases) auto
  then have "map fst (bufs p) = map chunk_bytes cs @ [chunk_bytes c]" using h by (simp add: holds_def)
  then obtain bs b where b: "bufs p = bs @ [b]" "map fst bs = map chunk_bytes cs" "fst b = chunk_bytes c"
    by (auto simp: map_eq_append_conv)
  show ?thesis using h True c b last_offset [OF h]
    by (intro exI [of _ cs] exI [of _ c]) (auto simp: trim_one_def holds_def Let_def chunk_bytes_single)
next
  case False
  then show ?thesis using h last_offset [OF h]
    by (intro exI [of _ chunks] exI [of _ cur]) (auto simp: trim_one_def holds_def Let_def)
qed

lemma trim_loop_step:
  assumes h: "holds p (Suc v) chunks (cur @ [kv])" and f: "fits kv" and r: "getRowPrefix (kv_key kv) = Inr r"
  shows "trim_loop (Suc i) p R ft =
    (if r \<noteq> Some R then (p, Inr ft)
     else if concat chunks @ cur = [] then (trim_one p, Inr (Some (kv_key kv)))
     else trim_loop i (trim_one p) R (Some (kv_key kv)))"
proof -
  note o = last_offset(1) [OF h]
  have rp: "fst (repr p) = chunk_bytes cur @ entry kv" and bf: "map fst (bufs p) = map chunk_bytes chunks"
    and ne: "[] \<notin> set chunks" using h by (auto simp: holds_def)
  have sl: "slice_from (lastOffsets p ! prev_idx p) (fst (repr p)) = Inr (entry kv)" by (simp add: o rp)
  have "concat chunks = [] \<longleftrightarrow> chunks = []" using ne by (cases chunks) auto
  moreover have "bufs p = [] \<longleftrightarrow> chunks = []" using bf by auto
  ultimately show ?thesis unfolding trim_loop.simps Let_def sl
    using extractResultKey_entry [OF f] r o rp by (simp add: trim_one_def Let_def)
qed

definition row_tail :: "bytes \<Rightarrow> kv list \<Rightarrow> nat" where
  "row_tail R kvs = length (takeWhile (\<lambda>kv. getRowPrefix (kv_key kv) = Inr (Some R)) (rev kvs))"

lemma row_tail_simps [simp]:
  "row_tail R [] = 0"
  "row_tail R (kvs @ [kv]) = (if getRowPrefix (kv_key kv) = Inr (Some R) then Suc (row_tail R kvs) else 0)"
  by (simp_all add: row_tail_def)

lemma row_tail_le: "row_tail R kvs \<le> length kvs"
  using length_takeWhile_le [of _ "rev kvs"] by (simp add: row_tail_def)

definition readable :: "kv \<Rightarrow> bool" where
  "readable kv \<longleftrightarrow> fits kv \<and> (\<exists>r. getRowPrefix (kv_key kv) = Inr r)"

text \<open>What the loop does to the list of pairs.\<close>

definition trim_list :: "nat \<Rightarrow> bytes \<Rightarrow> kv list \<Rightarrow> bytes option \<Rightarrow> kv list \<times> (go_error + bytes option)" where
  "trim_list i R kvs ft =
     (let m = row_tail R kvs; n = length kvs in
      if m < i \<or> m = n \<and> m \<le> i then (take (n - m) kvs, Inr (if m = 0 then ft else Some (kv_key (kvs ! (n - m)))))
      else (take (n - i) kvs, Inl (Errorf ''row exceeds expected max size'')))"

lemma trim_loop_list:
  assumes "holds p (min i (length (concat chunks @ cur))) chunks cur" "concat chunks @ cur \<noteq> []" "list_all readable (concat chunks @ cur)"
  shows "\<exists>w chunks' cur'. snd (trim_loop i p R ft) = snd (trim_list i R (concat chunks @ cur) ft) \<and>
    holds (fst (trim_loop i p R ft)) w chunks' cur' \<and> concat chunks' @ cur' = fst (trim_list i R (concat chunks @ cur) ft)"
  using assms
proof (induction i arbitrary: p chunks cur ft)
  case 0
  then show ?case by (auto simp: trim_list_def Let_def)
next
  case (Suc i)
  obtain c kv where c: "cur = c @ [kv]" using Suc.prems(1,2) by (cases cur rule: rev_cases) (auto simp: holds_def)
  define kvs where "kvs = concat chunks @ c"
  have h: "holds p (Suc (min i (length kvs))) chunks (c @ [kv])" using Suc.prems(1) by (simp add: c kvs_def)
  have rd: "fits kv" "list_all readable kvs" using Suc.prems(3) by (simp_all add: c kvs_def) (simp add: readable_def)
  obtain r where r: "getRowPrefix (kv_key kv) = Inr r" using Suc.prems(3) by (auto simp: c readable_def)
  note step = trim_loop_step [OF h rd(1) r, folded kvs_def, of i R ft]
  have all: "concat chunks @ cur = kvs @ [kv]" by (simp add: c kvs_def)
  obtain chunks' cur' where t: "holds (trim_one p) (min i (length kvs)) chunks' cur'" "concat chunks' @ cur' = kvs"
    using trim_one_holds [OF h] by (auto simp: kvs_def)
  show ?case
  proof (cases "r = Some R \<and> kvs \<noteq> []")
    case True
    have IH: "\<exists>w chunks'' cur''. snd (trim_loop i (trim_one p) R (Some (kv_key kv))) = snd (trim_list i R kvs (Some (kv_key kv))) \<and>
        holds (fst (trim_loop i (trim_one p) R (Some (kv_key kv)))) w chunks'' cur'' \<and>
        concat chunks'' @ cur'' = fst (trim_list i R kvs (Some (kv_key kv)))"
      using Suc.IH [of "trim_one p" chunks' cur' "Some (kv_key kv)"] t True rd(2) by simp
    have "trim_list (Suc i) R (kvs @ [kv]) ft = trim_list i R kvs (Some (kv_key kv))"
      using True r row_tail_le [of R kvs] by (auto simp: trim_list_def Let_def nth_append)
    then show ?thesis using IH True unfolding step all by simp
  next
    case False
    then consider "r \<noteq> Some R" | "r = Some R" "kvs = []" by blast
    then show ?thesis
    proof cases
      case 1
      then have "trim_list (Suc i) R (kvs @ [kv]) ft = (kvs @ [kv], Inr ft)" using r by (simp add: trim_list_def)
      moreover have "concat chunks @ (c @ [kv]) = kvs @ [kv]" by (simp add: kvs_def)
      ultimately have "\<exists>w chunks' cur'. holds p w chunks' cur' \<and> concat chunks' @ cur' = fst (trim_list (Suc i) R (kvs @ [kv]) ft)"
        using h by (metis fst_conv)
      then show ?thesis unfolding step all using 1 \<open>trim_list _ _ _ _ = _\<close> by simp
    next
      case 2
      then have "trim_list (Suc i) R (kvs @ [kv]) ft = ([], Inr (Some (kv_key kv)))"
        using r row_tail_simps(2) [of R "[]" kv] by (simp add: trim_list_def)
      then show ?thesis unfolding step all using 2 t by auto
    qed
  qed
qed

section \<open>The buffer refines the list\<close>

fun put_all :: "(nat \<Rightarrow> go_error option) \<Rightarrow> pebbleResults \<Rightarrow> kv list \<Rightarrow> pebbleResults \<times> go_error option" where
  "put_all grow p [] = (p, None)"
| "put_all grow p (kv # kvs) =
     (case results_put grow p (fst kv) (snd kv) of (p, Some e) \<Rightarrow> (p, Some e) | (p, None) \<Rightarrow> put_all grow p kvs)"

lemma put_all_holds:
  assumes "holds p (min N (length (concat chunks @ cur))) chunks cur" "length (lastOffsets p) = N" "\<And>n. grow n = None"
  shows "\<exists>p' chunks' cur'. put_all grow p kvs = (p', None) \<and> concat chunks' @ cur' = (concat chunks @ cur) @ kvs \<and>
    length (lastOffsets p') = N \<and> holds p' (min N (length (concat chunks' @ cur'))) chunks' cur'"
  using assms(1,2)
proof (induction kvs arbitrary: p chunks cur)
  case (Cons kv kvs)
  obtain q chunks' cur' where q: "results_put grow p (fst kv) (snd kv) = (q, None)" "concat chunks' @ cur' = (concat chunks @ cur) @ [kv]"
      "length (lastOffsets q) = N" "holds q (min N (min N (length (concat chunks @ cur)) + 1)) chunks' cur'"
    using results_put_holds [where grow = grow and k = "fst kv" and x = "snd kv", OF Cons.prems(1) assms(3)] Cons.prems(2) by auto
  have "min N (min N (length (concat chunks @ cur)) + 1) = min N (length (concat chunks' @ cur'))"
    unfolding q(2) by auto
  then have h: "holds q (min N (length (concat chunks' @ cur'))) chunks' cur'" using q(4) by simp
  show ?case using Cons.IH [OF h q(3)] q(1,2) by simp
qed auto

lemma finish_holds: "holds p v chunks cur \<Longrightarrow> concat (snd (results_finish p)) = concat (map entry (concat chunks @ cur))"
proof -
  have "concat (map chunk_bytes chunks) = concat (map entry (concat chunks))" by (induction chunks) (auto simp: chunk_bytes_def)
  moreover assume "holds p v chunks cur"
  ultimately show ?thesis by (auto simp: holds_def results_finish_def Let_def) (auto simp: chunk_bytes_def)
qed

definition results_start :: "nat \<Rightarrow> pebbleResults" where
  "results_start N = results_clear\<lparr>lastOffsetsEnabled := True, lastOffsets := replicate N 0\<rparr>"

lemma results_start_holds: "0 < N \<Longrightarrow> holds (results_start N) 0 [] []"
  by (simp add: results_start_def results_clear_def holds_def ring_def offsets_def)

text \<open>
  C16. The result buffer behaves as a list of pairs. Whatever sizes the pairs have, putting them all keeps
  them in order and counts them. Cutting off the row that the next key belongs to removes exactly the
  pairs of that row at the end of the list and reports the first of them; it fails if and only if the row
  has at least as many pairs as the ring buffer remembers, unless that is everything there is.
\<close>

theorem results_refine_list:
  assumes "0 < N" "\<forall>n. grow n = None" "list_all readable kvs" "kvs \<noteq> []" "getRowPrefix nextKey = Inr (Some R)"
  shows "\<exists>p q res. put_all grow (results_start N) kvs = (p, None) \<and> res_count p = of_nat (length kvs) \<and>
    concat (snd (results_finish p)) = concat (map entry kvs) \<and>
    maybeTrimPartialLastRow p nextKey = (q, res) \<and> res = snd (trim_list N R kvs None) \<and>
    concat (snd (results_finish q)) = concat (map entry (fst (trim_list N R kvs None))) \<and>
    res_count q = of_nat (length (fst (trim_list N R kvs None)))"
proof -
  obtain p chunks cur where p: "put_all grow (results_start N) kvs = (p, None)" "concat chunks @ cur = kvs"
      "length (lastOffsets p) = N" "holds p (min N (length kvs)) chunks cur"
    using put_all_holds [of "results_start N" N "[]" "[]" grow kvs] results_start_holds [OF assms(1)] assms(2)
    by (auto simp: results_start_def)
  obtain w chunks' cur' where t: "snd (trim_loop N p R None) = snd (trim_list N R kvs None)"
      "holds (fst (trim_loop N p R None)) w chunks' cur'" "concat chunks' @ cur' = fst (trim_list N R kvs None)"
    using trim_loop_list [of p N chunks cur R None] p assms(3,4) by auto
  have "cur \<noteq> []" using p(2,4) assms(4) by (auto simp: holds_def)
  then have m: "maybeTrimPartialLastRow p nextKey = trim_loop N p R None"
    using p(3,4) assms(5) by (simp add: maybeTrimPartialLastRow_def holds_def)
  have c: "res_count p = of_nat (length kvs)" "res_count (fst (trim_loop N p R None)) = of_nat (length (fst (trim_list N R kvs None)))"
    using p(2,4) t(2,3) by (auto simp: holds_def)
  show ?thesis using p(1) m c t finish_holds [OF p(4)] finish_holds [OF t(2)] p(2)
    by (metis prod.collapse)
qed

lemma getRowPrefix_family:
  assumes "t \<noteq> 0" "row = tenant_bytes t @ uv v @ cols"
  shows "getRowPrefix (MakeFamilyKey row fam) = Inr (Some row)"
proof -
  have "0 < length row" using length_uv [of v] assms(2) by (simp only: length_append) linarith
  moreover have "0 < length (family_bytes fam)" by (simp add: family_bytes_def)
  ultimately have "MakeFamilyKey row fam \<noteq> []" "\<not> int (length row) \<le> 0" "\<not> int (length (MakeFamilyKey row fam)) \<le> int (length row)"
    by (simp_all add: MakeFamilyKey_eq)
  moreover have "take (length row) (MakeFamilyKey row fam) = row" by (simp add: MakeFamilyKey_eq)
  ultimately show ?thesis using GetRowPrefixLength_family [OF assms, of fam] by (simp add: getRowPrefix_def)
qed

lemma kv_key_mvcc: "kv_key (mvcc_bytes m, v) = UserKey m"
  by (simp add: kv_key_def SplitMVCCKey_bytes)

theorem results_refine_list_witness:
  "\<exists>p q. put_all (\<lambda>_. None) (results_start 2) [(mvcc_bytes (MakeMVCCMetadataKey (MakeFamilyKey [0xbc, 0x89, 0x12] 0)), [1])] = (p, None) \<and>
     maybeTrimPartialLastRow p (MakeFamilyKey [0xbc, 0x89, 0x12] 1) = (q, Inr (Some (MakeFamilyKey [0xbc, 0x89, 0x12] 0))) \<and>
     concat (snd (results_finish q)) = []"
proof -
  let ?kvs = "[(mvcc_bytes (MakeMVCCMetadataKey (MakeFamilyKey [0xbc, 0x89, 0x12] 0)), [1])]"
  have row: "[0xbc, 0x89, 0x12] = tenant_bytes 1 @ uv 52 @ [0x89, 0x12]" by (simp add: tenant_bytes_def EncodeUvarintAscending_def)
  note rp = getRowPrefix_family [OF one_neq_zero row]
  have k: "kv_key (hd ?kvs) = MakeFamilyKey [0xbc, 0x89, 0x12] 0" by (simp add: kv_key_mvcc MakeMVCCMetadataKey_def)
  have rd: "list_all readable ?kvs" using rp [of 0] k
    by (simp add: readable_def entry_size_def results_sizeOf_def mvcc_bytes_def MakeMVCCMetadataKey_def ts_suffix_def
        Timestamp_IsEmpty_def MakeFamilyKey_eq family_bytes_def)
  have tl: "trim_list 2 [0xbc, 0x89, 0x12] ?kvs None = ([], Inr (Some (MakeFamilyKey [0xbc, 0x89, 0x12] 0)))"
    using rp [of 0] k row_tail_simps(2) [of _ "[]"] by (simp add: trim_list_def)
  show ?thesis
    using results_refine_list [of 2 "\<lambda>_. None" ?kvs "MakeFamilyKey [0xbc, 0x89, 0x12] 1" "[0xbc, 0x89, 0x12]"] rd rp [of 1]
    unfolding tl by auto
qed

end
