(* ===== verification/Txn_Data.thy ===== *)
theory Txn_Data
  imports Keys_Spans Hlc_Timestamp
begin

text \<open>
  \<open>pkg/roachpb/data.go\<close>: the transaction object and its persisted record, with the operations that every
  client, gateway and range applies to it: activity and priority, restart and refresh, the merge of two
  views of a transaction (\<open>Update\<close>), the timestamps observed on nodes, and the sequence numbers that are
  ignored after a rollback to a savepoint (with \<open>TxnSeqIsIgnored\<close> of \<open>pkg/storage/enginepb/mvcc.go\<close>).

  The metadata embedded in a transaction is a record that the record of a transaction extends, which in
  turn is extended by the transaction itself. A UUID is the list of its sixteen bytes. A random number
  (a fresh UUID, a random priority) is an argument of the operation that draws it.
\<close>

section \<open>Types\<close>

datatype TransactionStatus = PENDING | COMMITTED | ABORTED | STAGING

definition IsFinalized :: "TransactionStatus \<Rightarrow> bool" where
  "IsFinalized ts \<longleftrightarrow> ts = COMMITTED \<or> ts = ABORTED"

lemma IsFinalized_simps [simp]:
  "IsFinalized COMMITTED" "IsFinalized ABORTED" "\<not> IsFinalized PENDING" "\<not> IsFinalized STAGING"
  by (simp_all add: IsFinalized_def)

type_synonym uuid = bytes

definition uuid_Nil :: uuid where
  "uuid_Nil = replicate 16 0"

record TxnMeta =
  ID :: uuid
  TxnKey :: bytes
  Epoch :: int32
  WriteTimestamp :: Timestamp
  MinTimestamp :: Timestamp
  Priority :: int32
  Sequence :: int32
  CoordinatorNodeID :: int32

record SequencedWrite =
  WriteKey :: bytes
  WriteSeq :: int32

record IgnoredSeqNumRange =
  Start :: int32
  End :: int32

record ObservedTimestamp =
  NodeID :: int32
  ObservedAt :: ClockTimestamp

record TransactionRecord = TxnMeta +
  Status :: TransactionStatus
  LastHeartbeat :: Timestamp
  LockSpans :: "Span list"
  InFlightWrites :: "SequencedWrite list"
  IgnoredSeqNums :: "IgnoredSeqNumRange list"

record Transaction = TransactionRecord +
  Name :: string
  CommitTimestampFixed :: bool
  ReadTimestamp :: Timestamp
  GlobalUncertaintyLimit :: Timestamp
  ObservedTimestamps :: "ObservedTimestamp list"
  WriteTooOld :: bool

abbreviation (input) MinTxnPriority :: int32 where "MinTxnPriority \<equiv> 0"
abbreviation (input) MaxTxnPriority :: int32 where "MaxTxnPriority \<equiv> MaxInt32"

section \<open>Operations\<close>

definition MakeTransaction :: "uuid \<Rightarrow> int32 \<Rightarrow> string \<Rightarrow> bytes \<Rightarrow> Timestamp \<Rightarrow> int64 \<Rightarrow> int32 \<Rightarrow> Transaction" where
  "MakeTransaction u priority name baseKey now maxOffsetNs coordinatorNodeID =
     \<lparr>ID = u, TxnKey = baseKey, Epoch = 0, WriteTimestamp = now, MinTimestamp = now, Priority = priority,
      Sequence = 0, CoordinatorNodeID = coordinatorNodeID, Status = PENDING, LastHeartbeat = now,
      LockSpans = [], InFlightWrites = [], IgnoredSeqNums = [], Name = name, CommitTimestampFixed = False,
      ReadTimestamp = now, GlobalUncertaintyLimit = Timestamp_Add now maxOffsetNs 0,
      ObservedTimestamps = [], WriteTooOld = False\<rparr>"

definition LastActive :: "Transaction \<Rightarrow> Timestamp" where
  "LastActive t = (if Synthetic (ReadTimestamp t) then LastHeartbeat t
     else ts_forward (LastHeartbeat t) (ReadTimestamp t))"

definition RequiredFrontier :: "Transaction \<Rightarrow> Timestamp" where
  "RequiredFrontier t = ts_forward (ts_forward (ReadTimestamp t) (WriteTimestamp t)) (GlobalUncertaintyLimit t)"

definition AssertInitialized :: "Transaction \<Rightarrow> go_error + unit" where
  "AssertInitialized t = (if ID t = uuid_Nil \<or> Timestamp_IsEmpty (WriteTimestamp t)
     then Inl (LogFatalf ''uninitialized txn'') else Inr ())"

definition UpgradePriority :: "int32 \<Rightarrow> Transaction \<Rightarrow> Transaction" where
  "UpgradePriority minPriority t =
     (if sint minPriority > sint (Priority t) \<and> Priority t \<noteq> MinTxnPriority
      then t\<lparr>Priority := minPriority\<rparr> else t)"

definition BumpEpoch :: "Transaction \<Rightarrow> Transaction" where
  "BumpEpoch t = t\<lparr>Epoch := Epoch t + 1\<rparr>"

text \<open>\<open>pri\<close> is the priority that \<open>MakePriority(userPriority)\<close> draws.\<close>

definition Restart :: "int32 \<Rightarrow> int32 \<Rightarrow> Timestamp \<Rightarrow> Transaction \<Rightarrow> Transaction" where
  "Restart pri upgradePriority timestamp t =
     (let t = BumpEpoch t;
          t = (if Timestamp_Less (WriteTimestamp t) timestamp then t\<lparr>WriteTimestamp := timestamp\<rparr> else t);
          t = t\<lparr>ReadTimestamp := WriteTimestamp t\<rparr>;
          t = UpgradePriority upgradePriority (UpgradePriority pri t)
      in t\<lparr>Sequence := 0, WriteTooOld := False, CommitTimestampFixed := False, LockSpans := [],
           InFlightWrites := [], IgnoredSeqNums := []\<rparr>)"

definition Refresh :: "Timestamp \<Rightarrow> Transaction \<Rightarrow> Transaction" where
  "Refresh timestamp t =
     (let t = t\<lparr>WriteTimestamp := ts_forward (WriteTimestamp t) timestamp\<rparr>;
          t = t\<lparr>ReadTimestamp := ts_forward (ReadTimestamp t) (WriteTimestamp t)\<rparr>
      in t\<lparr>WriteTooOld := False\<rparr>)"

subsection \<open>Observed timestamps\<close>

definition observed_index :: "ObservedTimestamp list \<Rightarrow> int32 \<Rightarrow> nat" where
  "observed_index s nodeID = sort_search (length s) (\<lambda>i. sint (NodeID (s ! i)) \<ge> sint nodeID)"

definition observed_get :: "ObservedTimestamp list \<Rightarrow> int32 \<Rightarrow> ClockTimestamp option" where
  "observed_get s nodeID =
     (let i = observed_index s nodeID in
      if i < length s \<and> NodeID (s ! i) = nodeID then Some (ObservedAt (s ! i)) else None)"

definition observed_update :: "ObservedTimestamp list \<Rightarrow> int32 \<Rightarrow> ClockTimestamp \<Rightarrow> ObservedTimestamp list" where
  "observed_update s nodeID timestamp =
     (let i = observed_index s nodeID in
      if i < length s \<and> NodeID (s ! i) = nodeID then
        if Timestamp_Less timestamp (ObservedAt (s ! i)) then s[i := (s ! i)\<lparr>ObservedAt := timestamp\<rparr>] else s
      else take i s @ [\<lparr>NodeID = nodeID, ObservedAt = timestamp\<rparr>] @ drop i s)"

definition ResetObservedTimestamps :: "Transaction \<Rightarrow> Transaction" where
  "ResetObservedTimestamps t = t\<lparr>ObservedTimestamps := []\<rparr>"

definition UpdateObservedTimestamp :: "int32 \<Rightarrow> ClockTimestamp \<Rightarrow> Transaction \<Rightarrow> Transaction" where
  "UpdateObservedTimestamp nodeID timestamp t =
     (let obs = ObservedTimestamps t in
      if obs = [] then t\<lparr>ObservedTimestamps := [\<lparr>NodeID = nodeID, ObservedAt = timestamp\<rparr>]\<rparr>
      else if length obs = 1 \<and> NodeID (obs ! 0) = nodeID then
        if Timestamp_Less timestamp (ObservedAt (obs ! 0))
        then t\<lparr>ObservedTimestamps := [\<lparr>NodeID = nodeID, ObservedAt = timestamp\<rparr>]\<rparr> else t
      else t\<lparr>ObservedTimestamps := observed_update obs nodeID timestamp\<rparr>)"

definition GetObservedTimestamp :: "Transaction \<Rightarrow> int32 \<Rightarrow> ClockTimestamp option" where
  "GetObservedTimestamp t nodeID = observed_get (ObservedTimestamps t) nodeID"

subsection \<open>Merging two views of a transaction\<close>

text \<open>The epoch-scoped state: taken over from a later epoch, forwarded within an epoch.\<close>

definition update_status :: "TransactionStatus \<Rightarrow> TransactionStatus \<Rightarrow> TransactionStatus" where
  "update_status s o' = (case s of PENDING \<Rightarrow> o' | STAGING \<Rightarrow> (if o' \<noteq> PENDING then o' else s) | _ \<Rightarrow> s)"

definition update_epoch :: "Transaction \<Rightarrow> Transaction \<Rightarrow> Transaction" where
  "update_epoch t ot =
     (if sint (Epoch t) < sint (Epoch ot) then
        t\<lparr>Epoch := Epoch ot, Status := Status ot, WriteTooOld := WriteTooOld ot,
          CommitTimestampFixed := CommitTimestampFixed ot, Sequence := Sequence ot, LockSpans := LockSpans ot,
          InFlightWrites := InFlightWrites ot, IgnoredSeqNums := IgnoredSeqNums ot\<rparr>
      else if Epoch t = Epoch ot then
        t\<lparr>Status := update_status (Status t) (Status ot),
          WriteTooOld := (if ReadTimestamp t = ReadTimestamp ot then WriteTooOld t \<or> WriteTooOld ot
            else if Timestamp_Less (ReadTimestamp t) (ReadTimestamp ot) then WriteTooOld ot else WriteTooOld t),
          CommitTimestampFixed := (if ReadTimestamp t = ReadTimestamp ot
            then CommitTimestampFixed t \<or> CommitTimestampFixed ot
            else if Timestamp_Less (ReadTimestamp t) (ReadTimestamp ot) then CommitTimestampFixed ot
            else CommitTimestampFixed t),
          Sequence := (if sint (Sequence t) < sint (Sequence ot) then Sequence ot else Sequence t),
          LockSpans := (if LockSpans ot \<noteq> [] then LockSpans ot else LockSpans t),
          InFlightWrites := (if InFlightWrites ot \<noteq> [] then InFlightWrites ot else InFlightWrites t),
          IgnoredSeqNums := (if IgnoredSeqNums ot \<noteq> [] then IgnoredSeqNums ot else IgnoredSeqNums t)\<rparr>
      else if Status ot = ABORTED then t\<lparr>Status := ABORTED\<rparr> else t)"

definition update_timestamps :: "Transaction \<Rightarrow> Transaction \<Rightarrow> Transaction" where
  "update_timestamps t ot =
     t\<lparr>WriteTimestamp := ts_forward (WriteTimestamp t) (WriteTimestamp ot),
       LastHeartbeat := ts_forward (LastHeartbeat t) (LastHeartbeat ot),
       GlobalUncertaintyLimit := ts_forward (GlobalUncertaintyLimit t) (GlobalUncertaintyLimit ot),
       ReadTimestamp := ts_forward (ReadTimestamp t) (ReadTimestamp ot),
       MinTimestamp := (if Timestamp_IsEmpty (MinTimestamp t) then MinTimestamp ot
         else if \<not> Timestamp_IsEmpty (MinTimestamp ot) then Timestamp_Backward (MinTimestamp t) (MinTimestamp ot)
         else MinTimestamp t)\<rparr>"

definition Transaction_Update :: "Transaction option \<Rightarrow> Transaction \<Rightarrow> go_error + Transaction" where
  "Transaction_Update oo t =
     (case oo of None \<Rightarrow> Inr t
      | Some ot \<Rightarrow> res_bind (AssertInitialized ot) (\<lambda>_.
          if ID t = uuid_Nil then Inr ot
          else if ID t \<noteq> ID ot then Inl (LogFatalf ''updating txn with different txn'')
          else
            let t = (if TxnKey t = [] then t\<lparr>TxnKey := TxnKey ot\<rparr> else t);
                t = update_timestamps (update_epoch t ot) ot;
                t = fold (\<lambda>v. UpdateObservedTimestamp (NodeID v) (ObservedAt v)) (ObservedTimestamps ot) t
            in Inr (UpgradePriority (Priority ot) t)))"

subsection \<open>Ignored sequence numbers\<close>

definition AddIgnoredSeqNumRange :: "IgnoredSeqNumRange \<Rightarrow> Transaction \<Rightarrow> Transaction" where
  "AddIgnoredSeqNumRange newRange t =
     (let list = IgnoredSeqNums t;
          i = sort_search (length list) (\<lambda>i. sint (End (list ! i)) \<ge> sint (Start newRange))
      in t\<lparr>IgnoredSeqNums := take i list @ [newRange]\<rparr>)"

text \<open>The loop looks at the ranges from the last one to the first: the argument is the reversed list.\<close>

fun seq_is_ignored_loop :: "int32 \<Rightarrow> IgnoredSeqNumRange list \<Rightarrow> bool" where
  "seq_is_ignored_loop seq [] = False"
| "seq_is_ignored_loop seq (r # rs) =
     (if sint seq < sint (Start r) then seq_is_ignored_loop seq rs
      else if sint seq > sint (End r) then False
      else True)"

definition TxnSeqIsIgnored :: "int32 \<Rightarrow> IgnoredSeqNumRange list \<Rightarrow> bool" where
  "TxnSeqIsIgnored seq ignored = seq_is_ignored_loop seq (rev ignored)"

subsection \<open>Records and lock updates\<close>

definition AsRecord :: "Transaction \<Rightarrow> TransactionRecord" where
  "AsRecord t =
     \<lparr>ID = ID t, TxnKey = TxnKey t, Epoch = Epoch t, WriteTimestamp = WriteTimestamp t,
      MinTimestamp = MinTimestamp t, Priority = Priority t, Sequence = Sequence t,
      CoordinatorNodeID = CoordinatorNodeID t, Status = Status t, LastHeartbeat = LastHeartbeat t,
      LockSpans = LockSpans t, InFlightWrites = InFlightWrites t, IgnoredSeqNums = IgnoredSeqNums t\<rparr>"

definition AsTransaction :: "TransactionRecord \<Rightarrow> Transaction" where
  "AsTransaction tr =
     \<lparr>ID = ID tr, TxnKey = TxnKey tr, Epoch = Epoch tr, WriteTimestamp = WriteTimestamp tr,
      MinTimestamp = MinTimestamp tr, Priority = Priority tr, Sequence = Sequence tr,
      CoordinatorNodeID = CoordinatorNodeID tr, Status = Status tr, LastHeartbeat = LastHeartbeat tr,
      LockSpans = LockSpans tr, InFlightWrites = InFlightWrites tr, IgnoredSeqNums = IgnoredSeqNums tr,
      Name = [], CommitTimestampFixed = False, ReadTimestamp = Timestamp_zero,
      GlobalUncertaintyLimit = Timestamp_zero, ObservedTimestamps = [], WriteTooOld = False\<rparr>"

record LockUpdate =
  LockSpan :: Span
  LockTxn :: TxnMeta
  LockStatus :: TransactionStatus
  LockIgnored :: "IgnoredSeqNumRange list"

definition MakeLockUpdate :: "Transaction \<Rightarrow> Span \<Rightarrow> LockUpdate" where
  "MakeLockUpdate txn span = \<lparr>LockSpan = span, LockTxn = TxnMeta.truncate txn, LockStatus = Status txn,
     LockIgnored = IgnoredSeqNums txn\<rparr>"

definition LocksAsLockUpdates :: "Transaction \<Rightarrow> LockUpdate list" where
  "LocksAsLockUpdates t = map (MakeLockUpdate t) (LockSpans t)"

section \<open>Observed timestamps keep the lowest reading of every node\<close>

text \<open>
  The slice is the table of a map from nodes to timestamps, sorted by node. Updating it is updating the
  map with the lower of the two readings.
\<close>

definition obs_wf :: "ObservedTimestamp list \<Rightarrow> bool" where
  "obs_wf s \<longleftrightarrow> sorted_wrt (<) (map (\<lambda>v. sint (NodeID v)) s)"

definition obs_map :: "ObservedTimestamp list \<Rightarrow> int32 \<Rightarrow> ClockTimestamp option" where
  "obs_map s = map_of (map (\<lambda>v. (NodeID v, ObservedAt v)) s)"

definition lower_reading :: "ClockTimestamp option \<Rightarrow> ClockTimestamp \<Rightarrow> ClockTimestamp" where
  "lower_reading old ts = (case old of None \<Rightarrow> ts | Some v \<Rightarrow> if Timestamp_Less ts v then ts else v)"

lemma obs_wf_append:
  "obs_wf (l @ r) \<longleftrightarrow> obs_wf l \<and> obs_wf r \<and> (\<forall>v \<in> set l. \<forall>w \<in> set r. sint (NodeID v) < sint (NodeID w))"
  by (auto simp: obs_wf_def sorted_wrt_append)

lemma obs_wf_Cons:
  "obs_wf (v # r) \<longleftrightarrow> (\<forall>w \<in> set r. sint (NodeID v) < sint (NodeID w)) \<and> obs_wf r"
  by (auto simp: obs_wf_def)

lemma obs_map_simps [simp]:
  "obs_map [] = Map.empty" "obs_map (v # s) = (obs_map s)(NodeID v \<mapsto> ObservedAt v)"
  by (simp_all add: obs_map_def)

lemma obs_map_append: "obs_map (l @ r) = obs_map r ++ obs_map l"
  by (simp add: obs_map_def)

lemma obs_map_absent: "\<forall>v \<in> set s. NodeID v \<noteq> n \<Longrightarrow> obs_map s n = None"
  by (auto simp: obs_map_def map_of_eq_None_iff)

lemma observed_index_split:
  assumes "obs_wf s"
  obtains (found) l v r where "s = l @ v # r" "observed_index s n = length l" "NodeID v = n"
      "\<forall>w \<in> set l. sint (NodeID w) < sint n" "\<forall>w \<in> set r. sint n < sint (NodeID w)"
    | (absent) l r where "s = l @ r" "observed_index s n = length l"
      "\<forall>w \<in> set l. sint (NodeID w) < sint n" "\<forall>w \<in> set r. sint n < sint (NodeID w)"
proof -
  let ?i = "observed_index s n"
  have sorted: "sorted (map (\<lambda>v. sint (NodeID v)) s)" using assms by (simp add: obs_wf_def strict_sorted_imp_sorted)
  note * = sort_search_sorted [OF sorted, of "sint n", folded observed_index_def]
  have s: "s = take ?i s @ drop ?i s" "?i = length (take ?i s)" using *(1) by simp_all
  show ?thesis
  proof (cases "drop ?i s")
    case Nil
    then show ?thesis using s *(2) by (intro absent [of "take ?i s" "[]"]) auto
  next
    case (Cons v r)
    then have wf: "\<forall>w \<in> set r. sint (NodeID v) < sint (NodeID w)"
      using assms s(1) by (metis obs_wf_append obs_wf_Cons)
    show ?thesis
    proof (cases "NodeID v = n")
      case True
      then show ?thesis using s *(2) Cons wf by (intro found [of "take ?i s" v r]) auto
    next
      case False
      then have "sint n < sint (NodeID v)" using *(3) Cons sint_eq_iff [of "NodeID v" n] by force
      then show ?thesis using s *(2) Cons wf by (intro absent [of "take ?i s" "v # r"]) auto
    qed
  qed
qed

lemma observed_get_map:
  assumes "obs_wf s" shows "observed_get s n = obs_map s n"
proof (cases rule: observed_index_split [OF assms, of n, case_names found absent])
  case (found l v r)
  then have "obs_map l n = None" by (intro obs_map_absent) auto
  with found show ?thesis by (simp add: observed_get_def obs_map_append nth_append map_add_def)
next
  case (absent l r)
  then have none: "obs_map l n = None" "obs_map r n = None" by (auto intro!: obs_map_absent)
  have "\<not> (length l < length s \<and> NodeID (s ! length l) = n)"
    using absent by (cases r) (auto simp: nth_append)
  with absent none show ?thesis by (auto simp: observed_get_def obs_map_append map_add_def Let_def)
qed

lemma observed_update_map:
  assumes "obs_wf s"
  shows "obs_wf (observed_update s n ts) \<and>
    obs_map (observed_update s n ts) = (obs_map s)(n \<mapsto> lower_reading (obs_map s n) ts)"
proof (cases rule: observed_index_split [OF assms, of n, case_names found absent])
  case (found l v r)
  then have none: "obs_map l n = None" "obs_map r n = None" by (auto intro!: obs_map_absent)
  have upd: "observed_update s n ts =
      l @ (if Timestamp_Less ts (ObservedAt v) then v\<lparr>ObservedAt := ts\<rparr> else v) # r"
    using found by (simp add: observed_update_def nth_append list_update_append)
  show ?thesis using assms found none unfolding upd
    by (auto simp: obs_wf_append obs_wf_Cons obs_map_append lower_reading_def map_add_def fun_eq_iff
        split: option.splits)
next
  case (absent l r)
  then have none: "obs_map l n = None" "obs_map r n = None" by (auto intro!: obs_map_absent)
  have "\<not> (length l < length s \<and> NodeID (s ! length l) = n)"
    using absent by (cases r) (auto simp: nth_append)
  then have upd: "observed_update s n ts = l @ \<lparr>NodeID = n, ObservedAt = ts\<rparr> # r"
    using absent by (auto simp: observed_update_def Let_def)
  show ?thesis using assms absent none unfolding upd
    by (auto simp: obs_wf_append obs_wf_Cons obs_map_append lower_reading_def map_add_def fun_eq_iff
        split: option.splits)
qed

lemma UpdateObservedTimestamp_map:
  assumes "obs_wf (ObservedTimestamps t)"
  shows "obs_wf (ObservedTimestamps (UpdateObservedTimestamp n ts t)) \<and>
    obs_map (ObservedTimestamps (UpdateObservedTimestamp n ts t)) =
      (obs_map (ObservedTimestamps t))(n \<mapsto> lower_reading (obs_map (ObservedTimestamps t) n) ts)"
proof (cases "\<exists>v. ObservedTimestamps t = [v] \<and> NodeID v = n")
  case True
  then show ?thesis
    by (auto simp: UpdateObservedTimestamp_def obs_wf_Cons lower_reading_def obs_wf_def)
next
  case False
  then have "\<not> (length (ObservedTimestamps t) = 1 \<and> NodeID (ObservedTimestamps t ! 0) = n)"
    by (cases "ObservedTimestamps t") auto
  then show ?thesis using observed_update_map [OF assms, of n ts]
    by (auto simp: UpdateObservedTimestamp_def Let_def obs_wf_def lower_reading_def)
qed

section \<open>Ignored sequence numbers\<close>

text \<open>
  The ranges are disjoint and in ascending order. What the caller of \<open>AddIgnoredSeqNumRange\<close> guarantees:
  the new range ends at or after everything that is ignored already, and it starts before every range that
  it reaches into.
\<close>

definition seqs :: "IgnoredSeqNumRange \<Rightarrow> int set" where
  "seqs r = {sint (Start r)..sint (End r)}"

definition ignored_wf :: "IgnoredSeqNumRange list \<Rightarrow> bool" where
  "ignored_wf rs \<longleftrightarrow> list_all (\<lambda>r. sint (Start r) \<le> sint (End r)) rs \<and>
     sorted_wrt (\<lambda>r q. sint (End r) < sint (Start q)) rs"

definition rolls_back_over :: "IgnoredSeqNumRange \<Rightarrow> IgnoredSeqNumRange list \<Rightarrow> bool" where
  "rolls_back_over new rs \<longleftrightarrow> sint (Start new) \<le> sint (End new) \<and>
     list_all (\<lambda>r. sint (End r) \<le> sint (End new) \<and>
       (sint (Start new) \<le> sint (End r) \<longrightarrow> sint (Start new) \<le> sint (Start r))) rs"

lemma ignored_wf_append:
  "ignored_wf (l @ r) \<longleftrightarrow> ignored_wf l \<and> ignored_wf r \<and> (\<forall>a \<in> set l. \<forall>b \<in> set r. sint (End a) < sint (Start b))"
  by (auto simp: ignored_wf_def sorted_wrt_append)

lemma ignored_wf_sorted_ends: "ignored_wf rs \<Longrightarrow> sorted (map (\<lambda>r. sint (End r)) rs)"
  by (induction rs) (fastforce simp: ignored_wf_def list_all_iff)+

lemma TxnSeqIsIgnored_iff:
  assumes "ignored_wf rs"
  shows "TxnSeqIsIgnored q rs \<longleftrightarrow> sint q \<in> (\<Union>r \<in> set rs. seqs r)"
  using assms unfolding TxnSeqIsIgnored_def
proof (induction rs rule: rev_induct)
  case (snoc r rs)
  then have wf: "ignored_wf rs" and gap: "\<forall>a \<in> set rs. sint (End a) < sint (Start r)"
    by (simp_all add: ignored_wf_append)
  then have "sint q \<notin> (\<Union>a \<in> set rs. seqs a)" if "sint q \<ge> sint (Start r)"
    using that by (force simp: seqs_def)
  with snoc.IH [OF wf] show ?case by (auto simp: seqs_def)
qed simp

lemma AddIgnoredSeqNumRange_ranges:
  assumes "ignored_wf rs" "rolls_back_over new rs" "IgnoredSeqNums t = rs"
  defines "rs' \<equiv> IgnoredSeqNums (AddIgnoredSeqNumRange new t)"
  shows "ignored_wf rs' \<and> (\<Union>r \<in> set rs'. seqs r) = (\<Union>r \<in> set rs. seqs r) \<union> seqs new"
proof -
  define i where "i = sort_search (length rs) (\<lambda>i. sint (Start new) \<le> sint (End (rs ! i)))"
  note * = sort_search_sorted [OF ignored_wf_sorted_ends [OF assms(1)], of "sint (Start new)", folded i_def]
  have rs': "rs' = take i rs @ [new]"
    by (simp add: rs'_def assms(3) AddIgnoredSeqNumRange_def Let_def i_def)
  have "ignored_wf (take i rs)" using assms(1) ignored_wf_append [of "take i rs" "drop i rs"] by simp
  then have "ignored_wf rs'"
    using *(2) assms(2) by (auto simp: rs' ignored_wf_append rolls_back_over_def) (simp add: ignored_wf_def)
  moreover have "(\<Union>r \<in> set (drop i rs). seqs r) \<subseteq> seqs new"
    using *(3) assms(2) by (force simp: rolls_back_over_def list_all_iff seqs_def dest: in_set_dropD)
  moreover have "set rs = set (take i rs) \<union> set (drop i rs)" by (metis append_take_drop_id set_append)
  ultimately show ?thesis by (auto simp: rs')
qed

section \<open>Merging and the invariant of transactions\<close>

lemma UpdateObservedTimestamp_frame:
  "\<exists>obs. UpdateObservedTimestamp n ts t = t\<lparr>ObservedTimestamps := obs\<rparr>"
  unfolding UpdateObservedTimestamp_def Let_def by (metis (no_types) Transaction.surjective Transaction.update_convs(5))

lemma fold_observed_frame:
  "\<exists>obs. fold (\<lambda>v. UpdateObservedTimestamp (NodeID v) (ObservedAt v)) vs t = t\<lparr>ObservedTimestamps := obs\<rparr>"
proof (induction vs arbitrary: t)
  case Nil
  have "t = t\<lparr>ObservedTimestamps := ObservedTimestamps t\<rparr>" by simp
  then show ?case by (metis fold_simps(1))
next
  case (Cons v vs)
  obtain obs where 1: "UpdateObservedTimestamp (NodeID v) (ObservedAt v) t = t\<lparr>ObservedTimestamps := obs\<rparr>"
    using UpdateObservedTimestamp_frame by blast
  obtain obs' where "fold (\<lambda>v. UpdateObservedTimestamp (NodeID v) (ObservedAt v)) vs (t\<lparr>ObservedTimestamps := obs\<rparr>) =
      t\<lparr>ObservedTimestamps := obs, ObservedTimestamps := obs'\<rparr>" using Cons.IH by blast
  then show ?case using 1 by auto
qed

fun lower_readings :: "ObservedTimestamp list \<Rightarrow> (int32 \<Rightarrow> ClockTimestamp option) \<Rightarrow> int32 \<Rightarrow> ClockTimestamp option" where
  "lower_readings [] m = m"
| "lower_readings (v # vs) m = lower_readings vs (m(NodeID v \<mapsto> lower_reading (m (NodeID v)) (ObservedAt v)))"

lemma fold_observed_map:
  fixes t :: Transaction and vs :: "ObservedTimestamp list"
  assumes "obs_wf (ObservedTimestamps t)"
  defines "t' \<equiv> fold (\<lambda>v. UpdateObservedTimestamp (NodeID v) (ObservedAt v)) vs t"
  shows "obs_wf (ObservedTimestamps t') \<and>
    obs_map (ObservedTimestamps t') = lower_readings vs (obs_map (ObservedTimestamps t))"
  using assms(1) unfolding t'_def
proof (induction vs arbitrary: t)
  case (Cons v vs)
  note upd = UpdateObservedTimestamp_map [OF Cons.prems, of "NodeID v" "ObservedAt v"]
  show ?case using Cons.IH [OF conjunct1 [OF upd]]
    by (simp only: fold_simps lower_readings.simps conjunct2 [OF upd])
qed simp

lemma lower_readings_absent: "\<forall>v \<in> set vs. NodeID v \<noteq> n \<Longrightarrow> lower_readings vs m n = m n"
  by (induction vs arbitrary: m) auto

text \<open>Absorbing a table leaves for every node the lower of the two readings.\<close>

lemma lower_readings_table:
  assumes "obs_wf vs"
  shows "lower_readings vs m n = (case obs_map vs n of None \<Rightarrow> m n | Some ts \<Rightarrow> Some (lower_reading (m n) ts))"
  using assms
proof (induction vs arbitrary: m)
  case (Cons v vs)
  then have later: "\<forall>w \<in> set vs. NodeID w \<noteq> NodeID v" and wf: "obs_wf vs" by (auto simp: obs_wf_Cons)
  show ?case
  proof (cases "NodeID v = n")
    case True
    then show ?thesis using lower_readings_absent [of vs n] later by simp
  next
    case False
    then show ?thesis using Cons.IH [OF wf] by (simp split: option.splits)
  qed
qed simp

lemma UpgradePriority_frame: "\<exists>p. UpgradePriority q t = t\<lparr>Priority := p\<rparr> \<and> sint (Priority t) \<le> sint p"
proof (cases "sint (Priority t) < sint q \<and> Priority t \<noteq> 0")
  case True
  then show ?thesis by (intro exI [of _ q]) (auto simp: UpgradePriority_def)
next
  case False
  then show ?thesis by (intro exI [of _ "Priority t"]) (auto simp: UpgradePriority_def)
qed

definition txn_wf :: "Transaction \<Rightarrow> bool" where
  "txn_wf t \<longleftrightarrow> ts_key (MinTimestamp t) \<le> ts_key (ReadTimestamp t) \<and>
     ts_key (ReadTimestamp t) \<le> ts_key (WriteTimestamp t) \<and>
     obs_wf (ObservedTimestamps t) \<and> ignored_wf (IgnoredSeqNums t)"

lemma update_epoch_fields [simp]:
  "WriteTimestamp (update_epoch t ot) = WriteTimestamp t" "ReadTimestamp (update_epoch t ot) = ReadTimestamp t"
  "MinTimestamp (update_epoch t ot) = MinTimestamp t" "LastHeartbeat (update_epoch t ot) = LastHeartbeat t"
  "GlobalUncertaintyLimit (update_epoch t ot) = GlobalUncertaintyLimit t"
  "ObservedTimestamps (update_epoch t ot) = ObservedTimestamps t" "Priority (update_epoch t ot) = Priority t"
  "ID (update_epoch t ot) = ID t" "TxnKey (update_epoch t ot) = TxnKey t"
  by (simp_all add: update_epoch_def Let_def)

lemma update_epoch_Epoch: "sint (Epoch (update_epoch t ot)) = max (sint (Epoch t)) (sint (Epoch ot))"
  by (simp add: update_epoch_def Let_def max_def)

definition merged_status :: "Transaction \<Rightarrow> Transaction \<Rightarrow> TransactionStatus" where
  "merged_status t ot =
     (if sint (Epoch t) < sint (Epoch ot) then Status ot
      else if Epoch t = Epoch ot then update_status (Status t) (Status ot)
      else if Status ot = ABORTED then ABORTED else Status t)"

lemma update_epoch_Status: "Status (update_epoch t ot) = merged_status t ot"
  by (simp add: update_epoch_def merged_status_def Let_def)

lemma update_epoch_ignored:
  "IgnoredSeqNums (update_epoch t ot) \<in> {IgnoredSeqNums t, IgnoredSeqNums ot}"
  by (simp add: update_epoch_def Let_def)

lemma update_epoch_TxnKey: "update_epoch (t\<lparr>TxnKey := k\<rparr>) ot = (update_epoch t ot)\<lparr>TxnKey := k\<rparr>"
  by (simp add: update_epoch_def)

definition initialized :: "Transaction \<Rightarrow> bool" where
  "initialized t \<longleftrightarrow> ID t \<noteq> uuid_Nil \<and> \<not> Timestamp_IsEmpty (WriteTimestamp t)"

lemma AssertInitialized_initialized [simp]: "initialized t \<Longrightarrow> AssertInitialized t = Inr ()"
  by (simp add: initialized_def AssertInitialized_def)

text \<open>A successful merge: the epoch-scoped part, the timestamps, the readings and the priority.\<close>

lemma Transaction_Update_eq:
  assumes "initialized ot" "ID t = ID ot" "obs_wf (ObservedTimestamps t)"
  obtains k obs p where
    "Transaction_Update (Some ot) t =
      Inr ((update_timestamps (update_epoch t ot) ot)\<lparr>TxnKey := k, ObservedTimestamps := obs, Priority := p\<rparr>)"
    "k = (if TxnKey t = [] then TxnKey ot else TxnKey t)" "sint (Priority t) \<le> sint p"
    "obs_wf obs" "obs_map obs = lower_readings (ObservedTimestamps ot) (obs_map (ObservedTimestamps t))"
proof -
  define k where "k = (if TxnKey t = [] then TxnKey ot else TxnKey t)"
  define u where "u = (update_timestamps (update_epoch t ot) ot)\<lparr>TxnKey := k\<rparr>"
  have ut: "update_timestamps (update_epoch (if TxnKey t = [] then t\<lparr>TxnKey := TxnKey ot\<rparr> else t) ot) ot = u"
    by (simp add: u_def k_def update_epoch_TxnKey update_timestamps_def)
  have fields: "ObservedTimestamps u = ObservedTimestamps t" "Priority u = Priority t"
    by (simp_all add: u_def update_timestamps_def)
  let ?f = "fold (\<lambda>v. UpdateObservedTimestamp (NodeID v) (ObservedAt v)) (ObservedTimestamps ot) u"
  obtain obs where obs: "?f = u\<lparr>ObservedTimestamps := obs\<rparr>" using fold_observed_frame by blast
  have om: "obs_wf obs \<and> obs_map obs = lower_readings (ObservedTimestamps ot) (obs_map (ObservedTimestamps t))"
    using fold_observed_map [of u "ObservedTimestamps ot"] assms(3) unfolding obs fields by simp
  obtain p where p: "UpgradePriority (Priority ot) ?f = ?f\<lparr>Priority := p\<rparr>" "sint (Priority ?f) \<le> sint p"
    using UpgradePriority_frame by blast
  have "ID t \<noteq> uuid_Nil" using assms(1,2) by (simp add: initialized_def)
  then have upd: "Transaction_Update (Some ot) t = Inr (u\<lparr>ObservedTimestamps := obs, Priority := p\<rparr>)"
    using assms(1,2) p(1) obs by (simp add: Transaction_Update_def ut Let_def)
  have "sint (Priority t) \<le> sint p" using p(2) fields(2) obs by simp
  then show ?thesis using that [of p obs k] upd om by (simp add: u_def k_def)
qed

lemma GetObservedTimestamp_map:
  "obs_wf (ObservedTimestamps t) \<Longrightarrow> GetObservedTimestamp t = obs_map (ObservedTimestamps t)"
  by (simp add: fun_eq_iff GetObservedTimestamp_def observed_get_map)



text \<open>
  The transactions a coordinator can hold: created by \<open>MakeTransaction\<close>, then restarted, refreshed, merged
  with other views of themselves, told of readings of clocks and rolled back to savepoints.
\<close>

inductive client_txn :: "Transaction \<Rightarrow> bool" where
  make: "client_txn (MakeTransaction u pri name key now off node)"
| restart: "client_txn t \<Longrightarrow> client_txn (Restart pri upg ts t)"
| refresh: "client_txn t \<Longrightarrow> client_txn (Refresh ts t)"
| update: "client_txn t \<Longrightarrow> client_txn ot \<Longrightarrow> Transaction_Update (Some ot) t = Inr u \<Longrightarrow> client_txn u"
| observe: "client_txn t \<Longrightarrow> client_txn (UpdateObservedTimestamp n ts t)"
| reset: "client_txn t \<Longrightarrow> client_txn (ResetObservedTimestamps t)"
| rollback: "client_txn t \<Longrightarrow> rolls_back_over r (IgnoredSeqNums t) \<Longrightarrow> client_txn (AddIgnoredSeqNumRange r t)"

lemma txn_wf_Restart: "txn_wf t \<Longrightarrow> txn_wf (Restart pri upg ts t)"
  by (auto simp: txn_wf_def Restart_def BumpEpoch_def UpgradePriority_def Let_def ts_order ignored_wf_def)

lemma txn_wf_Refresh: "txn_wf t \<Longrightarrow> txn_wf (Refresh ts t)"
  by (auto simp: txn_wf_def Refresh_def Let_def max_def)

lemma txn_wf_observe:
  assumes "txn_wf t" shows "txn_wf (UpdateObservedTimestamp n ts t)"
proof -
  obtain obs where "UpdateObservedTimestamp n ts t = t\<lparr>ObservedTimestamps := obs\<rparr>"
    using UpdateObservedTimestamp_frame by blast
  then show ?thesis using assms UpdateObservedTimestamp_map [of t n ts] by (simp add: txn_wf_def)
qed

lemma txn_wf_Update:
  assumes "txn_wf t" "txn_wf ot" "Transaction_Update (Some ot) t = Inr u" shows "txn_wf u"
proof (cases "ID t = uuid_Nil \<or> ID t \<noteq> ID ot \<or> \<not> initialized ot")
  case True
  then show ?thesis using assms
    by (auto simp: Transaction_Update_def AssertInitialized_def initialized_def split: if_splits)
next
  case False
  obtain k obs p where u: "u = (update_timestamps (update_epoch t ot) ot)\<lparr>TxnKey := k, ObservedTimestamps := obs, Priority := p\<rparr>"
      and obs: "obs_wf obs"
    using False assms by (auto simp: txn_wf_def elim!: Transaction_Update_eq [of ot t])
  have "ignored_wf (IgnoredSeqNums (update_epoch t ot))"
    using update_epoch_ignored [of t ot] assms(1,2) by (auto simp: txn_wf_def)
  then show ?thesis using assms(1,2) obs
    by (auto simp: u txn_wf_def update_timestamps_def max_def min_def split: if_splits)
qed

lemma txn_wf_make: "txn_wf (MakeTransaction u pri name key now off node)"
  by (simp add: txn_wf_def MakeTransaction_def obs_wf_def ignored_wf_def)

lemma txn_wf_reset: "txn_wf t \<Longrightarrow> txn_wf (ResetObservedTimestamps t)"
  by (simp add: txn_wf_def ResetObservedTimestamps_def obs_wf_def)

lemma client_txn_is_wf:
  assumes "client_txn t" shows "txn_wf t"
  using assms
proof induction
  case (rollback t r)
  then have "ignored_wf (IgnoredSeqNums (AddIgnoredSeqNumRange r t))"
    using AddIgnoredSeqNumRange_ranges [of "IgnoredSeqNums t" r t] by (auto simp: txn_wf_def)
  then show ?case using rollback.IH by (simp add: txn_wf_def AddIgnoredSeqNumRange_def Let_def)
next
  case (update t ot u)
  then show ?case by (metis txn_wf_Update)
qed (auto intro: txn_wf_Restart txn_wf_Refresh txn_wf_observe txn_wf_reset txn_wf_make)



text \<open>
  C24. Rolling back to a savepoint ignores exactly the sequence numbers that were ignored before and those of the
  rolled back range, and \<open>TxnSeqIsIgnored\<close> answers for every sequence number whether it is ignored.
\<close>

theorem rollback_ignores_exactly:
  assumes "client_txn t" "rolls_back_over r (IgnoredSeqNums t)"
  shows "TxnSeqIsIgnored q (IgnoredSeqNums (AddIgnoredSeqNumRange r t)) \<longleftrightarrow>
    TxnSeqIsIgnored q (IgnoredSeqNums t) \<or> sint (Start r) \<le> sint q \<and> sint q \<le> sint (End r)"
proof -
  have wf: "ignored_wf (IgnoredSeqNums t)"
    using client_txn_is_wf [OF assms(1)] by (simp add: txn_wf_def)
  note * = AddIgnoredSeqNumRange_ranges [OF wf assms(2) refl]
  show ?thesis
    unfolding TxnSeqIsIgnored_iff [OF wf] TxnSeqIsIgnored_iff [OF conjunct1 [OF *]] conjunct2 [OF *]
    by (simp add: seqs_def)
qed

theorem rollback_ignores_exactly_witness:
  "TxnSeqIsIgnored 9 (IgnoredSeqNums (AddIgnoredSeqNumRange \<lparr>Start = 8, End = 26\<rparr>
     (AddIgnoredSeqNumRange \<lparr>Start = 10, End = 20\<rparr>
       (MakeTransaction (replicate 16 1) 5 ''a'' [] \<lparr>WallTime = 5, Logical = 0, Synthetic = False\<rparr> 500 1))))"
proof -
  define m where "m = MakeTransaction (replicate 16 1) 5 ''a'' [] \<lparr>WallTime = 5, Logical = 0, Synthetic = False\<rparr> 500 1"
  have m: "client_txn m" "IgnoredSeqNums m = []" by (simp_all add: m_def client_txn.make) (simp add: MakeTransaction_def)
  let ?t = "AddIgnoredSeqNumRange \<lparr>Start = 10, End = 20\<rparr> m"
  have "client_txn ?t" using m by (intro client_txn.rollback) (simp_all add: rolls_back_over_def)
  moreover have "rolls_back_over \<lparr>Start = 8, End = 26\<rparr> (IgnoredSeqNums ?t)"
    using m(2) by (simp add: rolls_back_over_def AddIgnoredSeqNumRange_def)
  ultimately show ?thesis using rollback_ignores_exactly [of ?t "\<lparr>Start = 8, End = 26\<rparr>" 9] by (simp add: m_def)
qed

end
