(* ===== verification/Uncertainty.thy ===== *)
theory Uncertainty
  imports Txn_Data
begin

text \<open>
  \<open>pkg/kv/kvserver/uncertainty\<close> and the retry of transactions (\<open>pkg/roachpb/data.go\<close>, \<open>errors.go\<close>). A reader may
  meet a value above its timestamp that was nevertheless written before the reader began, by a node whose
  clock runs ahead. The uncertainty interval of a request says which values may be such; a reader that
  meets one restarts above it. The interval is limited by what the transaction observed on the clock of
  the leaseholder, and by the start of the lease.
\<close>

section \<open>Intervals\<close>

record Interval =
  GlobalLimit :: Timestamp
  LocalLimit :: ClockTimestamp

record LeaseStatus =
  LeaseValid :: bool
  LeaseStart :: ClockTimestamp
  LeaseNodeID :: int32

definition minimumLocalLimitForLeaseholder :: "LeaseStatus \<Rightarrow> ClockTimestamp" where
  "minimumLocalLimitForLeaseholder status = LeaseStart status"

definition IsUncertain :: "Interval \<Rightarrow> Timestamp \<Rightarrow> go_error + bool" where
  "IsUncertain ival valueTs =
     (if \<not> Timestamp_IsEmpty (LocalLimit ival) \<and> \<not> Synthetic valueTs
      then res_bind (ClockTimestamp_ToTimestamp (LocalLimit ival)) (\<lambda>l. Inr (Timestamp_LessEq valueTs l))
      else Inr (Timestamp_LessEq valueTs (GlobalLimit ival)))"

definition computeIntervalForTxn :: "Transaction \<Rightarrow> LeaseStatus \<Rightarrow> Interval" where
  "computeIntervalForTxn txn status =
     (let ival = \<lparr>GlobalLimit = GlobalUncertaintyLimit txn, LocalLimit = Timestamp_zero\<rparr> in
      if \<not> LeaseValid status then ival
      else case GetObservedTimestamp txn (LeaseNodeID status) of None \<Rightarrow> ival
        | Some obsTs \<Rightarrow>
            let l = ts_forward obsTs (minimumLocalLimitForLeaseholder status)
            in ival\<lparr>LocalLimit := Timestamp_Backward l (GlobalLimit ival)\<rparr>)"

text \<open>
  The header of a request without a transaction: the timestamp it was given by the clock of the server, if
  any, and whether it reads consistently.
\<close>

definition computeIntervalForNonTxn :: "ClockTimestamp option \<Rightarrow> bool \<Rightarrow> LeaseStatus \<Rightarrow> int64 \<Rightarrow> go_error + Interval" where
  "computeIntervalForNonTxn fromServerClock consistent status maxOffset =
     (case fromServerClock of
        None \<Rightarrow> Inr \<lparr>GlobalLimit = Timestamp_zero, LocalLimit = Timestamp_zero\<rparr>
      | Some now \<Rightarrow>
          if \<not> consistent then Inr \<lparr>GlobalLimit = Timestamp_zero, LocalLimit = Timestamp_zero\<rparr>
          else res_bind (ClockTimestamp_ToTimestamp now) (\<lambda>ts.
            let ival = \<lparr>GlobalLimit = Timestamp_Add ts maxOffset 0, LocalLimit = Timestamp_zero\<rparr> in
            if \<not> LeaseValid status then Inr ival
            else let l = ts_forward now (minimumLocalLimitForLeaseholder status)
                 in Inr (ival\<lparr>LocalLimit := Timestamp_Backward l (GlobalLimit ival)\<rparr>)))"

definition ComputeInterval ::
  "Transaction option \<Rightarrow> ClockTimestamp option \<Rightarrow> bool \<Rightarrow> LeaseStatus \<Rightarrow> int64 \<Rightarrow> go_error + Interval" where
  "ComputeInterval txn fromServerClock consistent status maxOffset =
     (case txn of Some t \<Rightarrow> Inr (computeIntervalForTxn t status)
      | None \<Rightarrow> computeIntervalForNonTxn fromServerClock consistent status maxOffset)"

section \<open>Retries\<close>

datatype TransactionRetryReason =
    RETRY_REASON_UNKNOWN | RETRY_WRITE_TOO_OLD | RETRY_SERIALIZABLE | RETRY_ASYNC_WRITE_FAILURE
  | RETRY_COMMIT_DEADLINE_EXCEEDED

text \<open>
  The details of an error as far as a retry looks at them. \<open>OtherDetail\<close> stands for every other error; its
  flag tells whether the error asks for a restart of the transaction.
\<close>

datatype error_detail =
    TransactionAbortedDetail
  | ReadWithinUncertaintyInterval (ExistingTimestamp: Timestamp) (LocalUncertaintyLimit: Timestamp)
  | TransactionPushDetail Transaction
  | TransactionRetryDetail TransactionRetryReason
  | WriteTooOld_detail Timestamp
  | OtherDetail bool

fun canRestartTransaction :: "error_detail \<Rightarrow> bool" where
  "canRestartTransaction (OtherDetail b) = b"
| "canRestartTransaction _ = True"

text \<open>\<open>RetryTimestamp\<close> of an uncertainty error and of a write-too-old error.\<close>

definition RetryTimestamp :: "error_detail \<Rightarrow> go_error + Timestamp" where
  "RetryTimestamp e = (case e of
      ReadWithinUncertaintyInterval existing limit \<Rightarrow>
        res_bind (Timestamp_Next existing) (\<lambda>ts. Inr (ts_forward ts limit))
    | WriteTooOld_detail actual \<Rightarrow> Inr actual
    | _ \<Rightarrow> Inl (GoPanic ''no retry timestamp''))"

text \<open>
  What a retry draws from its environment: the reading of the clock, a fresh identifier, a random priority
  and the maximal offset.
\<close>

record retry_env =
  Now :: Timestamp
  FreshID :: uuid
  RandomPriority :: int32
  MaxOffset :: int64

definition forward_write :: "Timestamp \<Rightarrow> Transaction \<Rightarrow> Transaction" where
  "forward_write ts t = t\<lparr>WriteTimestamp := ts_forward (WriteTimestamp t) ts\<rparr>"

definition PrepareTransactionForRetry :: "error_detail \<Rightarrow> Transaction option \<Rightarrow> retry_env \<Rightarrow> go_error + Transaction" where
  "PrepareTransactionForRetry detail errTxn env =
     (if \<not> canRestartTransaction detail then Inl (LogFatalf ''invalid retryable err'')
      else case errTxn of None \<Rightarrow> Inl (LogFatalf ''missing txn for retryable error'')
      | Some txn \<Rightarrow>
          let restart = (\<lambda>t. if IsFinalized (Status t) then Inl (LogFatalf ''transaction unexpectedly finalized'')
                else Inr (Restart (RandomPriority env) (Priority t) (WriteTimestamp t) t))
          in case detail of
              TransactionAbortedDetail \<Rightarrow>
                Inr ((MakeTransaction (FreshID env) (RandomPriority env) (Name txn) [] (Now env) (MaxOffset env)
                  (CoordinatorNodeID txn))\<lparr>Priority := Priority txn\<rparr>)
            | ReadWithinUncertaintyInterval existing limit \<Rightarrow>
                res_bind (RetryTimestamp detail) (\<lambda>ts. restart (forward_write ts txn))
            | TransactionPushDetail pushee \<Rightarrow>
                restart (UpgradePriority (Priority pushee - 1) (forward_write (WriteTimestamp pushee) txn))
            | TransactionRetryDetail reason \<Rightarrow>
                restart (if reason = RETRY_SERIALIZABLE then forward_write (Now env) txn else txn)
            | WriteTooOld_detail actual \<Rightarrow> res_bind (RetryTimestamp detail) (\<lambda>ts. restart (forward_write ts txn))
            | OtherDetail _ \<Rightarrow> Inl (LogFatalf ''invalid retryable err''))"

definition TransactionRefreshTimestamp :: "error_detail \<Rightarrow> Transaction option \<Rightarrow> go_error + Timestamp option" where
  "TransactionRefreshTimestamp detail errTxn =
     (case errTxn of None \<Rightarrow> Inr None
      | Some txn \<Rightarrow>
          (case detail of
             TransactionRetryDetail reason \<Rightarrow>
               if reason \<noteq> RETRY_SERIALIZABLE \<and> reason \<noteq> RETRY_WRITE_TOO_OLD then Inr None
               else Inr (Some (WriteTimestamp txn))
           | WriteTooOld_detail actual \<Rightarrow>
               res_bind (RetryTimestamp detail) (\<lambda>ts. Inr (Some (ts_forward (WriteTimestamp txn) ts)))
           | ReadWithinUncertaintyInterval existing limit \<Rightarrow>
               res_bind (RetryTimestamp detail) (\<lambda>ts. Inr (Some (ts_forward (WriteTimestamp txn) ts)))
           | _ \<Rightarrow> Inr None))"

section \<open>No value is missed\<close>

lemma ToTimestamp_Inr [simp]: "\<not> Synthetic t \<Longrightarrow> ClockTimestamp_ToTimestamp t = Inr t"
  by (simp add: ClockTimestamp_ToTimestamp_def)

lemma Synthetic_backward: "Synthetic (Timestamp_Backward t s) \<longleftrightarrow> Synthetic t \<and> Synthetic s"
  by (simp add: Timestamp_Backward_def Let_def bothSynthetic_def)

lemma forward_not_synthetic: "\<not> Synthetic a \<Longrightarrow> \<not> Synthetic b \<Longrightarrow> \<not> Synthetic (ts_forward a b)"
  by (simp add: Synthetic_forward)

text \<open>The lease starts at a reading of a clock, and so are the observed timestamps.\<close>

definition clock_readings :: "Transaction \<Rightarrow> LeaseStatus \<Rightarrow> bool" where
  "clock_readings t status \<longleftrightarrow> \<not> Synthetic (LeaseStart status) \<and>
     (case GetObservedTimestamp t (LeaseNodeID status) of None \<Rightarrow> True | Some ts \<Rightarrow> \<not> Synthetic ts)"

lemma txn_interval:
  assumes "clock_readings t status"
  shows "LocalLimit (computeIntervalForTxn t status) = Timestamp_zero \<or>
    (\<exists>obs. LeaseValid status \<and> GetObservedTimestamp t (LeaseNodeID status) = Some obs \<and>
        \<not> Synthetic (LocalLimit (computeIntervalForTxn t status)) \<and>
        ts_key (LocalLimit (computeIntervalForTxn t status)) =
           min (max (ts_key obs) (ts_key (LeaseStart status))) (ts_key (GlobalUncertaintyLimit t)))"
proof (cases "LeaseValid status \<and> GetObservedTimestamp t (LeaseNodeID status) \<noteq> None")
  case False
  then show ?thesis by (auto simp: computeIntervalForTxn_def Let_def)
next
  case True
  then obtain obs where obs: "LeaseValid status" "GetObservedTimestamp t (LeaseNodeID status) = Some obs" by auto
  then have l: "LocalLimit (computeIntervalForTxn t status) =
      Timestamp_Backward (ts_forward obs (LeaseStart status)) (GlobalUncertaintyLimit t)"
    by (simp add: computeIntervalForTxn_def minimumLocalLimitForLeaseholder_def Let_def)
  show ?thesis using obs assms
    by (simp add: l Synthetic_backward forward_not_synthetic clock_readings_def)
qed

lemma GlobalLimit_txn [simp]: "GlobalLimit (computeIntervalForTxn t status) = GlobalUncertaintyLimit t"
  by (simp add: computeIntervalForTxn_def Let_def split: option.splits)

lemma IsUncertain_txn:
  assumes "clock_readings t status"
  defines "l \<equiv> LocalLimit (computeIntervalForTxn t status)"
  shows "IsUncertain (computeIntervalForTxn t status) v =
    Inr (Timestamp_LessEq v (if \<not> Timestamp_IsEmpty l \<and> \<not> Synthetic v then l else GlobalUncertaintyLimit t))"
  using txn_interval [OF assms(1)] by (auto simp: IsUncertain_def l_def Timestamp_IsEmpty_def)



section \<open>A retry makes progress\<close>

lemma Restart_fields:
  "ts_key (ReadTimestamp (Restart pri upg ts t)) = max (ts_key (WriteTimestamp t)) (ts_key ts)"
  "GlobalUncertaintyLimit (Restart pri upg ts t) = GlobalUncertaintyLimit t"
  "ObservedTimestamps (Restart pri upg ts t) = ObservedTimestamps t"
  "Epoch (Restart pri upg ts t) = Epoch t + 1"
  by (auto simp: Restart_def Let_def BumpEpoch_def UpgradePriority_def ts_order max_def)

lemma computeInterval_cong:
  assumes "GlobalUncertaintyLimit t = GlobalUncertaintyLimit u" "ObservedTimestamps t = ObservedTimestamps u"
  shows "computeIntervalForTxn t status = computeIntervalForTxn u status"
  using assms by (auto simp: computeIntervalForTxn_def GetObservedTimestamp_def Let_def split: option.splits)

text \<open>
  C12. A transaction that met an uncertain value at \<open>v\<close> and is retried in place reads above the value, in the next
  epoch; and where it had observed the clock of the leaseholder, no value written there with a timestamp of
  a clock is uncertain to it any more: everything above its new read timestamp is certainly concurrent.
\<close>

theorem uncertainty_retry_progress:
  assumes "clock_readings t status"
    and "\<not> IsFinalized (Status t)" and "ts_key v \<noteq> ts_key MaxTimestamp"
  shows "\<exists>u. PrepareTransactionForRetry
      (ReadWithinUncertaintyInterval v (LocalLimit (computeIntervalForTxn t status))) (Some t) env = Inr u \<and>
    Timestamp_Less v (ReadTimestamp u) \<and> Epoch u = Epoch t + 1 \<and>
    (\<forall>w. \<not> Timestamp_IsEmpty (LocalLimit (computeIntervalForTxn t status)) \<and> \<not> Synthetic w \<and>
        Timestamp_Less (ReadTimestamp u) w \<longrightarrow> IsUncertain (computeIntervalForTxn u status) w = Inr False)"
proof -
  let ?l = "LocalLimit (computeIntervalForTxn t status)"
  obtain n where n: "Timestamp_Next v = Inr n"
    using assms(3) Timestamp_Next_panics [of v] by (cases "Timestamp_Next v") auto
  define rts where "rts = ts_forward n ?l"
  define u where "u = Restart (RandomPriority env) (Priority t) (WriteTimestamp (forward_write rts t)) (forward_write rts t)"
  have prep: "PrepareTransactionForRetry (ReadWithinUncertaintyInterval v ?l) (Some t) env = Inr u"
    using assms(2) n by (simp add: PrepareTransactionForRetry_def RetryTimestamp_def forward_write_def u_def rts_def)
  have same: "computeIntervalForTxn u status = computeIntervalForTxn t status"
    by (rule computeInterval_cong) (simp_all add: u_def Restart_fields forward_write_def)
  have ge: "ts_key n \<le> ts_key (ReadTimestamp u)" "ts_key ?l \<le> ts_key (ReadTimestamp u)"
    by (simp_all add: u_def Restart_fields forward_write_def rts_def le_max_iff_disj)
  have "IsUncertain (computeIntervalForTxn u status) w = Inr False"
    if "\<not> Timestamp_IsEmpty ?l" "\<not> Synthetic w" "Timestamp_Less (ReadTimestamp u) w" for w
    unfolding same using that ge(2) by (auto simp: IsUncertain_txn [OF assms(1)] ts_order)
  moreover have "Timestamp_Less v (ReadTimestamp u)"
    using Timestamp_Next_greater [OF n] ge(1) by (auto simp: ts_order)
  moreover have "Epoch u = Epoch t + 1" by (simp add: u_def Restart_fields forward_write_def)
  ultimately show ?thesis using prep by blast
qed

theorem uncertainty_retry_progress_witness:
  "\<exists>u. PrepareTransactionForRetry (ReadWithinUncertaintyInterval \<lparr>WallTime = 6, Logical = 0, Synthetic = False\<rparr>
      (LocalLimit (computeIntervalForTxn
        (MakeTransaction (replicate 16 1) 5 ''a'' [] \<lparr>WallTime = 5, Logical = 0, Synthetic = False\<rparr> 500 1)
        \<lparr>LeaseValid = True, LeaseStart = \<lparr>WallTime = 3, Logical = 0, Synthetic = False\<rparr>, LeaseNodeID = 3\<rparr>)))
      (Some (MakeTransaction (replicate 16 1) 5 ''a'' [] \<lparr>WallTime = 5, Logical = 0, Synthetic = False\<rparr> 500 1))
      \<lparr>Now = Timestamp_zero, FreshID = replicate 16 2, RandomPriority = 9, MaxOffset = 500\<rparr> = Inr u \<and>
    Timestamp_Less \<lparr>WallTime = 6, Logical = 0, Synthetic = False\<rparr> (ReadTimestamp u)"
proof -
  let ?t = "MakeTransaction (replicate 16 1) 5 ''a'' [] \<lparr>WallTime = 5, Logical = 0, Synthetic = False\<rparr> 500 1"
  let ?s = "\<lparr>LeaseValid = True, LeaseStart = \<lparr>WallTime = 3, Logical = 0, Synthetic = False\<rparr>, LeaseNodeID = 3\<rparr>"
  have "GetObservedTimestamp ?t 3 = None"
    by (simp add: GetObservedTimestamp_def MakeTransaction_def observed_get_def observed_index_def sort_search_def)
  then have "clock_readings ?t ?s" by (simp add: clock_readings_def)
  moreover have "\<not> IsFinalized (Status ?t)" by (simp add: MakeTransaction_def)
  ultimately show ?thesis
    using uncertainty_retry_progress [of ?t ?s "\<lparr>WallTime = 6, Logical = 0, Synthetic = False\<rparr>"
      "\<lparr>Now = Timestamp_zero, FreshID = replicate 16 2, RandomPriority = 9, MaxOffset = 500\<rparr>"]
    by (auto simp: ts_key_def MaxTimestamp_def)
qed

end
