(* ===== verification/Txn_Locks.thy ===== *)
theory Txn_Locks
  imports Txn_Data Key_Space
begin

text \<open>
  What happens to the locks of a transaction when it ends: \<open>ContainsKey\<close>, \<open>ContainsKeyRange\<close> and \<open>IntersectSpan\<close>
  (\<open>pkg/kv/kvserver/kvserverbase/base.go\<close>) tell which of the locks are on the range of the record;
  \<open>resolveLocalLocks\<close> (\<open>pkg/kv/kvserver/batcheval/cmd_end_transaction.go\<close>) resolves those, within an allowance,
  and returns the others; \<open>UpdateAbortSpan\<close> (\<open>batcheval/transaction.go\<close>) maintains the entries that stop a
  transaction that was aborted without its knowledge.

  The two operations of the storage engine that resolve intents are arguments (\<open>storage_ops\<close>) on an abstract
  state of the engine; the abort span is a map from transactions to entries.
\<close>

section \<open>The locks of a range\<close>

definition LocalRangeMax :: bytes where
  "LocalRangeMax = PrefixEnd LocalRangePrefix"

definition RangeDescriptor_ContainsKey :: "RangeDescriptor \<Rightarrow> bytes \<Rightarrow> bool" where
  "RangeDescriptor_ContainsKey r key = RSpan_ContainsKey (RangeDescriptor_RSpan r) key"

text \<open>The id of the range is passed beside its descriptor.\<close>

definition desc_ContainsKey :: "int64 \<Rightarrow> RangeDescriptor \<Rightarrow> bytes \<Rightarrow> bool" where
  "desc_ContainsKey rangeID desc key =
     (if prefix LocalRangeIDPrefix key then prefix (MakeRangeIDPrefix rangeID) key
      else case Addr key of Inl e \<Rightarrow> False | Inr keyAddr \<Rightarrow> RangeDescriptor_ContainsKey desc keyAddr)"

definition desc_ContainsKeyRange :: "RangeDescriptor \<Rightarrow> bytes \<Rightarrow> bytes \<Rightarrow> bool" where
  "desc_ContainsKeyRange desc start en =
     (case Addr start of Inl e \<Rightarrow> False
      | Inr startKeyAddr \<Rightarrow> (case Addr en of Inl e \<Rightarrow> False
          | Inr endKeyAddr \<Rightarrow> RangeDescriptor_ContainsKeyRange desc startKeyAddr endKeyAddr))"

definition IntersectSpan :: "Span \<Rightarrow> RangeDescriptor \<Rightarrow> go_error + Span option \<times> Span list" where
  "IntersectSpan span desc =
     (let start = StartKey desc; en = DescEndKey desc in
      if length (endk span) = 0 then Inr (None, [span])
      else if bytes_compare (Key span) LocalRangeMax < 0 then
        if bytes_compare (endk span) LocalRangeMax \<ge> 0
        then Inl (GoPanic ''a local intent range may not have a non-local portion'')
        else if desc_ContainsKeyRange desc (Key span) (endk span) then Inr (Some span, [])
        else Inr (None, [span])
      else
        let (span, outside) =
              (if bytes_compare (Key span) start < 0 then
                 let iCopy = (if bytes_compare start (endk span) < 0 then span\<lparr>EndKey := Some start\<rparr> else span)
                 in (span\<lparr>Key := endk iCopy\<rparr>, [iCopy])
               else (span, []));
            (span, outside) =
              (if bytes_compare (Key span) (endk span) < 0 \<and> bytes_compare en (endk span) < 0 then
                 let iCopy = (if bytes_compare (Key span) en < 0 then span\<lparr>Key := en\<rparr> else span)
                 in (span\<lparr>EndKey := Some (Key iCopy)\<rparr>, outside @ [iCopy])
               else (span, outside))
        in Inr (if bytes_compare (Key span) (endk span) < 0 \<and> bytes_compare (Key span) start \<ge> 0 \<and>
                   bytes_compare en (endk span) \<ge> 0 then Some span else None, outside))"

section \<open>The abort span\<close>

record AbortSpanEntry =
  EntryKey :: bytes
  EntryTimestamp :: Timestamp
  EntryPriority :: int32

type_synonym abort_span = "uuid \<rightharpoonup> AbortSpanEntry"

definition WriteAbortSpanOnResolve :: "TransactionStatus \<Rightarrow> bool \<Rightarrow> bool \<Rightarrow> bool" where
  "WriteAbortSpanOnResolve status poison removedIntents =
     (if status \<noteq> ABORTED then False else if \<not> poison then True else removedIntents)"

definition UpdateAbortSpan :: "('a TxnMeta_scheme) \<Rightarrow> bool \<Rightarrow> abort_span \<Rightarrow> abort_span" where
  "UpdateAbortSpan txn poison asp =
     (let curEntry = asp (ID txn) in
      if \<not> poison then (if curEntry = None then asp else asp(ID txn := None))
      else let entry = \<lparr>EntryKey = TxnKey txn, EntryTimestamp = WriteTimestamp txn, EntryPriority = Priority txn\<rparr>
           in if curEntry = Some entry then asp else asp(ID txn \<mapsto> entry))"

section \<open>Resolving the local locks\<close>

text \<open>
  The engine resolves the intent of one key, or of the keys of a span up to a number of them; it tells how
  many it resolved and where it stopped.
\<close>

record 'st storage_ops =
  ResolveIntent :: "LockUpdate \<Rightarrow> 'st \<Rightarrow> go_error + bool \<times> 'st"
  ResolveIntentRange :: "LockUpdate \<Rightarrow> int \<Rightarrow> 'st \<Rightarrow> go_error + int \<times> Span option \<times> 'st"

record 'st resolve_state =
  Allowance :: int
  Resolved :: "LockUpdate list"
  External :: "Span list"
  Engine :: 'st

abbreviation (input) lockResolutionBatchSize :: int where "lockResolutionBatchSize \<equiv> 500"

definition resolve_step ::
  "'st storage_ops \<Rightarrow> int64 \<Rightarrow> RangeDescriptor \<Rightarrow> Transaction \<Rightarrow> Span \<Rightarrow> 'st resolve_state \<Rightarrow> go_error + 'st resolve_state" where
  "resolve_step ops rangeID desc txn span st =
     (if Allowance st = 0 then Inr (st\<lparr>External := External st @ [span]\<rparr>)
      else
        let update = MakeLockUpdate txn span in
        if length (endk span) = 0 then
          if \<not> desc_ContainsKey rangeID desc (Key span) then Inr (st\<lparr>External := External st @ [span]\<rparr>)
          else res_bind (ResolveIntent ops update (Engine st)) (\<lambda>(ok, eng).
            Inr (st\<lparr>Allowance := (if ok then Allowance st - 1 else Allowance st),
                    Resolved := Resolved st @ [update], Engine := eng\<rparr>))
        else res_bind (IntersectSpan span desc) (\<lambda>(inSpan, outSpans).
          let st = st\<lparr>External := External st @ outSpans\<rparr> in
          case inSpan of None \<Rightarrow> Inr st
          | Some inSpan \<Rightarrow>
              let update = update\<lparr>LockSpan := inSpan\<rparr> in
              res_bind (ResolveIntentRange ops update (Allowance st) (Engine st)) (\<lambda>(num, resumeSpan, eng).
                let st = st\<lparr>Allowance := Allowance st - num, Engine := eng\<rparr> in
                case resumeSpan of
                  None \<Rightarrow> Inr (st\<lparr>Resolved := Resolved st @ [update]\<rparr>)
                | Some resume \<Rightarrow>
                    if Allowance st \<noteq> 0 then Inl (LogFatalf ''expected resolve allowance to be exactly 0'')
                    else Inr (st\<lparr>Resolved := Resolved st @ [update\<lparr>LockSpan := inSpan\<lparr>EndKey := Some (Key resume)\<rparr>\<rparr>],
                                 External := External st @ [resume]\<rparr>))))"

fun resolve_loop ::
  "'st storage_ops \<Rightarrow> int64 \<Rightarrow> RangeDescriptor \<Rightarrow> Transaction \<Rightarrow> Span list \<Rightarrow> 'st resolve_state \<Rightarrow> go_error + 'st resolve_state" where
  "resolve_loop ops rangeID desc txn [] st = Inr st"
| "resolve_loop ops rangeID desc txn (span # spans) st =
     res_bind (resolve_step ops rangeID desc txn span st) (resolve_loop ops rangeID desc txn spans)"

text \<open>
  The request: its lock spans, whether it poisons, and the descriptor to use when it carries an internal
  commit trigger (the merged one for a merge, else the given one).
\<close>

definition resolveLocalLocks ::
  "'st storage_ops \<Rightarrow> int64 \<Rightarrow> RangeDescriptor \<Rightarrow> RangeDescriptor option \<Rightarrow> bool \<Rightarrow> Span list \<Rightarrow> bool \<Rightarrow> Transaction \<Rightarrow>
     abort_span \<Rightarrow> 'st \<Rightarrow> go_error + LockUpdate list \<times> Span list \<times> abort_span \<times> 'st" where
  "resolveLocalLocks ops rangeID desc mergedDesc hasTrigger lockSpans poison txn asp eng =
     (let desc = (case mergedDesc of Some d \<Rightarrow> d | None \<Rightarrow> desc);
          allowance = (if hasTrigger then sint MaxInt64 else lockResolutionBatchSize)
      in res_bind (resolve_loop ops rangeID desc txn lockSpans
             \<lparr>Allowance = allowance, Resolved = [], External = [], Engine = eng\<rparr>) (\<lambda>st.
           let removedAny = Allowance st \<noteq> lockResolutionBatchSize;
               asp = (if WriteAbortSpanOnResolve (Status txn) poison removedAny
                      then UpdateAbortSpan txn poison asp else asp)
           in Inr (Resolved st, External st, asp, Engine st)))"

section \<open>No lock is lost\<close>

lemma span_set_interval: "E \<noteq> [] \<Longrightarrow> span_set \<lparr>Key = K, EndKey = Some E\<rparr> = {k. K \<le> k \<and> k < E}"
  by (subst span_set_range) (simp_all add: nil_bytes_def)

definition cut_at :: "Span \<Rightarrow> bytes \<Rightarrow> bytes \<Rightarrow> Span option \<Rightarrow> Span list \<Rightarrow> bool" where
  "cut_at span s e mid outs \<longleftrightarrow>
    spans_set outs = {k \<in> span_set span. k < s \<or> e \<le> k} \<and>
    (case mid of None \<Rightarrow> {k \<in> span_set span. s \<le> k \<and> k < e} = {}
     | Some m \<Rightarrow> Span_Valid m \<and> endk m \<noteq> [] \<and> span_set m = {k \<in> span_set span. s \<le> k \<and> k < e})"

lemma cut_atI:
  assumes "span = \<lparr>Key = K, EndKey = Some E\<rparr>" "E \<noteq> []"
    and "spans_set outs = {k. K \<le> k \<and> k < E \<and> (k < s \<or> e \<le> k)}"
    and "mid = None \<and> (\<forall>k. K \<le> k \<and> k < E \<longrightarrow> k < s \<or> e \<le> k) \<or>
      (\<exists>a b. mid = Some \<lparr>Key = a, EndKey = Some b\<rparr> \<and> a < b \<and> a = max K s \<and> b = min E e)"
  shows "cut_at span s e mid outs"
proof -
  have set: "span_set span = {k. K \<le> k \<and> k < E}" using assms(1,2) by (simp add: span_set_interval)
  from assms(4) show ?thesis
  proof (elim disjE exE conjE)
    fix a b assume m: "mid = Some \<lparr>Key = a, EndKey = Some b\<rparr>" "a < b" "a = max K s" "b = min E e"
    from m(2) have "b \<noteq> []" by auto
    then show ?thesis using m assms(3) unfolding cut_at_def set
      by (auto simp: span_set_interval nil_bytes_def Span_Valid_iff)
  qed (use assms(3) in \<open>auto simp: cut_at_def set\<close>)
qed

lemma IntersectSpan_global:
  assumes "LocalRangeMax \<le> Key span" "Key span < endk span" "StartKey desc < DescEndKey desc"
  shows "\<exists>mid outs. IntersectSpan span desc = Inr (mid, outs) \<and> cut_at span (StartKey desc) (DescEndKey desc) mid outs"
proof -
  obtain K E where span: "span = \<lparr>Key = K, EndKey = Some E\<rparr>" 
    using assms(2) by (cases span; cases "EndKey span") (auto simp: nil_bytes_def)
  have KE: "K < E" "E \<noteq> []" "\<not> K < LocalRangeMax" using assms by (auto simp: span nil_bytes_def)
  define s e where "s = StartKey desc" and "e = DescEndKey desc"
  have se: "s < e" "e \<noteq> []" using assms(3) by (auto simp: s_def e_def)
  note defs = IntersectSpan_def span Let_def nil_bytes_def s_def [symmetric] e_def [symmetric]
  have fin: ?thesis if "IntersectSpan span desc = Inr (mid, outs)"
      "spans_set outs = {k. K \<le> k \<and> k < E \<and> (k < s \<or> e \<le> k)}"
      "mid = None \<and> (\<forall>k. K \<le> k \<and> k < E \<longrightarrow> k < s \<or> e \<le> k) \<or>
        (\<exists>a b. mid = Some \<lparr>Key = a, EndKey = Some b\<rparr> \<and> a < b \<and> a = max K s \<and> b = min E e)" for mid outs
    using that cut_atI [OF span KE(2), of outs s e mid] by (auto simp: s_def e_def)
  consider (left) "E \<le> s" | (both) "K < s" "s < E" "e < E" | (straddle) "K < s" "s < E" "E \<le> e"
    | (right) "s \<le> K" "K < e" "e < E" | (beyond) "s \<le> K" "e \<le> K" | (inside) "s \<le> K" "E \<le> e"
    by (meson not_le)
  then show ?thesis
  proof cases
    case left
    then have "K < s" "\<not> s < E" using KE(1) by auto
    then have "IntersectSpan span desc = Inr (None, [span])" using KE by (simp add: defs)
    then show ?thesis using left KE se by (intro fin) (auto simp: span_set_interval span)
  next
    case both
    then have "IntersectSpan span desc = Inr (Some \<lparr>Key = s, EndKey = Some e\<rparr>,
        [\<lparr>Key = K, EndKey = Some s\<rparr>, \<lparr>Key = e, EndKey = Some E\<rparr>])" using KE se by (simp add: defs)
    moreover have "s \<noteq> []" using both by auto
    ultimately show ?thesis using both KE se by (intro fin) (auto simp: span_set_interval)
  next
    case straddle
    then have "IntersectSpan span desc = Inr (Some \<lparr>Key = s, EndKey = Some E\<rparr>, [\<lparr>Key = K, EndKey = Some s\<rparr>])"
      using KE se by (simp add: defs)
    moreover have "s \<noteq> []" using straddle by auto
    ultimately show ?thesis using straddle KE se by (intro fin) (auto simp: span_set_interval)
  next
    case right
    then have "IntersectSpan span desc = Inr (Some \<lparr>Key = K, EndKey = Some e\<rparr>, [\<lparr>Key = e, EndKey = Some E\<rparr>])"
      using KE se by (simp add: defs)
    then show ?thesis using right KE se by (intro fin) (auto simp: span_set_interval)
  next
    case beyond
    then have "\<not> K < s" "\<not> K < e" "e < E" using KE(1) by auto
    then have "IntersectSpan span desc = Inr (None, [span])" using KE by (simp add: defs)
    then show ?thesis using beyond KE se by (intro fin) (auto simp: span_set_interval span)
  next
    case inside
    then have "\<not> e < E" "\<not> K < s" by auto
    then have "IntersectSpan span desc = Inr (Some span, [])" using KE inside by (simp add: defs)
    then show ?thesis using inside KE se by (intro fin) (auto simp: span)
  qed
qed

text \<open>
  What the engine promises when it resolves the intents of a span: it never resolves more than it may, and
  it stops only when it has used up its allowance, at a key from which the rest of the span remains.
\<close>

definition resumes_properly :: "'st storage_ops \<Rightarrow> bool" where
  "resumes_properly ops \<longleftrightarrow> (\<forall>u m st num resume st'. 0 < m \<and> ResolveIntentRange ops u m st = Inr (num, resume, st') \<longrightarrow>
     0 \<le> num \<and> num \<le> m \<and> (case resume of None \<Rightarrow> True | Some r \<Rightarrow> num = m \<and> endk r = endk (LockSpan u) \<and>
       Key (LockSpan u) < Key r \<and> Key r \<le> endk (LockSpan u)))"

text \<open>A span that \<open>IntersectSpan\<close> accepts: all of it among the range-local keys, or none of it.\<close>

definition one_sided :: "Span \<Rightarrow> bool" where
  "one_sided s \<longleftrightarrow> Span_Valid s \<and> (endk s \<noteq> [] \<and> Key s < LocalRangeMax \<longrightarrow> endk s < LocalRangeMax)"

lemma IntersectSpan_covers:
  assumes "one_sided span" "endk span \<noteq> []" "StartKey desc < DescEndKey desc"
  obtains mid outs where "IntersectSpan span desc = Inr (mid, outs)"
    "span_set span = spans_set outs \<union> (case mid of None \<Rightarrow> {} | Some m \<Rightarrow> span_set m)"
    "case mid of None \<Rightarrow> True | Some m \<Rightarrow> Span_Valid m \<and> endk m \<noteq> []"
proof (cases "Key span < LocalRangeMax")
  case True
  then have "IntersectSpan span desc = Inr (if desc_ContainsKeyRange desc (Key span) (endk span) then (Some span, []) else (None, [span]))"
    using assms by (simp add: IntersectSpan_def one_sided_def not_le)
  then show ?thesis using assms that by (auto simp: one_sided_def split: if_splits)
next
  case False
  moreover have "Key span < endk span" using assms(1,2) by (simp add: one_sided_def Span_Valid_iff)
  ultimately obtain mid outs where "IntersectSpan span desc = Inr (mid, outs)"
      "cut_at span (StartKey desc) (DescEndKey desc) mid outs"
    using IntersectSpan_global [of span desc] assms(3) by (auto simp: not_less)
  then show ?thesis by (intro that) (auto simp: cut_at_def not_le not_less split: option.splits)
qed

definition covered :: "'st resolve_state \<Rightarrow> bytes set" where
  "covered st = spans_set (map LockSpan (Resolved st)) \<union> spans_set (External st)"

lemma spans_set_append [simp]: "spans_set (a @ b) = spans_set a \<union> spans_set b"
  by (simp add: spans_set_def)

lemma range_resumed:
  assumes "endk r = E" "K < Key r" "Key r \<le> E"
  shows "span_set (m\<lparr>Key := K, EndKey := Some (Key r)\<rparr>) \<union> span_set r = {k. K \<le> k \<and> k < E}"
proof -
  have ne: "Key r \<noteq> []" "E \<noteq> []" using assms(2,3) by auto
  then show ?thesis using assms by (auto simp: span_set_range nil_bytes_def)
qed

definition resolving :: "Transaction \<Rightarrow> 'st resolve_state \<Rightarrow> bool" where
  "resolving txn st \<longleftrightarrow> 0 \<le> Allowance st \<and>
     list_all (\<lambda>u. LockTxn u = TxnMeta.truncate txn \<and> LockStatus u = Status txn \<and> LockIgnored u = IgnoredSeqNums txn) (Resolved st)"

lemma MakeLockUpdate_fields [simp]:
  "LockSpan (MakeLockUpdate txn span) = span" "LockTxn (MakeLockUpdate txn span) = TxnMeta.truncate txn"
  "LockStatus (MakeLockUpdate txn span) = Status txn" "LockIgnored (MakeLockUpdate txn span) = IgnoredSeqNums txn"
  by (simp_all add: MakeLockUpdate_def)

lemma resolve_step_range:
  assumes ops: "resumes_properly ops" and inv: "resolving txn st" "Allowance st \<noteq> 0"
    and span: "one_sided span" "endk span \<noteq> []" and desc: "StartKey desc < DescEndKey desc"
  shows "(\<exists>st'. resolve_step ops rangeID desc txn span st = Inr st' \<and> resolving txn st' \<and>
      covered st' = covered st \<union> span_set span) \<or>
    (\<exists>e u m eng. resolve_step ops rangeID desc txn span st = Inl e \<and> ResolveIntentRange ops u m eng = Inl e)"
proof -
  obtain mid outs where i: "IntersectSpan span desc = Inr (mid, outs)"
      "span_set span = spans_set outs \<union> (case mid of None \<Rightarrow> {} | Some m \<Rightarrow> span_set m)"
      "case mid of None \<Rightarrow> True | Some m \<Rightarrow> Span_Valid m \<and> endk m \<noteq> []"
    by (rule IntersectSpan_covers [OF span desc])
  show ?thesis
  proof (cases mid)
    case None
    then show ?thesis using i inv span(2)
      by (auto simp: resolve_step_def resolving_def covered_def)
  next
    case (Some m)
    let ?u = "(MakeLockUpdate txn span)\<lparr>LockSpan := m\<rparr>"
    show ?thesis
    proof (cases "ResolveIntentRange ops ?u (Allowance st) (Engine st)")
      case (Inl e)
      then show ?thesis using i(1) Some inv span(2) by (auto simp: resolve_step_def Let_def)
    next
      case (Inr res)
      obtain num resume eng where res: "res = (num, resume, eng)" by (cases res)
      have pos: "0 < Allowance st" using inv by (auto simp: resolving_def)
      then have c: "0 \<le> num" "num \<le> Allowance st" "case resume of None \<Rightarrow> True | Some r \<Rightarrow>
          num = Allowance st \<and> endk r = endk m \<and> Key m < Key r \<and> Key r \<le> endk m"
        using ops [unfolded resumes_properly_def, rule_format, of "Allowance st" ?u "Engine st" num resume eng] Inr res
        by (simp_all split: option.splits)
      show ?thesis
      proof (cases resume)
        case None
        then show ?thesis using i Some Inr res inv span(2) c
          by (auto simp: resolve_step_def Let_def resolving_def covered_def)
      next
        case resumed: (Some r)
        then have r: "num = Allowance st" "endk r = endk m" "Key m < Key r" "Key r \<le> endk m" using c(3) by auto
        have "span_set (m\<lparr>EndKey := Some (Key r)\<rparr>) \<union> span_set r = span_set m"
          using range_resumed [OF r(2-4), of m] i(3) Some by (simp add: span_set_range)
        then show ?thesis using i Some Inr res resumed inv span(2) r(1)
          by (auto simp: resolve_step_def Let_def resolving_def covered_def)
      qed
    qed
  qed
qed

lemma resolve_step_covers:
  assumes "resumes_properly ops" "resolving txn st" "one_sided span" "StartKey desc < DescEndKey desc"
    "resolve_step ops rangeID desc txn span st = Inr st'"
  shows "resolving txn st' \<and> covered st' = covered st \<union> span_set span"
proof (cases "Allowance st = 0 \<or> endk span = []")
  case True
  then show ?thesis using assms(2,5)
    by (auto simp: resolve_step_def Let_def resolving_def covered_def split: if_splits)
next
  case False
  then show ?thesis using resolve_step_range [OF assms(1,2) _ assms(3) _ assms(4), of rangeID] assms(5) by auto
qed

lemma resolve_loop_covers:
  assumes "resumes_properly ops" "StartKey desc < DescEndKey desc"
  shows "resolving txn st \<Longrightarrow> list_all one_sided spans \<Longrightarrow> resolve_loop ops rangeID desc txn spans st = Inr st' \<Longrightarrow>
    resolving txn st' \<and> covered st' = covered st \<union> spans_set spans"
proof (induction spans arbitrary: st)
  case (Cons span spans)
  then obtain st1 where step: "resolve_step ops rangeID desc txn span st = Inr st1"
      and rest: "resolve_loop ops rangeID desc txn spans st1 = Inr st'" by auto
  have "resolving txn st1 \<and> covered st1 = covered st \<union> span_set span"
    using resolve_step_covers [OF assms(1) Cons.prems(1) _ assms(2) step] Cons.prems(2) by simp
  then show ?case using Cons.IH [of st1] Cons.prems(2) rest by auto
qed simp

lemma UpdateAbortSpan_entry:
  "UpdateAbortSpan txn poison asp = asp(ID txn := (if poison
     then Some \<lparr>EntryKey = TxnKey txn, EntryTimestamp = WriteTimestamp txn, EntryPriority = Priority txn\<rparr> else None))"
  by (auto simp: UpdateAbortSpan_def Let_def fun_eq_iff)

text \<open>
  C11. Ending a transaction loses none of its locks. If the engine stops only when its allowance is used up, every
  key that the request declares locked is in a span that was resolved or in one that is left to be
  resolved elsewhere, and no other key is. The resolved locks carry the outcome of the transaction. The
  abort span changes only for this transaction and only if it aborted; without poisoning its entry is gone
  afterwards.
\<close>

theorem locks_are_not_lost:
  assumes "resumes_properly ops" "list_all one_sided lockSpans" "StartKey d < DescEndKey d"
    and "d = (case mergedDesc of Some d' \<Rightarrow> d' | None \<Rightarrow> desc)"
    and "resolveLocalLocks ops rangeID desc mergedDesc hasTrigger lockSpans poison txn asp eng =
      Inr (resolved, external, asp', eng')"
  shows "spans_set (map LockSpan resolved) \<union> spans_set external = spans_set lockSpans \<and>
    list_all (\<lambda>u. LockTxn u = TxnMeta.truncate txn \<and> LockStatus u = Status txn) resolved \<and>
    (Status txn \<noteq> ABORTED \<longrightarrow> asp' = asp) \<and> (Status txn = ABORTED \<and> \<not> poison \<longrightarrow> asp' (ID txn) = None) \<and>
    (i \<noteq> ID txn \<longrightarrow> asp' i = asp i)"
proof -
  define st0 where "st0 = \<lparr>Allowance = (if hasTrigger then sint MaxInt64 else lockResolutionBatchSize),
    Resolved = [], External = [], Engine = eng\<rparr>"
  obtain st where st: "resolve_loop ops rangeID d txn lockSpans st0 = Inr st"
      and out: "resolved = Resolved st" "external = External st"
        "asp' = (if WriteAbortSpanOnResolve (Status txn) poison (Allowance st \<noteq> lockResolutionBatchSize)
           then UpdateAbortSpan txn poison asp else asp)"
    using assms(5) unfolding resolveLocalLocks_def Let_def assms(4) [symmetric] st0_def by auto
  have "resolving txn st0" by (simp add: resolving_def st0_def)
  from resolve_loop_covers [OF assms(1,3) this assms(2) st]
  have inv: "resolving txn st" "covered st = spans_set lockSpans" by (simp_all add: covered_def st0_def)
  then have "spans_set (map LockSpan resolved) \<union> spans_set external = spans_set lockSpans"
    by (simp add: covered_def out)
  moreover have "list_all (\<lambda>u. LockTxn u = TxnMeta.truncate txn \<and> LockStatus u = Status txn) resolved"
    using inv(1) by (auto simp: resolving_def out list_all_iff)
  ultimately show ?thesis by (simp add: out(3) WriteAbortSpanOnResolve_def UpdateAbortSpan_entry)
qed

theorem locks_are_not_lost_witness:
  "\<exists>resolved external asp' eng'. resolveLocalLocks
      \<lparr>ResolveIntent = \<lambda>u st. Inr (True, st), ResolveIntentRange = \<lambda>u m st. Inr (1, None, st)\<rparr>
      7 \<lparr>StartKey = [150], DescEndKey = [250]\<rparr> None False
      [\<lparr>Key = [200], EndKey = None\<rparr>, \<lparr>Key = [140], EndKey = Some [160]\<rparr>] False
      (MakeTransaction (replicate 16 1) 5 ''a'' [200] Timestamp_zero 500 1) Map.empty () = Inr (resolved, external, asp', eng') \<and>
    spans_set (map LockSpan resolved) \<union> spans_set external =
      spans_set [\<lparr>Key = [200], EndKey = None\<rparr>, \<lparr>Key = [140], EndKey = Some [160]\<rparr>]"
proof -
  define txn where "txn = MakeTransaction (replicate 16 1) 5 ''a'' [200] Timestamp_zero 500 1"
  let ?ops = "\<lparr>ResolveIntent = \<lambda>u st. Inr (True, st), ResolveIntentRange = \<lambda>u m st. Inr (1, None, st)\<rparr> :: unit storage_ops"
  let ?spans = "[\<lparr>Key = [200], EndKey = None\<rparr>, \<lparr>Key = [140], EndKey = Some [160]\<rparr>]"
  let ?d = "\<lparr>StartKey = [150], DescEndKey = [250]\<rparr>"
  have max: "LocalRangeMax = [1, 108]" by (simp add: LocalRangeMax_def key_consts PrefixEnd_def)
  have run: "\<exists>r x a e. resolveLocalLocks ?ops 7 ?d None False ?spans False txn Map.empty () = Inr (r, x, a, e)"
    by (simp add: resolveLocalLocks_def resolve_step_def IntersectSpan_def max nil_bytes_def desc_ContainsKey_def
        key_consts Addr_def IsLocal_def RangeDescriptor_ContainsKey_def RSpan_ContainsKey_def RangeDescriptor_RSpan_def Let_def)
  have "resumes_properly ?ops" by (simp add: resumes_properly_def)
  moreover have "list_all one_sided ?spans" by (simp add: one_sided_def Span_Valid_iff max nil_bytes_def)
  moreover have "StartKey ?d < DescEndKey ?d" by simp
  ultimately show ?thesis unfolding txn_def [symmetric]
    using run locks_are_not_lost [of ?ops ?spans ?d ?d None 7 False False txn Map.empty "()"] by fastforce
qed

text \<open>
  With an internal commit trigger the number of locks that were removed is computed against the wrong
  allowance: a poisoning rollback leaves an entry in the abort span though there was no lock to remove.
\<close>

lemma poisons_without_removing:
  assumes "Status txn = ABORTED"
  shows "\<exists>asp' entry. resolveLocalLocks ops rangeID desc None True [] True txn asp eng = Inr ([], [], asp', eng) \<and>
    asp' (ID txn) = Some entry"
  using assms by (simp add: resolveLocalLocks_def WriteAbortSpanOnResolve_def UpdateAbortSpan_entry)

end
