(* ===== verification/Ts_Cache.thy ===== *)
theory Ts_Cache
  imports Txn_Data
begin

text \<open>
  The timestamp cache (\<open>kv/kvserver/tscache\<close>): the value it keeps for a key, the policy that ratchets it, and the
  implementation that keeps intervals in a cache with a queue of eviction (\<open>tree_impl.go\<close>, \<open>util/cache/cache.go\<close>).
  Entries are addresses into a heap, since the code changes the keys and values of entries that the tree and the
  queue share. The interval tree is represented by the addresses it holds; the memory of an entry depends on
  the capacities of slices and is a parameter.
\<close>

section \<open>Values\<close>

record cacheValue =
  CacheTs :: Timestamp
  CacheTxn :: uuid

definition ratchetValue :: "cacheValue \<Rightarrow> cacheValue \<Rightarrow> cacheValue \<times> bool" where
  "ratchetValue old new =
     (if Timestamp_Less (CacheTs old) (CacheTs new) then (new, True)
      else if Timestamp_Less (CacheTs new) (CacheTs old) then (old, False)
      else
        let new = (if Synthetic (CacheTs new) \<noteq> Synthetic (CacheTs old)
                   then new\<lparr>CacheTs := (CacheTs new)\<lparr>Synthetic := False\<rparr>\<rparr> else new);
            new = (if CacheTxn new \<noteq> CacheTxn old then new\<lparr>CacheTxn := uuid_Nil\<rparr> else new)
        in (new, new \<noteq> old))"

section \<open>The interval cache\<close>

record cacheEntry =
  EStart :: bytes
  EEnd :: bytes
  EValue :: cacheValue

record treeImpl =
  heap :: "nat \<Rightarrow> cacheEntry"
  tree :: "nat list"
  ll :: "nat list"
  intervalAlloc :: nat
  lowWater :: Timestamp
  latest :: Timestamp
  cbytes :: uint64
  maxBytes :: uint64
  entrySize :: "bytes \<Rightarrow> bytes \<Rightarrow> uint64"

abbreviation size_of :: "treeImpl \<Rightarrow> nat \<Rightarrow> uint64" where
  "size_of tc i \<equiv> entrySize tc (EStart (heap tc i)) (EEnd (heap tc i))"

definition overlapsExclusive :: "bytes \<Rightarrow> bytes \<Rightarrow> cacheEntry \<Rightarrow> bool" where
  "overlapsExclusive s e x \<longleftrightarrow> bytes_compare (EStart x) e < 0 \<and> bytes_compare s (EEnd x) < 0"

definition GetOverlaps :: "bytes \<Rightarrow> bytes \<Rightarrow> treeImpl \<Rightarrow> nat list" where
  "GetOverlaps s e tc = sort_key (\<lambda>i. (EStart (heap tc i), i)) (filter (\<lambda>i. overlapsExclusive s e (heap tc i)) (tree tc))"

definition shouldEvict :: "cacheValue \<Rightarrow> treeImpl \<Rightarrow> bool \<times> treeImpl" where
  "shouldEvict v tc =
     (if cbytes tc \<le> maxBytes tc then (False, tc)
      else if Timestamp_Less (CacheTs v) (lowWater tc) then (True, tc)
      else
        let edge = Timestamp_Add (latest tc) (- 10000000000) 0
        in if Timestamp_LessEq (CacheTs v) edge then (True, tc\<lparr>lowWater := CacheTs v\<rparr>) else (False, tc))"

definition onEvicted :: "nat \<Rightarrow> treeImpl \<Rightarrow> go_error + treeImpl" where
  "onEvicted i tc =
     (if cbytes tc < size_of tc i then Inl (GoPanic ''bad reqSize'')
      else Inr (tc\<lparr>cbytes := cbytes tc - size_of tc i\<rparr>))"

text \<open>Removing an entry that is no longer in the queue or in the tree leaves them as they are.\<close>

definition removeElement :: "nat \<Rightarrow> treeImpl \<Rightarrow> go_error + treeImpl" where
  "removeElement i tc = onEvicted i (tc\<lparr>ll := remove1 i (ll tc), tree := remove1 i (tree tc)\<rparr>)"

definition evict :: "treeImpl \<Rightarrow> go_error + bool \<times> treeImpl" where
  "evict tc =
     (if tree tc = [] then Inr (False, tc)
      else if ll tc = [] then (if cbytes tc \<le> maxBytes tc then Inr (False, tc) else Inl (GoPanic ''nil entry''))
      else
        let i = last (ll tc); (b, tc) = shouldEvict (EValue (heap tc i)) tc
        in if b then res_bind (removeElement i tc) (\<lambda>tc. Inr (True, tc)) else Inr (False, tc))"

lemma evict_shrinks: "evict tc = Inr (True, tc') \<Longrightarrow> length (ll tc') < length (ll tc)"
  by (auto simp: evict_def shouldEvict_def removeElement_def onEvicted_def Let_def length_remove1
      split: if_splits)

function evict_loop :: "treeImpl \<Rightarrow> go_error + treeImpl" where
  "evict_loop tc = (case evict tc of Inl e \<Rightarrow> Inl e
     | Inr (b, tc') \<Rightarrow> if b then evict_loop tc' else Inr tc')"
  by pat_completeness auto
termination by (relation "measure (\<lambda>tc. length (ll tc))") (auto dest: evict_shrinks)

declare evict_loop.simps [simp del]

fun insertBefore :: "nat \<Rightarrow> nat \<Rightarrow> nat list \<Rightarrow> go_error + nat list" where
  "insertBefore e mark [] = Inl (GoPanic ''nil pointer'')"
| "insertBefore e mark (x # xs) =
     (if x = mark then Inr (e # x # xs) else res_bind (insertBefore e mark xs) (\<lambda>ys. Inr (x # ys)))"

definition moveToFront :: "nat \<Rightarrow> treeImpl \<Rightarrow> treeImpl" where
  "moveToFront i tc = tc\<lparr>ll := i # remove1 i (ll tc)\<rparr>"

text \<open>A new entry: its key must not be empty, and it joins the queue at the front or before a given entry.\<close>

definition baseCache_add :: "bytes \<Rightarrow> bytes \<Rightarrow> cacheValue \<Rightarrow> nat option \<Rightarrow> treeImpl \<Rightarrow> go_error + treeImpl" where
  "baseCache_add s e v after tc =
     (if bytes_compare s e \<ge> 0 then Inl (GoPanic ''start key greater than or equal to end key'')
      else
        let i = intervalAlloc tc + 1;
            tc = tc\<lparr>intervalAlloc := i, heap := (heap tc)(i := \<lparr>EStart = s, EEnd = e, EValue = v\<rparr>),
                    cbytes := cbytes tc + entrySize tc s e\<rparr>
        in res_bind (case after of None \<Rightarrow> Inr (i # ll tc) | Some a \<Rightarrow> insertBefore i a (ll tc)) (\<lambda>l.
          evict_loop (tc\<lparr>ll := l, tree := i # tree tc\<rparr>)))"

abbreviation addRange :: "bytes \<Rightarrow> bytes \<Rightarrow> cacheValue \<Rightarrow> treeImpl \<Rightarrow> go_error + treeImpl" where
  "addRange s e v tc \<equiv> baseCache_add s e v None tc"

abbreviation addEntryAfter :: "bytes \<Rightarrow> bytes \<Rightarrow> cacheValue \<Rightarrow> nat \<Rightarrow> treeImpl \<Rightarrow> go_error + treeImpl" where
  "addEntryAfter s e v a tc \<equiv> baseCache_add s e v (Some a) tc"

definition set_start :: "nat \<Rightarrow> bytes \<Rightarrow> treeImpl \<Rightarrow> treeImpl" where
  "set_start i s tc = tc\<lparr>heap := (heap tc)(i := (heap tc i)\<lparr>EStart := s\<rparr>)\<rparr>"

definition set_end :: "nat \<Rightarrow> bytes \<Rightarrow> treeImpl \<Rightarrow> treeImpl" where
  "set_end i e tc = tc\<lparr>heap := (heap tc)(i := (heap tc i)\<lparr>EEnd := e\<rparr>)\<rparr>"

definition set_value :: "nat \<Rightarrow> cacheValue \<Rightarrow> treeImpl \<Rightarrow> treeImpl" where
  "set_value i v tc = tc\<lparr>heap := (heap tc)(i := (heap tc i)\<lparr>EValue := v\<rparr>)\<rparr>"

definition disown :: "nat \<Rightarrow> treeImpl \<Rightarrow> treeImpl" where
  "disown i tc = set_value i ((EValue (heap tc i))\<lparr>CacheTxn := uuid_Nil\<rparr>) tc"

section \<open>Adding a timestamp\<close>

text \<open>
  One overlapping entry at a time: the range that is still to be added, the transaction that will own it, and the
  cache. A step returns from \<open>Add\<close> (\<open>Inl\<close>) or goes on with the next entry (\<open>Inr\<close>). There is one definition for each
  of the four ways the timestamps and the owners of the new and of the existing interval can compare.
\<close>

type_synonym add_state = "bytes \<times> bytes \<times> uuid \<times> treeImpl"

definition resized :: "nat \<Rightarrow> uint64 \<Rightarrow> treeImpl \<Rightarrow> treeImpl" where
  "resized i oldSize tc = tc\<lparr>cbytes := cbytes tc + (size_of tc i - oldSize)\<rparr>"

abbreviation go_on :: "nat \<Rightarrow> uint64 \<Rightarrow> bytes \<Rightarrow> bytes \<Rightarrow> uuid \<Rightarrow> treeImpl \<Rightarrow> go_error + treeImpl + add_state" where
  "go_on i oldSize rs re txn tc \<equiv> Inr (Inr (rs, re, txn, resized i oldSize tc))"

definition add_over_older :: "Timestamp \<Rightarrow> nat \<Rightarrow> add_state \<Rightarrow> go_error + treeImpl + add_state" where
  "add_over_older ts i st =
     (let (rs, re, txn, tc) = st; x = heap tc i; old = size_of tc i;
          sCmp = bytes_compare rs (EStart x); eCmp = bytes_compare re (EEnd x) in
      if sCmp = 0 \<and> eCmp = 0 then Inr (Inl (moveToFront i (set_value i \<lparr>CacheTs = ts, CacheTxn = txn\<rparr> tc)))
      else if sCmp \<le> 0 \<and> eCmp \<ge> 0 then res_bind (removeElement i tc) (\<lambda>tc. Inr (Inr (rs, re, txn, tc)))
      else if sCmp > 0 \<and> eCmp < 0 then
        res_bind (addEntryAfter re (EEnd x) (EValue x) i (set_end i rs tc)) (\<lambda>tc. go_on i old rs re txn tc)
      else if eCmp \<ge> 0 then go_on i old rs re txn (set_end i rs tc)
      else if sCmp \<le> 0 then go_on i old rs re txn (set_start i re tc)
      else Inl (GoPanic ''no overlap''))"

definition add_under_newer :: "Timestamp \<Rightarrow> nat \<Rightarrow> add_state \<Rightarrow> go_error + treeImpl + add_state" where
  "add_under_newer ts i st =
     (let (rs, re, txn, tc) = st; x = heap tc i; old = size_of tc i;
          sCmp = bytes_compare rs (EStart x); eCmp = bytes_compare re (EEnd x) in
      if sCmp \<ge> 0 \<and> eCmp \<le> 0 then Inr (Inl tc)
      else if sCmp < 0 \<and> eCmp > 0 then
        res_bind (addRange rs (EStart x) \<lparr>CacheTs = ts, CacheTxn = txn\<rparr> tc) (\<lambda>tc. go_on i old (EEnd x) re txn tc)
      else if eCmp > 0 then go_on i old (EEnd x) re txn tc
      else if sCmp < 0 then go_on i old rs (EStart x) txn tc
      else Inl (GoPanic ''no overlap''))"

definition add_same_owner :: "nat \<Rightarrow> add_state \<Rightarrow> go_error + treeImpl + add_state" where
  "add_same_owner i st =
     (let (rs, re, txn, tc) = st; x = heap tc i; old = size_of tc i;
          sCmp = bytes_compare rs (EStart x); eCmp = bytes_compare re (EEnd x) in
      if sCmp \<ge> 0 \<and> eCmp \<le> 0 then Inr (Inl tc)
      else if sCmp \<le> 0 \<and> eCmp \<ge> 0 then res_bind (removeElement i tc) (\<lambda>tc. Inr (Inr (rs, re, txn, tc)))
      else if eCmp \<ge> 0 then go_on i old rs re txn (set_end i rs tc)
      else if sCmp \<le> 0 then go_on i old rs re txn (set_start i re tc)
      else Inl (GoPanic ''no overlap''))"

definition add_other_owner :: "Timestamp \<Rightarrow> nat \<Rightarrow> add_state \<Rightarrow> go_error + treeImpl + add_state" where
  "add_other_owner ts i st =
     (let (rs, re, txn, tc) = st; x = heap tc i; old = size_of tc i;
          sCmp = bytes_compare rs (EStart x); eCmp = bytes_compare re (EEnd x) in
      if sCmp = 0 \<and> eCmp = 0 then Inr (Inl (resized i old (disown i tc)))
      else if sCmp = 0 \<and> eCmp > 0 then go_on i old (EEnd x) re txn (disown i tc)
      else if sCmp < 0 \<and> eCmp = 0 then go_on i old rs (EStart x) txn (disown i tc)
      else if sCmp < 0 \<and> eCmp > 0 then
        res_bind (addEntryAfter rs (EStart x) \<lparr>CacheTs = ts, CacheTxn = txn\<rparr> i (disown i tc)) (\<lambda>tc. go_on i old (EEnd x) re txn tc)
      else if sCmp > 0 \<and> eCmp < 0 then
        res_bind (addEntryAfter re (EEnd x) (EValue x) i (set_end i rs tc)) (\<lambda>tc. go_on i old rs re uuid_Nil tc)
      else if eCmp = 0 then go_on i old rs re uuid_Nil (set_end i rs tc)
      else if sCmp = 0 then go_on i old rs re uuid_Nil (set_start i re tc)
      else if eCmp > 0 then
        res_bind (addEntryAfter rs (EEnd x) \<lparr>CacheTs = CacheTs (EValue x), CacheTxn = uuid_Nil\<rparr> i (set_end i rs tc))
          (\<lambda>tc. go_on i old (EEnd x) re txn tc)
      else if sCmp < 0 then
        res_bind (addEntryAfter (EStart x) re \<lparr>CacheTs = CacheTs (EValue x), CacheTxn = uuid_Nil\<rparr> i (set_start i re tc))
          (\<lambda>tc. go_on i old rs (EStart x) txn tc)
      else Inl (GoPanic ''no overlap''))"

definition add_step :: "Timestamp \<Rightarrow> nat \<Rightarrow> add_state \<Rightarrow> go_error + treeImpl + add_state" where
  "add_step ts i st =
     (let (rs, re, txn, tc) = st; cv = EValue (heap tc i) in
      if Timestamp_Less (CacheTs cv) ts then add_over_older ts i st
      else if Timestamp_Less ts (CacheTs cv) then add_under_newer ts i st
      else if CacheTxn cv = txn then add_same_owner i st
      else add_other_owner ts i st)"

fun add_loop :: "Timestamp \<Rightarrow> nat list \<Rightarrow> add_state \<Rightarrow> go_error + treeImpl + add_state" where
  "add_loop ts [] st = Inr (Inr st)"
| "add_loop ts (i # is) st =
     res_bind (add_step ts i st) (\<lambda>r. case r of Inl tc \<Rightarrow> Inr (Inl tc) | Inr st \<Rightarrow> add_loop ts is st)"

text \<open>The key range of a request: an empty end key stands for the start key alone.\<close>

definition end_of :: "bytes \<Rightarrow> bytes \<Rightarrow> bytes" where
  "end_of start ende = (if length ende = 0 then Key_Next start else ende)"

definition treeImpl_Add :: "bytes \<Rightarrow> bytes \<Rightarrow> Timestamp \<Rightarrow> uuid \<Rightarrow> treeImpl \<Rightarrow> go_error + treeImpl" where
  "treeImpl_Add start ende ts txnID tc =
     (let ende = end_of start ende; tc = tc\<lparr>latest := ts_forward (latest tc) ts\<rparr> in
      if Timestamp_Less (lowWater tc) ts then
        res_bind (add_loop ts (GetOverlaps start ende tc) (start, ende, txnID, tc)) (\<lambda>r.
          case r of Inl tc \<Rightarrow> Inr tc
          | Inr (rs, re, txn, tc) \<Rightarrow> addRange rs re \<lparr>CacheTs = ts, CacheTxn = txn\<rparr> tc)
      else Inr tc)"

definition max_step :: "cacheValue \<Rightarrow> cacheValue \<Rightarrow> cacheValue" where
  "max_step m ce =
     (if Timestamp_Less (CacheTs m) (CacheTs ce) then ce
      else if CacheTs m = CacheTs ce \<and> CacheTxn m \<noteq> CacheTxn ce then m\<lparr>CacheTxn := uuid_Nil\<rparr>
      else m)"

definition getMax :: "bytes \<Rightarrow> bytes \<Rightarrow> treeImpl \<Rightarrow> cacheValue" where
  "getMax start ende tc =
     fold (\<lambda>i m. max_step m (EValue (heap tc i))) (GetOverlaps start (end_of start ende) tc)
       \<lparr>CacheTs = lowWater tc, CacheTxn = uuid_Nil\<rparr>"

fun clear_loop :: "nat list \<Rightarrow> treeImpl \<Rightarrow> go_error + treeImpl" where
  "clear_loop [] tc = Inr tc"
| "clear_loop (i # is) tc = res_bind (onEvicted i tc) (clear_loop is)"

definition treeImpl_clear :: "Timestamp \<Rightarrow> treeImpl \<Rightarrow> go_error + treeImpl" where
  "treeImpl_clear low tc =
     res_bind (clear_loop (rev (ll tc)) tc) (\<lambda>tc. Inr (tc\<lparr>tree := [], ll := [], lowWater := low, latest := low\<rparr>))"

section \<open>What a cache says of a key\<close>

text \<open>
  A value up to the synthetic flag of its timestamp, and the ratcheting of values: the later timestamp wins, and a
  timestamp that two transactions share belongs to none.
\<close>

type_synonym mark = "(int \<times> int) \<times> uuid"

definition vkey :: "cacheValue \<Rightarrow> mark" where
  "vkey v = (ts_key (CacheTs v), CacheTxn v)"

definition ratchet :: "mark \<Rightarrow> mark \<Rightarrow> mark" where
  "ratchet a b = (if fst a < fst b then b else if fst b < fst a then a else if snd a = snd b then a else (fst a, uuid_Nil))"

text \<open>Ratcheting is the least upper bound of two values: both orders and groupings of reads leave the same.\<close>

lemma ratchet_cases:
  "fst a < fst b \<Longrightarrow> ratchet a b = b" "fst b < fst a \<Longrightarrow> ratchet a b = a"
  "fst a = fst b \<Longrightarrow> ratchet a b = (fst b, if snd a = snd b then snd b else uuid_Nil)"
  by (auto simp: ratchet_def intro: prod_eqI)

lemma ratchet_assoc: "ratchet (ratchet a b) c = ratchet a (ratchet b c)"
proof (cases "fst a" "fst b" rule: linorder_cases)
  case less
  then show ?thesis
    by (cases "fst b" "fst c" rule: linorder_cases) (auto simp: ratchet_cases dest: less_trans)
next
  case equal
  then show ?thesis
    by (cases "fst b" "fst c" rule: linorder_cases) (auto simp: ratchet_cases)
next
  case greater
  then show ?thesis
    by (cases "fst b" "fst c" rule: linorder_cases; cases "fst a" "fst c" rule: linorder_cases)
      (auto simp: ratchet_cases dest: less_trans)
qed

interpretation ratchet: semilattice ratchet
proof (unfold_locales, rule ratchet_assoc)
  show "ratchet a b = ratchet b a" for a b
    by (cases "fst a" "fst b" rule: linorder_cases) (auto simp: ratchet_cases)
qed (simp add: ratchet_cases)

definition beneath :: "mark \<Rightarrow> mark \<Rightarrow> bool" where
  "beneath a b \<longleftrightarrow> ratchet a b = b"

lemma beneath_iff: "beneath a b \<longleftrightarrow> fst a < fst b \<or> fst a = fst b \<and> (snd b = snd a \<or> snd b = uuid_Nil)"
  by (cases a; cases b) (auto simp: beneath_def ratchet_def)

lemma beneath_trans [trans]: "beneath a b \<Longrightarrow> beneath b c \<Longrightarrow> beneath a c"
  by (metis beneath_def ratchet.assoc)

lemma beneath_refl [simp]: "beneath a a"
  by (simp add: beneath_def)

lemma beneath_ratchet [simp]: "beneath a (ratchet a b)" "beneath b (ratchet a b)"
  by (simp_all add: beneath_def ratchet.commute ratchet.left_commute)

lemma ratchet_beneath: "beneath (ratchet a b) c \<longleftrightarrow> beneath a c \<and> beneath b c"
  by (metis beneath_def beneath_ratchet beneath_trans ratchet.assoc)

lemma ratchetValue_mark: "vkey (fst (ratchetValue a b)) = ratchet (vkey a) (vkey b)"
  by (auto simp: ratchetValue_def ratchet_def vkey_def Let_def ts_order)

definition covers :: "cacheEntry \<Rightarrow> bytes \<Rightarrow> bool" where
  "covers x k \<longleftrightarrow> EStart x \<le> k \<and> k < EEnd x"

definition low_mark :: "treeImpl \<Rightarrow> mark" where
  "low_mark tc = (ts_key (lowWater tc), uuid_Nil)"

definition mark_at :: "treeImpl \<Rightarrow> bytes \<Rightarrow> mark" where
  "mark_at tc k = (case find (\<lambda>i. covers (heap tc i) k) (tree tc) of None \<Rightarrow> low_mark tc
     | Some i \<Rightarrow> ratchet (low_mark tc) (vkey (EValue (heap tc i))))"

definition apart :: "cacheEntry \<Rightarrow> cacheEntry \<Rightarrow> bool" where
  "apart x y \<longleftrightarrow> EEnd x \<le> EStart y \<or> EEnd y \<le> EStart x"

definition tc_wf :: "treeImpl \<Rightarrow> bool" where
  "tc_wf tc \<longleftrightarrow> distinct (tree tc) \<and> distinct (ll tc) \<and> set (tree tc) = set (ll tc) \<and>
     (\<forall>i \<in> set (tree tc). i \<le> intervalAlloc tc \<and> EStart (heap tc i) < EEnd (heap tc i)) \<and>
     (\<forall>i \<in> set (tree tc). \<forall>j \<in> set (tree tc). i \<noteq> j \<longrightarrow> apart (heap tc i) (heap tc j))"

text \<open>The memory that is accounted for beyond that of the entries.\<close>

definition owed :: "treeImpl \<Rightarrow> uint64" where
  "owed tc = cbytes tc - sum_list (map (size_of tc) (tree tc))"

lemma apart_covers: "apart x y \<Longrightarrow> covers x k \<Longrightarrow> covers y k \<Longrightarrow> False"
  by (auto simp: apart_def covers_def)

lemma apart_sym: "apart x y \<longleftrightarrow> apart y x"
  by (auto simp: apart_def)

lemma mark_at_free: "(\<And>i. i \<in> set (tree tc) \<Longrightarrow> \<not> covers (heap tc i) k) \<Longrightarrow> mark_at tc k = low_mark tc"
  by (simp add: mark_at_def find_None_iff [THEN iffD2])

lemma wf_fresh: "tc_wf tc \<Longrightarrow> intervalAlloc tc + 1 \<notin> set (tree tc)"
  by (fastforce simp: tc_wf_def)

lemma mark_at_covered:
  assumes "tc_wf tc" "i \<in> set (tree tc)" "covers (heap tc i) k"
  shows "mark_at tc k = ratchet (low_mark tc) (vkey (EValue (heap tc i)))"
proof -
  obtain j where j: "find (\<lambda>i. covers (heap tc i) k) (tree tc) = Some j"
    using assms(2,3) by (cases "find (\<lambda>i. covers (heap tc i) k) (tree tc)") (auto simp: find_None_iff)
  then have "j \<in> set (tree tc)" "covers (heap tc j) k" by (auto simp: find_Some_iff)
  moreover have "\<forall>j \<in> set (tree tc). i \<noteq> j \<longrightarrow> apart (heap tc i) (heap tc j)"
    using assms(1,2) by (simp add: tc_wf_def)
  ultimately have "j = i" using assms(3) apart_covers [of "heap tc i" "heap tc j" k] by (cases "j = i") auto
  then show ?thesis using j by (simp add: mark_at_def)
qed

lemma mark_at_cases:
  assumes "tc_wf tc"
  obtains (free) "\<And>i. i \<in> set (tree tc) \<Longrightarrow> \<not> covers (heap tc i) k" "mark_at tc k = low_mark tc"
  | (covered) i where "i \<in> set (tree tc)" "covers (heap tc i) k" "mark_at tc k = ratchet (low_mark tc) (vkey (EValue (heap tc i)))"
  using mark_at_covered [OF assms] mark_at_free by blast

text \<open>Changing one entry in place: its new interval is within the old one.\<close>

definition put_entry :: "nat \<Rightarrow> cacheEntry \<Rightarrow> treeImpl \<Rightarrow> treeImpl" where
  "put_entry i x tc = tc\<lparr>heap := (heap tc)(i := x)\<rparr>"

lemma put_entry_wf:
  assumes "tc_wf tc" "i \<in> set (tree tc)" "EStart (heap tc i) \<le> EStart x" "EEnd x \<le> EEnd (heap tc i)" "EStart x < EEnd x"
  shows "tc_wf (put_entry i x tc)"
  using assms by (fastforce simp: tc_wf_def put_entry_def apart_def)

lemma put_entry_mark:
  assumes "tc_wf tc" "i \<in> set (tree tc)" "EStart (heap tc i) \<le> EStart x" "EEnd x \<le> EEnd (heap tc i)" "EStart x < EEnd x"
  shows "mark_at (put_entry i x tc) k = (if covers x k then ratchet (low_mark tc) (vkey (EValue x))
    else if covers (heap tc i) k then low_mark tc else mark_at tc k)"
proof -
  let ?tc = "put_entry i x tc"
  have wf: "tc_wf ?tc" by (rule put_entry_wf [OF assms])
  have low: "low_mark ?tc = low_mark tc" "tree ?tc = tree tc" "\<And>j. heap ?tc j = (if j = i then x else heap tc j)"
    by (simp_all add: put_entry_def low_mark_def)
  have sub: "covers x k \<Longrightarrow> covers (heap tc i) k" using assms(3,4) by (auto simp: covers_def)
  show ?thesis
  proof (cases "covers (heap tc i) k")
    case True
    have "\<not> covers (heap tc j) k" if "j \<in> set (tree tc)" "j \<noteq> i" for j
      using assms(1,2) that True apart_covers [of "heap tc i" "heap tc j" k] by (auto simp: tc_wf_def)
    then show ?thesis using mark_at_covered [OF wf, of i k] mark_at_free [of ?tc k] assms(2) low True by auto
  next
    case False
    from assms(1) show ?thesis
    proof (cases rule: mark_at_cases [where k = k])
      case free
      then show ?thesis using mark_at_free [of ?tc k] low sub False by auto
    next
      case (covered j)
      then show ?thesis using mark_at_covered [OF wf, of j k] low sub False by auto
    qed
  qed
qed

lemma sum_list_change:
  fixes f g :: "'a \<Rightarrow> uint64"
  assumes "distinct xs" "i \<in> set xs" "\<And>j. j \<noteq> i \<Longrightarrow> g j = f j"
  shows "sum_list (map g xs) = sum_list (map f xs) - f i + g i"
  using assms by (simp add: sum_list_distinct_conv_sum_set sum.remove [of _ i])

lemma put_entry_owed:
  assumes "tc_wf tc" "i \<in> set (tree tc)"
  shows "owed (put_entry i x tc) = owed tc + size_of tc i - entrySize tc (EStart x) (EEnd x)"
proof -
  have "sum_list (map (size_of (put_entry i x tc)) (tree tc)) =
      sum_list (map (size_of tc) (tree tc)) - size_of tc i + size_of (put_entry i x tc) i"
    using assms by (intro sum_list_change) (simp_all add: tc_wf_def put_entry_def)
  then show ?thesis by (simp add: owed_def put_entry_def)
qed

lemma in_place:
  "set_start i s tc = put_entry i ((heap tc i)\<lparr>EStart := s\<rparr>) tc"
  "set_end i e tc = put_entry i ((heap tc i)\<lparr>EEnd := e\<rparr>) tc"
  "set_value i v tc = put_entry i ((heap tc i)\<lparr>EValue := v\<rparr>) tc"
  "disown i tc = put_entry i ((heap tc i)\<lparr>EValue := (EValue (heap tc i))\<lparr>CacheTxn := uuid_Nil\<rparr>\<rparr>) tc"
  by (simp_all add: set_start_def set_end_def set_value_def disown_def put_entry_def)

text \<open>Removing an entry.\<close>

definition drop_entry :: "nat \<Rightarrow> treeImpl \<Rightarrow> treeImpl" where
  "drop_entry i tc = tc\<lparr>ll := remove1 i (ll tc), tree := remove1 i (tree tc), cbytes := cbytes tc - size_of tc i\<rparr>"

lemma drop_entry_wf: "tc_wf tc \<Longrightarrow> tc_wf (drop_entry i tc)"
  by (auto simp: tc_wf_def drop_entry_def dest: notin_set_remove1 in_set_remove1)

lemma drop_entry_mark:
  assumes "tc_wf tc" "i \<in> set (tree tc)"
  shows "mark_at (drop_entry i tc) k = (if covers (heap tc i) k then low_mark tc else mark_at tc k)"
proof -
  let ?tc = "drop_entry i tc"
  have wf: "tc_wf ?tc" using drop_entry_wf assms(1) .
  have low: "low_mark ?tc = low_mark tc" "heap ?tc = heap tc" by (simp_all add: drop_entry_def low_mark_def)
  have tr: "set (tree ?tc) = set (tree tc) - {i}" using assms by (simp add: drop_entry_def tc_wf_def)
  show ?thesis
  proof (cases "covers (heap tc i) k")
    case True
    have "\<not> covers (heap tc j) k" if "j \<in> set (tree tc)" "j \<noteq> i" for j
      using assms that True apart_covers [of "heap tc i" "heap tc j" k] by (auto simp: tc_wf_def)
    then show ?thesis using mark_at_free [of ?tc k] low tr True by auto
  next
    case False
    from assms(1) show ?thesis
    proof (cases rule: mark_at_cases [where k = k])
      case free
      then show ?thesis using mark_at_free [of ?tc k] low tr False by auto
    next
      case (covered j)
      then have "j \<in> set (tree ?tc)" using tr False by auto
      then show ?thesis using mark_at_covered [OF wf, of j k] covered low False by simp
    qed
  qed
qed

lemma drop_entry_owed: "tc_wf tc \<Longrightarrow> i \<in> set (tree tc) \<Longrightarrow> owed (drop_entry i tc) = owed tc"
  by (simp add: owed_def drop_entry_def sum_list_map_remove1 [of i "tree tc" "size_of tc"])

text \<open>A new entry in a part of the key space that no entry covers.\<close>

definition new_entry :: "cacheEntry \<Rightarrow> nat list \<Rightarrow> treeImpl \<Rightarrow> treeImpl" where
  "new_entry x l tc = (let i = intervalAlloc tc + 1 in
     tc\<lparr>intervalAlloc := i, heap := (heap tc)(i := x), cbytes := cbytes tc + entrySize tc (EStart x) (EEnd x), ll := l, tree := i # tree tc\<rparr>)"

lemma new_entry_wf:
  assumes "tc_wf tc" "EStart x < EEnd x" "\<And>i. i \<in> set (tree tc) \<Longrightarrow> apart x (heap tc i)"
    and "set l = insert (intervalAlloc tc + 1) (set (ll tc))" "distinct l"
  shows "tc_wf (new_entry x l tc)"
  using assms by (fastforce simp: tc_wf_def new_entry_def Let_def apart_sym)

lemma new_entry_mark:
  assumes "tc_wf tc" "EStart x < EEnd x" "\<And>i. i \<in> set (tree tc) \<Longrightarrow> apart x (heap tc i)"
    and "set l = insert (intervalAlloc tc + 1) (set (ll tc))" "distinct l"
  shows "mark_at (new_entry x l tc) k = (if covers x k then ratchet (low_mark tc) (vkey (EValue x)) else mark_at tc k)"
proof -
  let ?tc = "new_entry x l tc" and ?i = "intervalAlloc tc + 1"
  have wf: "tc_wf ?tc" by (rule new_entry_wf [OF assms])
  have new: "?i \<notin> set (tree tc)" using wf_fresh [OF assms(1)] .
  have low: "low_mark ?tc = low_mark tc" "tree ?tc = ?i # tree tc" "heap ?tc ?i = x" "\<And>j. j \<in> set (tree tc) \<Longrightarrow> heap ?tc j = heap tc j"
    using new by (auto simp: new_entry_def low_mark_def Let_def)
  from assms(1) show ?thesis
  proof (cases rule: mark_at_cases [where k = k])
    case free
    then have "mark_at ?tc k = low_mark tc" if "\<not> covers x k"
      using that low by (subst mark_at_free) auto
    then show ?thesis using mark_at_covered [OF wf, of ?i k] free low by auto
  next
    case (covered j)
    then have "\<not> covers x k" using assms(3) apart_covers by blast
    then show ?thesis using mark_at_covered [OF wf, of j k] covered low by auto
  qed
qed

lemma new_entry_owed: "tc_wf tc \<Longrightarrow> owed (new_entry x l tc) = owed tc"
proof -
  assume "tc_wf tc"
  then have "map (size_of (new_entry x l tc)) (tree tc) = map (size_of tc) (tree tc)"
    using wf_fresh [of tc] by (auto simp: new_entry_def Let_def)
  then have "sum_list (map (size_of (new_entry x l tc)) (tree tc)) = sum_list (map (size_of tc) (tree tc))" by metis
  then show ?thesis by (simp add: owed_def) (simp add: new_entry_def Let_def)
qed

section \<open>Adding without evictions\<close>

text \<open>
  While every entry is within the retention window nothing is evicted. \<open>room\<close> bounds the number of entries so that
  the accounting of memory does not wrap around.
\<close>

definition stale :: "treeImpl \<Rightarrow> Timestamp \<Rightarrow> bool" where
  "stale tc ts \<longleftrightarrow> Timestamp_Less ts (lowWater tc) \<or> Timestamp_LessEq ts (Timestamp_Add (latest tc) (- 10000000000) 0)"

definition all_fresh :: "treeImpl \<Rightarrow> bool" where
  "all_fresh tc \<longleftrightarrow> (\<forall>i \<in> set (tree tc). \<not> stale tc (CacheTs (EValue (heap tc i))))"

definition room :: "treeImpl \<Rightarrow> nat \<Rightarrow> bool" where
  "room tc n \<longleftrightarrow> (\<exists>b. (\<forall>s e. unat (entrySize tc s e) \<le> b) \<and> n * b < 2 ^ 64)"

definition same_frame :: "treeImpl \<Rightarrow> treeImpl \<Rightarrow> bool" where
  "same_frame tc tc' \<longleftrightarrow> lowWater tc' = lowWater tc \<and> latest tc' = latest tc \<and> maxBytes tc' = maxBytes tc \<and> entrySize tc' = entrySize tc"

lemma same_frame_refl [simp]: "same_frame tc tc"
  by (simp add: same_frame_def)

lemma same_frame_trans: "same_frame a b \<Longrightarrow> same_frame b c \<Longrightarrow> same_frame a c"
  by (simp add: same_frame_def)

lemma same_frame_simps:
  assumes "same_frame tc tc'"
  shows "low_mark tc' = low_mark tc" "stale tc' = stale tc" "room tc' = room tc"
  using assms by (simp_all add: same_frame_def low_mark_def stale_def room_def fun_eq_iff)

lemma frames [simp]:
  "same_frame tc (put_entry i x tc')  \<longleftrightarrow> same_frame tc tc'" "same_frame tc (drop_entry i tc') \<longleftrightarrow> same_frame tc tc'"
  "same_frame tc (new_entry x l tc') \<longleftrightarrow> same_frame tc tc'" "same_frame tc (resized i n tc') \<longleftrightarrow> same_frame tc tc'"
  "same_frame tc (moveToFront i tc') \<longleftrightarrow> same_frame tc tc'"
  by (simp_all add: same_frame_def put_entry_def drop_entry_def new_entry_def resized_def moveToFront_def Let_def)

lemma evict_loop_fresh:
  assumes "tc_wf tc" "all_fresh tc"
  shows "evict_loop tc = Inr tc"
proof -
  have "evict tc = Inr (False, tc)"
  proof (cases "ll tc")
    case Nil
    then show ?thesis using assms(1) by (simp add: evict_def tc_wf_def)
  next
    case (Cons i ys)
    then have "last (ll tc) \<in> set (tree tc)" using assms(1) by (auto simp: tc_wf_def)
    then show ?thesis using assms(2) Cons
      by (auto simp: evict_def shouldEvict_def all_fresh_def stale_def Let_def)
  qed
  then show ?thesis by (simp add: evict_loop.simps)
qed

lemma new_entry_fresh:
  "tc_wf tc \<Longrightarrow> all_fresh tc \<Longrightarrow> \<not> stale tc (CacheTs (EValue x)) \<Longrightarrow> all_fresh (new_entry x l tc)"
  using wf_fresh [of tc] by (auto simp: all_fresh_def new_entry_def stale_def Let_def)

lemma insertBefore_Inr:
  assumes "a \<in> set xs" "e \<notin> set xs" "distinct xs"
  shows "\<exists>ys. insertBefore e a xs = Inr ys \<and> set ys = insert e (set xs) \<and> distinct ys"
  using assms
proof (induction xs)
  case (Cons x xs)
  show ?case
  proof (cases "x = a")
    case False
    then obtain ys where "insertBefore e a xs = Inr ys" "set ys = insert e (set xs)" "distinct ys" using Cons by auto
    then show ?thesis using Cons.prems False by auto
  qed (use Cons.prems in auto)
qed simp

lemma baseCache_add_fresh:
  assumes "tc_wf tc" "all_fresh tc" "\<not> stale tc (CacheTs v)" "s < e"
    and "\<And>i. i \<in> set (tree tc) \<Longrightarrow> apart \<lparr>EStart = s, EEnd = e, EValue = v\<rparr> (heap tc i)"
    and "case after of None \<Rightarrow> True | Some a \<Rightarrow> a \<in> set (tree tc)"
  obtains l where "baseCache_add s e v after tc = Inr (new_entry \<lparr>EStart = s, EEnd = e, EValue = v\<rparr> l tc)"
    "set l = insert (intervalAlloc tc + 1) (set (ll tc))" "distinct l"
proof -
  let ?i = "intervalAlloc tc + 1" and ?x = "\<lparr>EStart = s, EEnd = e, EValue = v\<rparr>"
  have ll: "?i \<notin> set (ll tc)" "distinct (ll tc)" "set (tree tc) = set (ll tc)"
    using wf_fresh [OF assms(1)] assms(1) by (auto simp: tc_wf_def)
  obtain l where l: "(case after of None \<Rightarrow> Inr (?i # ll tc) | Some a \<Rightarrow> insertBefore ?i a (ll tc)) = Inr l"
      "set l = insert ?i (set (ll tc))" "distinct l"
    using insertBefore_Inr [of _ "ll tc" ?i] ll assms(6) by (cases after) fastforce+
  have "tc_wf (new_entry ?x l tc)" using new_entry_wf [of tc ?x l] assms(1,4,5) l(2,3) by simp
  moreover have "all_fresh (new_entry ?x l tc)"
    using new_entry_fresh assms(1-3) by simp
  ultimately have "evict_loop (new_entry ?x l tc) = Inr (new_entry ?x l tc)" by (rule evict_loop_fresh)
  then have "baseCache_add s e v after tc = Inr (new_entry ?x l tc)"
    using l(1) assms(4)
    by (cases after) (simp_all add: baseCache_add_def new_entry_def Let_def three_way_def not_le del: res_bind_Inr)
  then show ?thesis using that l by blast
qed

lemma removeElement_room:
  assumes "tc_wf tc" "i \<in> set (tree tc)" "owed tc = 0" "room tc (length (tree tc))"
  shows "removeElement i tc = Inr (drop_entry i tc)"
proof -
  obtain b where b: "\<And>s e. unat (entrySize tc s e) \<le> b" "length (tree tc) * b < 2 ^ 64"
    using assms(4) by (auto simp: room_def)
  have d: "distinct (tree tc)" using assms(1) by (simp add: tc_wf_def)
  define n where "n = (\<Sum>j \<in> set (tree tc). unat (size_of tc j))"
  have "n \<le> card (set (tree tc)) * b" unfolding n_def using b(1) by (rule sum_bounded_above [of _ _ b, simplified])
  then have n: "n < 2 ^ 64" using b(2) d by (simp add: distinct_card)
  have "cbytes tc = (\<Sum>j \<in> set (tree tc). size_of tc j)"
    using assms(3) d by (simp add: owed_def sum_list_distinct_conv_sum_set)
  also have "\<dots> = of_nat n" by (simp add: n_def)
  finally have "unat (cbytes tc) = n" using n by (simp add: unat_of_nat_small)
  moreover have "unat (size_of tc i) \<le> n" unfolding n_def using assms(2) by (intro member_le_sum) simp_all
  ultimately have "\<not> cbytes tc < size_of tc i" by (simp add: word_less_nat_alt)
  then show ?thesis by (simp add: removeElement_def onEvicted_def drop_entry_def)
qed

lemma resized_simps [simp]:
  "tree (resized i n tc) = tree tc" "heap (resized i n tc) = heap tc" "tc_wf (resized i n tc) = tc_wf tc"
  "all_fresh (resized i n tc) = all_fresh tc" "mark_at (resized i n tc) = mark_at tc"
  "owed (resized i n tc) = owed tc + (size_of tc i - n)"
  by (simp_all add: resized_def tc_wf_def all_fresh_def stale_def mark_at_def low_mark_def owed_def fun_eq_iff cong: option.case_cong)

lemma put_entry_simps [simp]:
  "tree (put_entry i x tc) = tree tc" "heap (put_entry i x tc) = (heap tc)(i := x)" "ll (put_entry i x tc) = ll tc"
  "entrySize (put_entry i x tc) = entrySize tc" "low_mark (put_entry i x tc) = low_mark tc" "stale (put_entry i x tc) = stale tc"
  "intervalAlloc (put_entry i x tc) = intervalAlloc tc"
  by (simp_all add: put_entry_def low_mark_def stale_def fun_eq_iff)

text \<open>
  The state of the loop of \<open>Add\<close>: adding what is left of the range to the cache as it is would give the cache that is
  wanted; the entries still to be visited overlap what is left, in order, and no other entry does.
\<close>

definition pending :: "Timestamp \<Rightarrow> add_state \<Rightarrow> bytes \<Rightarrow> mark" where
  "pending ts st k = (case st of (rs, re, txn, tc) \<Rightarrow>
     if rs \<le> k \<and> k < re then ratchet (mark_at tc k) (ts_key ts, txn) else mark_at tc k)"

definition settled :: "treeImpl \<Rightarrow> treeImpl \<Rightarrow> bool" where
  "settled tc0 tc \<longleftrightarrow> tc_wf tc \<and> owed tc = 0 \<and> same_frame tc0 tc \<and> all_fresh tc"

definition adding :: "treeImpl \<Rightarrow> Timestamp \<Rightarrow> (bytes \<Rightarrow> mark) \<Rightarrow> nat list \<Rightarrow> add_state \<Rightarrow> bool" where
  "adding tc0 ts goal ids st \<longleftrightarrow> (case st of (rs, re, txn, tc) \<Rightarrow>
     settled tc0 tc \<and> rs < re \<and> room tc0 (length (tree tc) + length ids + 1) \<and> pending ts st = goal \<and>
     set ids \<subseteq> set (tree tc) \<and> sorted_wrt (\<lambda>i j. EEnd (heap tc i) \<le> EStart (heap tc j)) ids \<and>
     (\<forall>i \<in> set ids. EStart (heap tc i) < re \<and> rs < EEnd (heap tc i)) \<and>
     (\<forall>i \<in> set (tree tc) - set ids. EEnd (heap tc i) \<le> rs \<or> re \<le> EStart (heap tc i)))"

definition added :: "treeImpl \<Rightarrow> Timestamp \<Rightarrow> (bytes \<Rightarrow> mark) \<Rightarrow> nat list \<Rightarrow> treeImpl + add_state \<Rightarrow> bool" where
  "added tc0 ts goal ids r \<longleftrightarrow> (case r of Inl tc \<Rightarrow> settled tc0 tc \<and> mark_at tc = goal | Inr st \<Rightarrow> adding tc0 ts goal ids st)"

lemma added_simps [simp]:
  "added tc0 ts goal ids (Inl tc) \<longleftrightarrow> settled tc0 tc \<and> mark_at tc = goal"
  "added tc0 ts goal ids (Inr st) \<longleftrightarrow> adding tc0 ts goal ids st"
  by (simp_all add: added_def)

lemma room_mono: "room tc n \<Longrightarrow> m \<le> n \<Longrightarrow> room tc m"
  by (auto simp: room_def dest: mult_le_mono1 [of m n] intro: le_less_trans)

text \<open>The entry that is visited next, and what remains when it no longer overlaps the range.\<close>

lemma adding_head:
  assumes "adding tc0 ts goal (i # ids) (rs, re, txn, tc)"
  shows "tc_wf tc" "owed tc = 0" "same_frame tc0 tc" "all_fresh tc" "rs < re" "i \<in> set (tree tc)"
    "EStart (heap tc i) < re" "rs < EEnd (heap tc i)" "EStart (heap tc i) < EEnd (heap tc i)"
    "room tc0 (length (tree tc) + length ids + 2)" "i \<notin> set ids"
    "\<And>j. j \<in> set ids \<Longrightarrow> EEnd (heap tc i) \<le> EStart (heap tc j) \<and> EStart (heap tc j) < EEnd (heap tc j)"
    "re \<le> EEnd (heap tc i) \<Longrightarrow> ids = []"
proof -
  note a = assms [unfolded adding_def settled_def prod.case]
  show "tc_wf tc" "owed tc = 0" "same_frame tc0 tc" "all_fresh tc" "rs < re" and i: "i \<in> set (tree tc)"
    "EStart (heap tc i) < re" "rs < EEnd (heap tc i)" "room tc0 (length (tree tc) + length ids + 2)" using a by auto
  show ne: "EStart (heap tc i) < EEnd (heap tc i)" using a by (auto simp: tc_wf_def)
  show j: "EEnd (heap tc i) \<le> EStart (heap tc j) \<and> EStart (heap tc j) < EEnd (heap tc j)" if "j \<in> set ids" for j
    using a that by (auto simp: tc_wf_def)
  then show "i \<notin> set ids" using ne by fastforce
  show "ids = []" if "re \<le> EEnd (heap tc i)"
  proof (rule ccontr)
    assume "ids \<noteq> []"
    then obtain j where "j \<in> set ids" by (cases ids) auto
    then show False using j [of j] a that by fastforce
  qed
qed

lemma adding_next:
  assumes "adding tc0 ts goal (i # ids) (rs, re, txn, tc)"
    and "settled tc0 tc'" "length (tree tc') \<le> length (tree tc) + 1" "set ids \<subseteq> set (tree tc')"
    and "\<And>j. j \<in> set ids \<Longrightarrow> heap tc' j = heap tc j"
    and "rs' < re'" "rs' = rs \<or> rs' = EEnd (heap tc i)" "re' = re \<or> re \<le> EEnd (heap tc i)"
    and "\<And>j. j \<in> set (tree tc') \<Longrightarrow> j \<notin> set ids \<Longrightarrow> EEnd (heap tc' j) \<le> rs' \<or> re' \<le> EStart (heap tc' j)"
    and "\<And>k. pending ts (rs', re', txn', tc') k = pending ts (rs, re, txn, tc) k"
  shows "adding tc0 ts goal ids (rs', re', txn', tc')"
proof -
  note h = adding_head [OF assms(1)]
  note a = assms(1) [unfolded adding_def prod.case]
  have "room tc0 (length (tree tc') + length ids + 1)" using h(10) assms(3) by (auto intro: room_mono)
  moreover have "sorted_wrt (\<lambda>i j. EEnd (heap tc' i) \<le> EStart (heap tc' j)) ids"
    using a assms(5) by (auto intro: sorted_wrt_mono_rel [rotated])
  moreover have "EStart (heap tc' j) < re' \<and> rs' < EEnd (heap tc' j)" if j: "j \<in> set ids" for j
  proof -
    have "re' = re" using h(13) j assms(8) by fastforce
    moreover have "EStart (heap tc j) < re \<and> rs < EEnd (heap tc j)" using a j by auto
    ultimately show ?thesis using assms(5) [OF j] assms(7) h(12) [OF j] by auto
  qed
  moreover have "pending ts (rs', re', txn', tc') = goal" using a assms(10) by auto
  ultimately show ?thesis using assms(2,4,6,9) by (auto simp: adding_def)
qed

text \<open>Entries other than the visited one, and parts of the key space that stay free of them.\<close>

lemma adding_others:
  assumes "adding tc0 ts goal (i # ids) (rs, re, txn, tc)" "j \<in> set (tree tc)" "j \<noteq> i"
  shows "EEnd (heap tc j) \<le> EStart (heap tc i) \<or> EEnd (heap tc i) \<le> EStart (heap tc j)"
    and "j \<notin> set ids \<Longrightarrow> EEnd (heap tc j) \<le> rs \<or> re \<le> EStart (heap tc j)"
    and "EEnd (heap tc j) \<le> rs \<or> re \<le> EStart (heap tc j) \<or> EEnd (heap tc i) \<le> EStart (heap tc j)"
proof -
  note a = assms(1) [unfolded adding_def settled_def prod.case]
  show "EEnd (heap tc j) \<le> EStart (heap tc i) \<or> EEnd (heap tc i) \<le> EStart (heap tc j)"
    using a assms(2,3) by (auto simp: tc_wf_def apart_def)
  show o: "EEnd (heap tc j) \<le> rs \<or> re \<le> EStart (heap tc j)" if "j \<notin> set ids" using a assms(2,3) that by auto
  show "EEnd (heap tc j) \<le> rs \<or> re \<le> EStart (heap tc j) \<or> EEnd (heap tc i) \<le> EStart (heap tc j)"
    using o adding_head(12) [OF assms(1), of j] by blast
qed

lemma settled_put:
  assumes "settled tc0 tc" "i \<in> set (tree tc)" "EStart (heap tc i) \<le> EStart x" "EEnd x \<le> EEnd (heap tc i)" "EStart x < EEnd x"
    and "\<not> stale tc0 (CacheTs (EValue x))"
  shows "settled tc0 (resized i (size_of tc i) (put_entry i x tc))"
    and "mark_at (put_entry i x tc) k = (if covers x k then ratchet (low_mark tc0) (vkey (EValue x))
      else if covers (heap tc i) k then low_mark tc0 else mark_at tc k)"
proof -
  have wf: "tc_wf tc" "owed tc = 0" "same_frame tc0 tc" "all_fresh tc" using assms(1) by (auto simp: settled_def)
  show "mark_at (put_entry i x tc) k = (if covers x k then ratchet (low_mark tc0) (vkey (EValue x))
      else if covers (heap tc i) k then low_mark tc0 else mark_at tc k)"
    using put_entry_mark [OF wf(1) assms(2-5)] same_frame_simps(1) [OF wf(3)] by simp
  have "all_fresh (put_entry i x tc)"
    using wf(4) assms(6) same_frame_simps(2) [OF wf(3)] by (auto simp: all_fresh_def)
  then show "settled tc0 (resized i (size_of tc i) (put_entry i x tc))"
    using put_entry_wf [OF wf(1) assms(2-5)] put_entry_owed [OF wf(1) assms(2), of x] wf by (simp add: settled_def)
qed

lemma settled_drop:
  assumes "settled tc0 tc" "i \<in> set (tree tc)" "room tc0 (length (tree tc))"
  shows "removeElement i tc = Inr (drop_entry i tc)" "settled tc0 (drop_entry i tc)"
    and "mark_at (drop_entry i tc) k = (if covers (heap tc i) k then low_mark tc0 else mark_at tc k)"
proof -
  have wf: "tc_wf tc" "owed tc = 0" "same_frame tc0 tc" "all_fresh tc" using assms(1) by (auto simp: settled_def)
  show "removeElement i tc = Inr (drop_entry i tc)"
    using removeElement_room [OF wf(1) assms(2) wf(2)] assms(3) same_frame_simps(3) [OF wf(3)] by simp
  show "mark_at (drop_entry i tc) k = (if covers (heap tc i) k then low_mark tc0 else mark_at tc k)"
    using drop_entry_mark [OF wf(1) assms(2)] same_frame_simps(1) [OF wf(3)] by simp
  have "all_fresh (drop_entry i tc)"
    using wf(4) by (auto simp: all_fresh_def drop_entry_def stale_def dest: notin_set_remove1 in_set_remove1)
  then show "settled tc0 (drop_entry i tc)"
    using drop_entry_wf [OF wf(1)] drop_entry_owed [OF wf(1) assms(2)] wf by (simp add: settled_def)
qed

lemma put_entry_same [simp]: "put_entry i (heap tc i) tc = tc"
  by (simp add: put_entry_def)

lemma settled_put_add:
  assumes "settled tc0 tc" "i \<in> set (tree tc)" "EStart (heap tc i) \<le> EStart x" "EEnd x \<le> EEnd (heap tc i)" "EStart x < EEnd x"
    and "\<not> stale tc0 (CacheTs (EValue x))" "\<not> stale tc0 (CacheTs v)" "s < e" "after = None \<or> after = Some i"
    and "EEnd x \<le> s \<or> e \<le> EStart x"
    and "\<And>j. j \<in> set (tree tc) \<Longrightarrow> j \<noteq> i \<Longrightarrow> EEnd (heap tc j) \<le> s \<or> e \<le> EStart (heap tc j)"
  obtains tc' new where "baseCache_add s e v after (put_entry i x tc) = Inr tc'" "settled tc0 (resized i (size_of tc i) tc')"
    "set (tree tc') = insert new (set (tree tc))" "length (tree tc') = length (tree tc) + 1" "heap tc' new = \<lparr>EStart = s, EEnd = e, EValue = v\<rparr>"
    "new \<notin> set (tree tc)" "\<And>j. j \<in> set (tree tc) \<Longrightarrow> heap tc' j = (if j = i then x else heap tc j)"
    "\<And>k. mark_at tc' k = (if s \<le> k \<and> k < e then ratchet (low_mark tc0) (vkey v)
      else if covers x k then ratchet (low_mark tc0) (vkey (EValue x))
      else if covers (heap tc i) k then low_mark tc0 else mark_at tc k)"
proof -
  let ?tc = "put_entry i x tc" and ?x = "\<lparr>EStart = s, EEnd = e, EValue = v\<rparr>" and ?new = "intervalAlloc tc + 1"
  have wf: "tc_wf tc" "owed tc = 0" "same_frame tc0 tc" "all_fresh tc" using assms(1) by (auto simp: settled_def)
  note put = settled_put [OF assms(1-6)]
  have wf1: "tc_wf ?tc" "all_fresh ?tc" using put(1) by (auto simp: settled_def)
  have ap: "apart ?x (heap ?tc j)" if "j \<in> set (tree ?tc)" for j using assms(10) assms(11) [of j] that by (auto simp: apart_def)
  have low: "low_mark ?tc = low_mark tc0" "stale ?tc = stale tc0" using same_frame_simps [OF wf(3)] by simp_all
  obtain l where l: "baseCache_add s e v after ?tc = Inr (new_entry ?x l ?tc)" "set l = insert (intervalAlloc ?tc + 1) (set (ll ?tc))" "distinct l"
    by (rule baseCache_add_fresh [OF wf1, of v s e after]) (use ap assms(2,7,8,9) low(2) in \<open>auto split: option.splits\<close>)
  let ?tc' = "new_entry ?x l ?tc"
  have new: "?new \<notin> set (tree tc)" using wf_fresh [OF wf(1)] .
  have heap: "heap ?tc' ?new = ?x" "\<And>j. j \<in> set (tree tc) \<Longrightarrow> heap ?tc' j = (if j = i then x else heap tc j)"
    "tree ?tc' = ?new # tree tc" using new by (auto simp: new_entry_def Let_def)
  have "mark_at ?tc' k = (if s \<le> k \<and> k < e then ratchet (low_mark tc0) (vkey v)
      else if covers x k then ratchet (low_mark tc0) (vkey (EValue x))
      else if covers (heap tc i) k then low_mark tc0 else mark_at tc k)" for k
    using new_entry_mark [OF wf1(1) _ ap l(2,3), of k] assms(8) put(2) low(1) by (simp add: covers_def)
  moreover have "settled tc0 (resized i (size_of tc i) ?tc')"
  proof -
    have "tc_wf ?tc'" using new_entry_wf [OF wf1(1) _ ap l(2,3)] assms(8) by simp
    moreover have "all_fresh ?tc'" using new_entry_fresh wf1 assms(7) low(2) by simp
    moreover have "owed ?tc' + (size_of ?tc' i - size_of tc i) = 0"
      using new_entry_owed [OF wf1(1), of ?x l] put_entry_owed [OF wf(1) assms(2), of x] wf(2) heap(2) [OF assms(2)]
      by (simp add: new_entry_def Let_def)
    ultimately show ?thesis using wf(3) by (simp add: settled_def)
  qed
  ultimately show ?thesis using that [of ?tc' ?new] l(1) heap new by simp
qed

section \<open>Each visited entry\<close>

lemma mark_of_visited:
  assumes "adding tc0 ts goal (i # ids) (rs, re, txn, tc)" "covers (heap tc i) k"
  shows "mark_at tc k = ratchet (low_mark tc0) (vkey (EValue (heap tc i)))"
  using mark_at_covered [OF adding_head(1,6) [OF assms(1)] assms(2)] same_frame_simps(1) [OF adding_head(3) [OF assms(1)]] by simp

lemma visited_settled: "adding tc0 ts goal (i # ids) (rs, re, txn, tc) \<Longrightarrow> settled tc0 tc"
  by (simp add: adding_def)

lemma visited_fresh: "adding tc0 ts goal (i # ids) (rs, re, txn, tc) \<Longrightarrow> \<not> stale tc0 (CacheTs (EValue (heap tc i)))"
  using same_frame_simps(2) by (auto simp: adding_def settled_def all_fresh_def)

lemma settled_front: "settled tc0 tc \<Longrightarrow> i \<in> set (tree tc) \<Longrightarrow> settled tc0 (moveToFront i tc)"
  by (auto simp: settled_def moveToFront_def tc_wf_def all_fresh_def stale_def owed_def same_frame_def
      dest: notin_set_remove1 in_set_remove1)

lemma mark_at_front [simp]: "mark_at (moveToFront i tc) = mark_at tc"
  by (simp add: mark_at_def moveToFront_def low_mark_def fun_eq_iff cong: option.case_cong)

text \<open>
  The visited entry is cut down or changes its value, and the range goes on, possibly shortened: it is enough to compare
  the two sides key by key.
\<close>

lemma visited_put:
  assumes "adding tc0 ts goal (i # ids) (rs, re, txn, tc)"
    and "EStart (heap tc i) \<le> EStart x" "EEnd x \<le> EEnd (heap tc i)" "EStart x < EEnd x" "CacheTs (EValue x) = CacheTs (EValue (heap tc i))"
    and "rs' < re'" "rs' = rs \<or> rs' = EEnd (heap tc i)" "re' = re \<or> re \<le> EEnd (heap tc i)" "rs \<le> rs'" "re' \<le> re"
    and "EEnd x \<le> rs' \<or> re' \<le> EStart x"
    and "\<And>k. (let m = (if covers x k then ratchet (low_mark tc0) (vkey (EValue x))
            else if covers (heap tc i) k then low_mark tc0 else mark_at tc k)
         in if rs' \<le> k \<and> k < re' then ratchet m (ts_key ts, txn') else m) = pending ts (rs, re, txn, tc) k"
  shows "adding tc0 ts goal ids (rs', re', txn', resized i (size_of tc i) (put_entry i x tc))"
proof -
  note h = adding_head [OF assms(1)]
  let ?tc = "resized i (size_of tc i) (put_entry i x tc)"
  have "\<not> stale tc0 (CacheTs (EValue x))" using visited_fresh [OF assms(1)] assms(5) by simp
  note put = settled_put [OF visited_settled [OF assms(1)] h(6) assms(2-4) this]
  show ?thesis
  proof (rule adding_next [OF assms(1) put(1) _ _ _ assms(6-8)])
    show "length (tree ?tc) \<le> length (tree tc) + 1" "set ids \<subseteq> set (tree ?tc)" using assms(1) by (auto simp: adding_def)
    show "heap ?tc j = heap tc j" if "j \<in> set ids" for j using that h(11) by auto
    show "EEnd (heap ?tc j) \<le> rs' \<or> re' \<le> EStart (heap ?tc j)" if "j \<in> set (tree ?tc)" "j \<notin> set ids" for j
      using that assms(9-11) adding_others(2) [OF assms(1), of j] by (auto dest: order_trans)
    show "pending ts (rs', re', txn', ?tc) k = pending ts (rs, re, txn, tc) k" for k
      unfolding assms(12) [of k, symmetric] by (simp only: pending_def prod.case resized_simps put(2) Let_def)
  qed
qed

text \<open>The same when a new entry is added beside it.\<close>

lemma visited_put_add:
  assumes "adding tc0 ts goal (i # ids) (rs, re, txn, tc)"
    and "EStart (heap tc i) \<le> EStart x" "EEnd x \<le> EEnd (heap tc i)" "EStart x < EEnd x" "CacheTs (EValue x) = CacheTs (EValue (heap tc i))"
    and "rs' < re'" "rs' = rs \<or> rs' = EEnd (heap tc i)" "re' = re \<or> re \<le> EEnd (heap tc i)" "rs \<le> rs'" "re' \<le> re"
    and "EEnd x \<le> rs' \<or> re' \<le> EStart x"
    and "s < e" "after = None \<or> after = Some i" "\<not> stale tc0 (CacheTs v)" "EEnd x \<le> s \<or> e \<le> EStart x" "e \<le> rs' \<or> re' \<le> s"
    and "\<And>j. j \<in> set (tree tc) \<Longrightarrow> j \<noteq> i \<Longrightarrow> EEnd (heap tc j) \<le> s \<or> e \<le> EStart (heap tc j)"
    and "\<And>k. (let m = (if s \<le> k \<and> k < e then ratchet (low_mark tc0) (vkey v)
            else if covers x k then ratchet (low_mark tc0) (vkey (EValue x))
            else if covers (heap tc i) k then low_mark tc0 else mark_at tc k)
         in if rs' \<le> k \<and> k < re' then ratchet m (ts_key ts, txn') else m) = pending ts (rs, re, txn, tc) k"
  obtains tc' where "baseCache_add s e v after (put_entry i x tc) = Inr tc'"
    "adding tc0 ts goal ids (rs', re', txn', resized i (size_of tc i) tc')"
proof -
  note h = adding_head [OF assms(1)]
  have "\<not> stale tc0 (CacheTs (EValue x))" using visited_fresh [OF assms(1)] assms(5) by simp
  then obtain tc' new where tc': "baseCache_add s e v after (put_entry i x tc) = Inr tc'" "settled tc0 (resized i (size_of tc i) tc')"
    "set (tree tc') = insert new (set (tree tc))" "length (tree tc') = length (tree tc) + 1" "heap tc' new = \<lparr>EStart = s, EEnd = e, EValue = v\<rparr>"
    "new \<notin> set (tree tc)" "\<And>j. j \<in> set (tree tc) \<Longrightarrow> heap tc' j = (if j = i then x else heap tc j)"
    "\<And>k. mark_at tc' k = (if s \<le> k \<and> k < e then ratchet (low_mark tc0) (vkey v)
      else if covers x k then ratchet (low_mark tc0) (vkey (EValue x))
      else if covers (heap tc i) k then low_mark tc0 else mark_at tc k)"
    by (rule settled_put_add [OF visited_settled [OF assms(1)] h(6) assms(2-4) _ assms(14,12,13,15,17)]) blast+
  have ids: "set ids \<subseteq> set (tree tc)" using assms(1) by (simp add: adding_def)
  have "adding tc0 ts goal ids (rs', re', txn', resized i (size_of tc i) tc')"
  proof (rule adding_next [OF assms(1) tc'(2) _ _ _ assms(6-8)])
    show "length (tree (resized i (size_of tc i) tc')) \<le> length (tree tc) + 1" using tc'(4) by simp
    show "set ids \<subseteq> set (tree (resized i (size_of tc i) tc'))" using ids tc'(3) by auto
    show "heap (resized i (size_of tc i) tc') j = heap tc j" if "j \<in> set ids" for j using that h(11) ids tc'(7) [of j] by auto
    show "EEnd (heap (resized i (size_of tc i) tc') j) \<le> rs' \<or> re' \<le> EStart (heap (resized i (size_of tc i) tc') j)"
      if "j \<in> set (tree (resized i (size_of tc i) tc'))" "j \<notin> set ids" for j
    proof (cases "j = new")
      case False
      then have j: "j \<in> set (tree tc)" using that tc'(3) by simp
      show ?thesis using tc'(7) [OF j] that(2) assms(9-11) adding_others(2) [OF assms(1) j] by (auto dest: order_trans)
    qed (use tc'(5) assms(16) in auto)
    show "pending ts (rs', re', txn', resized i (size_of tc i) tc') k = pending ts (rs, re, txn, tc) k" for k
      unfolding assms(18) [of k, symmetric] by (simp only: pending_def prod.case resized_simps tc'(8) Let_def)
  qed
  then show ?thesis using that tc'(1) by blast
qed

lemma visited_drop:
  assumes "adding tc0 ts goal (i # ids) (rs, re, txn, tc)" "rs \<le> EStart (heap tc i)" "EEnd (heap tc i) \<le> re"
    and "ratchet (low_mark tc0) (ts_key ts, txn) = ratchet (ratchet (low_mark tc0) (vkey (EValue (heap tc i)))) (ts_key ts, txn)"
  shows "removeElement i tc = Inr (drop_entry i tc)" "adding tc0 ts goal ids (rs, re, txn, drop_entry i tc)"
proof -
  note h = adding_head [OF assms(1)]
  have "room tc0 (length (tree tc))" by (rule room_mono [OF h(10)]) simp
  note d = settled_drop [OF visited_settled [OF assms(1)] h(6) this]
  show "removeElement i tc = Inr (drop_entry i tc)" by (rule d(1))
  have ids: "set ids \<subseteq> set (tree tc)" using assms(1) by (simp add: adding_def)
  have t: "set (tree (drop_entry i tc)) = set (tree tc) - {i}" "heap (drop_entry i tc) = heap tc" "length (tree (drop_entry i tc)) \<le> length (tree tc)"
    using h(1) by (auto simp: drop_entry_def tc_wf_def length_remove1)
  show "adding tc0 ts goal ids (rs, re, txn, drop_entry i tc)"
  proof (rule adding_next [OF assms(1) d(2)])
    show "EEnd (heap (drop_entry i tc) j) \<le> rs \<or> re \<le> EStart (heap (drop_entry i tc) j)"
      if "j \<in> set (tree (drop_entry i tc))" "j \<notin> set ids" for j
      using that t adding_others(2) [OF assms(1), of j] by auto
    show "pending ts (rs, re, txn, drop_entry i tc) k = pending ts (rs, re, txn, tc) k" for k
    proof (cases "covers (heap tc i) k")
      case True
      then have "rs \<le> k \<and> k < re" using assms(2,3) by (auto simp: covers_def)
      then show ?thesis using d(3) [of k] True mark_of_visited [OF assms(1) True] assms(4) by (simp add: pending_def)
    qed (simp add: d(3) pending_def)
  qed (use h(5,11) t ids in auto)
qed

lemma pending_visited:
  assumes "adding tc0 ts goal (i # ids) (rs, re, txn, tc)" "covers (heap tc i) k"
  shows "pending ts (rs, re, txn, tc) k = (let m = ratchet (low_mark tc0) (vkey (EValue (heap tc i))) in
    if rs \<le> k \<and> k < re then ratchet m (ts_key ts, txn) else m)"
  using mark_of_visited [OF assms] by (simp add: pending_def Let_def)

lemma pending_free:
  assumes "adding tc0 ts goal (i # ids) (rs, re, txn, tc)" "rs \<le> k" "k < EStart (heap tc i)"
  shows "pending ts (rs, re, txn, tc) k = ratchet (low_mark tc0) (ts_key ts, txn)"
proof -
  note h = adding_head [OF assms(1)]
  have "\<not> covers (heap tc j) k" if "j \<in> set (tree tc)" for j
    using adding_others(3) [OF assms(1) that] assms(2,3) h(7,9) by (cases "j = i") (auto simp: covers_def)
  then have "mark_at tc k = low_mark tc0" using mark_at_free [of tc k] same_frame_simps(1) [OF h(3)] by simp
  moreover have "k < re" using assms(3) h(7) by (rule less_trans)
  ultimately show ?thesis using assms(2) by (simp add: pending_def)
qed

lemma goal_pending: "adding tc0 ts goal ids st \<Longrightarrow> pending ts st = goal"
  by (simp add: adding_def split: prod.splits)

text \<open>
  Where the visited entry and the range overlap, the value of the entry can be forgotten when adding the range to the low
  water mark gives the same; the owner of the range may change when the entry contains it.
\<close>

definition absorbs :: "treeImpl \<Rightarrow> Timestamp \<Rightarrow> nat \<Rightarrow> add_state \<Rightarrow> uuid \<Rightarrow> bool" where
  "absorbs tc0 ts i st txn' \<longleftrightarrow> (case st of (rs, re, txn, tc) \<Rightarrow>
     ratchet (low_mark tc0) (ts_key ts, txn') = ratchet (ratchet (low_mark tc0) (vkey (EValue (heap tc i)))) (ts_key ts, txn) \<and>
     (txn' = txn \<or> EStart (heap tc i) \<le> rs \<and> re \<le> EEnd (heap tc i)))"

lemma visited_contains:
  assumes A: "adding tc0 ts goal (i # ids) (rs, re, txn, tc)" and "EStart (heap tc i) \<le> rs" "re \<le> EEnd (heap tc i)"
    and "ratchet (ratchet (low_mark tc0) (vkey (EValue (heap tc i)))) (ts_key ts, txn) = ratchet (low_mark tc0) (vkey (EValue (heap tc i)))"
  shows "mark_at tc = goal"
proof
  fix k
  have "covers (heap tc i) k" if "rs \<le> k" "k < re" using that assms(2,3) by (auto simp: covers_def)
  then show "mark_at tc k = goal k" using goal_pending [OF A] mark_of_visited [OF A, of k] assms(4) by (auto simp: pending_def)
qed

lemma visited_cut_end:
  assumes A: "adding tc0 ts goal (i # ids) (rs, re, txn, tc)" and "absorbs tc0 ts i (rs, re, txn, tc) txn'"
    and "EStart (heap tc i) < rs" "EEnd (heap tc i) \<le> re"
  shows "adding tc0 ts goal ids (rs, re, txn', resized i (size_of tc i) (set_end i rs tc))"
proof -
  let ?x = "heap tc i" and ?L = "low_mark tc0"
  note h = adding_head [OF A]
  show ?thesis unfolding in_place
  proof (rule visited_put [OF A])
    show "(let m = if covers (?x\<lparr>EEnd := rs\<rparr>) k then ratchet ?L (vkey (EValue (?x\<lparr>EEnd := rs\<rparr>)))
        else if covers ?x k then ?L else mark_at tc k
      in if rs \<le> k \<and> k < re then ratchet m (ts_key ts, txn') else m) = pending ts (rs, re, txn, tc) k" for k
      using assms(2-4) h(5,7,8,9) pending_visited [OF A, of k]
      by (cases "covers ?x k"; auto simp: absorbs_def covers_def pending_def Let_def; (rule FalseE, order))
  qed (use assms(3,4) h(5,8) in auto)
qed

lemma visited_cut_start:
  assumes A: "adding tc0 ts goal (i # ids) (rs, re, txn, tc)" and "absorbs tc0 ts i (rs, re, txn, tc) txn'"
    and "rs \<le> EStart (heap tc i)" "re < EEnd (heap tc i)"
  shows "adding tc0 ts goal ids (rs, re, txn', resized i (size_of tc i) (set_start i re tc))"
proof -
  let ?x = "heap tc i" and ?L = "low_mark tc0"
  note h = adding_head [OF A]
  show ?thesis unfolding in_place
  proof (rule visited_put [OF A])
    show "(let m = if covers (?x\<lparr>EStart := re\<rparr>) k then ratchet ?L (vkey (EValue (?x\<lparr>EStart := re\<rparr>)))
        else if covers ?x k then ?L else mark_at tc k
      in if rs \<le> k \<and> k < re then ratchet m (ts_key ts, txn') else m) = pending ts (rs, re, txn, tc) k" for k
      using assms(2-4) h(5,7,8,9) pending_visited [OF A, of k]
      by (cases "covers ?x k"; auto simp: absorbs_def covers_def pending_def Let_def; (rule FalseE, order))
  qed (use assms(3,4) h(5,7) in auto)
qed

lemma visited_split:
  assumes A: "adding tc0 ts goal (i # ids) (rs, re, txn, tc)" and "absorbs tc0 ts i (rs, re, txn, tc) txn'"
    and "EStart (heap tc i) < rs" "re < EEnd (heap tc i)"
  obtains tc' where "addEntryAfter re (EEnd (heap tc i)) (EValue (heap tc i)) i (set_end i rs tc) = Inr tc'"
    "adding tc0 ts goal ids (rs, re, txn', resized i (size_of tc i) tc')"
  unfolding in_place
proof (rule visited_put_add [OF A, where after = "Some i"])
  let ?x = "heap tc i" and ?L = "low_mark tc0"
  note h = adding_head [OF A]
  show "EEnd (heap tc j) \<le> re \<or> EEnd ?x \<le> EStart (heap tc j)" if "j \<in> set (tree tc)" "j \<noteq> i" for j
    using adding_others(1) [OF A that] assms(3) h(5) by auto
  show "(let m = if re \<le> k \<and> k < EEnd ?x then ratchet ?L (vkey (EValue ?x))
      else if covers (?x\<lparr>EEnd := rs\<rparr>) k then ratchet ?L (vkey (EValue (?x\<lparr>EEnd := rs\<rparr>)))
      else if covers ?x k then ?L else mark_at tc k
    in if rs \<le> k \<and> k < re then ratchet m (ts_key ts, txn') else m) = pending ts (rs, re, txn, tc) k" for k
    using assms(2-4) h(5) pending_visited [OF A, of k]
    by (cases "covers ?x k"; auto simp: absorbs_def covers_def pending_def Let_def; (rule FalseE, order))
qed (use adding_head(5) [OF A] assms(3,4) visited_fresh [OF A] in auto)

lemma add_over_older_ok:
  assumes A: "adding tc0 ts goal (i # ids) (rs, re, txn, tc)" and low: "fst (low_mark tc0) < ts_key ts" and "\<not> stale tc0 ts"
    and old: "fst (vkey (EValue (heap tc i))) < ts_key ts"
  shows "\<exists>r. add_over_older ts i (rs, re, txn, tc) = Inr r \<and> added tc0 ts goal ids r"
proof -
  note h = adding_head [OF A]
  let ?x = "heap tc i" and ?L = "low_mark tc0"
  have R: "ratchet ?L (ts_key ts, t) = (ts_key ts, t)" "ratchet (ratchet ?L (vkey (EValue ?x))) (ts_key ts, t) = (ts_key ts, t)" for t
    using low old by (auto simp: ratchet_def)
  then have ab: "absorbs tc0 ts i (rs, re, txn, tc) txn" by (simp add: absorbs_def)
  consider (eq) "rs = EStart ?x" "re = EEnd ?x" | (within) "rs \<le> EStart ?x" "EEnd ?x \<le> re" "rs \<noteq> EStart ?x \<or> re \<noteq> EEnd ?x"
    | (split) "EStart ?x < rs" "re < EEnd ?x" | (left) "EStart ?x < rs" "EEnd ?x \<le> re" | (right) "rs \<le> EStart ?x" "re < EEnd ?x"
    by fastforce
  then show ?thesis
  proof cases
    case eq
    define x where "x = ?x\<lparr>EValue := \<lparr>CacheTs = ts, CacheTxn = txn\<rparr>\<rparr>"
    have vk: "vkey (EValue x) = (ts_key ts, txn)" by (simp add: x_def vkey_def)
    have put: "settled tc0 (resized i (size_of tc i) (put_entry i x tc))"
      "\<And>k. mark_at (put_entry i x tc) k = (if covers x k then ratchet ?L (vkey (EValue x)) else if covers ?x k then ?L else mark_at tc k)"
      using settled_put [OF visited_settled [OF A] h(6), of x] h(9) assms(3) by (auto simp: x_def)
    have "resized i (size_of tc i) (put_entry i x tc) = put_entry i x tc" by (simp add: resized_def x_def put_entry_def)
    then have "settled tc0 (moveToFront i (put_entry i x tc))" using settled_front put(1) h(6) by simp
    moreover have "mark_at (put_entry i x tc) k = goal k" for k
      using put(2) [of k] goal_pending [OF A] pending_visited [OF A, of k] eq vk R
      by (auto simp: x_def covers_def pending_def Let_def)
    ultimately show ?thesis using eq by (simp add: add_over_older_def in_place x_def Let_def three_way_def fun_eq_iff)
  next
    case within
    then show ?thesis using visited_drop [OF A within(1,2)] R by (auto simp: add_over_older_def Let_def three_way_def)
  next
    case split
    then show ?thesis using visited_split [OF A ab split] by (force simp: add_over_older_def Let_def three_way_def)
  next
    case left
    then show ?thesis using visited_cut_end [OF A ab left] by (auto simp: add_over_older_def Let_def three_way_def)
  next
    case right
    then show ?thesis using visited_cut_start [OF A ab right] by (auto simp: add_over_older_def Let_def three_way_def)
  qed
qed

lemma add_same_owner_ok:
  assumes A: "adding tc0 ts goal (i # ids) (rs, re, txn, tc)" and low: "fst (low_mark tc0) < ts_key ts"
    and same: "vkey (EValue (heap tc i)) = (ts_key ts, txn)"
  shows "\<exists>r. add_same_owner i (rs, re, txn, tc) = Inr r \<and> added tc0 ts goal ids r"
proof -
  note h = adding_head [OF A]
  let ?x = "heap tc i" and ?L = "low_mark tc0"
  have R: "ratchet ?L (ts_key ts, txn) = (ts_key ts, txn)" "ratchet (ratchet ?L (vkey (EValue ?x))) (ts_key ts, txn) = (ts_key ts, txn)"
    using low same by (auto simp: ratchet_def)
  then have ab: "absorbs tc0 ts i (rs, re, txn, tc) txn" by (simp add: absorbs_def)
  consider (contains) "EStart ?x \<le> rs" "re \<le> EEnd ?x" | (within) "rs \<le> EStart ?x" "EEnd ?x \<le> re" "rs \<noteq> EStart ?x \<or> re \<noteq> EEnd ?x"
    | (left) "EStart ?x < rs" "EEnd ?x < re" | (right) "rs < EStart ?x" "re < EEnd ?x"
    by fastforce
  then show ?thesis
  proof cases
    case contains
    then show ?thesis using visited_contains [OF A contains] visited_settled [OF A] R same
      by (auto simp: add_same_owner_def Let_def three_way_def)
  next
    case within
    then show ?thesis using visited_drop [OF A within(1,2)] R by (auto simp: add_same_owner_def Let_def three_way_def)
  next
    case left
    then show ?thesis using visited_cut_end [OF A ab] by (auto simp: add_same_owner_def Let_def three_way_def)
  next
    case right
    then show ?thesis using visited_cut_start [OF A ab] by (auto simp: add_same_owner_def Let_def three_way_def)
  qed
qed

text \<open>The range is cut down to what lies beyond the visited entry, whose value already includes the new one.\<close>

lemma visited_skip:
  assumes A: "adding tc0 ts goal (i # ids) (rs, re, txn, tc)" and "rs' < re'"
    and "rs' = EEnd (heap tc i) \<and> re' = re \<and> EStart (heap tc i) \<le> rs \<or> rs' = rs \<and> re' = EStart (heap tc i) \<and> re \<le> EEnd (heap tc i)"
    and "EStart x = EStart (heap tc i)" "EEnd x = EEnd (heap tc i)" "CacheTs (EValue x) = CacheTs (EValue (heap tc i))"
    and "ratchet (low_mark tc0) (vkey (EValue x)) = ratchet (ratchet (low_mark tc0) (vkey (EValue (heap tc i)))) (ts_key ts, txn)"
    and "EValue x = EValue (heap tc i) \<or> rs \<le> EStart (heap tc i) \<and> EEnd (heap tc i) \<le> re"
  shows "adding tc0 ts goal ids (rs', re', txn, resized i (size_of tc i) (put_entry i x tc))"
proof -
  note h = adding_head [OF A]
  let ?x = "heap tc i" and ?L = "low_mark tc0"
  show ?thesis
  proof (rule visited_put [OF A])
    show "(let m = if covers x k then ratchet ?L (vkey (EValue x)) else if covers ?x k then ?L else mark_at tc k
      in if rs' \<le> k \<and> k < re' then ratchet m (ts_key ts, txn) else m) = pending ts (rs, re, txn, tc) k" for k
      using assms(2-8) h(5,7,8,9) pending_visited [OF A, of k]
      by (cases "covers ?x k"; auto simp: covers_def pending_def Let_def; (rule FalseE, order))
  qed (use assms(2-6) h(5,7,8,9) in auto)
qed

lemma visited_surrounded:
  assumes A: "adding tc0 ts goal (i # ids) (rs, re, txn, tc)" and "rs < EStart (heap tc i)" "EEnd (heap tc i) < re"
    and "EStart x = EStart (heap tc i)" "EEnd x = EEnd (heap tc i)" "CacheTs (EValue x) = CacheTs (EValue (heap tc i))"
    and "ratchet (low_mark tc0) (vkey (EValue x)) = ratchet (ratchet (low_mark tc0) (vkey (EValue (heap tc i)))) (ts_key ts, txn)"
    and "\<not> stale tc0 ts" "after = None \<or> after = Some i"
  obtains tc' where "baseCache_add rs (EStart (heap tc i)) \<lparr>CacheTs = ts, CacheTxn = txn\<rparr> after (put_entry i x tc) = Inr tc'"
    "adding tc0 ts goal ids (EEnd (heap tc i), re, txn, resized i (size_of tc i) tc')"
proof (rule visited_put_add [OF A, where after = after])
  let ?x = "heap tc i" and ?L = "low_mark tc0"
  note h = adding_head [OF A]
  show "EEnd (heap tc j) \<le> rs \<or> EStart ?x \<le> EStart (heap tc j)" if "j \<in> set (tree tc)" "j \<noteq> i" for j
    using adding_others(3) [OF A that] h(7,9) by auto
  show "(let m = if rs \<le> k \<and> k < EStart ?x then ratchet ?L (vkey \<lparr>CacheTs = ts, CacheTxn = txn\<rparr>)
      else if covers x k then ratchet ?L (vkey (EValue x)) else if covers ?x k then ?L else mark_at tc k
    in if EEnd ?x \<le> k \<and> k < re then ratchet m (ts_key ts, txn) else m) = pending ts (rs, re, txn, tc) k" for k
  proof (cases "rs \<le> k \<and> k < EStart ?x")
    case True
    then have "\<not> EEnd ?x \<le> k" using h(9) by auto
    then show ?thesis using True pending_free [OF A, of k] by (simp add: Let_def vkey_def)
  next
    case False
    then show ?thesis using assms(2-7) h(9) pending_visited [OF A, of k]
      by (cases "covers ?x k"; auto simp: covers_def pending_def Let_def; (rule FalseE, order))
  qed
qed (use adding_head(5,7,8,9) [OF A] assms(2-6,8,9) in auto)

text \<open>The part of the visited entry that overlaps the range goes into an entry of its own.\<close>

lemma visited_shared_end:
  assumes A: "adding tc0 ts goal (i # ids) (rs, re, txn, tc)" and "EStart (heap tc i) < rs" "EEnd (heap tc i) < re"
    and "CacheTs v = CacheTs (EValue (heap tc i))"
    and "ratchet (low_mark tc0) (vkey v) = ratchet (ratchet (low_mark tc0) (vkey (EValue (heap tc i)))) (ts_key ts, txn)"
  obtains tc' where "addEntryAfter rs (EEnd (heap tc i)) v i (set_end i rs tc) = Inr tc'"
    "adding tc0 ts goal ids (EEnd (heap tc i), re, txn, resized i (size_of tc i) tc')"
  unfolding in_place
proof (rule visited_put_add [OF A, where after = "Some i"])
  let ?x = "heap tc i" and ?L = "low_mark tc0"
  note h = adding_head [OF A]
  show "EEnd (heap tc j) \<le> rs \<or> EEnd ?x \<le> EStart (heap tc j)" if "j \<in> set (tree tc)" "j \<noteq> i" for j
    using adding_others(1) [OF A that] assms(2) by auto
  show "(let m = if rs \<le> k \<and> k < EEnd ?x then ratchet ?L (vkey v)
      else if covers (?x\<lparr>EEnd := rs\<rparr>) k then ratchet ?L (vkey (EValue (?x\<lparr>EEnd := rs\<rparr>)))
      else if covers ?x k then ?L else mark_at tc k
    in if EEnd ?x \<le> k \<and> k < re then ratchet m (ts_key ts, txn) else m) = pending ts (rs, re, txn, tc) k" for k
    using assms(2-5) h(8) pending_visited [OF A, of k]
    by (cases "covers ?x k"; auto simp: covers_def pending_def Let_def; (rule FalseE, order))
qed (use adding_head(5,7,8,9) [OF A] assms(2-4) visited_fresh [OF A] in auto)

lemma visited_shared_start:
  assumes A: "adding tc0 ts goal (i # ids) (rs, re, txn, tc)" and "rs < EStart (heap tc i)" "re < EEnd (heap tc i)"
    and "CacheTs v = CacheTs (EValue (heap tc i))"
    and "ratchet (low_mark tc0) (vkey v) = ratchet (ratchet (low_mark tc0) (vkey (EValue (heap tc i)))) (ts_key ts, txn)"
  obtains tc' where "addEntryAfter (EStart (heap tc i)) re v i (set_start i re tc) = Inr tc'"
    "adding tc0 ts goal ids (rs, EStart (heap tc i), txn, resized i (size_of tc i) tc')"
  unfolding in_place
proof (rule visited_put_add [OF A, where after = "Some i"])
  let ?x = "heap tc i" and ?L = "low_mark tc0"
  note h = adding_head [OF A]
  show "EEnd (heap tc j) \<le> EStart ?x \<or> re \<le> EStart (heap tc j)" if "j \<in> set (tree tc)" "j \<noteq> i" for j
    using adding_others(1) [OF A that] assms(3) by auto
  show "(let m = if EStart ?x \<le> k \<and> k < re then ratchet ?L (vkey v)
      else if covers (?x\<lparr>EStart := re\<rparr>) k then ratchet ?L (vkey (EValue (?x\<lparr>EStart := re\<rparr>)))
      else if covers ?x k then ?L else mark_at tc k
    in if rs \<le> k \<and> k < EStart ?x then ratchet m (ts_key ts, txn) else m) = pending ts (rs, re, txn, tc) k" for k
    using assms(2-5) h(7) pending_visited [OF A, of k]
    by (cases "covers ?x k"; auto simp: covers_def pending_def Let_def; (rule FalseE, order))
qed (use adding_head(5,7,8,9) [OF A] assms(2-4) visited_fresh [OF A] in auto)

lemma add_under_newer_ok:
  assumes A: "adding tc0 ts goal (i # ids) (rs, re, txn, tc)" and "\<not> stale tc0 ts"
    and new: "ts_key ts < fst (vkey (EValue (heap tc i)))"
  shows "\<exists>r. add_under_newer ts i (rs, re, txn, tc) = Inr r \<and> added tc0 ts goal ids r"
proof -
  let ?x = "heap tc i" and ?L = "low_mark tc0"
  have R: "ratchet (ratchet ?L (vkey (EValue ?x))) (ts_key ts, txn) = ratchet ?L (vkey (EValue ?x))"
    using new by (auto simp: ratchet_def)
  consider (contains) "EStart ?x \<le> rs" "re \<le> EEnd ?x" | (within) "rs < EStart ?x" "EEnd ?x < re"
    | (left) "EStart ?x \<le> rs" "EEnd ?x < re" | (right) "rs < EStart ?x" "re \<le> EEnd ?x"
    by fastforce
  then show ?thesis
  proof cases
    case contains
    then show ?thesis using visited_contains [OF A contains R] visited_settled [OF A]
      by (auto simp: add_under_newer_def Let_def three_way_def)
  next
    case within
    obtain tc' where "addRange rs (EStart ?x) \<lparr>CacheTs = ts, CacheTxn = txn\<rparr> (put_entry i ?x tc) = Inr tc'"
        "adding tc0 ts goal ids (EEnd ?x, re, txn, resized i (size_of tc i) tc')"
      by (rule visited_surrounded [OF A within, of ?x None]) (use R assms(2) in auto)
    then show ?thesis using within by (auto simp: add_under_newer_def Let_def three_way_def)
  next
    case left
    then show ?thesis using visited_skip [OF A, of "EEnd ?x" re ?x] R by (auto simp: add_under_newer_def Let_def three_way_def)
  next
    case right
    then show ?thesis using visited_skip [OF A, of rs "EStart ?x" ?x] R by (auto simp: add_under_newer_def Let_def three_way_def)
  qed
qed

lemma add_other_owner_ok:
  assumes A: "adding tc0 ts goal (i # ids) (rs, re, txn, tc)" and low: "fst (low_mark tc0) < ts_key ts" and "\<not> stale tc0 ts"
    and vk: "vkey (EValue (heap tc i)) = (ts_key ts, u)" "u \<noteq> txn"
  shows "\<exists>r. add_other_owner ts i (rs, re, txn, tc) = Inr r \<and> added tc0 ts goal ids r"
proof -
  note h = adding_head [OF A]
  let ?x = "heap tc i" and ?L = "low_mark tc0"
  let ?n = "?x\<lparr>EValue := (EValue ?x)\<lparr>CacheTxn := uuid_Nil\<rparr>\<rparr>" and ?v = "\<lparr>CacheTs = CacheTs (EValue ?x), CacheTxn = uuid_Nil\<rparr>"
  have R: "ratchet ?L (ts_key ts, t) = (ts_key ts, t)" "ratchet (ratchet ?L (vkey (EValue ?x))) (ts_key ts, txn) = (ts_key ts, uuid_Nil)"
    "vkey (EValue ?n) = (ts_key ts, uuid_Nil)" "vkey ?v = (ts_key ts, uuid_Nil)" for t
    using low vk by (auto simp: ratchet_def vkey_def)
  note E = add_other_owner_def Let_def three_way_def
  have ab: "EStart ?x \<le> rs \<Longrightarrow> re \<le> EEnd ?x \<Longrightarrow> absorbs tc0 ts i (rs, re, txn, tc) uuid_Nil" using R by (simp add: absorbs_def)
  consider (eq) "rs = EStart ?x" "re = EEnd ?x" | (skip_left) "rs = EStart ?x" "EEnd ?x < re" | (skip_right) "rs < EStart ?x" "re = EEnd ?x"
    | (within) "rs < EStart ?x" "EEnd ?x < re" | (split) "EStart ?x < rs" "re < EEnd ?x"
    | (cut_end) "EStart ?x < rs" "re = EEnd ?x" | (cut_start) "rs = EStart ?x" "re < EEnd ?x"
    | (left) "EStart ?x < rs" "EEnd ?x < re" | (right) "rs < EStart ?x" "re < EEnd ?x"
    by (cases rs "EStart ?x" rule: linorder_cases; cases re "EEnd ?x" rule: linorder_cases; blast)
  then show ?thesis
  proof cases
    case eq
    note put = settled_put [OF visited_settled [OF A] h(6), of ?n]
    have "settled tc0 (resized i (size_of tc i) (put_entry i ?n tc))" using put(1) h(9) visited_fresh [OF A] by simp
    moreover have "mark_at (put_entry i ?n tc) k = goal k" for k
      using put(2) [of k] goal_pending [OF A] pending_visited [OF A, of k] eq R h(9) visited_fresh [OF A]
      by (auto simp: covers_def pending_def Let_def)
    ultimately show ?thesis using eq by (simp add: E in_place fun_eq_iff)
  next
    case skip_left
    then show ?thesis using visited_skip [OF A, of "EEnd ?x" re ?n] R less_imp_le [OF skip_left(2)] by (auto simp: E in_place)
  next
    case skip_right
    then show ?thesis using visited_skip [OF A, of rs "EStart ?x" ?n] R less_imp_le [OF skip_right(1)] by (auto simp: E in_place)
  next
    case within
    obtain tc' where "addEntryAfter rs (EStart ?x) \<lparr>CacheTs = ts, CacheTxn = txn\<rparr> i (put_entry i ?n tc) = Inr tc'"
        "adding tc0 ts goal ids (EEnd ?x, re, txn, resized i (size_of tc i) tc')"
      by (rule visited_surrounded [OF A within, of ?n "Some i"]) (use R assms(3) in auto)
    then show ?thesis using within by (auto simp: E in_place)
  next
    case split
    then show ?thesis using visited_split [OF A ab split] by (force simp: E)
  next
    case cut_end
    then show ?thesis using visited_cut_end [OF A ab] by (auto simp: E)
  next
    case cut_start
    then show ?thesis using visited_cut_start [OF A ab] by (auto simp: E)
  next
    case left
    then show ?thesis using visited_shared_end [OF A left, of ?v] R by (force simp: E)
  next
    case right
    then show ?thesis using visited_shared_start [OF A right, of ?v] R by (force simp: E)
  qed
qed

section \<open>The whole of Add\<close>

lemma add_step_ok:
  assumes A: "adding tc0 ts goal (i # ids) st" and "fst (low_mark tc0) < ts_key ts" "\<not> stale tc0 ts"
  shows "\<exists>r. add_step ts i st = Inr r \<and> added tc0 ts goal ids r"
proof -
  obtain rs re txn tc where st: "st = (rs, re, txn, tc)" by (cases st)
  note A = A [unfolded st]
  let ?v = "EValue (heap tc i)"
  consider (older) "ts_key (CacheTs ?v) < ts_key ts" | (newer) "ts_key ts < ts_key (CacheTs ?v)"
    | (same) "ts_key (CacheTs ?v) = ts_key ts" "CacheTxn ?v = txn" | (other) "ts_key (CacheTs ?v) = ts_key ts" "CacheTxn ?v \<noteq> txn"
    by fastforce
  then show ?thesis
  proof cases
    case older
    then show ?thesis using add_over_older_ok [OF A assms(2,3)] by (simp add: st add_step_def Let_def ts_order vkey_def)
  next
    case newer
    then show ?thesis using add_under_newer_ok [OF A assms(3)] less_not_sym [OF newer] by (simp add: st add_step_def Let_def ts_order vkey_def)
  next
    case same
    then show ?thesis using add_same_owner_ok [OF A assms(2)] by (simp add: st add_step_def Let_def ts_order vkey_def)
  next
    case other
    then show ?thesis using add_other_owner_ok [OF A assms(2,3)] by (simp add: st add_step_def Let_def ts_order vkey_def)
  qed
qed

lemma add_loop_ok:
  assumes "adding tc0 ts goal ids st" "fst (low_mark tc0) < ts_key ts" "\<not> stale tc0 ts"
  shows "\<exists>r. add_loop ts ids st = Inr r \<and> added tc0 ts goal [] r"
  using assms(1)
proof (induction ids arbitrary: st)
  case (Cons i ids)
  obtain r where "add_step ts i st = Inr r" "added tc0 ts goal ids r" using add_step_ok [OF Cons.prems assms(2,3)] by blast
  then show ?case using Cons.IH by (cases r) (auto simp: added_def)
qed simp

lemma final_add:
  assumes A: "adding tc0 ts goal [] (rs, re, txn, tc)" and "\<not> stale tc0 ts"
  obtains tc' where "addRange rs re \<lparr>CacheTs = ts, CacheTxn = txn\<rparr> tc = Inr tc'" "settled tc0 tc'" "mark_at tc' = goal"
proof -
  let ?v = "\<lparr>CacheTs = ts, CacheTxn = txn\<rparr>"
  let ?x = "\<lparr>EStart = rs, EEnd = re, EValue = ?v\<rparr>"
  have wf: "tc_wf tc" "owed tc = 0" "same_frame tc0 tc" "all_fresh tc" "rs < re"
    and away: "\<And>i. i \<in> set (tree tc) \<Longrightarrow> EEnd (heap tc i) \<le> rs \<or> re \<le> EStart (heap tc i)"
    using A by (auto simp: adding_def settled_def)
  note frame = same_frame_simps [OF wf(3)]
  have ap: "apart ?x (heap tc i)" if "i \<in> set (tree tc)" for i using away [OF that] by (auto simp: apart_def)
  obtain l where l: "addRange rs re ?v tc = Inr (new_entry ?x l tc)" "set l = insert (intervalAlloc tc + 1) (set (ll tc))" "distinct l"
    by (rule baseCache_add_fresh [OF wf(1,4), of ?v rs re None]) (use ap wf(5) frame(2) assms(2) in auto)
  have free: "mark_at tc k = low_mark tc0" if "rs \<le> k" "k < re" for k
    using mark_at_free [of tc k] away that frame(1) by (fastforce simp: covers_def)
  have "mark_at (new_entry ?x l tc) k = goal k" for k
    using new_entry_mark [OF wf(1) _ ap l(2,3), of k] goal_pending [OF A] wf(5) frame(1) free [of k]
    by (auto simp: covers_def vkey_def pending_def)
  moreover have "settled tc0 (new_entry ?x l tc)"
    using new_entry_wf [OF wf(1) _ ap l(2,3)] new_entry_fresh [OF wf(1,4), of ?x l] new_entry_owed [OF wf(1), of ?x l] wf frame(2) assms(2)
    by (simp add: settled_def)
  ultimately show ?thesis using that l(1) by blast
qed

lemma GetOverlaps_set: "set (GetOverlaps s e tc) = {i \<in> set (tree tc). EStart (heap tc i) < e \<and> s < EEnd (heap tc i)}"
  by (auto simp: GetOverlaps_def overlapsExclusive_def three_way_def)

lemma GetOverlaps_sorted:
  assumes "tc_wf tc"
  shows "sorted_wrt (\<lambda>i j. EEnd (heap tc i) \<le> EStart (heap tc j)) (GetOverlaps s e tc)"
proof -
  let ?l = "GetOverlaps s e tc" and ?f = "\<lambda>i. (EStart (heap tc i), i)"
  have d: "distinct ?l" using assms by (simp add: GetOverlaps_def tc_wf_def)
  have "sorted_wrt (\<lambda>i j. ?f i \<le> ?f j) ?l"
    using sorted_sort_key [of ?f "filter (\<lambda>i. overlapsExclusive s e (heap tc i)) (tree tc)"]
    by (simp only: sorted_wrt_map GetOverlaps_def)
  then have "sorted_wrt (\<lambda>i j. ?f i \<le> ?f j \<and> i \<noteq> j) ?l"
    using d by (simp add: sorted_wrt_iff_nth_less nth_eq_iff_index_eq)
  then show ?thesis
  proof (rule sorted_wrt_mono_rel [rotated])
    fix i j assume ij: "i \<in> set ?l" "j \<in> set ?l" "?f i \<le> ?f j \<and> i \<noteq> j"
    then have "apart (heap tc i) (heap tc j)" "EStart (heap tc j) < EEnd (heap tc j)" "EStart (heap tc i) \<le> EStart (heap tc j)"
      using assms by (auto simp: tc_wf_def GetOverlaps_set less_eq_prod_def)
    then show "EEnd (heap tc i) \<le> EStart (heap tc j)" by (auto simp: apart_def)
  qed
qed

text \<open>
  What \<open>Add\<close> needs of a cache: the intervals are well formed, the memory of its entries is accounted for and cannot wrap around,
  and neither an entry nor the new timestamp has left the retention window, so that nothing is evicted meanwhile.
\<close>

definition add_ready :: "Timestamp \<Rightarrow> treeImpl \<Rightarrow> bool" where
  "add_ready ts tc \<longleftrightarrow> tc_wf tc \<and> owed tc = 0 \<and> room tc (2 * length (tree tc) + 1) \<and>
     (let tc = tc\<lparr>latest := ts_forward (latest tc) ts\<rparr> in all_fresh tc \<and> (Timestamp_Less (lowWater tc) ts \<longrightarrow> \<not> stale tc ts))"

lemma adding_start:
  assumes "add_ready ts tc0" "start < ende" "Timestamp_Less (lowWater tc0) ts"
  defines "tc \<equiv> tc0\<lparr>latest := ts_forward (latest tc0) ts\<rparr>"
  shows "adding tc ts (pending ts (start, ende, txn, tc)) (GetOverlaps start ende tc) (start, ende, txn, tc)"
proof -
  have tc: "tc_wf tc" "owed tc = 0" "room tc (2 * length (tree tc) + 1)" "all_fresh tc"
    using assms(1) by (simp_all add: add_ready_def tc_def tc_wf_def owed_def room_def Let_def)
  have "length (GetOverlaps start ende tc) \<le> length (tree tc)" by (simp add: GetOverlaps_def)
  then have "room tc (length (tree tc) + length (GetOverlaps start ende tc) + 1)" by (intro room_mono [OF tc(3)]) simp
  then show ?thesis using tc assms(2) GetOverlaps_sorted [OF tc(1)] by (auto simp: adding_def settled_def GetOverlaps_set)
qed

lemma low_in_mark: "ratchet (low_mark tc) (mark_at tc k) = mark_at tc k"
  by (simp add: mark_at_def split: option.splits)

lemma mark_at_latest [simp]: "mark_at (tc\<lparr>latest := t\<rparr>) = mark_at tc"
  by (simp add: mark_at_def low_mark_def fun_eq_iff cong: option.case_cong)

lemma treeImpl_Add_ok:
  assumes "add_ready ts tc" "start < end_of start ende"
  obtains tc' where "treeImpl_Add start ende ts txn tc = Inr tc'"
    "settled (tc\<lparr>latest := ts_forward (latest tc) ts\<rparr>) tc'"
    "mark_at tc' = pending ts (start, end_of start ende, txn, tc)"
proof (cases "Timestamp_Less (lowWater tc) ts")
  case True
  let ?tc = "tc\<lparr>latest := ts_forward (latest tc) ts\<rparr>" and ?e = "end_of start ende"
  let ?goal = "pending ts (start, ?e, txn, ?tc)"
  have low: "fst (low_mark ?tc) < ts_key ts" and st: "\<not> stale ?tc ts"
    using True assms(1) by (simp_all add: low_mark_def ts_order add_ready_def Let_def)
  have goal: "?goal = pending ts (start, ?e, txn, tc)" by (simp add: pending_def fun_eq_iff)
  obtain r where r: "add_loop ts (GetOverlaps start ?e ?tc) (start, ?e, txn, ?tc) = Inr r" "added ?tc ts ?goal [] r"
    using add_loop_ok [OF adding_start [OF assms True] low st] by blast
  show ?thesis
  proof (cases r)
    case (Inl tc')
    then show ?thesis using that [of tc'] r True goal by (simp add: treeImpl_Add_def Let_def)
  next
    case (Inr st')
    obtain rs re t tc1 where st': "st' = (rs, re, t, tc1)" by (cases st')
    have "adding ?tc ts ?goal [] (rs, re, t, tc1)" using r(2) Inr st' by simp
    then obtain tc' where "addRange rs re \<lparr>CacheTs = ts, CacheTxn = t\<rparr> tc1 = Inr tc'" "settled ?tc tc'" "mark_at tc' = ?goal"
      by (rule final_add [OF _ st])
    then show ?thesis using that [of tc'] r(1) Inr st' True goal by (simp add: treeImpl_Add_def Let_def)
  qed
next
  case False
  have "beneath (ts_key ts, txn) (low_mark tc)" using False by (auto simp: beneath_iff low_mark_def ts_order)
  moreover have "beneath (low_mark tc) (mark_at tc k)" for k using low_in_mark by (simp add: beneath_def)
  ultimately have "beneath (ts_key ts, txn) (mark_at tc k)" for k by (rule beneath_trans)
  then have "mark_at tc k = pending ts (start, end_of start ende, txn, tc) k" for k
    by (simp add: pending_def beneath_def ratchet.commute)
  then show ?thesis using that assms(1) False
    by (auto simp: treeImpl_Add_def Let_def settled_def add_ready_def tc_wf_def owed_def fun_eq_iff)
qed

end
