(* ===== verification/Txn_Record.thy ===== *)
theory Txn_Record
  imports Uncertainty Txn_Locks Ts_Cache
begin

text \<open>
  The life of a transaction record on its range: the commands \<open>HeartbeatTxn\<close>, \<open>EndTxn\<close>, \<open>PushTxn\<close> and \<open>RecoverTxn\<close>
  (\<open>pkg/kv/kvserver/batcheval\<close>), the rule that only the coordinator of a transaction may create its record,
  and then only if nobody has aborted the transaction (\<open>CanCreateTxnRecord\<close>, \<open>SynthesizeTxnFromMeta\<close>), and the
  markers that the commands leave in the timestamp cache for that purpose (\<open>replica_tscache.go\<close>,
  \<open>tscache/cache.go\<close>).

  A record is stored under its key; storing the encoded record and reading it back as a transaction is
  \<open>AsTransaction\<close> of the record, since a record has a subset of the fields of a transaction. The timestamp
  cache is a function from keys to the value that \<open>GetMax\<close> returns for the key.
\<close>

section \<open>Errors and requests\<close>

datatype TransactionAbortedReason =
    ABORT_REASON_UNKNOWN | ABORT_REASON_ABORTED_RECORD_FOUND | ABORT_REASON_CLIENT_REJECT
  | ABORT_REASON_PUSHER_ABORTED | ABORT_REASON_ABORT_SPAN
  | ABORT_REASON_RECORD_ALREADY_WRITTEN_POSSIBLE_REPLAY | ABORT_REASON_NEW_LEASE_PREVENTS_TXN
  | ABORT_REASON_TIMESTAMP_CACHE_REJECTED

text \<open>The flag of a status error tells whether the reason is that the transaction is committed.\<close>

datatype txn_error =
    Failed go_error
  | ErrTransactionUnsupported
  | TransactionStatusError bool
  | TransactionAbortedError TransactionAbortedReason
  | TransactionRetryError TransactionRetryReason
  | IndeterminateCommitError Transaction
  | TransactionPushError Transaction

definition lift_err :: "go_error + 'a \<Rightarrow> txn_error + 'a" where
  "lift_err m = (case m of Inl e \<Rightarrow> Inl (Failed e) | Inr a \<Rightarrow> Inr a)"

lemma lift_err_Inr [simp]: "lift_err m = Inr a \<longleftrightarrow> m = Inr a"
  by (cases m) (auto simp: lift_err_def)

record Header =
  HTimestamp :: Timestamp
  HTxn :: "Transaction option"

definition Header_WriteTimestamp :: "Header \<Rightarrow> Timestamp" where
  "Header_WriteTimestamp h = (case HTxn h of Some t \<Rightarrow> ts_forward (HTimestamp h) (WriteTimestamp t) | None \<Rightarrow> HTimestamp h)"

datatype PushTxnType = PUSH_TIMESTAMP | PUSH_ABORT | PUSH_TOUCH

record PushTxnRequest =
  PushKey :: bytes
  PusherTxn :: Transaction
  PusheeTxn :: TxnMeta
  PushTo :: Timestamp
  PushType :: PushTxnType
  Force :: bool

record EndTxnRequest =
  EndReqKey :: bytes
  Commit :: bool
  Deadline :: "Timestamp option"
  HasTrigger :: bool
  MergedDesc :: "RangeDescriptor option"
  ReqLockSpans :: "Span list"
  ReqInFlightWrites :: "SequencedWrite list"
  Require1PC :: bool
  Poison :: bool

record RecoverTxnRequest =
  RecoverKey :: bytes
  RecoverMeta :: TxnMeta
  ImplicitlyCommitted :: bool

section \<open>The timestamp cache\<close>

text \<open>Each key has a value of its own that is ratcheted up, which is what the interval cache comes to.\<close>

type_synonym ts_cache = "bytes \<Rightarrow> cacheValue"

definition cache_add :: "bytes \<Rightarrow> cacheValue \<Rightarrow> ts_cache \<Rightarrow> ts_cache" where
  "cache_add key v c = c(key := fst (ratchetValue (c key) v))"

definition addToTSCacheChecked :: "Timestamp \<Rightarrow> bytes \<Rightarrow> Timestamp \<Rightarrow> uuid \<Rightarrow> ts_cache \<Rightarrow> go_error + ts_cache" where
  "addToTSCacheChecked expiration start ts txnID c =
     (if Timestamp_LessEq expiration ts then Inl (LogFatalf ''Unsafe timestamp cache update!'')
      else Inr (cache_add start \<lparr>CacheTs = ts, CacheTxn = txnID\<rparr> c))"

definition transactionTombstoneMarker :: "bytes \<Rightarrow> uuid \<Rightarrow> go_error + bytes" where
  "transactionTombstoneMarker key txnID = res_bind (TransactionKey key txnID) (\<lambda>k. Inr (k @ ascii ''-tmbs''))"

definition transactionPushMarker :: "bytes \<Rightarrow> uuid \<Rightarrow> go_error + bytes" where
  "transactionPushMarker key txnID = res_bind (TransactionKey key txnID) (\<lambda>k. Inr (k @ ascii ''-push''))"

section \<open>The range and its environment\<close>

record 'st range_state =
  Records :: "bytes \<rightharpoonup> TransactionRecord"
  TsCache :: ts_cache
  Aborts :: abort_span
  Store :: 'st

text \<open>
  What a command takes from its surroundings: the range and its lease, the clock, the liveness threshold of
  transactions, the operations of the engine, the commit trigger of the request, and two switches.
\<close>

record 'st eval_env =
  Ops :: "'st storage_ops"
  RangeID :: int64
  Desc :: RangeDescriptor
  LeaseStartTs :: Timestamp
  LeaseExpiration :: Timestamp
  ClockNow :: Timestamp
  TxnLivenessThreshold :: int64
  RunCommitTrigger :: "Transaction \<Rightarrow> 'st \<Rightarrow> go_error + 'st"
  txnAutoGC :: bool
  RecoverOnFailedPush :: bool

definition Replica_CanCreateTxnRecord ::
  "'st eval_env \<Rightarrow> ts_cache \<Rightarrow> uuid \<Rightarrow> bytes \<Rightarrow> Timestamp \<Rightarrow> go_error + TransactionAbortedReason + Timestamp" where
  "Replica_CanCreateTxnRecord env c txnID txnKey txnMinTS =
     res_bind (transactionTombstoneMarker txnKey txnID) (\<lambda>tombstoneKey.
     res_bind (transactionPushMarker txnKey txnID) (\<lambda>pushKey.
       let minCommitTS = CacheTs (c pushKey);
           tombstoneTimestamp = CacheTs (c tombstoneKey); tombstoneTxnID = CacheTxn (c tombstoneKey)
       in if Timestamp_LessEq txnMinTS tombstoneTimestamp then
            Inr (Inl (if tombstoneTxnID = txnID then ABORT_REASON_RECORD_ALREADY_WRITTEN_POSSIBLE_REPLAY
              else if tombstoneTxnID = uuid_Nil then
                if tombstoneTimestamp = LeaseStartTs env then ABORT_REASON_NEW_LEASE_PREVENTS_TXN
                else ABORT_REASON_TIMESTAMP_CACHE_REJECTED
              else ABORT_REASON_ABORTED_RECORD_FOUND))
          else Inr (Inr minCommitTS)))"

definition CanCreateTxnRecord :: "'st eval_env \<Rightarrow> ts_cache \<Rightarrow> Transaction \<Rightarrow> txn_error + Transaction" where
  "CanCreateTxnRecord env c txn =
     res_bind (lift_err (Replica_CanCreateTxnRecord env c (ID txn) (TxnKey txn) (MinTimestamp txn))) (\<lambda>r.
       case r of Inl reason \<Rightarrow> Inl (TransactionAbortedError reason)
       | Inr minCommitTS \<Rightarrow> Inr (txn\<lparr>WriteTimestamp := ts_forward (WriteTimestamp txn) minCommitTS\<rparr>))"

definition SynthesizeTxnFromMeta :: "'st eval_env \<Rightarrow> ts_cache \<Rightarrow> TxnMeta \<Rightarrow> txn_error + Transaction" where
  "SynthesizeTxnFromMeta env c txn =
     (let synth = TxnMeta.extend txn (TransactionRecord.fields PENDING (MinTimestamp txn) [] [] []) in
      if Timestamp_IsEmpty (MinTimestamp txn) then Inr (AsTransaction (synth\<lparr>Status := ABORTED\<rparr>))
      else res_bind (lift_err (Replica_CanCreateTxnRecord env c (ID txn) (TxnKey txn) (MinTimestamp txn))) (\<lambda>r.
        case r of
          Inr minCommitTS \<Rightarrow> Inr (AsTransaction (synth\<lparr>WriteTimestamp := ts_forward (WriteTimestamp synth) minCommitTS\<rparr>))
        | Inl _ \<Rightarrow> Inr (AsTransaction (synth\<lparr>Status := ABORTED\<rparr>))))"

definition VerifyTransaction :: "Header \<Rightarrow> bytes \<Rightarrow> TransactionStatus list \<Rightarrow> txn_error + Transaction" where
  "VerifyTransaction h argsKey permittedStatuses =
     (case HTxn h of None \<Rightarrow> Inl (Failed (AssertionFailedf ''no transaction specified''))
      | Some txn \<Rightarrow>
          if argsKey \<noteq> TxnKey txn then Inl (Failed (AssertionFailedf ''request key should match txn key''))
          else if Status txn \<notin> set permittedStatuses then Inl (TransactionStatusError (Status txn = COMMITTED))
          else Inr txn)"

section \<open>Heartbeats\<close>

text \<open>A command returns the transaction of its reply and the new state of the range; the cache is updated afterwards.\<close>

definition HeartbeatTxn :: "'st eval_env \<Rightarrow> Header \<Rightarrow> bytes \<Rightarrow> Timestamp \<Rightarrow> 'st range_state \<Rightarrow> txn_error + Transaction \<times> 'st range_state" where
  "HeartbeatTxn env h argsKey now st =
     res_bind (VerifyTransaction h argsKey [PENDING, STAGING]) (\<lambda>htxn.
       if Timestamp_IsEmpty now then Inl (Failed (Errorf ''now not specified for heartbeat''))
       else res_bind (lift_err (TransactionKey (TxnKey htxn) (ID htxn))) (\<lambda>key.
         res_bind (case Records st key of Some r \<Rightarrow> Inr (AsTransaction r)
             | None \<Rightarrow> CanCreateTxnRecord env (TsCache st) htxn) (\<lambda>txn.
           if IsFinalized (Status txn) then Inr (txn, st)
           else let txn = txn\<lparr>LastHeartbeat := ts_forward (LastHeartbeat txn) now\<rparr>
                in Inr (txn, st\<lparr>Records := (Records st)(key \<mapsto> AsRecord txn)\<rparr>))))"

section \<open>Committing and rolling back\<close>

definition IsEndTxnExceedingDeadline :: "Timestamp \<Rightarrow> Timestamp option \<Rightarrow> bool" where
  "IsEndTxnExceedingDeadline commitTS deadline =
     (case deadline of None \<Rightarrow> False | Some d \<Rightarrow> \<not> Timestamp_IsEmpty d \<and> Timestamp_LessEq d commitTS)"

definition IsEndTxnTriggeringRetryError :: "Transaction \<Rightarrow> EndTxnRequest \<Rightarrow> TransactionRetryReason option" where
  "IsEndTxnTriggeringRetryError txn args =
     (if WriteTooOld txn then Some RETRY_WRITE_TOO_OLD
      else if WriteTimestamp txn \<noteq> ReadTimestamp txn then Some RETRY_SERIALIZABLE
      else if IsEndTxnExceedingDeadline (WriteTimestamp txn) (Deadline args) then Some RETRY_COMMIT_DEADLINE_EXCEEDED
      else None)"

definition IsParallelCommit :: "EndTxnRequest \<Rightarrow> bool" where
  "IsParallelCommit args \<longleftrightarrow> Commit args \<and> length (ReqInFlightWrites args) > 0"

definition updateStagingTxn :: "bytes \<Rightarrow> EndTxnRequest \<Rightarrow> Transaction \<Rightarrow> 'st range_state \<Rightarrow> Transaction \<times> 'st range_state" where
  "updateStagingTxn key args txn st =
     (let txn = txn\<lparr>LockSpans := ReqLockSpans args, InFlightWrites := ReqInFlightWrites args\<rparr>
      in (txn, st\<lparr>Records := (Records st)(key \<mapsto> AsRecord txn)\<rparr>))"

definition updateFinalizedTxn ::
  "bool \<Rightarrow> bytes \<Rightarrow> Transaction \<Rightarrow> bool \<Rightarrow> Span list \<Rightarrow> 'st range_state \<Rightarrow> Transaction \<times> 'st range_state" where
  "updateFinalizedTxn autoGC key txn recordAlreadyExisted externalLocks st =
     (if autoGC \<and> length externalLocks = 0 then
        (txn, if \<not> recordAlreadyExisted then st else st\<lparr>Records := (Records st)(key := None)\<rparr>)
      else let txn = txn\<lparr>LockSpans := externalLocks, InFlightWrites := []\<rparr>
           in (txn, st\<lparr>Records := (Records st)(key \<mapsto> AsRecord txn)\<rparr>))"

text \<open>The locks of the range are resolved, the record is written or removed, and a commit runs its trigger.\<close>

definition end_finalize ::
  "'st eval_env \<Rightarrow> bytes \<Rightarrow> EndTxnRequest \<Rightarrow> bool \<Rightarrow> Transaction \<Rightarrow> 'st range_state \<Rightarrow> txn_error + Transaction \<times> 'st range_state" where
  "end_finalize env key args existed txn st =
     res_bind (lift_err (resolveLocalLocks (Ops env) (RangeID env) (Desc env) (MergedDesc args) (HasTrigger args)
         (ReqLockSpans args) (Poison args) txn (Aborts st) (Store st))) (\<lambda>(resolved, external, asp, eng).
       let (txn, st) = updateFinalizedTxn (txnAutoGC env) key txn existed external (st\<lparr>Aborts := asp, Store := eng\<rparr>)
       in if Status txn = COMMITTED \<and> HasTrigger args
          then res_bind (lift_err (RunCommitTrigger env txn (Store st))) (\<lambda>eng. Inr (txn, st\<lparr>Store := eng\<rparr>))
          else Inr (txn, st))"

definition end_decide ::
  "'st eval_env \<Rightarrow> bytes \<Rightarrow> EndTxnRequest \<Rightarrow> bool \<Rightarrow> Transaction \<Rightarrow> 'st range_state \<Rightarrow> txn_error + Transaction \<times> 'st range_state" where
  "end_decide env key args existed txn st =
     (if Commit args then
        case IsEndTxnTriggeringRetryError txn args of Some reason \<Rightarrow> Inl (TransactionRetryError reason)
        | None \<Rightarrow>
            if IsParallelCommit args then
              if HasTrigger args then Inl (Failed (Errorf ''cannot stage transaction with a commit trigger''))
              else Inr (updateStagingTxn key args (txn\<lparr>Status := STAGING\<rparr>) st)
            else end_finalize env key args existed (txn\<lparr>Status := COMMITTED\<rparr>) st
      else if Status txn = STAGING then Inl (IndeterminateCommitError txn)
      else end_finalize env key args existed (txn\<lparr>Status := ABORTED\<rparr>) st)"

definition EndTxn :: "'st eval_env \<Rightarrow> Header \<Rightarrow> EndTxnRequest \<Rightarrow> 'st range_state \<Rightarrow> txn_error + Transaction \<times> 'st range_state" where
  "EndTxn env h args st =
     res_bind (VerifyTransaction h (EndReqKey args) [PENDING, STAGING, ABORTED]) (\<lambda>htxn.
       if Require1PC args then Inl (Failed (AssertionFailedf ''unexpectedly trying to evaluate EndTxn with the Require1PC flag set''))
       else if Commit args \<and> Poison args then Inl (Failed (AssertionFailedf ''cannot poison during a committing EndTxn request''))
       else res_bind (lift_err (TransactionKey (TxnKey htxn) (ID htxn))) (\<lambda>key.
         case Records st key of
           None \<Rightarrow> res_bind (if Commit args then CanCreateTxnRecord env (TsCache st) htxn else Inr htxn)
             (\<lambda>txn. end_decide env key args False txn st)
         | Some r \<Rightarrow>
             let existing = AsTransaction r;
                 update = (\<lambda>t. res_bind (lift_err (Transaction_Update (Some htxn) t)) (\<lambda>txn. end_decide env key args True txn st));
                 regression = Inl (Failed (AssertionFailedf ''programming error: epoch regression''))
             in case Status existing of
                 COMMITTED \<Rightarrow> Inl (TransactionStatusError True)
               | ABORTED \<Rightarrow>
                   if \<not> Commit args then end_finalize env key args True existing st
                   else Inl (TransactionAbortedError ABORT_REASON_ABORTED_RECORD_FOUND)
               | PENDING \<Rightarrow> if sint (Epoch htxn) < sint (Epoch existing) then regression else update existing
               | STAGING \<Rightarrow>
                   if sint (Epoch htxn) < sint (Epoch existing) then regression
                   else update (if sint (Epoch htxn) > sint (Epoch existing) then existing\<lparr>Status := PENDING\<rparr> else existing)))"

section \<open>Pushing\<close>

definition CanPushWithPriority :: "int32 \<Rightarrow> int32 \<Rightarrow> bool" where
  "CanPushWithPriority pusher pushee \<longleftrightarrow>
     sint pusher > sint pushee \<and> (pusher = MaxTxnPriority \<or> pushee = MinTxnPriority)"

definition ShouldPushImmediately :: "PushTxnRequest \<Rightarrow> bool" where
  "ShouldPushImmediately req =
     (if Force req then True
      else if \<not> (PushType req = PUSH_ABORT \<or> PushType req = PUSH_TIMESTAMP) then True
      else if CanPushWithPriority (Priority (PusherTxn req)) (Priority (PusheeTxn req)) then True
      else False)"

definition isPushed :: "PushTxnRequest \<Rightarrow> Transaction \<Rightarrow> bool" where
  "isPushed req txn \<longleftrightarrow> IsFinalized (Status txn) \<or>
     PushType req = PUSH_TIMESTAMP \<and> Timestamp_LessEq (PushTo req) (WriteTimestamp txn)"

definition TxnExpiration :: "int64 \<Rightarrow> Transaction \<Rightarrow> Timestamp" where
  "TxnExpiration threshold txn = Timestamp_Add (LastActive txn) threshold 0"

definition IsExpired :: "int64 \<Rightarrow> Timestamp \<Rightarrow> Transaction \<Rightarrow> bool" where
  "IsExpired threshold now txn \<longleftrightarrow> Timestamp_Less (TxnExpiration threshold txn) now"

text \<open>
  What the pusher knows of the pushee is folded into the pushee found on the range; the type of the push may
  change on the way.
\<close>

definition push_absorb :: "PushTxnRequest \<Rightarrow> Transaction \<Rightarrow> Transaction \<times> PushTxnType" where
  "push_absorb args pushee =
     (let meta = PusheeTxn args;
          higherTs = Timestamp_Less (WriteTimestamp pushee) (WriteTimestamp meta);
          higherEpoch = sint (Epoch pushee) < sint (Epoch meta);
          pushee = (if higherTs then pushee\<lparr>WriteTimestamp := WriteTimestamp meta\<rparr> else pushee);
          pushee = (if higherEpoch then pushee\<lparr>Epoch := Epoch meta\<rparr> else pushee);
          pushee = UpgradePriority (Priority meta) pushee
      in if (higherTs \<or> higherEpoch) \<and> Status pushee = STAGING
         then (pushee\<lparr>Status := PENDING, InFlightWrites := []\<rparr>,
               if \<not> higherEpoch \<and> PushType args = PUSH_TIMESTAMP then PUSH_ABORT else PushType args)
         else (pushee, PushType args))"

definition push_decide :: "'st eval_env \<Rightarrow> PushTxnRequest \<Rightarrow> Transaction \<Rightarrow> PushTxnType \<Rightarrow> bool \<times> PushTxnType" where
  "push_decide env args pushee pushType =
     (if IsExpired (TxnLivenessThreshold env) (ClockNow env) pushee then (True, PUSH_ABORT)
      else if pushType = PUSH_TOUCH then (False, pushType)
      else if CanPushWithPriority (Priority (PusherTxn args)) (Priority pushee) then (True, pushType)
      else (Force args, pushType))"

definition push_apply :: "PushTxnRequest \<Rightarrow> bool \<Rightarrow> Transaction \<Rightarrow> PushTxnType \<Rightarrow> txn_error + Transaction" where
  "push_apply args existed pushee pushType =
     (let pushee = UpgradePriority (Priority (PusherTxn args) - 1) pushee
      in case pushType of
          PUSH_ABORT \<Rightarrow>
            let pushee = pushee\<lparr>Status := ABORTED\<rparr>
            in Inr (if existed then pushee\<lparr>WriteTimestamp := ts_forward (WriteTimestamp pushee) (LastActive pushee)\<rparr> else pushee)
        | PUSH_TIMESTAMP \<Rightarrow> Inr (pushee\<lparr>WriteTimestamp := ts_forward (WriteTimestamp pushee) (PushTo args)\<rparr>)
        | PUSH_TOUCH \<Rightarrow> Inl (Failed (AssertionFailedf ''unexpected push type'')))"

definition push_found :: "'st eval_env \<Rightarrow> bytes \<Rightarrow> PushTxnRequest \<Rightarrow> bool \<Rightarrow> Transaction \<Rightarrow> 'st range_state \<Rightarrow> txn_error + Transaction \<times> 'st range_state" where
  "push_found env key args existed pushee st =
     (if IsFinalized (Status pushee) then Inr (pushee, st)
      else if PushType args = PUSH_TIMESTAMP \<and> Timestamp_LessEq (PushTo args) (WriteTimestamp pushee) then Inr (pushee, st)
      else
        let (pushee, pushType) = push_absorb args pushee;
            (pusherWins, pushType) = push_decide env args pushee pushType
        in if Status pushee = STAGING \<and> (pusherWins \<or> RecoverOnFailedPush env) then Inl (IndeterminateCommitError pushee)
           else if \<not> pusherWins then Inl (TransactionPushError pushee)
           else res_bind (push_apply args existed pushee pushType) (\<lambda>pushee.
             Inr (pushee, if existed then st\<lparr>Records := (Records st)(key \<mapsto> AsRecord pushee)\<rparr> else st)))"

definition PushTxn :: "'st eval_env \<Rightarrow> Header \<Rightarrow> PushTxnRequest \<Rightarrow> 'st range_state \<Rightarrow> txn_error + Transaction \<times> 'st range_state" where
  "PushTxn env h args st =
     (if HTxn h \<noteq> None then Inl ErrTransactionUnsupported
      else if Timestamp_Less (Header_WriteTimestamp h) (PushTo args)
        then Inl (Failed (AssertionFailedf ''request timestamp less than PushTo timestamp''))
      else if Timestamp_Less (Header_WriteTimestamp h) (MinTimestamp (PusheeTxn args))
        then Inl (Failed (AssertionFailedf ''request timestamp less than pushee txn MinTimestamp''))
      else if PushKey args \<noteq> TxnKey (PusheeTxn args)
        then Inl (Failed (AssertionFailedf ''request key should match pushee txn key''))
      else res_bind (lift_err (TransactionKey (TxnKey (PusheeTxn args)) (ID (PusheeTxn args)))) (\<lambda>key.
        case Records st key of
          Some r \<Rightarrow> push_found env key args True (AsTransaction r) st
        | None \<Rightarrow> res_bind (SynthesizeTxnFromMeta env (TsCache st) (PusheeTxn args)) (\<lambda>synth.
            if Status synth = ABORTED then Inr (synth, st) else push_found env key args False synth st)))"

section \<open>Recovery\<close>

definition recover_finalize :: "bytes \<Rightarrow> bool \<Rightarrow> Transaction \<Rightarrow> 'st range_state \<Rightarrow> Transaction \<times> 'st range_state" where
  "recover_finalize key committed txn st =
     (let spans = LockSpans txn @ map (\<lambda>w. \<lparr>Key = WriteKey w, EndKey = None\<rparr>) (InFlightWrites txn);
          txn = txn\<lparr>LockSpans := fst (MergeSpans spans), InFlightWrites := [],
                     Status := (if committed then COMMITTED else ABORTED)\<rparr>
      in (txn, st\<lparr>Records := (Records st)(key \<mapsto> AsRecord txn)\<rparr>))"

definition RecoverTxn :: "'st eval_env \<Rightarrow> Header \<Rightarrow> RecoverTxnRequest \<Rightarrow> 'st range_state \<Rightarrow> txn_error + Transaction \<times> 'st range_state" where
  "RecoverTxn env h args st =
     (let meta = RecoverMeta args in
      if HTxn h \<noteq> None then Inl ErrTransactionUnsupported
      else if Timestamp_Less (Header_WriteTimestamp h) (MinTimestamp meta)
        then Inl (Failed (AssertionFailedf ''RecoverTxn request timestamp less than txn MinTimestamp''))
      else if RecoverKey args \<noteq> TxnKey meta
        then Inl (Failed (AssertionFailedf ''RecoverTxn request key does not match txn key''))
      else res_bind (lift_err (TransactionKey (TxnKey meta) (ID meta))) (\<lambda>key.
        case Records st key of
          None \<Rightarrow> res_bind (SynthesizeTxnFromMeta env (TsCache st) meta) (\<lambda>synth.
            if Status synth \<noteq> ABORTED then Inl (Failed (Errorf ''txn record synthesized with non-ABORTED status''))
            else Inr (synth, st))
        | Some r \<Rightarrow>
            let txn = AsTransaction r in
            if ImplicitlyCommitted args then
              if Status txn = PENDING \<or> Status txn = ABORTED
                then Inl (Failed (AssertionFailedf ''programming error: found record for implicitly committed transaction''))
              else if Epoch meta \<noteq> Epoch txn
                then Inl (Failed (AssertionFailedf ''programming error: epoch change by implicitly committed transaction''))
              else if WriteTimestamp meta \<noteq> WriteTimestamp txn
                then Inl (Failed (AssertionFailedf ''programming error: timestamp change by implicitly committed transaction''))
              else if Status txn = COMMITTED then Inr (txn, st)
              else Inr (recover_finalize key True txn st)
            else
              let legalChange = sint (Epoch meta) < sint (Epoch txn) \<or>
                    Timestamp_Less (WriteTimestamp meta) (WriteTimestamp txn)
              in case Status txn of
                  ABORTED \<Rightarrow> Inr (txn, st)
                | COMMITTED \<Rightarrow> Inr (txn, st)
                | PENDING \<Rightarrow> if sint (Epoch meta) < sint (Epoch txn) then Inr (txn, st)
                    else Inl (Failed (AssertionFailedf ''programming error: cannot recover PENDING transaction in same epoch''))
                | STAGING \<Rightarrow> if legalChange then Inr (txn, st) else Inr (recover_finalize key False txn st)))"

section \<open>Serving a request\<close>

datatype txn_request =
    HeartbeatReq bytes Timestamp
  | EndReq EndTxnRequest
  | PushReq PushTxnRequest
  | RecoverReq RecoverTxnRequest

definition evaluate :: "'st eval_env \<Rightarrow> Header \<Rightarrow> txn_request \<Rightarrow> 'st range_state \<Rightarrow> txn_error + Transaction \<times> 'st range_state" where
  "evaluate env h req st = (case req of
      HeartbeatReq key now \<Rightarrow> HeartbeatTxn env h key now st
    | EndReq args \<Rightarrow> EndTxn env h args st
    | PushReq args \<Rightarrow> PushTxn env h args st
    | RecoverReq args \<Rightarrow> RecoverTxn env h args st)"

text \<open>The transaction named by the header of a batch, and none for a batch without one.\<close>

definition header_txnID :: "Header \<Rightarrow> uuid" where
  "header_txnID h = (case HTxn h of Some t \<Rightarrow> ID t | None \<Rightarrow> uuid_Nil)"

definition updateTimestampCache :: "'st eval_env \<Rightarrow> Header \<Rightarrow> txn_request \<Rightarrow> Transaction \<Rightarrow> ts_cache \<Rightarrow> go_error + ts_cache" where
  "updateTimestampCache env h req reply c =
     (let add = (\<lambda>key ts txnID. addToTSCacheChecked (LeaseExpiration env) key ts txnID c);
          ts = HTimestamp h; txnID = header_txnID h
      in case req of
          EndReq args \<Rightarrow> res_bind (transactionTombstoneMarker (EndReqKey args) txnID) (\<lambda>key. add key ts txnID)
        | HeartbeatReq start now \<Rightarrow> res_bind (transactionTombstoneMarker start txnID) (\<lambda>key. add key ts txnID)
        | RecoverReq args \<Rightarrow>
            if IsFinalized (Status reply)
            then res_bind (transactionTombstoneMarker (RecoverKey args) (ID reply)) (\<lambda>key. add key ts (ID reply))
            else Inr c
        | PushReq args \<Rightarrow>
            (case Status reply of
               PENDING \<Rightarrow> res_bind (transactionPushMarker (PushKey args) (ID reply))
                 (\<lambda>key. add key (WriteTimestamp reply) (ID (PusherTxn args)))
             | ABORTED \<Rightarrow> res_bind (transactionTombstoneMarker (PushKey args) (ID reply))
                 (\<lambda>key. add key (MinTimestamp reply) (ID (PusherTxn args)))
             | STAGING \<Rightarrow> Inr c
             | COMMITTED \<Rightarrow> Inr c))"

definition serve :: "'st eval_env \<Rightarrow> Header \<Rightarrow> txn_request \<Rightarrow> 'st range_state \<Rightarrow> txn_error + Transaction \<times> 'st range_state" where
  "serve env h req st =
     res_bind (evaluate env h req st) (\<lambda>(reply, st').
       res_bind (lift_err (updateTimestampCache env h req reply (TsCache st'))) (\<lambda>c. Inr (reply, st'\<lparr>TsCache := c\<rparr>)))"

definition SetActiveTimestamp :: "ClockTimestamp \<Rightarrow> Header \<Rightarrow> go_error + Header" where
  "SetActiveTimestamp now h =
     (case HTxn h of
        Some txn \<Rightarrow> if \<not> Timestamp_IsEmpty (HTimestamp h) then Inl (Errorf ''transactional request must not set batch timestamp'')
          else Inr (h\<lparr>HTimestamp := ReadTimestamp txn\<rparr>)
      | None \<Rightarrow> if Timestamp_IsEmpty (HTimestamp h)
          then res_bind (ClockTimestamp_ToTimestamp now) (\<lambda>ts. Inr (h\<lparr>HTimestamp := ts\<rparr>)) else Inr h)"

section \<open>Runs of a range\<close>

text \<open>
  Every transaction has one anchor key and one minimal timestamp: \<open>txns\<close> gives them for each identifier. A
  request carries the metadata of the transaction it is about; the coordinator of a transaction sends it as
  it holds it.
\<close>

definition anchored :: "(uuid \<Rightarrow> bytes \<times> Timestamp) \<Rightarrow> 'a TxnMeta_scheme \<Rightarrow> bool" where
  "anchored txns t \<longleftrightarrow> length (ID t) = 16 \<and> txns (ID t) = (TxnKey t, MinTimestamp t)"

definition proper :: "(uuid \<Rightarrow> bytes \<times> Timestamp) \<Rightarrow> Header \<Rightarrow> txn_request \<Rightarrow> bool" where
  "proper txns h req = (case req of
      HeartbeatReq _ _ \<Rightarrow> (case HTxn h of Some t \<Rightarrow> anchored txns t \<and> txn_wf t | None \<Rightarrow> False)
    | EndReq _ \<Rightarrow> (case HTxn h of Some t \<Rightarrow> anchored txns t \<and> txn_wf t | None \<Rightarrow> False)
    | PushReq args \<Rightarrow> HTxn h = None \<and> anchored txns (PusheeTxn args)
    | RecoverReq args \<Rightarrow> HTxn h = None \<and> anchored txns (RecoverMeta args))"

text \<open>
  The steps of a range: it serves a request, a finalised record is garbage collected, or any other use of the
  timestamp cache ratchets one of its values.
\<close>

type_synonym event = "(txn_request \<times> Transaction) option"

inductive txn_step :: "(uuid \<Rightarrow> bytes \<times> Timestamp) \<Rightarrow> 'st range_state \<Rightarrow> event \<Rightarrow> 'st range_state \<Rightarrow> bool" for txns where
  request: "SetActiveTimestamp now h0 = Inr h \<Longrightarrow> proper txns h req \<Longrightarrow> serve env h req s = Inr (t, s') \<Longrightarrow>
    txn_step txns s (Some (req, t)) s'"
| gc: "Records s key = Some r \<Longrightarrow> IsFinalized (Status r) \<Longrightarrow>
    txn_step txns s None (s\<lparr>Records := (Records s)(key := None)\<rparr>)"
| ratchet: "txn_step txns s None (s\<lparr>TsCache := cache_add key v (TsCache s)\<rparr>)"

inductive run :: "('s \<Rightarrow> 'l \<Rightarrow> 's \<Rightarrow> bool) \<Rightarrow> 's \<Rightarrow> 'l list \<Rightarrow> 's \<Rightarrow> bool" for step where
  run_nil: "run step s [] s"
| run_cons: "step s l s1 \<Longrightarrow> run step s1 ls s2 \<Longrightarrow> run step s (l # ls) s2"

inductive_simps run_Nil [simp]: "run step s [] s2"
inductive_simps run_Cons [simp]: "run step s (l # ls) s2"

lemma run_append: "run step s (xs @ ys) s2 \<longleftrightarrow> (\<exists>s1. run step s xs s1 \<and> run step s1 ys s2)"
  by (induction xs arbitrary: s) auto

section \<open>The contract of transaction records\<close>

text \<open>
  What the commands guarantee about the record of each tracked transaction, in terms of its record, its
  tombstone and its push marker. A step is labelled; \<open>commits\<close> and \<open>pushes\<close> read from the label that the
  transaction was committed or staged, and that a push of it succeeded.
\<close>

definition advances :: "TransactionRecord \<Rightarrow> TransactionRecord \<Rightarrow> bool" where
  "advances r r' \<longleftrightarrow> sint (Epoch r) \<le> sint (Epoch r') \<and>
     ts_key (WriteTimestamp r) \<le> ts_key (WriteTimestamp r') \<and>
     (IsFinalized (Status r) \<longrightarrow> Status r' = Status r) \<and>
     (Status r = STAGING \<and> Status r' = PENDING \<longrightarrow> sint (Epoch r) < sint (Epoch r'))"

locale record_protocol =
  fixes step :: "'s \<Rightarrow> 'l \<Rightarrow> 's \<Rightarrow> bool"
    and inv :: "'s \<Rightarrow> bool"
    and tracked :: "'i \<Rightarrow> bool"
    and record_of :: "'i \<Rightarrow> 's \<Rightarrow> TransactionRecord option"
    and tombstoned :: "'i \<Rightarrow> 's \<Rightarrow> bool"
    and push_floor :: "'i \<Rightarrow> 's \<Rightarrow> int \<times> int"
    and commits :: "'i \<Rightarrow> 'l \<Rightarrow> Transaction option"
    and pushes :: "'i \<Rightarrow> 'l \<Rightarrow> Transaction option"
  assumes inv_step: "step s l s' \<Longrightarrow> inv s \<Longrightarrow> inv s'"
    and recorded: "inv s \<Longrightarrow> tracked i \<Longrightarrow> record_of i s = Some r \<Longrightarrow> tombstoned i s"
    and tombstone_stays: "step s l s' \<Longrightarrow> inv s \<Longrightarrow> tracked i \<Longrightarrow> tombstoned i s \<Longrightarrow> tombstoned i s'"
    and floor_rises: "step s l s' \<Longrightarrow> inv s \<Longrightarrow> tracked i \<Longrightarrow> push_floor i s \<le> push_floor i s'"
    and created: "step s l s' \<Longrightarrow> inv s \<Longrightarrow> tracked i \<Longrightarrow> record_of i s = None \<Longrightarrow> record_of i s' = Some r \<Longrightarrow>
      Status r = ABORTED \<or> \<not> tombstoned i s \<and> push_floor i s \<le> ts_key (WriteTimestamp r)"
    and advanced: "step s l s' \<Longrightarrow> inv s \<Longrightarrow> tracked i \<Longrightarrow> record_of i s = Some r \<Longrightarrow> record_of i s' = Some r' \<Longrightarrow>
      advances r r'"
    and committed: "step s l s' \<Longrightarrow> inv s \<Longrightarrow> tracked i \<Longrightarrow> commits i l = Some t \<Longrightarrow>
      (case record_of i s of None \<Rightarrow> \<not> tombstoned i s \<and> push_floor i s \<le> ts_key (WriteTimestamp t)
       | Some r \<Rightarrow> Status r \<noteq> ABORTED \<and> ts_key (WriteTimestamp r) \<le> ts_key (WriteTimestamp t))"
    and pushed: "step s l s' \<Longrightarrow> inv s \<Longrightarrow> tracked i \<Longrightarrow> pushes i l = Some t \<Longrightarrow>
      (case record_of i s' of
         None \<Rightarrow> tombstoned i s' \<or> Status t \<noteq> ABORTED \<and> ts_key (WriteTimestamp t) \<le> push_floor i s'
       | Some r \<Rightarrow> Status r = Status t \<and> ts_key (WriteTimestamp t) \<le> ts_key (WriteTimestamp r))"
begin

definition dead :: "'i \<Rightarrow> 's \<Rightarrow> bool" where
  "dead i s \<longleftrightarrow> tombstoned i s \<and> (\<forall>r. record_of i s = Some r \<longrightarrow> Status r = ABORTED)"

definition floored :: "'i \<Rightarrow> int \<times> int \<Rightarrow> 's \<Rightarrow> bool" where
  "floored i w s \<longleftrightarrow> (case record_of i s of None \<Rightarrow> tombstoned i s \<or> w \<le> push_floor i s
     | Some r \<Rightarrow> Status r = ABORTED \<or> w \<le> ts_key (WriteTimestamp r))"

lemma dead_step:
  assumes "step s l s'" "inv s" "tracked i" "dead i s" shows "dead i s' \<and> commits i l = None"
proof -
  have "commits i l = None"
    using committed [OF assms(1-3)] assms(4) by (cases "commits i l") (auto simp: dead_def split: option.splits)
  moreover have "Status r = ABORTED" if r: "record_of i s' = Some r" for r
  proof (cases "record_of i s")
    case None
    then show ?thesis using created [OF assms(1-3) _ r] assms(4) by (auto simp: dead_def)
  next
    case (Some q)
    then show ?thesis using advanced [OF assms(1-3) Some r] assms(4) by (auto simp: dead_def advances_def)
  qed
  ultimately show ?thesis using tombstone_stays [OF assms(1-3)] assms(4) by (simp add: dead_def)
qed

lemma floored_step:
  assumes "step s l s'" "inv s" "tracked i" "floored i w s"
  shows "floored i w s' \<and> (\<forall>t. commits i l = Some t \<longrightarrow> w \<le> ts_key (WriteTimestamp t))"
proof -
  have "floored i w s'"
  proof (cases "record_of i s'")
    case None
    then show ?thesis using assms(4) tombstone_stays [OF assms(1-3)] floor_rises [OF assms(1-3)] recorded [OF assms(2,3)]
      by (fastforce simp: floored_def split: option.splits)
  next
    case r: (Some r)
    show ?thesis
    proof (cases "record_of i s")
      case None
      then show ?thesis using created [OF assms(1-3) None r] assms(4) r by (auto simp: floored_def)
    next
      case (Some q)
      then show ?thesis using advanced [OF assms(1-3) Some r] assms(4) r by (auto simp: floored_def advances_def)
    qed
  qed
  moreover have "w \<le> ts_key (WriteTimestamp t)" if "commits i l = Some t" for t
    using committed [OF assms(1-3) that] assms(4) by (auto simp: floored_def split: option.splits)
  ultimately show ?thesis by blast
qed

lemma inv_run: "run step s ls s' \<Longrightarrow> inv s \<Longrightarrow> inv s'"
  by (induction rule: run.induct) (auto intro: inv_step)

lemma dead_run: "run step s ls s' \<Longrightarrow> inv s \<Longrightarrow> tracked i \<Longrightarrow> dead i s \<Longrightarrow> l \<in> set ls \<Longrightarrow> commits i l = None"
  by (induction rule: run.induct) (auto dest: dead_step intro: inv_step)

lemma floored_run:
  "run step s ls s' \<Longrightarrow> inv s \<Longrightarrow> tracked i \<Longrightarrow> floored i w s \<Longrightarrow> l \<in> set ls \<Longrightarrow> commits i l = Some t \<Longrightarrow>
   w \<le> ts_key (WriteTimestamp t)"
proof (induction rule: run.induct)
  case (run_cons s k s1 ls s2)
  then show ?case using floored_step [of s k s1 i w] inv_step [of s k s1] by auto
qed simp

lemma abort_is_final:
  assumes "run step s (xs @ l # ys) s'" "inv s" "tracked i" "pushes i l = Some t" "Status t = ABORTED" "k \<in> set ys"
  shows "commits i k = None"
proof -
  obtain s1 s2 where r: "run step s xs s1" "step s1 l s2" "run step s2 ys s'"
    using assms(1) by (auto simp: run_append)
  have inv: "inv s1" "inv s2" using inv_step [OF r(2)] inv_run [OF r(1)] assms(2) by blast+
  then have "dead i s2" using pushed [OF r(2) inv(1) assms(3,4)] recorded [OF inv(2) assms(3)] assms(5)
    by (auto simp: dead_def split: option.splits)
  then show ?thesis using dead_run [OF r(3) inv(2) assms(3)] assms(6) by blast
qed

lemma push_is_honoured:
  assumes "run step s (xs @ l # ys) s'" "inv s" "tracked i" "pushes i l = Some t" "k \<in> set ys" "commits i k = Some u"
  shows "ts_key (WriteTimestamp t) \<le> ts_key (WriteTimestamp u)"
proof -
  obtain s1 s2 where r: "run step s xs s1" "step s1 l s2" "run step s2 ys s'"
    using assms(1) by (auto simp: run_append)
  have inv: "inv s1" "inv s2" using inv_step [OF r(2)] inv_run [OF r(1)] assms(2) by blast+
  moreover have "floored i (ts_key (WriteTimestamp t)) s2" using pushed [OF r(2) inv(1) assms(3,4)]
    by (auto simp: floored_def split: option.splits)
  ultimately show ?thesis using floored_run [OF r(3) inv(2) assms(3)] assms(5,6) by blast
qed

end

end
