(* ===== verification/Txn_Safety.thy ===== *)
theory Txn_Safety
  imports Txn_Record
begin

text \<open>
  The commands of \<open>Txn_Record\<close> keep the contract \<open>record_protocol\<close>: one lemma for each command, then one for each
  step of a range, and the interpretation of the contract. What follows from it for every run of a range: a
  transaction that was reported aborted never commits, and one that was pushed never commits below the
  timestamp it was pushed to. A stuck transaction can always be brought to an end.
\<close>

section \<open>Markers in the timestamp cache\<close>

definition cache_level :: "ts_cache \<Rightarrow> bytes \<Rightarrow> int \<times> int" where
  "cache_level c k = ts_key (CacheTs (c k))"

lemma ratchet_level: "ts_key (CacheTs (fst (ratchetValue a b))) = max (ts_key (CacheTs a)) (ts_key (CacheTs b))"
  by (auto simp: ratchetValue_def Let_def ts_order max_def)

lemma cache_level_add:
  "cache_level (cache_add k v c) k' = (if k' = k then max (cache_level c k) (ts_key (CacheTs v)) else cache_level c k')"
  by (simp add: cache_level_def cache_add_def ratchet_level)

lemma TransactionKey_Inr:
  "TransactionKey k i = Inr a \<longleftrightarrow> (\<exists>b. Addr k = Inr b \<and> a = MakeRangeKeyPrefix b @ LocalTransactionSuffix @ i)"
  by (auto simp: TransactionKey_def MakeRangeKey_def key_consts split: sum.splits)

lemma TransactionKey_inj:
  assumes "TransactionKey k i = Inr a" "TransactionKey k' i' = Inr b" "length i = length i'" "a @ x = b @ y"
  shows "i = i' \<and> x = y"
proof -
  obtain p q where ab: "a = MakeRangeKeyPrefix p @ LocalTransactionSuffix @ i" "b = MakeRangeKeyPrefix q @ LocalTransactionSuffix @ i'"
    using assms(1,2) by (auto simp: TransactionKey_Inr)
  then have "EncodeBytesAscending [] p @ LocalTransactionSuffix @ i @ x = EncodeBytesAscending [] q @ LocalTransactionSuffix @ i' @ y"
    using assms(4) by (simp add: MakeRangeKeyPrefix_eq)
  from bytes_asc.enc_inj [OF TrueI TrueI this] show ?thesis using assms(3) by simp
qed

definition txn_key :: "(uuid \<Rightarrow> bytes \<times> Timestamp) \<Rightarrow> uuid \<Rightarrow> bytes" where
  "txn_key txns i = (case TransactionKey (fst (txns i)) i of Inr k \<Rightarrow> k | Inl _ \<Rightarrow> [])"

definition txn_tracked :: "(uuid \<Rightarrow> bytes \<times> Timestamp) \<Rightarrow> uuid \<Rightarrow> bool" where
  "txn_tracked txns i \<longleftrightarrow> length i = 16 \<and> TransactionKey (fst (txns i)) i = Inr (txn_key txns i)"

abbreviation tomb_key :: "(uuid \<Rightarrow> bytes \<times> Timestamp) \<Rightarrow> uuid \<Rightarrow> bytes" where
  "tomb_key txns i \<equiv> txn_key txns i @ ascii ''-tmbs''"

abbreviation push_key :: "(uuid \<Rightarrow> bytes \<times> Timestamp) \<Rightarrow> uuid \<Rightarrow> bytes" where
  "push_key txns i \<equiv> txn_key txns i @ ascii ''-push''"

definition txn_tombstoned :: "(uuid \<Rightarrow> bytes \<times> Timestamp) \<Rightarrow> uuid \<Rightarrow> 'st range_state \<Rightarrow> bool" where
  "txn_tombstoned txns i s \<longleftrightarrow> ts_key (snd (txns i)) \<le> cache_level (TsCache s) (tomb_key txns i)"

definition txn_push_floor :: "(uuid \<Rightarrow> bytes \<times> Timestamp) \<Rightarrow> uuid \<Rightarrow> 'st range_state \<Rightarrow> int \<times> int" where
  "txn_push_floor txns i s = cache_level (TsCache s) (push_key txns i)"

lemma markers_differ [simp]: "ascii ''-tmbs'' \<noteq> ascii ''-push''"
  by (simp add: ascii_def)

lemma txn_keys_distinct:
  assumes "txn_tracked txns i" "txn_tracked txns j" "i \<noteq> j"
  shows "txn_key txns i \<noteq> txn_key txns j" "txn_key txns i @ x \<noteq> txn_key txns j @ y"
  using TransactionKey_inj [of _ i _ _ j _ "[]" "[]"] TransactionKey_inj [of _ i _ _ j _ x y] assms
  by (auto simp: txn_tracked_def)

section \<open>The contract of a command\<close>

text \<open>
  A command about a transaction found the record \<open>old\<close> under its key, with or without a tombstone and with a
  given push marker; it replied \<open>t\<close> and left the record \<open>new\<close>.
\<close>

definition coordinator_req :: "txn_request \<Rightarrow> bool" where
  "coordinator_req req \<longleftrightarrow> (case req of HeartbeatReq _ _ \<Rightarrow> True | EndReq _ \<Rightarrow> True | _ \<Rightarrow> False)"

definition push_req :: "txn_request \<Rightarrow> bool" where
  "push_req req \<longleftrightarrow> (case req of PushReq _ \<Rightarrow> True | _ \<Rightarrow> False)"

definition commit_reply :: "txn_request \<Rightarrow> Transaction \<Rightarrow> bool" where
  "commit_reply req t \<longleftrightarrow> (Status t = COMMITTED \<or> Status t = STAGING) \<and>
     (case req of EndReq _ \<Rightarrow> True | RecoverReq _ \<Rightarrow> True | _ \<Rightarrow> False)"

lemma req_simps [simp]:
  "coordinator_req (HeartbeatReq k n)" "coordinator_req (EndReq e)" "\<not> coordinator_req (PushReq p)" "\<not> coordinator_req (RecoverReq c)"
  "\<not> push_req (HeartbeatReq k n)" "\<not> push_req (EndReq e)" "push_req (PushReq p)" "\<not> push_req (RecoverReq c)"
  "\<not> commit_reply (HeartbeatReq k n) t" "\<not> commit_reply (PushReq p) t"
  by (simp_all add: coordinator_req_def push_req_def commit_reply_def)

definition contract ::
  "txn_request \<Rightarrow> bool \<Rightarrow> int \<times> int \<Rightarrow> TransactionRecord option \<Rightarrow> Transaction \<Rightarrow> TransactionRecord option \<Rightarrow> bool" where
  "contract req tomb push old t new \<longleftrightarrow> (case old of
      None \<Rightarrow>
        (\<forall>r. new = Some r \<longrightarrow> coordinator_req req \<and> (Status r = ABORTED \<or> \<not> tomb \<and> push \<le> ts_key (WriteTimestamp r))) \<and>
        (commit_reply req t \<longrightarrow> \<not> tomb \<and> push \<le> ts_key (WriteTimestamp t)) \<and>
        (push_req req \<longrightarrow> new = None \<and> (Status t = PENDING \<or> Status t = ABORTED))
    | Some r \<Rightarrow>
        (\<forall>r'. new = Some r' \<longrightarrow> advances r r') \<and>
        (commit_reply req t \<longrightarrow> Status r \<noteq> ABORTED \<and> ts_key (WriteTimestamp r) \<le> ts_key (WriteTimestamp t)) \<and>
        (push_req req \<longrightarrow> (\<exists>r'. new = Some r' \<and> Status r' = Status t \<and> WriteTimestamp r' = WriteTimestamp t)))"

definition same_txn :: "uuid \<Rightarrow> bytes \<times> Timestamp \<Rightarrow> 'a TxnMeta_scheme \<Rightarrow> bool" where
  "same_txn i km x \<longleftrightarrow> ID x = i \<and> TxnKey x = fst km \<and> MinTimestamp x = snd km"

definition same_record :: "uuid \<Rightarrow> bytes \<times> Timestamp \<Rightarrow> TransactionRecord option \<Rightarrow> bool" where
  "same_record i km r \<longleftrightarrow> (case r of None \<Rightarrow> True | Some r \<Rightarrow> same_txn i km r)"

lemma AsTransaction_fields [simp]:
  "ID (AsTransaction r) = ID r" "TxnKey (AsTransaction r) = TxnKey r" "Epoch (AsTransaction r) = Epoch r"
  "WriteTimestamp (AsTransaction r) = WriteTimestamp r" "MinTimestamp (AsTransaction r) = MinTimestamp r"
  "Status (AsTransaction r) = Status r" "LastHeartbeat (AsTransaction r) = LastHeartbeat r"
  "Priority (AsTransaction r) = Priority r" "ObservedTimestamps (AsTransaction r) = []"
  "ReadTimestamp (AsTransaction r) = Timestamp_zero"
  by (simp_all add: AsTransaction_def)

lemma AsRecord_fields [simp]:
  "ID (AsRecord t) = ID t" "TxnKey (AsRecord t) = TxnKey t" "Epoch (AsRecord t) = Epoch t"
  "WriteTimestamp (AsRecord t) = WriteTimestamp t" "MinTimestamp (AsRecord t) = MinTimestamp t"
  "Status (AsRecord t) = Status t" "LastHeartbeat (AsRecord t) = LastHeartbeat t"
  by (simp_all add: AsRecord_def)

lemma AsRecord_AsTransaction [simp]: "AsRecord (AsTransaction r) = r"
  by (simp add: AsRecord_def AsTransaction_def)

lemma UpgradePriority_fields [simp]:
  "ID (UpgradePriority p t) = ID t" "TxnKey (UpgradePriority p t) = TxnKey t" "Epoch (UpgradePriority p t) = Epoch t"
  "WriteTimestamp (UpgradePriority p t) = WriteTimestamp t" "MinTimestamp (UpgradePriority p t) = MinTimestamp t"
  "Status (UpgradePriority p t) = Status t" "LastHeartbeat (UpgradePriority p t) = LastHeartbeat t"
  "ReadTimestamp (UpgradePriority p t) = ReadTimestamp t" "LastActive (UpgradePriority p t) = LastActive t"
  by (simp_all add: UpgradePriority_def LastActive_def)

lemma same_txn_simps [simp]:
  "same_txn i km (AsTransaction r) = same_txn i km r" "same_txn i km (AsRecord t) = same_txn i km t"
  "same_record i km None" "same_record i km (Some r) = same_txn i km r"
  by (simp_all add: same_txn_def same_record_def)

text \<open>Whether a record may be created, in terms of the two markers.\<close>

lemma Replica_CanCreate_eq:
  assumes "txn_tracked txns i"
  shows "\<exists>reason. Replica_CanCreateTxnRecord env (TsCache s) i (fst (txns i)) (snd (txns i)) =
    Inr (if txn_tombstoned txns i s then Inl reason else Inr (CacheTs (TsCache s (push_key txns i))))"
  using assms
  by (auto simp: Replica_CanCreateTxnRecord_def transactionTombstoneMarker_def transactionPushMarker_def Let_def
      txn_tracked_def txn_tombstoned_def cache_level_def ts_order)

lemma CanCreate_Inr:
  assumes "txn_tracked txns i" "same_txn i (txns i) txn" "CanCreateTxnRecord env (TsCache s) txn = Inr t"
  shows "\<not> txn_tombstoned txns i s \<and> 
    (\<exists>w. t = txn\<lparr>WriteTimestamp := w\<rparr> \<and> txn_push_floor txns i s \<le> ts_key w \<and> ts_key (WriteTimestamp txn) \<le> ts_key w)"
  using Replica_CanCreate_eq [OF assms(1), of env s] assms(2,3)
  by (auto simp: CanCreateTxnRecord_def lift_err_def same_txn_def txn_push_floor_def cache_level_def ts_order
      split: if_splits intro!: exI [of _ "ts_forward (WriteTimestamp txn) _"])

lemma Synthesize_Inr:
  assumes "txn_tracked txns i" "same_txn i (txns i) meta" "SynthesizeTxnFromMeta env (TsCache s) meta = Inr t"
  shows "same_txn i (txns i) t \<and>
    (Status t = ABORTED \<or> Status t = PENDING \<and> \<not> txn_tombstoned txns i s \<and> txn_push_floor txns i s \<le> ts_key (WriteTimestamp t))"
  using Replica_CanCreate_eq [OF assms(1), of env s] assms(2,3)
  by (auto simp: SynthesizeTxnFromMeta_def lift_err_def same_txn_def txn_push_floor_def cache_level_def ts_order Let_def
      TxnMeta.defs TransactionRecord.defs split: if_splits)

section \<open>The commands keep the contract\<close>

text \<open>
  A command about transaction \<open>i\<close> changes no record but that of \<open>i\<close>, and the change and the reply are as the
  contract says.
\<close>

definition handled ::
  "(uuid \<Rightarrow> bytes \<times> Timestamp) \<Rightarrow> uuid \<Rightarrow> txn_request \<Rightarrow> 'st range_state \<Rightarrow> Transaction \<Rightarrow> 'st range_state \<Rightarrow> bool" where
  "handled txns i req s t s' \<longleftrightarrow> TsCache s' = TsCache s \<and> same_txn i (txns i) t \<and>
     (\<exists>new. Records s' = (Records s)(txn_key txns i := new) \<and> same_record i (txns i) new \<and>
        contract req (txn_tombstoned txns i s) (txn_push_floor txns i s) (Records s (txn_key txns i)) t new)"

lemma handledI:
  assumes "TsCache s' = TsCache s" "Records s' = (Records s)(txn_key txns i := new)" "same_txn i (txns i) t"
    and "same_record i (txns i) new"
    and "contract req (txn_tombstoned txns i s) (txn_push_floor txns i s) (Records s (txn_key txns i)) t new"
  shows "handled txns i req s t s'"
  using assms by (auto simp: handled_def)

lemma handled_unchanged:
  assumes "same_record i (txns i) (Records s (txn_key txns i))" "same_txn i (txns i) t"
    and "contract req (txn_tombstoned txns i s) (txn_push_floor txns i s) (Records s (txn_key txns i)) t (Records s (txn_key txns i))"
  shows "handled txns i req s t s"
  using assms by (intro handledI [of _ _ _ _ "Records s (txn_key txns i)"]) simp_all

lemma handled_put:
  assumes "same_txn i (txns i) t" "same_record i (txns i) new"
    and "contract req (txn_tombstoned txns i s) (txn_push_floor txns i s) (Records s (txn_key txns i)) t new"
  shows "handled txns i req s t (s\<lparr>Records := (Records s)(txn_key txns i := new)\<rparr>)"
  using assms by (intro handledI [of _ _ _ _ new]) simp_all

lemma advances_refl [simp]: "advances r r"
  by (simp add: advances_def)

lemma same_txn_updates [simp]:
  "same_txn i km (t\<lparr>WriteTimestamp := w\<rparr>) = same_txn i km t" "same_txn i km (t\<lparr>Epoch := e\<rparr>) = same_txn i km t"
  "same_txn i km (v\<lparr>LastHeartbeat := w\<rparr>) = same_txn i km v" "same_txn i km (v\<lparr>Status := st\<rparr>) = same_txn i km v"
  "same_txn i km (v\<lparr>LockSpans := l\<rparr>) = same_txn i km v" "same_txn i km (v\<lparr>InFlightWrites := f\<rparr>) = same_txn i km v"
  "same_txn i km (UpgradePriority p u) = same_txn i km u"
  by (simp_all add: same_txn_def)

lemma key_of_same: "txn_tracked txns i \<Longrightarrow> same_txn i (txns i) x \<Longrightarrow> TransactionKey (TxnKey x) (ID x) = Inr (txn_key txns i)"
  by (simp add: same_txn_def txn_tracked_def)

lemma Backward_same [simp]: "Timestamp_Backward t t = t"
  by (simp add: Timestamp_Backward_def bothSynthetic_def)

lemma Update_Inr:
  assumes "Transaction_Update (Some ot) t = Inr u" "same_txn i km t" "same_txn i km ot" "ObservedTimestamps t = []"
  shows "same_txn i km u \<and> Status u = merged_status t ot \<and> sint (Epoch u) = max (sint (Epoch t)) (sint (Epoch ot)) \<and>
    ts_key (WriteTimestamp u) = max (ts_key (WriteTimestamp t)) (ts_key (WriteTimestamp ot)) \<and>
    ts_key (ReadTimestamp u) = max (ts_key (ReadTimestamp t)) (ts_key (ReadTimestamp ot))"
proof -
  have "initialized ot"
    using assms(1) by (auto simp: Transaction_Update_def AssertInitialized_def initialized_def split: if_splits)
  moreover have "ID t = ID ot" "TxnKey t = TxnKey ot" "MinTimestamp t = MinTimestamp ot"
    using assms(2,3) by (auto simp: same_txn_def)
  moreover have "obs_wf (ObservedTimestamps t)" using assms(4) by (simp add: obs_wf_def)
  ultimately obtain k obs p where "u = (update_timestamps (update_epoch t ot) ot)\<lparr>TxnKey := k, ObservedTimestamps := obs, Priority := p\<rparr>"
    "k = TxnKey t" using Transaction_Update_eq [of ot t] assms(1) by (metis Inr_inject)
  then show ?thesis using assms(2,3)
    by (auto simp: same_txn_def update_timestamps_def update_epoch_Status update_epoch_Epoch ts_order)
qed

subsection \<open>Heartbeats\<close>

lemma HeartbeatTxn_handled:
  assumes "HeartbeatTxn env h k now s = Inr (t, s')" "HTxn h = Some htxn" "same_txn i (txns i) htxn" "txn_tracked txns i"
    and "same_record i (txns i) (Records s (txn_key txns i))"
  shows "handled txns i (HeartbeatReq k now) s t s'"
proof -
  have "res_bind (case Records s (txn_key txns i) of Some r \<Rightarrow> Inr (AsTransaction r) | None \<Rightarrow> CanCreateTxnRecord env (TsCache s) htxn)
      (\<lambda>u. if IsFinalized (Status u) then Inr (u, s)
        else let u = u\<lparr>LastHeartbeat := ts_forward (LastHeartbeat u) now\<rparr>
          in Inr (u, s\<lparr>Records := (Records s)(txn_key txns i \<mapsto> AsRecord u)\<rparr>)) = Inr (t, s')"
    using assms(1,2) key_of_same [OF assms(4,3)]
    by (simp add: HeartbeatTxn_def VerifyTransaction_def lift_err_def split: if_splits del: res_bind_Inr)
  then obtain u where u: "(case Records s (txn_key txns i) of Some r \<Rightarrow> Inr (AsTransaction r)
      | None \<Rightarrow> CanCreateTxnRecord env (TsCache s) htxn) = Inr u"
    and t: "IsFinalized (Status u) \<and> t = u \<and> s' = s \<or> t = u\<lparr>LastHeartbeat := ts_forward (LastHeartbeat u) now\<rparr> \<and>
      \<not> IsFinalized (Status u) \<and> s' = s\<lparr>Records := (Records s)(txn_key txns i \<mapsto> AsRecord t)\<rparr>"
    by (auto simp: Let_def split: if_splits)
  show ?thesis
  proof (cases "Records s (txn_key txns i)")
    case None
    then obtain w where "\<not> txn_tombstoned txns i s" "u = htxn\<lparr>WriteTimestamp := w\<rparr>" "txn_push_floor txns i s \<le> ts_key w"
      using CanCreate_Inr [OF assms(4,3), of env s u] u by auto
    then show ?thesis using t None assms(3)
      by (auto simp: contract_def split: if_splits intro!: handled_unchanged handled_put)
  next
    case (Some r)
    then have "u = AsTransaction r" using u by simp
    then show ?thesis using t Some assms(5)
      by (auto simp: contract_def advances_def split: if_splits intro!: handled_unchanged handled_put)
  qed
qed

subsection \<open>Committing and rolling back\<close>

lemma end_finalize_Inr:
  assumes "end_finalize env key args existed txn s = Inr (t, s')" "existed \<longleftrightarrow> Records s key \<noteq> None"
  shows "TsCache s' = TsCache s \<and> (t = txn \<or> (\<exists>l. t = txn\<lparr>LockSpans := l, InFlightWrites := []\<rparr>)) \<and>
    (Records s' = (Records s)(key := None) \<or> Records s' = (Records s)(key \<mapsto> AsRecord t))"
proof -
  obtain resolved external asp eng where
    "resolveLocalLocks (Ops env) (RangeID env) (Desc env) (MergedDesc args) (HasTrigger args)
         (ReqLockSpans args) (Poison args) txn (Aborts s) (Store s) = Inr (resolved, external, asp, eng)"
    using assms(1) by (auto simp: end_finalize_def)
  then show ?thesis using assms
    by (auto simp: end_finalize_def updateFinalizedTxn_def lift_err_def Let_def fun_upd_idem split: if_splits)
qed

lemma end_decide_Inr:
  assumes "end_decide env key args existed txn s = Inr (t, s')" "existed \<longleftrightarrow> Records s key \<noteq> None"
  shows "TsCache s' = TsCache s \<and> same_txn i km t = same_txn i km txn \<and> Epoch t = Epoch txn \<and>
    WriteTimestamp t = WriteTimestamp txn \<and> Status t \<noteq> PENDING \<and> (\<not> Commit args \<longrightarrow> Status t = ABORTED) \<and>
    (Records s' = (Records s)(key := None) \<or> Records s' = (Records s)(key \<mapsto> AsRecord t))"
proof -
  consider (stage) "Commit args" "updateStagingTxn key args (txn\<lparr>Status := STAGING\<rparr>) s = (t, s')"
    | (commit) "Commit args" "end_finalize env key args existed (txn\<lparr>Status := COMMITTED\<rparr>) s = Inr (t, s')"
    | (rollback) "\<not> Commit args" "end_finalize env key args existed (txn\<lparr>Status := ABORTED\<rparr>) s = Inr (t, s')"
    using assms(1) by (auto simp: end_decide_def split: if_splits option.splits)
  then show ?thesis
  proof cases
    case stage
    then show ?thesis by (auto simp: updateStagingTxn_def Let_def)
  next
    case commit
    then show ?thesis using end_finalize_Inr [OF commit(2) assms(2)] by auto
  next
    case rollback
    then show ?thesis using end_finalize_Inr [OF rollback(2) assms(2)] by auto
  qed
qed

lemma end_decide_handled:
  assumes "end_decide env (txn_key txns i) args (Records s (txn_key txns i) \<noteq> None) txn s = Inr (t, s')"
    and "same_txn i (txns i) txn"
    and "case Records s (txn_key txns i) of
      None \<Rightarrow> Commit args \<longrightarrow> \<not> txn_tombstoned txns i s \<and> txn_push_floor txns i s \<le> ts_key (WriteTimestamp txn)
    | Some r \<Rightarrow> \<not> IsFinalized (Status r) \<and> sint (Epoch r) \<le> sint (Epoch txn) \<and>
        ts_key (WriteTimestamp r) \<le> ts_key (WriteTimestamp txn)"
  shows "handled txns i (EndReq args) s t s'"
proof -
  note d = end_decide_Inr [OF assms(1), of i "txns i"]
  then obtain new where new: "Records s' = (Records s)(txn_key txns i := new)" "new = None \<or> new = Some (AsRecord t)"
    by auto
  have "contract (EndReq args) (txn_tombstoned txns i s) (txn_push_floor txns i s) (Records s (txn_key txns i)) t new"
    using d new(2) assms(3) by (auto simp: contract_def advances_def IsFinalized_def commit_reply_def split: option.splits)
  then show ?thesis using d new assms(2) by (auto intro!: handledI [OF _ new(1)])
qed

lemma EndTxn_cases:
  assumes "EndTxn env h args s = Inr (t, s')" "HTxn h = Some htxn" "TransactionKey (TxnKey htxn) (ID htxn) = Inr key"
  obtains
    (create) txn where "Records s key = None" "(if Commit args then CanCreateTxnRecord env (TsCache s) htxn else Inr htxn) = Inr txn"
      "end_decide env key args False txn s = Inr (t, s')"
  | (aborted) r where "Records s key = Some r" "Status r = ABORTED" "\<not> Commit args"
      "end_finalize env key args True (AsTransaction r) s = Inr (t, s')"
  | (update) r st txn where "Records s key = Some r" "\<not> IsFinalized (Status r)" 
      "Transaction_Update (Some htxn) ((AsTransaction r)\<lparr>Status := st\<rparr>) = Inr txn"
      "end_decide env key args True txn s = Inr (t, s')"
proof (cases "Records s key")
  case None
  then show ?thesis using assms create
    by (auto simp: EndTxn_def VerifyTransaction_def split: if_splits)
next
  case (Some r)
  have same: "(AsTransaction r)\<lparr>Status := st\<rparr> = AsTransaction r" if "Status r = st" for st
    using that by (auto simp: AsTransaction_def)
  show ?thesis
  proof (cases "Status r")
    case PENDING
    then show ?thesis using assms Some update [of r PENDING]
      by (auto simp: same EndTxn_def VerifyTransaction_def Let_def split: if_splits)
  next
    case STAGING
    then show ?thesis using assms Some update [of r STAGING] update [of r PENDING]
      by (auto simp: same EndTxn_def VerifyTransaction_def Let_def split: if_splits)
  qed (use assms Some aborted [of r] in \<open>auto simp: EndTxn_def VerifyTransaction_def Let_def split: if_splits\<close>)
qed

lemma EndTxn_handled:
  assumes "EndTxn env h args s = Inr (t, s')" "HTxn h = Some htxn" "same_txn i (txns i) htxn" "txn_tracked txns i"
    and "same_record i (txns i) (Records s (txn_key txns i))"
  shows "handled txns i (EndReq args) s t s'"
  using assms(1,2) key_of_same [OF assms(4,3)]
proof (cases rule: EndTxn_cases)
  case (create txn)
  then show ?thesis using CanCreate_Inr [OF assms(4,3), of env s txn] assms(3)
    by (intro end_decide_handled [where txn = txn]) (auto split: if_splits)
next
  case (aborted r)
  then obtain new where new: "Records s' = (Records s)(txn_key txns i := new)" "new = None \<or> new = Some (AsRecord t)"
    and t: "TsCache s' = TsCache s" "t = AsTransaction r \<or> (\<exists>l. t = (AsTransaction r)\<lparr>LockSpans := l, InFlightWrites := []\<rparr>)"
    using end_finalize_Inr [OF aborted(4)] by auto
  then show ?thesis using aborted assms(5)
    by (intro handledI [OF t(1) new(1)]) (auto simp: contract_def advances_def commit_reply_def)
next
  case (update r st txn)
  then show ?thesis using Update_Inr [OF update(3), of i "txns i"] assms(3,5)
    by (intro end_decide_handled [where txn = txn]) auto
qed

subsection \<open>Pushing and recovery\<close>

lemma push_found_Inr:
  assumes "push_found env key args existed p s = Inr (t, s')"
  shows "s' = s \<and> t = p \<or>
    \<not> IsFinalized (Status p) \<and> s' = (if existed then s\<lparr>Records := (Records s)(key \<mapsto> AsRecord t)\<rparr> else s) \<and>
    same_txn i km t = same_txn i km p \<and> (Status t = PENDING \<or> Status t = ABORTED) \<and>
    sint (Epoch p) \<le> sint (Epoch t) \<and> ts_key (WriteTimestamp p) \<le> ts_key (WriteTimestamp t) \<and>
    (Status p = STAGING \<and> Status t = PENDING \<longrightarrow> sint (Epoch p) < sint (Epoch t))"
proof (cases "s' = s \<and> t = p")
  case False
  obtain q ty wins ty' where q: "push_absorb args p = (q, ty)" "push_decide env args q ty = (wins, ty')"
    by (metis surj_pair)
  have f: "\<not> IsFinalized (Status p)" "wins" "Status q \<noteq> STAGING"
    and t: "push_apply args existed q ty' = Inr t" "s' = (if existed then s\<lparr>Records := (Records s)(key \<mapsto> AsRecord t)\<rparr> else s)"
    using assms False q by (auto simp: push_found_def split: if_splits)
  have q1: "same_txn i km q = same_txn i km p" "sint (Epoch p) \<le> sint (Epoch q)"
    "ts_key (WriteTimestamp p) \<le> ts_key (WriteTimestamp q)" "Status q = Status p \<or> Status q = PENDING"
    "Status p = STAGING \<Longrightarrow> Status q = PENDING \<Longrightarrow> sint (Epoch p) < sint (Epoch q) \<or> ty \<noteq> PUSH_TIMESTAMP"
    using q(1) by (auto simp: push_absorb_def Let_def ts_order split: if_splits)
  have ty': "ty' = PUSH_ABORT \<or> ty' = ty" using q(2) by (auto simp: push_decide_def split: if_splits)
  have "same_txn i km t = same_txn i km q" "Epoch t = Epoch q" "ts_key (WriteTimestamp q) \<le> ts_key (WriteTimestamp t)"
    "Status t = ABORTED \<or> ty' = PUSH_TIMESTAMP \<and> Status t = Status q"
    using t(1) by (auto simp: push_apply_def Let_def ts_order split: PushTxnType.splits if_splits)
  then show ?thesis using f t(2) q1 ty' by (cases "Status p") auto
qed simp

lemma PushTxn_handled:
  assumes "PushTxn env h args s = Inr (t, s')" "same_txn i (txns i) (PusheeTxn args)" "txn_tracked txns i"
    and "same_record i (txns i) (Records s (txn_key txns i))"
  shows "handled txns i (PushReq args) s t s'"
proof (cases "Records s (txn_key txns i)")
  case None
  then obtain u where u: "SynthesizeTxnFromMeta env (TsCache s) (PusheeTxn args) = Inr u"
    and t: "Status u = ABORTED \<and> t = u \<and> s' = s \<or> push_found env (txn_key txns i) args False u s = Inr (t, s')"
    using assms(1) key_of_same [OF assms(3,2)] by (auto simp: PushTxn_def lift_err_def split: if_splits)
  have "same_txn i (txns i) t \<and> s' = s \<and> (Status t = PENDING \<or> Status t = ABORTED)"
    using t push_found_Inr [of env _ args False u s t s' i "txns i"] Synthesize_Inr [OF assms(3,2) u] by auto
  then show ?thesis using None by (auto intro!: handled_unchanged simp: contract_def)
next
  case (Some r)
  then have "push_found env (txn_key txns i) args True (AsTransaction r) s = Inr (t, s')"
    using assms(1) key_of_same [OF assms(3,2)] by (auto simp: PushTxn_def lift_err_def split: if_splits)
  from push_found_Inr [OF this, of i "txns i"] show ?thesis using Some assms(4)
    by (auto intro!: handled_unchanged handled_put simp: contract_def advances_def)
qed

lemma RecoverTxn_handled:
  assumes "RecoverTxn env h args s = Inr (t, s')" "same_txn i (txns i) (RecoverMeta args)" "txn_tracked txns i"
    and "same_record i (txns i) (Records s (txn_key txns i))"
  shows "handled txns i (RecoverReq args) s t s'"
proof (cases "Records s (txn_key txns i)")
  case None
  then have "SynthesizeTxnFromMeta env (TsCache s) (RecoverMeta args) = Inr t" "Status t = ABORTED" "s' = s"
    using assms(1) key_of_same [OF assms(3,2)] by (auto simp: RecoverTxn_def lift_err_def Let_def split: if_splits)
  then show ?thesis using None Synthesize_Inr [OF assms(3,2), of env s t]
    by (auto intro!: handled_unchanged simp: contract_def commit_reply_def)
next
  case (Some r)
  then have "t = AsTransaction r \<and> s' = s \<or>
      Status r = STAGING \<and> recover_finalize (txn_key txns i) (ImplicitlyCommitted args) (AsTransaction r) s = (t, s')"
    using assms(1) key_of_same [OF assms(3,2)]
    by (cases "Status r") (auto simp: RecoverTxn_def lift_err_def Let_def split: if_splits)
  then show ?thesis using Some assms(4)
    by (auto intro!: handled_unchanged handled_put simp: contract_def advances_def commit_reply_def recover_finalize_def Let_def)
qed

section \<open>The steps of a range\<close>

definition subject :: "Header \<Rightarrow> txn_request \<Rightarrow> uuid" where
  "subject h req = (case req of PushReq args \<Rightarrow> ID (PusheeTxn args) | RecoverReq args \<Rightarrow> ID (RecoverMeta args) | _ \<Rightarrow> header_txnID h)"

definition wf_range :: "(uuid \<Rightarrow> bytes \<times> Timestamp) \<Rightarrow> 'st range_state \<Rightarrow> bool" where
  "wf_range txns s \<longleftrightarrow> (\<forall>i. txn_tracked txns i \<longrightarrow> same_record i (txns i) (Records s (txn_key txns i)) \<and>
     (Records s (txn_key txns i) \<noteq> None \<longrightarrow> txn_tombstoned txns i s))"

lemma anchored_same: "anchored txns x \<Longrightarrow> same_txn (ID x) (txns (ID x)) x"
  by (simp add: anchored_def same_txn_def)

lemma anchored_tracked: "anchored txns x \<Longrightarrow> TransactionKey (TxnKey x) (ID x) = Inr key \<Longrightarrow> txn_tracked txns (ID x)"
  by (simp add: anchored_def txn_tracked_def txn_key_def)

lemma evaluate_handled:
  assumes "evaluate env h req s = Inr (t, s')" "proper txns h req" "wf_range txns s"
  shows "txn_tracked txns (subject h req) \<and> handled txns (subject h req) req s t s'"
proof (cases req)
  case (HeartbeatReq k now)
  then obtain htxn where h: "HTxn h = Some htxn" "anchored txns htxn" and e: "HeartbeatTxn env h k now s = Inr (t, s')"
    using assms(1,2) by (auto simp: evaluate_def proper_def split: option.splits)
  then obtain key where "TransactionKey (TxnKey htxn) (ID htxn) = Inr key"
    by (auto simp: HeartbeatTxn_def VerifyTransaction_def split: if_splits)
  then have "txn_tracked txns (ID htxn)" using h(2) anchored_tracked by blast
  then show ?thesis using HeartbeatTxn_handled [OF e h(1), of "ID htxn" txns] anchored_same [OF h(2)] assms(3) HeartbeatReq h(1)
    by (simp add: wf_range_def subject_def header_txnID_def)
next
  case (EndReq args)
  then obtain htxn where h: "HTxn h = Some htxn" "anchored txns htxn" and e: "EndTxn env h args s = Inr (t, s')"
    using assms(1,2) by (auto simp: evaluate_def proper_def split: option.splits)
  then obtain key where "TransactionKey (TxnKey htxn) (ID htxn) = Inr key"
    by (auto simp: EndTxn_def VerifyTransaction_def split: if_splits)
  then have "txn_tracked txns (ID htxn)" using h(2) anchored_tracked by blast
  then show ?thesis using EndTxn_handled [OF e h(1), of "ID htxn" txns] anchored_same [OF h(2)] assms(3) EndReq h(1)
    by (simp add: wf_range_def subject_def header_txnID_def)
next
  case (PushReq args)
  then have h: "anchored txns (PusheeTxn args)" and e: "PushTxn env h args s = Inr (t, s')"
    using assms(1,2) by (auto simp: evaluate_def proper_def)
  then obtain key where "TransactionKey (TxnKey (PusheeTxn args)) (ID (PusheeTxn args)) = Inr key"
    by (auto simp: PushTxn_def split: if_splits)
  then have "txn_tracked txns (ID (PusheeTxn args))" using h anchored_tracked by blast
  then show ?thesis using PushTxn_handled [OF e, of "ID (PusheeTxn args)" txns] anchored_same [OF h] assms(3) PushReq
    by (simp add: wf_range_def subject_def)
next
  case (RecoverReq args)
  then have h: "anchored txns (RecoverMeta args)" and e: "RecoverTxn env h args s = Inr (t, s')"
    using assms(1,2) by (auto simp: evaluate_def proper_def)
  then obtain key where "TransactionKey (TxnKey (RecoverMeta args)) (ID (RecoverMeta args)) = Inr key"
    by (auto simp: RecoverTxn_def Let_def split: if_splits)
  then have "txn_tracked txns (ID (RecoverMeta args))" using h anchored_tracked by blast
  then show ?thesis using RecoverTxn_handled [OF e, of "ID (RecoverMeta args)" txns] anchored_same [OF h] assms(3) RecoverReq
    by (simp add: wf_range_def subject_def)
qed

lemma updateTimestampCache_grows:
  assumes "updateTimestampCache env h req t c = Inr c'"
  shows "cache_level c k \<le> cache_level c' k"
  using assms by (auto simp: updateTimestampCache_def addToTSCacheChecked_def cache_level_add Let_def
      split: txn_request.splits TransactionStatus.splits if_splits)

text \<open>The marker a request leaves for its transaction.\<close>

lemma updateTimestampCache_marks:
  assumes "updateTimestampCache env h req t c = Inr c'" "SetActiveTimestamp now h0 = Inr h" "proper txns h req"
    and "evaluate env h req s = Inr (t, s1)" "txn_tracked txns (subject h req)" "same_txn (subject h req) (txns (subject h req)) t"
  shows "coordinator_req req \<Longrightarrow> ts_key (snd (txns (subject h req))) \<le> cache_level c' (tomb_key txns (subject h req))"
    and "push_req req \<Longrightarrow> Status t = ABORTED \<Longrightarrow> ts_key (snd (txns (subject h req))) \<le> cache_level c' (tomb_key txns (subject h req))"
    and "push_req req \<Longrightarrow> Status t = PENDING \<Longrightarrow> ts_key (WriteTimestamp t) \<le> cache_level c' (push_key txns (subject h req))"
proof -
  have active: "HTimestamp h = ReadTimestamp u" if "HTxn h = Some u" for u
    using assms(2) that by (auto simp: SetActiveTimestamp_def split: option.splits if_splits)
  {
    assume "coordinator_req req"
    then obtain u k where u: "HTxn h = Some u" "anchored txns u" "txn_wf u" "subject h req = ID u" "k = TxnKey u"
      and c': "res_bind (transactionTombstoneMarker k (ID u)) (\<lambda>key. addToTSCacheChecked (LeaseExpiration env) key (ReadTimestamp u) (ID u) c) = Inr c'"
      using assms(1,3,4) active
      by (auto simp: coordinator_req_def proper_def subject_def header_txnID_def updateTimestampCache_def evaluate_def
          HeartbeatTxn_def EndTxn_def VerifyTransaction_def Let_def split: txn_request.splits option.splits if_splits)
    then show "ts_key (snd (txns (subject h req))) \<le> cache_level c' (tomb_key txns (subject h req))"
      using assms(5) by (auto simp: transactionTombstoneMarker_def addToTSCacheChecked_def anchored_def txn_tracked_def
          cache_level_add txn_wf_def le_max_iff_disj split: if_splits)
  }
  assume "push_req req"
  then obtain args where a: "req = PushReq args" "subject h req = ID (PusheeTxn args)" "PushKey args = TxnKey (PusheeTxn args)"
      "anchored txns (PusheeTxn args)"
    using assms(3,4) by (auto simp: push_req_def subject_def evaluate_def PushTxn_def proper_def split: txn_request.splits if_splits)
  note [simp] = updateTimestampCache_def addToTSCacheChecked_def transactionTombstoneMarker_def transactionPushMarker_def
  show "ts_key (snd (txns (subject h req))) \<le> cache_level c' (tomb_key txns (subject h req))" if "Status t = ABORTED"
    using assms(1,5,6) a that
    by (auto simp: Let_def anchored_def txn_tracked_def same_txn_def cache_level_add le_max_iff_disj split: if_splits)
  show "ts_key (WriteTimestamp t) \<le> cache_level c' (push_key txns (subject h req))" if "Status t = PENDING"
    using assms(1,5,6) a that
    by (auto simp: Let_def anchored_def txn_tracked_def same_txn_def cache_level_add le_max_iff_disj split: if_splits)
qed

definition txn_record :: "(uuid \<Rightarrow> bytes \<times> Timestamp) \<Rightarrow> uuid \<Rightarrow> 'st range_state \<Rightarrow> TransactionRecord option" where
  "txn_record txns i s = Records s (txn_key txns i)"

definition ev_commits :: "uuid \<Rightarrow> event \<Rightarrow> Transaction option" where
  "ev_commits i l = (case l of None \<Rightarrow> None
     | Some (req, t) \<Rightarrow> if ID t = i \<and> commit_reply req t then Some t else None)"

definition ev_pushes :: "uuid \<Rightarrow> event \<Rightarrow> Transaction option" where
  "ev_pushes i l = (case l of None \<Rightarrow> None | Some (req, t) \<Rightarrow> if ID t = i \<and> push_req req then Some t else None)"

lemma step_cache_grows: "txn_step txns s l s' \<Longrightarrow> wf_range txns s \<Longrightarrow> cache_level (TsCache s) k \<le> cache_level (TsCache s') k"
proof (induction rule: txn_step.cases)
  case (request now h0 h req env s t s')
  then obtain s1 c where "evaluate env h req s = Inr (t, s1)" "updateTimestampCache env h req t (TsCache s1) = Inr c" "s' = s1\<lparr>TsCache := c\<rparr>"
    by (auto simp: serve_def)
  then show ?case using evaluate_handled [of env h req s t s1 txns] updateTimestampCache_grows [of env h req t _ c k] request
    by (auto simp: handled_def)
qed (auto simp: cache_level_add)

text \<open>What a step does to one transaction: a request about it is handled, and any other step leaves its record or collects it.\<close>

definition touches :: "(uuid \<Rightarrow> bytes \<times> Timestamp) \<Rightarrow> uuid \<Rightarrow> 'st range_state \<Rightarrow> txn_request \<Rightarrow> Transaction \<Rightarrow> 'st range_state \<Rightarrow> bool" where
  "touches txns i s req t s' \<longleftrightarrow> same_txn i (txns i) t \<and> same_record i (txns i) (txn_record txns i s') \<and>
     contract req (txn_tombstoned txns i s) (txn_push_floor txns i s) (txn_record txns i s) t (txn_record txns i s') \<and>
     (coordinator_req req \<or> push_req req \<and> Status t = ABORTED \<longrightarrow> txn_tombstoned txns i s') \<and>
     (push_req req \<and> Status t = PENDING \<longrightarrow> ts_key (WriteTimestamp t) \<le> txn_push_floor txns i s')"

lemma request_effect:
  assumes "SetActiveTimestamp now h0 = Inr h" "proper txns h req" "serve env h req s = Inr (t, s')" "wf_range txns s" "txn_tracked txns i"
  shows "i = subject h req \<and> touches txns i s req t s' \<or> ID t \<noteq> i \<and> txn_record txns i s' = txn_record txns i s"
proof -
  obtain s1 c where e: "evaluate env h req s = Inr (t, s1)" "updateTimestampCache env h req t (TsCache s1) = Inr c" "s' = s1\<lparr>TsCache := c\<rparr>"
    using assms(3) by (auto simp: serve_def)
  have hd: "txn_tracked txns (subject h req)" "handled txns (subject h req) req s t s1"
    using evaluate_handled [OF e(1) assms(2,4)] by auto
  note marks = updateTimestampCache_marks [OF e(2) assms(1,2) e(1) hd(1)]
  have t: "same_txn (subject h req) (txns (subject h req)) t" using hd(2) by (simp add: handled_def)
  obtain new where new: "Records s1 = (Records s)(txn_key txns (subject h req) := new)"
    "same_record (subject h req) (txns (subject h req)) new"
    "contract req (txn_tombstoned txns (subject h req) s) (txn_push_floor txns (subject h req) s) (Records s (txn_key txns (subject h req))) t new"
    using hd(2) by (auto simp: handled_def)
  show ?thesis
  proof (cases "i = subject h req")
    case True
    then show ?thesis using new marks t e(3) by (auto simp: touches_def txn_record_def txn_tombstoned_def txn_push_floor_def)
  next
    case False
    then have "txn_key txns i \<noteq> txn_key txns (subject h req)" using txn_keys_distinct(1) assms(5) hd(1) by blast
    then show ?thesis using False new(1) e(3) t by (auto simp: txn_record_def same_txn_def)
  qed
qed

lemma txn_step_effect:
  assumes "txn_step txns s l s'" "wf_range txns s" "txn_tracked txns i"
  obtains (touched) req t where "l = Some (req, t)" "ID t = i" "touches txns i s req t s'"
  | (frame) "ev_commits i l = None" "ev_pushes i l = None" "txn_record txns i s' = None \<or> txn_record txns i s' = txn_record txns i s"
  using assms(1)
proof (cases rule: txn_step.cases)
  case (request now h0 h req env t)
  then consider "i = subject h req" "touches txns i s req t s'" | "ID t \<noteq> i" "txn_record txns i s' = txn_record txns i s"
    using request_effect [OF _ _ _ assms(2,3)] by blast
  then show ?thesis
  proof cases
    case 1
    then show ?thesis using touched request(1) by (auto simp: touches_def same_txn_def)
  next
    case 2
    then show ?thesis using frame request(1) by (auto simp: ev_commits_def ev_pushes_def)
  qed
next
  case (gc key r)
  then show ?thesis using frame by (auto simp: ev_commits_def ev_pushes_def txn_record_def)
next
  case (ratchet key v)
  then show ?thesis using frame by (auto simp: ev_commits_def ev_pushes_def txn_record_def)
qed

lemma wf_range_step:
  assumes "txn_step txns s l s'" "wf_range txns s"
  shows "wf_range txns s'"
proof -
  have "same_record i (txns i) (txn_record txns i s') \<and> (txn_record txns i s' \<noteq> None \<longrightarrow> txn_tombstoned txns i s')"
    if i: "txn_tracked txns i" for i
  proof -
    have old: "same_record i (txns i) (txn_record txns i s)" "txn_record txns i s \<noteq> None \<longrightarrow> txn_tombstoned txns i s"
      using assms(2) i by (auto simp: wf_range_def txn_record_def)
    have stays: "txn_tombstoned txns i s \<Longrightarrow> txn_tombstoned txns i s'"
      using step_cache_grows [OF assms, of "tomb_key txns i"] by (simp add: txn_tombstoned_def)
    from assms i show ?thesis
    proof (cases rule: txn_step_effect)
      case (touched req t)
      then show ?thesis using old stays by (auto simp: touches_def contract_def split: option.splits)
    next
      case frame
      then show ?thesis using old stays by auto
    qed
  qed
  then show ?thesis by (simp add: wf_range_def txn_record_def)
qed

text \<open>The steps of a range keep the contract of transaction records.\<close>

interpretation rp: record_protocol "txn_step txns" "wf_range txns" "txn_tracked txns" "txn_record txns" "txn_tombstoned txns"
  "txn_push_floor txns" ev_commits ev_pushes for txns
proof
  fix s l s' i
  assume step: "txn_step txns s l s'" "wf_range txns s"
  show "wf_range txns s'" using wf_range_step step by blast
  assume i: "txn_tracked txns i"
  show "txn_push_floor txns i s \<le> txn_push_floor txns i s'"
    using step_cache_grows [OF step] by (simp add: txn_push_floor_def)
  show "txn_tombstoned txns i s'" if "txn_tombstoned txns i s"
    using step_cache_grows [OF step, of "tomb_key txns i"] that by (simp add: txn_tombstoned_def)
  show "Status r = ABORTED \<or> \<not> txn_tombstoned txns i s \<and> txn_push_floor txns i s \<le> ts_key (WriteTimestamp r)"
    if "txn_record txns i s = None" "txn_record txns i s' = Some r" for r
    using txn_step_effect [OF step i] that by cases (auto simp: touches_def contract_def)
  show "advances r r'" if "txn_record txns i s = Some r" "txn_record txns i s' = Some r'" for r r'
    using txn_step_effect [OF step i] that by cases (auto simp: touches_def contract_def)
  show "case txn_record txns i s of None \<Rightarrow> \<not> txn_tombstoned txns i s \<and> txn_push_floor txns i s \<le> ts_key (WriteTimestamp t)
      | Some r \<Rightarrow> Status r \<noteq> ABORTED \<and> ts_key (WriteTimestamp r) \<le> ts_key (WriteTimestamp t)" if "ev_commits i l = Some t" for t
    using txn_step_effect [OF step i] that
    by cases (auto simp: touches_def contract_def ev_commits_def split: option.splits if_splits)
  show "case txn_record txns i s' of
      None \<Rightarrow> txn_tombstoned txns i s' \<or> Status t \<noteq> ABORTED \<and> ts_key (WriteTimestamp t) \<le> txn_push_floor txns i s'
      | Some r \<Rightarrow> Status r = Status t \<and> ts_key (WriteTimestamp t) \<le> ts_key (WriteTimestamp r)" if "ev_pushes i l = Some t" for t
    using txn_step_effect [OF step i] that
    by cases (auto simp: touches_def contract_def ev_pushes_def split: option.splits if_splits)
next
  show "txn_tombstoned txns i s" if "wf_range txns s" "txn_tracked txns i" "txn_record txns i s = Some r" for s i r
    using that by (auto simp: wf_range_def txn_record_def)
qed

section \<open>What the contract gives\<close>

text \<open>An example: one transaction, a range that holds its anchor, and an engine without locks.\<close>

definition ts_at :: "int64 \<Rightarrow> Timestamp" where
  "ts_at w = \<lparr>WallTime = w, Logical = 0, Synthetic = False\<rparr>"

definition ex_txn :: Transaction where
  "ex_txn = MakeTransaction (replicate 16 1) 5 ''a'' [200] (ts_at 10) 500 1"

definition ex_txns :: "uuid \<Rightarrow> bytes \<times> Timestamp" where
  "ex_txns i = ([200], ts_at 10)"

definition ex_env :: "unit eval_env" where
  "ex_env = \<lparr>Ops = \<lparr>ResolveIntent = \<lambda>u st. Inr (True, st), ResolveIntentRange = \<lambda>u m st. Inr (1, None, st)\<rparr>,
     RangeID = 7, Desc = \<lparr>StartKey = [150], DescEndKey = [250]\<rparr>, LeaseStartTs = Timestamp_zero, LeaseExpiration = ts_at 100,
     ClockNow = ts_at 50, TxnLivenessThreshold = 50, RunCommitTrigger = \<lambda>t st. Inr st, txnAutoGC = True, RecoverOnFailedPush = False\<rparr>"

definition ex_range :: "unit range_state" where
  "ex_range = \<lparr>Records = Map.empty, TsCache = \<lambda>k. \<lparr>CacheTs = Timestamp_zero, CacheTxn = uuid_Nil\<rparr>, Aborts = Map.empty, Store = ()\<rparr>"

definition ex_push :: "PushTxnType \<Rightarrow> txn_request" where
  "ex_push ty = PushReq \<lparr>PushKey = [200], PusherTxn = MakeTransaction (replicate 16 2) 5 ''b'' [210] (ts_at 20) 500 1,
     PusheeTxn = TxnMeta.truncate ex_txn, PushTo = ts_at 30, PushType = ty, Force = True\<rparr>"

definition ex_end :: "bool \<Rightarrow> txn_request" where
  "ex_end commit = EndReq \<lparr>EndReqKey = [200], Commit = commit, Deadline = None, HasTrigger = False, MergedDesc = None,
     ReqLockSpans = [\<lparr>Key = [200], EndKey = None\<rparr>, \<lparr>Key = [251], EndKey = None\<rparr>], ReqInFlightWrites = [], Require1PC = False, Poison = False\<rparr>"

lemma served_iff: "(case m of Inl e \<Rightarrow> False | Inr (t, s) \<Rightarrow> P t s) \<longleftrightarrow> (\<exists>t s. m = Inr (t, s) \<and> P t s)"
  by (auto split: sum.splits)

lemma ex_request:
  assumes "serve ex_env h req s = Inr (t, s')" "proper ex_txns h req"
    and "case HTxn h of None \<Rightarrow> \<not> Timestamp_IsEmpty (HTimestamp h) | Some u \<Rightarrow> HTimestamp h = ReadTimestamp u"
  shows "txn_step ex_txns s (Some (req, t)) s'"
proof (cases "HTxn h")
  case None
  then show ?thesis using assms txn_step.request [of Timestamp_zero h h ex_txns req ex_env s t s'] by (simp add: SetActiveTimestamp_def)
next
  case (Some u)
  then show ?thesis using assms txn_step.request [of Timestamp_zero "h\<lparr>HTimestamp := Timestamp_zero\<rparr>" h ex_txns req ex_env s t s']
    by (simp add: SetActiveTimestamp_def Timestamp_IsEmpty_def)
qed

lemma ex_proper:
  "proper ex_txns \<lparr>HTimestamp = w, HTxn = None\<rparr> (ex_push ty)"
  "10 \<le> sint w' \<Longrightarrow> proper ex_txns \<lparr>HTimestamp = w, HTxn = Some (ex_txn\<lparr>ReadTimestamp := ts_at w', WriteTimestamp := ts_at w'\<rparr>)\<rparr> (ex_end commit)"
  "proper ex_txns \<lparr>HTimestamp = w, HTxn = Some ex_txn\<rparr> (HeartbeatReq k now)"
  by (simp_all add: proper_def ex_push_def ex_end_def ex_txn_def ex_txns_def MakeTransaction_def anchored_def txn_wf_def
      TxnMeta.defs obs_wf_def ignored_wf_def ts_at_def ts_key_def)

lemma ex_wf: "wf_range ex_txns ex_range" "txn_tracked ex_txns (replicate 16 1)"
proof -
  show "wf_range ex_txns ex_range" by (simp add: wf_range_def ex_range_def)
  have "length (replicate 16 (1 :: 8 word)) = 16 \<and> (case TransactionKey [200] (replicate 16 1) of Inl e \<Rightarrow> False | Inr k \<Rightarrow> True)"
    by code_simp
  then show "txn_tracked ex_txns (replicate 16 1)" by (auto simp: txn_tracked_def txn_key_def ex_txns_def split: sum.splits)
qed

lemma ex_abort:
  "case serve ex_env \<lparr>HTimestamp = ts_at 50, HTxn = None\<rparr> (ex_push PUSH_ABORT) ex_range of
   Inl e \<Rightarrow> False | Inr (t, s1) \<Rightarrow> Status t = ABORTED \<and> ID t = replicate 16 1 \<and>
     (case serve ex_env \<lparr>HTimestamp = ts_at 10, HTxn = Some (ex_txn\<lparr>ReadTimestamp := ts_at 10, WriteTimestamp := ts_at 10\<rparr>)\<rparr> (ex_end False) s1 of
        Inl e \<Rightarrow> False | Inr (u, s2) \<Rightarrow> Status u = ABORTED \<and> ID u = replicate 16 1)"
  by code_simp

lemma ex_pushed:
  "case serve ex_env \<lparr>HTimestamp = ts_at 50, HTxn = None\<rparr> (ex_push PUSH_TIMESTAMP) ex_range of
   Inl e \<Rightarrow> False | Inr (t, s1) \<Rightarrow> ID t = replicate 16 1 \<and> WriteTimestamp t = ts_at 30 \<and>
     (case serve ex_env \<lparr>HTimestamp = ts_at 30, HTxn = Some (ex_txn\<lparr>ReadTimestamp := ts_at 30, WriteTimestamp := ts_at 30\<rparr>)\<rparr> (ex_end True) s1 of
        Inl e \<Rightarrow> False | Inr (u, s2) \<Rightarrow> Status u = COMMITTED \<and> ID u = replicate 16 1)"
  by code_simp

lemma ex_life:
  "case serve ex_env \<lparr>HTimestamp = ts_at 10, HTxn = Some ex_txn\<rparr> (HeartbeatReq [200] (ts_at 12)) ex_range of
   Inl e \<Rightarrow> False | Inr (t, s1) \<Rightarrow> (case txn_record ex_txns (replicate 16 1) s1 of None \<Rightarrow> False | Some r \<Rightarrow> True) \<and>
     (case serve ex_env \<lparr>HTimestamp = ts_at 30, HTxn = Some (ex_txn\<lparr>ReadTimestamp := ts_at 30, WriteTimestamp := ts_at 30\<rparr>)\<rparr> (ex_end True) s1 of
        Inl e \<Rightarrow> False | Inr (u, s2) \<Rightarrow> (case txn_record ex_txns (replicate 16 1) s2 of None \<Rightarrow> False | Some r \<Rightarrow> Status r = COMMITTED))"
  by code_simp

text \<open>
  C1. A transaction that a push found or made aborted never commits and is never staged: on every run of a range,
  whatever requests, garbage collections and other uses of the timestamp cache follow, no later reply to the
  coordinator or to a recovery has that outcome.
\<close>

theorem aborted_never_commits:
  assumes "run (txn_step txns) s (xs @ l # ys) s'" "wf_range txns s" "txn_tracked txns i"
    and "ev_pushes i l = Some t" "Status t = ABORTED" "k \<in> set ys"
  shows "ev_commits i k = None"
  using assms by (rule rp.abort_is_final)

theorem aborted_never_commits_witness:
  "\<exists>t u s'. run (txn_step ex_txns) ex_range ([] @ Some (ex_push PUSH_ABORT, t) # [Some (ex_end False, u)]) s' \<and>
    Status t = ABORTED \<and> ID u = replicate 16 1 \<and> ev_commits (replicate 16 1) (Some (ex_end False, u)) = None"
proof -
  obtain t s1 u s2 where r: "serve ex_env \<lparr>HTimestamp = ts_at 50, HTxn = None\<rparr> (ex_push PUSH_ABORT) ex_range = Inr (t, s1)"
      "serve ex_env \<lparr>HTimestamp = ts_at 10, HTxn = Some (ex_txn\<lparr>ReadTimestamp := ts_at 10, WriteTimestamp := ts_at 10\<rparr>)\<rparr> (ex_end False) s1 = Inr (u, s2)"
    and t: "Status t = ABORTED" "ID t = replicate 16 1" "ID u = replicate 16 1"
    using ex_abort unfolding served_iff by blast
  have run: "run (txn_step ex_txns) ex_range ([] @ Some (ex_push PUSH_ABORT, t) # [Some (ex_end False, u)]) s2"
    using ex_request [OF r(1)] ex_request [OF r(2)] ex_proper by (auto simp: ts_at_def Timestamp_IsEmpty_def Timestamp_zero_def)
  moreover have "ev_pushes (replicate 16 1) (Some (ex_push PUSH_ABORT, t)) = Some t"
    using t by (simp add: ev_pushes_def ex_push_def)
  ultimately show ?thesis using aborted_never_commits [OF run ex_wf] t by auto
qed

text \<open>
  C2. A transaction that was pushed to a timestamp never commits below it, on any run of a range, even when the
  push found no record and left nothing but a marker in the timestamp cache.
\<close>

theorem pushed_commits_above:
  assumes "run (txn_step txns) s (xs @ l # ys) s'" "wf_range txns s" "txn_tracked txns i"
    and "ev_pushes i l = Some t" "k \<in> set ys" "ev_commits i k = Some u"
  shows "ts_key (WriteTimestamp t) \<le> ts_key (WriteTimestamp u)"
  using assms by (rule rp.push_is_honoured)

theorem pushed_commits_above_witness:
  "\<exists>t u s'. run (txn_step ex_txns) ex_range ([] @ Some (ex_push PUSH_TIMESTAMP, t) # [Some (ex_end True, u)]) s' \<and>
    Status u = COMMITTED \<and> ts_key (WriteTimestamp t) = (30, 0) \<and> (30, 0) \<le> ts_key (WriteTimestamp u)"
proof -
  obtain t s1 u s2 where r: "serve ex_env \<lparr>HTimestamp = ts_at 50, HTxn = None\<rparr> (ex_push PUSH_TIMESTAMP) ex_range = Inr (t, s1)"
      "serve ex_env \<lparr>HTimestamp = ts_at 30, HTxn = Some (ex_txn\<lparr>ReadTimestamp := ts_at 30, WriteTimestamp := ts_at 30\<rparr>)\<rparr> (ex_end True) s1 = Inr (u, s2)"
    and t: "ID t = replicate 16 1" "WriteTimestamp t = ts_at 30" "Status u = COMMITTED" "ID u = replicate 16 1"
    using ex_pushed unfolding served_iff by blast
  have run: "run (txn_step ex_txns) ex_range ([] @ Some (ex_push PUSH_TIMESTAMP, t) # [Some (ex_end True, u)]) s2"
    using ex_request [OF r(1)] ex_request [OF r(2)] ex_proper by (auto simp: ts_at_def Timestamp_IsEmpty_def Timestamp_zero_def)
  moreover have "ev_pushes (replicate 16 1) (Some (ex_push PUSH_TIMESTAMP, t)) = Some t"
    "ev_commits (replicate 16 1) (Some (ex_end True, u)) = Some u"
    using t by (simp_all add: ev_pushes_def ex_push_def ev_commits_def ex_end_def commit_reply_def)
  moreover have "ts_key (WriteTimestamp t) = (30, 0)" using t(2) by (simp add: ts_at_def ts_key_def)
  ultimately show ?thesis using pushed_commits_above [OF run ex_wf] t(3) by fastforce
qed

text \<open>
  C6. The life of a record, on every run that starts without records: a live record belongs to its transaction and
  has its tombstone, its epoch and timestamp never decrease, a finalised status stays, a staging record
  becomes pending again only at a higher epoch, and a record is created either aborted or for a transaction
  that has no tombstone, at or above its push marker.
\<close>

theorem record_lifecycle:
  assumes "run (txn_step txns) s ls s1" "Records s = Map.empty" "txn_step txns s1 l s2" "txn_tracked txns i"
  shows "wf_range txns s2 \<and>
    (case (txn_record txns i s1, txn_record txns i s2) of
       (Some r, Some r') \<Rightarrow> advances r r'
     | (None, Some r') \<Rightarrow> Status r' = ABORTED \<or> \<not> txn_tombstoned txns i s1 \<and> txn_push_floor txns i s1 \<le> ts_key (WriteTimestamp r')
     | (_, None) \<Rightarrow> True)"
proof -
  have "wf_range txns s" using assms(2) by (simp add: wf_range_def)
  then have "wf_range txns s1" using rp.inv_run [OF assms(1)] by blast
  then show ?thesis
    using rp.inv_step [OF assms(3)] rp.created [OF assms(3) _ assms(4)] rp.advanced [OF assms(3) _ assms(4)]
    by (auto split: option.splits)
qed

theorem record_lifecycle_witness:
  "\<exists>t u s1 s2 r r'. run (txn_step ex_txns) ex_range [Some (HeartbeatReq [200] (ts_at 12), t)] s1 \<and>
    txn_step ex_txns s1 (Some (ex_end True, u)) s2 \<and> txn_record ex_txns (replicate 16 1) s1 = Some r \<and>
    txn_record ex_txns (replicate 16 1) s2 = Some r' \<and> Status r' = COMMITTED \<and> advances r r'"
proof -
  obtain t s1 u s2 r r' where e: "serve ex_env \<lparr>HTimestamp = ts_at 10, HTxn = Some ex_txn\<rparr> (HeartbeatReq [200] (ts_at 12)) ex_range = Inr (t, s1)"
      "serve ex_env \<lparr>HTimestamp = ts_at 30, HTxn = Some (ex_txn\<lparr>ReadTimestamp := ts_at 30, WriteTimestamp := ts_at 30\<rparr>)\<rparr> (ex_end True) s1 = Inr (u, s2)"
    and r: "txn_record ex_txns (replicate 16 1) s1 = Some r" "txn_record ex_txns (replicate 16 1) s2 = Some r'" "Status r' = COMMITTED"
    using ex_life unfolding served_iff by (auto split: option.splits)
  have run: "run (txn_step ex_txns) ex_range [Some (HeartbeatReq [200] (ts_at 12), t)] s1" "txn_step ex_txns s1 (Some (ex_end True, u)) s2"
    using ex_request [OF e(1)] ex_request [OF e(2)] ex_proper by (simp_all add: ex_txn_def MakeTransaction_def)
  then have "advances r r'" using record_lifecycle [OF run(1) _ run(2) ex_wf(2)] r by (simp add: ex_range_def)
  then show ?thesis using run r by blast
qed

lemma end_decide_commit:
  assumes "end_decide env key args existed txn s = Inr (t, s')" "Commit args" "existed \<longleftrightarrow> Records s key \<noteq> None"
  shows "Status t = (if IsParallelCommit args then STAGING else COMMITTED) \<and> WriteTimestamp t = WriteTimestamp txn \<and>
    WriteTimestamp t = ReadTimestamp txn \<and> \<not> IsEndTxnExceedingDeadline (WriteTimestamp t) (Deadline args)"
proof (cases "IsParallelCommit args")
  case True
  then show ?thesis using assms(1,2)
    by (auto simp: end_decide_def IsEndTxnTriggeringRetryError_def updateStagingTxn_def Let_def split: if_splits)
next
  case False
  then have e: "end_finalize env key args existed (txn\<lparr>Status := COMMITTED\<rparr>) s = Inr (t, s')"
    and r: "WriteTimestamp txn = ReadTimestamp txn" "\<not> IsEndTxnExceedingDeadline (WriteTimestamp txn) (Deadline args)"
    using assms(1,2) by (auto simp: end_decide_def IsEndTxnTriggeringRetryError_def split: if_splits)
  show ?thesis using end_finalize_Inr [OF e assms(3)] r False by auto
qed

text \<open>
  C7. A commit that succeeds is serializable: the transaction commits, or is staged when writes are in flight, at the
  timestamp at which its coordinator read, which is at or above its own provisional timestamp, the timestamp of its
  record, and every push that its record or its marker remembers, and below its deadline; it was not aborted.
\<close>

theorem commit_is_serializable:
  assumes "EndTxn env h args s = Inr (t, s')" "HTxn h = Some htxn" "Commit args" "wf_range txns s" "txn_tracked txns (ID htxn)"
    and "anchored txns htxn" "(0, 0) \<le> ts_key (ReadTimestamp htxn)"
  shows "Status t = (if IsParallelCommit args then STAGING else COMMITTED) \<and>
    ts_key (WriteTimestamp t) = ts_key (ReadTimestamp htxn) \<and> ts_key (WriteTimestamp htxn) \<le> ts_key (WriteTimestamp t) \<and>
    \<not> IsEndTxnExceedingDeadline (WriteTimestamp t) (Deadline args) \<and>
    (case txn_record txns (ID htxn) s of
       None \<Rightarrow> \<not> txn_tombstoned txns (ID htxn) s \<and> txn_push_floor txns (ID htxn) s \<le> ts_key (WriteTimestamp t)
     | Some r \<Rightarrow> Status r \<noteq> ABORTED \<and> ts_key (WriteTimestamp r) \<le> ts_key (WriteTimestamp t))"
proof -
  note same = anchored_same [OF assms(6)]
  note key = key_of_same [OF assms(5) same]
  have zero: "ts_key (ReadTimestamp (AsTransaction r)) = (0, 0)" for r by (simp add: Timestamp_zero_def ts_key_def)
  from assms(1,2) key show ?thesis
  proof (cases rule: EndTxn_cases)
    case (create txn)
    then show ?thesis using CanCreate_Inr [OF assms(5) same, of env s txn] end_decide_commit [OF create(3) assms(3)] assms(3)
      by (auto simp: txn_record_def)
  next
    case (aborted r)
    then show ?thesis using assms(3) by simp
  next
    case (update r st txn)
    have "same_txn (ID htxn) (txns (ID htxn)) r"
      using assms(4,5) update(1) by (auto simp: wf_range_def dest: spec [of _ "ID htxn"])
    then have "ts_key (WriteTimestamp txn) = max (ts_key (WriteTimestamp r)) (ts_key (WriteTimestamp htxn))"
      "ts_key (ReadTimestamp txn) = ts_key (ReadTimestamp htxn)"
      using Update_Inr [OF update(3), of "ID htxn" "txns (ID htxn)"] same assms(7) by (simp_all add: Timestamp_zero_def ts_key_def)
    then show ?thesis using end_decide_commit [OF update(4) assms(3)] update(1,2)
      by (auto simp: txn_record_def le_max_iff_disj IsFinalized_def)
  qed
qed

theorem commit_is_serializable_witness:
  "\<exists>args t s'. EndTxn ex_env \<lparr>HTimestamp = ts_at 10, HTxn = Some ex_txn\<rparr> args ex_range = Inr (t, s') \<and> Commit args \<and>
    Status t = COMMITTED \<and> ts_key (WriteTimestamp t) = (10, 0)"
proof -
  obtain args where args: "ex_end True = EndReq args" "Commit args" "\<not> IsParallelCommit args"
    by (simp add: ex_end_def IsParallelCommit_def)
  have "case evaluate ex_env \<lparr>HTimestamp = ts_at 10, HTxn = Some ex_txn\<rparr> (ex_end True) ex_range of
      Inl e \<Rightarrow> False | Inr (t, s) \<Rightarrow> True" by code_simp
  then obtain t s' where e: "EndTxn ex_env \<lparr>HTimestamp = ts_at 10, HTxn = Some ex_txn\<rparr> args ex_range = Inr (t, s')"
    unfolding served_iff using args(1) by (auto simp: evaluate_def)
  have "ID ex_txn = replicate 16 1" "anchored ex_txns ex_txn" "ts_key (ReadTimestamp ex_txn) = (10, 0)"
    by (simp_all add: ex_txn_def MakeTransaction_def anchored_def ex_txns_def ts_at_def ts_key_def)
  then show ?thesis using commit_is_serializable [OF e _ args(2) ex_wf(1)] ex_wf(2) e args by auto
qed

text \<open>The pushee as a push finds it: its record, or what its metadata tells.\<close>

definition last_seen :: "TxnMeta \<Rightarrow> TransactionRecord option \<Rightarrow> Transaction" where
  "last_seen meta r = AsTransaction (case r of Some r \<Rightarrow> r
     | None \<Rightarrow> TxnMeta.extend meta (TransactionRecord.fields PENDING (MinTimestamp meta) [] [] []))"

lemma push_found_expired:
  assumes "IsExpired (TxnLivenessThreshold env) (ClockNow env) p" "PushType args = PUSH_ABORT" "\<not> IsFinalized (Status p)"
  shows "(\<exists>t. push_found env key args existed p s =
      Inr (t, if existed then s\<lparr>Records := (Records s)(key \<mapsto> AsRecord t)\<rparr> else s) \<and> Status t = ABORTED) \<or>
    Status p = STAGING \<and> push_found env key args existed p s = Inl (IndeterminateCommitError (UpgradePriority (Priority (PusheeTxn args)) p))"
proof -
  obtain q ty where q: "push_absorb args p = (q, ty)" by fastforce
  have la: "LastActive q = LastActive p" using q by (auto simp: push_absorb_def LastActive_def Let_def split: if_splits)
  then have d: "push_decide env args q ty = (True, PUSH_ABORT)"
    using assms(1) by (simp add: push_decide_def IsExpired_def TxnExpiration_def)
  show ?thesis
  proof (cases "Status q = STAGING")
    case True
    then have "q = UpgradePriority (Priority (PusheeTxn args)) p" "Status p = STAGING"
      using q by (auto simp: push_absorb_def Let_def split: if_splits)
    then show ?thesis using True q d assms(2,3) by (simp add: push_found_def)
  next
    case False
    then show ?thesis using q d assms(2,3) by (auto simp: push_found_def push_apply_def Let_def)
  qed
qed

lemma Synthesize_total:
  fixes s :: "'st range_state"
  assumes "txn_tracked txns i" "same_txn i (txns i) meta"
  shows "\<exists>u. SynthesizeTxnFromMeta env (TsCache s) meta = Inr u \<and> LastActive u = LastActive (last_seen meta None)"
proof -
  obtain reason where c: "Replica_CanCreateTxnRecord env (TsCache s) (ID meta) (TxnKey meta) (MinTimestamp meta) =
      Inr (if txn_tombstoned txns i s then Inl reason else Inr (CacheTs (TsCache s (push_key txns i))))"
    using Replica_CanCreate_eq [OF assms(1), of env s] assms(2) by (auto simp: same_txn_def)
  show ?thesis
    by (cases "Timestamp_IsEmpty (MinTimestamp meta)"; cases "txn_tombstoned txns i s")
      (simp_all add: SynthesizeTxnFromMeta_def c lift_err_def Let_def last_seen_def LastActive_def)
qed

lemma recovery_ends:
  assumes "txn_tracked txns i" "txn_record txns i s = Some r" "same_txn i (txns i) r" "Status r = STAGING"
    and "HTxn h = None" "\<not> Timestamp_Less (HTimestamp h) (MinTimestamp r)"
  shows "\<exists>t s'. RecoverTxn env h \<lparr>RecoverKey = TxnKey r, RecoverMeta = TxnMeta.truncate (UpgradePriority p (AsTransaction r)),
      ImplicitlyCommitted = found\<rparr> s = Inr (t, s') \<and>
    Status t = (if found then COMMITTED else ABORTED) \<and> txn_record txns i s' = Some (AsRecord t)"
proof -
  let ?m = "TxnMeta.truncate (UpgradePriority p (AsTransaction r))"
  have m: "ID ?m = ID r" "TxnKey ?m = TxnKey r" "Epoch ?m = Epoch r" "WriteTimestamp ?m = WriteTimestamp r" "MinTimestamp ?m = MinTimestamp r"
    by (simp_all add: TxnMeta.defs)
  show ?thesis using assms key_of_same [OF assms(1,3)]
    by (cases found) (simp_all add: RecoverTxn_def m Header_WriteTimestamp_def lift_err_def Let_def recover_finalize_def txn_record_def ts_order)
qed

text \<open>
  C8. No transaction blocks others for ever. Once a transaction has not shown activity for the liveness threshold, a
  push to abort it either ends it, or reports that its commit is indeterminate; and then recovery with the
  metadata of that report ends it, as committed or as aborted according to what recovery found.
\<close>

theorem expired_txn_ends:
  assumes "wf_range txns s" "txn_tracked txns (ID (PusheeTxn args))" "anchored txns (PusheeTxn args)"
    and "HTxn h = None" "\<not> Timestamp_Less (HTimestamp h) (PushTo args)" "\<not> Timestamp_Less (HTimestamp h) (MinTimestamp (PusheeTxn args))"
    and "PushKey args = TxnKey (PusheeTxn args)" "PushType args = PUSH_ABORT"
    and "IsExpired (TxnLivenessThreshold env) (ClockNow env) (last_seen (PusheeTxn args) (txn_record txns (ID (PusheeTxn args)) s))"
  shows "(\<exists>t s'. PushTxn env h args s = Inr (t, s') \<and> IsFinalized (Status t) \<and>
      (\<forall>r. txn_record txns (ID (PusheeTxn args)) s' = Some r \<longrightarrow> Status r = Status t)) \<or>
    (\<exists>u. PushTxn env h args s = Inl (IndeterminateCommitError u) \<and>
      (\<forall>found. \<exists>t s'. RecoverTxn env h \<lparr>RecoverKey = TxnKey u, RecoverMeta = TxnMeta.truncate u, ImplicitlyCommitted = found\<rparr> s = Inr (t, s') \<and>
        Status t = (if found then COMMITTED else ABORTED) \<and> txn_record txns (ID (PusheeTxn args)) s' = Some (AsRecord t)))"
    (is "?pushed \<or> ?recovered")
proof -
  let ?i = "ID (PusheeTxn args)" and ?m = "PusheeTxn args"
  note same = anchored_same [OF assms(3)]
  note key = key_of_same [OF assms(2) same]
  have push: "PushTxn env h args s = (case txn_record txns ?i s of
      Some r \<Rightarrow> push_found env (txn_key txns ?i) args True (AsTransaction r) s
    | None \<Rightarrow> res_bind (SynthesizeTxnFromMeta env (TsCache s) ?m) (\<lambda>u.
        if Status u = ABORTED then Inr (u, s) else push_found env (txn_key txns ?i) args False u s))"
    using assms(4-7) key by (simp add: PushTxn_def Header_WriteTimestamp_def lift_err_def txn_record_def)
  show ?thesis
  proof (cases "txn_record txns ?i s")
    case None
    obtain u where u: "SynthesizeTxnFromMeta env (TsCache s) ?m = Inr u" "LastActive u = LastActive (last_seen ?m None)"
      using Synthesize_total [OF assms(2) same] by blast
    have "Status u = ABORTED \<or> Status u = PENDING" using Synthesize_Inr [OF assms(2) same u(1)] by blast
    moreover have "IsExpired (TxnLivenessThreshold env) (ClockNow env) u"
      using assms(9) None u(2) by (simp add: IsExpired_def TxnExpiration_def)
    ultimately have ?pushed using push None u(1) push_found_expired [of env u args "txn_key txns ?i" False s] assms(8) by auto
    then show ?thesis ..
  next
    case (Some r)
    have exp: "IsExpired (TxnLivenessThreshold env) (ClockNow env) (AsTransaction r)" using assms(9) Some by (simp add: last_seen_def)
    have push: "PushTxn env h args s = push_found env (txn_key txns ?i) args True (AsTransaction r) s" using push Some by simp
    show ?thesis
    proof (cases "IsFinalized (Status r)")
      case True
      then have ?pushed using push Some by (simp add: push_found_def)
      then show ?thesis ..
    next
      case False
      then consider ?pushed | "Status r = STAGING"
          "PushTxn env h args s = Inl (IndeterminateCommitError (UpgradePriority (Priority ?m) (AsTransaction r)))"
        using push push_found_expired [OF exp assms(8), of "txn_key txns ?i" True s] by (auto simp: txn_record_def)
      then show ?thesis
      proof cases
        case 2
        have "same_txn ?i (txns ?i) r" using assms(1,2) Some by (auto simp: wf_range_def txn_record_def dest: spec [of _ ?i])
        then have ?recovered using 2 recovery_ends [OF assms(2) Some _ 2(1) assms(4), of env "Priority ?m"] assms(3,6)
          by (simp add: anchored_def same_txn_def)
        then show ?thesis ..
      qed blast
    qed
  qed
qed

theorem expired_txn_ends_witness:
  "\<exists>args t s'. PushTxn (ex_env\<lparr>TxnLivenessThreshold := 5\<rparr>) \<lparr>HTimestamp = ts_at 50, HTxn = None\<rparr> args ex_range = Inr (t, s') \<and>
    \<not> Force args \<and> Status t = ABORTED"
proof -
  let ?env = "ex_env\<lparr>TxnLivenessThreshold := 5\<rparr>" and ?h = "\<lparr>HTimestamp = ts_at 50, HTxn = None\<rparr>"
  define args where "args = \<lparr>PushKey = [200], PusherTxn = MakeTransaction (replicate 16 2) 5 ''b'' [210] (ts_at 20) 500 1,
     PusheeTxn = TxnMeta.truncate ex_txn, PushTo = ts_at 30, PushType = PUSH_ABORT, Force = False\<rparr>"
  have p: "ID (PusheeTxn args) = replicate 16 1" "TxnKey (PusheeTxn args) = [200]" "MinTimestamp (PusheeTxn args) = ts_at 10"
    "PushTo args = ts_at 30" "PushKey args = [200]" "PushType args = PUSH_ABORT" "\<not> Force args"
    by (simp_all add: args_def ex_txn_def MakeTransaction_def TxnMeta.defs)
  have none: "txn_record ex_txns i ex_range = None" for i by (simp add: txn_record_def ex_range_def)
  have exp: "IsExpired (TxnLivenessThreshold ?env) (ClockNow ?env) (last_seen (PusheeTxn args) None)"
    unfolding args_def by code_simp
  have st: "case PushTxn ?env ?h args ex_range of Inl e \<Rightarrow> False | Inr (t, s) \<Rightarrow> Status t = ABORTED"
    unfolding args_def by code_simp
  have "anchored ex_txns (PusheeTxn args)" using p by (simp add: anchored_def ex_txns_def)
  then show ?thesis
    using expired_txn_ends [OF ex_wf(1), of args ?h ?env] ex_wf(2) p exp none st unfolding served_iff
    by (auto simp: ts_order ts_at_def ts_key_def)
qed

end
