(* ===== verification/Ts_Reads.thy ===== *)
theory Ts_Reads
  imports Txn_Record
begin

text \<open>
  Reads and writes through the timestamp cache: the interface \<open>tscache.Cache\<close> as a locale and the interval cache as an
  instance of it, the reads that a batch leaves in the cache and the timestamp that a batch of writes takes from it
  (\<open>kv/kvserver/replica_tscache.go\<close>). The theorems show that eviction never forgets a read, that a lookup is the least
  upper bound of what the cache says of its keys, and that no write lands beneath a read of another transaction.
\<close>

section \<open>Eviction\<close>

definition kept :: "treeImpl \<Rightarrow> bool" where
  "kept tc \<longleftrightarrow> tc_wf tc \<and> owed tc = 0 \<and> room tc (length (tree tc))"

lemma low_beneath [simp]: "beneath (low_mark tc) (mark_at tc k)"
  using low_in_mark by (simp add: beneath_def)

lemma kept_low [simp]: "kept (tc\<lparr>lowWater := t\<rparr>) = kept tc"
  by (simp add: kept_def tc_wf_def owed_def room_def)

lemma mark_at_raise:
  assumes "Timestamp_LessEq (lowWater tc) t"
  shows "beneath (mark_at tc k) (mark_at (tc\<lparr>lowWater := t\<rparr>) k)"
proof -
  have "beneath (low_mark tc) (low_mark (tc\<lparr>lowWater := t\<rparr>))"
    using assms by (auto simp: beneath_iff low_mark_def ts_order)
  then show ?thesis
    by (auto simp: mark_at_def ratchet_beneath intro: beneath_trans cong: option.case_cong split: option.split)
qed

lemma drop_kept:
  assumes "kept tc" "i \<in> set (tree tc)"
  shows "removeElement i tc = Inr (drop_entry i tc)" "kept (drop_entry i tc)"
proof -
  have wf: "tc_wf tc" "owed tc = 0" "room tc (length (tree tc))" using assms(1) by (simp_all add: kept_def)
  show "removeElement i tc = Inr (drop_entry i tc)" by (rule removeElement_room [OF wf(1) assms(2) wf(2,3)])
  have "room tc (length (tree (drop_entry i tc)))" by (rule room_mono [OF wf(3)]) (simp add: drop_entry_def length_remove1)
  then show "kept (drop_entry i tc)"
    using drop_entry_wf [OF wf(1)] drop_entry_owed [OF wf(1) assms(2)] wf(2)
    by (simp add: kept_def room_def drop_entry_def)
qed

lemma drop_beneath:
  assumes "kept tc" "i \<in> set (tree tc)" "Timestamp_LessEq (CacheTs (EValue (heap tc i))) (lowWater tc)"
  shows "beneath (mark_at tc k) (mark_at (drop_entry i tc) k)"
proof -
  have wf: "tc_wf tc" using assms(1) by (simp add: kept_def)
  have "beneath (vkey (EValue (heap tc i))) (low_mark tc)" using assms(3) by (auto simp: beneath_iff vkey_def low_mark_def ts_order)
  then show ?thesis using drop_entry_mark [OF wf assms(2), of k] mark_at_covered [OF wf assms(2), of k] by (simp add: ratchet_beneath)
qed

lemma evict_beneath:
  assumes "kept tc"
  shows "\<exists>b tc'. evict tc = Inr (b, tc') \<and> kept tc' \<and> (\<forall>k. beneath (mark_at tc k) (mark_at tc' k))"
proof (cases "ll tc = []")
  case True
  then show ?thesis using assms by (auto simp: evict_def kept_def tc_wf_def)
next
  case False
  let ?i = "last (ll tc)"
  let ?v = "EValue (heap tc ?i)"
  have i: "?i \<in> set (tree tc)" using False assms by (auto simp: kept_def tc_wf_def)
  obtain b tc1 where e: "shouldEvict ?v tc = (b, tc1)" by fastforce
  have tc1: "kept tc1" "tree tc1 = tree tc" "heap tc1 = heap tc" "b \<Longrightarrow> Timestamp_LessEq (CacheTs ?v) (lowWater tc1)"
    "\<And>k. beneath (mark_at tc k) (mark_at tc1 k)"
    using e assms by (auto simp: shouldEvict_def Let_def ts_order intro!: mark_at_raise split: if_splits)
  have "tree tc \<noteq> []" using i by auto
  then have ev: "evict tc = (if b then res_bind (removeElement ?i tc1) (\<lambda>tc. Inr (True, tc)) else Inr (False, tc1))"
    using False e by (simp add: evict_def)
  show ?thesis
  proof (cases b)
    case True
    have "beneath (mark_at tc k) (mark_at (drop_entry ?i tc1) k)" for k
      using tc1(5) drop_beneath [OF tc1(1), of ?i k] i tc1 True by (auto intro: beneath_trans)
    then show ?thesis using ev True drop_kept [OF tc1(1), of ?i] i tc1(2) by (auto intro: exI [of _ True])
  qed (use ev tc1 in \<open>auto intro: exI [of _ False]\<close>)
qed

lemma evict_loop_beneath:
  assumes "kept tc"
  shows "\<exists>tc'. evict_loop tc = Inr tc' \<and> kept tc' \<and> (\<forall>k. beneath (mark_at tc k) (mark_at tc' k))"
  using assms
proof (induction tc rule: evict_loop.induct)
  case (1 tc)
  obtain b tc' where e: "evict tc = Inr (b, tc')" "kept tc'" "\<And>k. beneath (mark_at tc k) (mark_at tc' k)"
    using evict_beneath [OF 1(2)] by blast
  show ?case
  proof (cases b)
    case True
    then obtain tc2 where "evict_loop tc' = Inr tc2" "kept tc2" "\<And>k. beneath (mark_at tc' k) (mark_at tc2 k)"
      using 1(1) [OF e(1)] e(2) by auto
    then show ?thesis using e True by (auto simp: evict_loop.simps [of tc] intro: beneath_trans)
  qed (use e in \<open>auto simp: evict_loop.simps [of tc]\<close>)
qed

section \<open>Lookups\<close>

text \<open>
  A lookup compares timestamps with their synthetic flags, while the order of timestamps ignores the flag: it tells owners
  apart only when two timestamps of the cache that are equal in the order are the same.
\<close>

definition stamps :: "treeImpl \<Rightarrow> Timestamp set" where
  "stamps tc = insert (lowWater tc) ((\<lambda>i. CacheTs (EValue (heap tc i))) ` set (tree tc))"

lemma max_step_mark:
  assumes "ts_key (CacheTs m) = ts_key (CacheTs v) \<Longrightarrow> CacheTs m = CacheTs v"
  shows "vkey (max_step m v) = ratchet (vkey m) (vkey v)"
  using assms by (cases "ts_key (CacheTs m)" "ts_key (CacheTs v)" rule: linorder_cases)
    (auto simp: max_step_def vkey_def ts_order ratchet_cases)

lemma max_step_level: "ts_key (CacheTs (max_step m v)) = max (ts_key (CacheTs m)) (ts_key (CacheTs v))"
  by (auto simp: max_step_def ts_order max_def)

lemma max_step_stamp: "CacheTs (max_step m v) \<in> {CacheTs m, CacheTs v}"
  by (simp add: max_step_def)

lemma fold_max_mark:
  assumes "inj_on ts_key T" "CacheTs m \<in> T" "\<And>v. v \<in> set vs \<Longrightarrow> CacheTs v \<in> T"
  shows "vkey (fold (\<lambda>v m. max_step m v) vs m) = fold (\<lambda>v m. ratchet m (vkey v)) vs (vkey m)"
  using assms(2,3)
proof (induction vs arbitrary: m)
  case (Cons v vs)
  have "vkey (max_step m v) = ratchet (vkey m) (vkey v)"
    using assms(1) Cons.prems by (intro max_step_mark) (auto dest: inj_onD)
  moreover have "CacheTs (max_step m v) \<in> T" using max_step_stamp [of m v] Cons.prems by auto
  ultimately show ?case using Cons by simp
qed simp

lemma fold_ratchet_beneath:
  "beneath (fold (\<lambda>v m. ratchet m (vkey v)) vs a) b \<longleftrightarrow> beneath a b \<and> (\<forall>v \<in> set vs. beneath (vkey v) b)"
  by (induction vs arbitrary: a) (auto simp: ratchet_beneath)

lemma getMax_beneath:
  assumes "inj_on ts_key (stamps tc)"
  shows "beneath (vkey (getMax start ende tc)) b \<longleftrightarrow>
    beneath (low_mark tc) b \<and> (\<forall>i \<in> set (GetOverlaps start (end_of start ende) tc). beneath (vkey (EValue (heap tc i))) b)"
proof -
  let ?vs = "map (\<lambda>i. EValue (heap tc i)) (GetOverlaps start (end_of start ende) tc)"
  let ?m = "\<lparr>CacheTs = lowWater tc, CacheTxn = uuid_Nil\<rparr>"
  have "getMax start ende tc = fold (\<lambda>v m. max_step m v) ?vs ?m" by (simp add: getMax_def fold_map comp_def)
  moreover have "vkey (fold (\<lambda>v m. max_step m v) ?vs ?m) = fold (\<lambda>v m. ratchet m (vkey v)) ?vs (vkey ?m)"
    by (rule fold_max_mark [OF assms]) (auto simp: stamps_def GetOverlaps_set)
  ultimately have "vkey (getMax start ende tc) = fold (\<lambda>v m. ratchet m (vkey v)) ?vs (low_mark tc)"
    by (simp add: low_mark_def vkey_def)
  then show ?thesis by (simp add: fold_ratchet_beneath)
qed

lemma getMax_iff:
  assumes "tc_wf tc" "inj_on ts_key (stamps tc)" "start < end_of start ende"
  shows "beneath (vkey (getMax start ende tc)) b \<longleftrightarrow> (\<forall>k. start \<le> k \<and> k < end_of start ende \<longrightarrow> beneath (mark_at tc k) b)"
proof
  assume b: "beneath (vkey (getMax start ende tc)) b"
  have "beneath (mark_at tc k) b" if "start \<le> k" "k < end_of start ende" for k
    using assms(1)
  proof (cases rule: mark_at_cases [where k = k])
    case free
    then show ?thesis using b getMax_beneath [OF assms(2)] by simp
  next
    case (covered i)
    then have "i \<in> set (GetOverlaps start (end_of start ende) tc)" using that by (auto simp: GetOverlaps_set covers_def)
    then show ?thesis using b getMax_beneath [OF assms(2)] covered(3) by (simp add: ratchet_beneath)
  qed
  then show "\<forall>k. start \<le> k \<and> k < end_of start ende \<longrightarrow> beneath (mark_at tc k) b" by blast
next
  assume b: "\<forall>k. start \<le> k \<and> k < end_of start ende \<longrightarrow> beneath (mark_at tc k) b"
  have "beneath (low_mark tc) b" using b assms(3) beneath_trans [OF low_beneath, of tc start b] by simp
  moreover have "beneath (vkey (EValue (heap tc i))) b" if "i \<in> set (GetOverlaps start (end_of start ende) tc)" for i
  proof -
    let ?k = "max start (EStart (heap tc i))"
    have i: "i \<in> set (tree tc)" "EStart (heap tc i) < end_of start ende" "start < EEnd (heap tc i)" "EStart (heap tc i) < EEnd (heap tc i)"
      using that assms(1) by (auto simp: GetOverlaps_set tc_wf_def)
    then have "beneath (mark_at tc ?k) b" "covers (heap tc i) ?k" using b assms(3) by (auto simp: covers_def max_def)
    then show ?thesis using mark_at_covered [OF assms(1) i(1)] by (simp add: ratchet_beneath)
  qed
  ultimately show "beneath (vkey (getMax start ende tc)) b" using getMax_beneath [OF assms(2)] by simp
qed

section \<open>Where timestamps come from\<close>

text \<open>Every timestamp of the cache is one that was added to it or its first low water mark, whatever is evicted meanwhile.\<close>

definition stamped :: "Timestamp set \<Rightarrow> treeImpl \<Rightarrow> bool" where
  "stamped T tc \<longleftrightarrow> lowWater tc \<in> T \<and> set (tree tc) \<union> set (ll tc) \<subseteq> {0<..intervalAlloc tc} \<and>
     (\<forall>i \<in> {0<..intervalAlloc tc}. CacheTs (EValue (heap tc i)) \<in> T)"

lemma stamped_stamps: "stamped T tc \<Longrightarrow> stamps tc \<subseteq> T"
  by (auto simp: stamped_def stamps_def)

lemma removeElement_stamped:
  "removeElement i tc = Inr tc' \<Longrightarrow> stamped T tc \<Longrightarrow> stamped T tc' \<and> intervalAlloc tc' = intervalAlloc tc"
  by (auto simp: removeElement_def onEvicted_def stamped_def dest!: subsetD [OF set_remove1_subset] split: if_splits)

lemma evict_stamped:
  assumes "evict tc = Inr (b, tc')" "stamped T tc"
  shows "stamped T tc' \<and> intervalAlloc tc' = intervalAlloc tc"
proof (cases "ll tc = [] \<or> tree tc = []")
  case False
  let ?i = "last (ll tc)"
  obtain c tc1 where e: "shouldEvict (EValue (heap tc ?i)) tc = (c, tc1)" by fastforce
  have "?i \<in> set (ll tc)" using False by simp
  then have "?i \<in> {0<..intervalAlloc tc}" using assms(2) unfolding stamped_def by blast
  then have "stamped T tc1" "intervalAlloc tc1 = intervalAlloc tc"
    using e assms(2) by (auto simp: shouldEvict_def stamped_def Let_def split: if_splits)
  then show ?thesis using assms(1) False e removeElement_stamped [of ?i tc1 _ T]
    by (auto simp: evict_def split: if_splits sum.splits)
qed (use assms in \<open>auto simp: evict_def split: if_splits\<close>)

lemma evict_loop_stamped:
  assumes "evict_loop tc = Inr tc'" "stamped T tc"
  shows "stamped T tc' \<and> intervalAlloc tc' = intervalAlloc tc"
  using assms
proof (induction tc rule: evict_loop.induct)
  case (1 tc)
  show ?case
  proof (cases "evict tc")
    case (Inl e)
    then show ?thesis using 1(2) by (simp add: evict_loop.simps)
  next
    case (Inr r)
    obtain b tc1 where r: "r = (b, tc1)" by (cases r)
    have e: "evict tc = Inr (b, tc1)" using Inr r by simp
    then have l: "(if b then evict_loop tc1 else Inr tc1) = Inr tc'" using 1(2) by (simp add: evict_loop.simps [of tc])
    show ?thesis using 1(1) [OF e refl] l evict_stamped [OF e 1(3)] by (cases b) simp_all
  qed
qed

lemma insertBefore_set: "insertBefore e a xs = Inr ys \<Longrightarrow> set ys = insert e (set xs)"
proof (induction xs arbitrary: ys)
  case (Cons x xs)
  show ?case
  proof (cases "x = a")
    case False
    then obtain zs where "insertBefore e a xs = Inr zs" "ys = x # zs" using Cons.prems by auto
    then show ?thesis using Cons.IH by auto
  qed (use Cons.prems in auto)
qed simp

lemma baseCache_add_stamped:
  assumes "baseCache_add s e v after tc = Inr tc'" "stamped T tc" "CacheTs v \<in> T"
  shows "stamped T tc' \<and> intervalAlloc tc' = intervalAlloc tc + 1"
proof -
  let ?i = "intervalAlloc tc + 1"
  let ?tc = "tc\<lparr>intervalAlloc := ?i, heap := (heap tc)(?i := \<lparr>EStart = s, EEnd = e, EValue = v\<rparr>), cbytes := cbytes tc + entrySize tc s e\<rparr>"
  obtain l where l: "evict_loop (?tc\<lparr>ll := l, tree := ?i # tree tc\<rparr>) = Inr tc'" "set l = insert ?i (set (ll tc))"
    using assms(1) by (cases after) (auto simp: baseCache_add_def Let_def insertBefore_set split: if_splits sum.splits)
  have "stamped T (?tc\<lparr>ll := l, tree := ?i # tree tc\<rparr>)"
    using assms(2,3) l(2) by (auto simp: stamped_def)
  then show ?thesis using evict_loop_stamped [OF l(1)] by simp
qed

lemma in_place_stamped [simp]:
  "stamped T tc \<Longrightarrow> i \<in> {0<..intervalAlloc tc} \<Longrightarrow> CacheTs (EValue x) \<in> T \<Longrightarrow> stamped T (put_entry i x tc)"
  "stamped T (resized i n tc) = stamped T tc" "stamped T tc \<Longrightarrow> i \<in> {0<..intervalAlloc tc} \<Longrightarrow> stamped T (moveToFront i tc)"
  "intervalAlloc (resized i n tc) = intervalAlloc tc" "intervalAlloc (moveToFront i tc) = intervalAlloc tc"
  by (auto simp: stamped_def put_entry_def resized_def moveToFront_def dest!: subsetD [OF set_remove1_subset])

definition stamped_result :: "Timestamp set \<Rightarrow> nat \<Rightarrow> treeImpl + add_state \<Rightarrow> bool" where
  "stamped_result T n r = (case r of Inl tc \<Rightarrow> stamped T tc | Inr (rs, re, txn, tc) \<Rightarrow> stamped T tc \<and> n \<le> intervalAlloc tc)"

lemma add_over_older_stamped:
  assumes "add_over_older ts i (rs, re, txn, tc) = Inr r" "stamped T tc" "ts \<in> T" "i \<in> {0<..intervalAlloc tc}" "CacheTs (EValue (heap tc i)) \<in> T"
  shows "stamped_result T (intervalAlloc tc) r"
  using assms by (auto simp: add_over_older_def Let_def stamped_result_def in_place split: if_splits
      dest!: removeElement_stamped [where T = T] baseCache_add_stamped [where T = T])

lemma add_under_newer_stamped:
  assumes "add_under_newer ts i (rs, re, txn, tc) = Inr r" "stamped T tc" "ts \<in> T"
  shows "stamped_result T (intervalAlloc tc) r"
  using assms by (auto simp: add_under_newer_def Let_def stamped_result_def in_place split: if_splits
      dest!: baseCache_add_stamped [where T = T])

lemma add_same_owner_stamped:
  assumes "add_same_owner i (rs, re, txn, tc) = Inr r" "stamped T tc" "i \<in> {0<..intervalAlloc tc}" "CacheTs (EValue (heap tc i)) \<in> T"
  shows "stamped_result T (intervalAlloc tc) r"
  using assms by (auto simp: add_same_owner_def Let_def stamped_result_def in_place split: if_splits
      dest!: removeElement_stamped [where T = T])

lemma add_other_owner_stamped:
  assumes "add_other_owner ts i (rs, re, txn, tc) = Inr r" "stamped T tc" "ts \<in> T" "i \<in> {0<..intervalAlloc tc}" "CacheTs (EValue (heap tc i)) \<in> T"
  shows "stamped_result T (intervalAlloc tc) r"
  using assms by (auto simp: add_other_owner_def Let_def stamped_result_def in_place split: if_splits
      dest!: baseCache_add_stamped [where T = T])

lemma add_step_stamped:
  assumes "add_step ts i (rs, re, txn, tc) = Inr r" "stamped T tc" "ts \<in> T" "i \<in> {0<..intervalAlloc tc}"
  shows "stamped_result T (intervalAlloc tc) r"
proof -
  have "CacheTs (EValue (heap tc i)) \<in> T" using assms(2,4) by (simp add: stamped_def)
  then show ?thesis
    using assms add_over_older_stamped add_under_newer_stamped add_same_owner_stamped add_other_owner_stamped
    by (simp add: add_step_def Let_def split: if_splits)
qed

lemma add_loop_stamped:
  assumes "add_loop ts ids (rs, re, txn, tc) = Inr r" "stamped T tc" "ts \<in> T" "set ids \<subseteq> {0<..intervalAlloc tc}"
  shows "stamped_result T (intervalAlloc tc) r"
  using assms(1,2,4)
proof (induction ids arbitrary: rs re txn tc)
  case (Cons i ids)
  obtain r1 where r1: "add_step ts i (rs, re, txn, tc) = Inr r1" using Cons.prems(1) by auto
  have s: "stamped_result T (intervalAlloc tc) r1" by (rule add_step_stamped [OF r1 Cons.prems(2) assms(3)]) (use Cons.prems(3) in simp)
  show ?case
  proof (cases r1)
    case (Inl tc')
    then show ?thesis using Cons.prems(1) r1 s by auto
  next
    case (Inr st)
    obtain rs' re' txn' tc' where st: "st = (rs', re', txn', tc')" by (cases st)
    have tc': "stamped T tc'" "intervalAlloc tc \<le> intervalAlloc tc'" using s Inr st by (simp_all add: stamped_result_def)
    have "stamped_result T (intervalAlloc tc') r"
      by (rule Cons.IH) (use Cons.prems(1,3) r1 Inr st tc' in auto)
    then show ?thesis using tc'(2) by (auto simp: stamped_result_def split: sum.splits)
  qed
qed (auto simp: stamped_result_def)

lemma treeImpl_Add_stamped:
  assumes "treeImpl_Add start ende ts txn tc = Inr tc'" "stamped T tc" "ts \<in> T"
  shows "stamped T tc'"
proof (cases "Timestamp_Less (lowWater tc) ts")
  case True
  let ?tc = "tc\<lparr>latest := ts_forward (latest tc) ts\<rparr>" and ?e = "end_of start ende"
  obtain r where r: "add_loop ts (GetOverlaps start ?e ?tc) (start, ?e, txn, ?tc) = Inr r"
    "(case r of Inl tc \<Rightarrow> Inr tc | Inr (rs, re, txn, tc) \<Rightarrow> addRange rs re \<lparr>CacheTs = ts, CacheTxn = txn\<rparr> tc) = Inr tc'"
    using assms(1) True by (auto simp: treeImpl_Add_def Let_def)
  have "stamped T ?tc" using assms(2) by (simp add: stamped_def)
  then have "stamped_result T (intervalAlloc ?tc) r"
    using add_loop_stamped [OF r(1) _ assms(3)] by (auto simp: stamped_def GetOverlaps_set)
  then show ?thesis using r(2) baseCache_add_stamped assms(3) by (fastforce simp: stamped_result_def split: sum.splits prod.splits)
qed (use assms in \<open>auto simp: treeImpl_Add_def stamped_def Let_def\<close>)

section \<open>The interface of a timestamp cache\<close>

text \<open>A least upper bound is reached by one of the values, and is one of them when it has an owner.\<close>

lemma lub_level:
  assumes "\<And>b. beneath m b \<longleftrightarrow> (\<forall>x \<in> X. beneath x b)"
  shows "\<exists>x \<in> X. fst x = fst m"
proof (rule ccontr)
  assume none: "\<not> ?thesis"
  have lower: "fst x < fst m" if "x \<in> X" for x
  proof -
    have "beneath x m" using assms [of m] that by simp
    then show ?thesis using none that by (auto simp: beneath_iff)
  qed
  have "beneath m (fst m, u)" for u unfolding assms using lower by (auto simp: beneath_iff)
  from this [of "[]"] this [of "[0]"] show False by (auto simp: beneath_iff uuid_Nil_def dest: arg_cong [of _ _ length])
qed

lemma lub_owner:
  assumes "\<And>b. beneath m b \<longleftrightarrow> (\<forall>x \<in> X. beneath x b)" "snd m \<noteq> uuid_Nil"
  shows "m \<in> X"
proof -
  obtain x where x: "x \<in> X" "fst x = fst m" using lub_level [OF assms(1)] by blast
  then have "beneath x m" using assms(1) [of m] by simp
  then have "x = m" using x(2) assms(2) by (auto simp: beneath_iff intro: prod_eqI)
  then show ?thesis using x(1) by simp
qed

text \<open>A read: the keys it covers, its timestamp and the transaction that made it.\<close>

type_synonym read = "bytes \<times> bytes \<times> Timestamp \<times> uuid"

definition read_at :: "bytes \<Rightarrow> read \<Rightarrow> bool" where
  "read_at k r \<longleftrightarrow> (case r of (start, ende, ts, txn) \<Rightarrow> start \<le> k \<and> k < end_of start ende)"

definition read_mark :: "read \<Rightarrow> mark" where
  "read_mark r = (case r of (start, ende, ts, txn) \<Rightarrow> (ts_key ts, txn))"

fun add_all :: "(bytes \<Rightarrow> bytes \<Rightarrow> Timestamp \<Rightarrow> uuid \<Rightarrow> 'c \<Rightarrow> go_error + 'c) \<Rightarrow> read list \<Rightarrow> 'c \<Rightarrow> go_error + 'c" where
  "add_all add [] c = Inr c"
| "add_all add ((start, ende, ts, txn) # rs) c = res_bind (add start ende ts txn c) (add_all add rs)"

fun ready_all ::
  "(Timestamp \<Rightarrow> 'c \<Rightarrow> bool) \<Rightarrow> (bytes \<Rightarrow> bytes \<Rightarrow> Timestamp \<Rightarrow> uuid \<Rightarrow> 'c \<Rightarrow> go_error + 'c) \<Rightarrow> read list \<Rightarrow> 'c \<Rightarrow> bool" where
  "ready_all ready add [] c = True"
| "ready_all ready add ((start, ende, ts, txn) # rs) c \<longleftrightarrow> ready ts c \<and> start < end_of start ende \<and>
     (case add start ende ts txn c of Inl e \<Rightarrow> True | Inr c \<Rightarrow> ready_all ready add rs c)"

locale timestamp_cache =
  fixes inv :: "'c \<Rightarrow> bool"
    and ready :: "Timestamp \<Rightarrow> 'c \<Rightarrow> bool"
    and add :: "bytes \<Rightarrow> bytes \<Rightarrow> Timestamp \<Rightarrow> uuid \<Rightarrow> 'c \<Rightarrow> go_error + 'c"
    and get_max :: "bytes \<Rightarrow> bytes \<Rightarrow> 'c \<Rightarrow> cacheValue"
    and says :: "'c \<Rightarrow> bytes \<Rightarrow> mark"
  assumes add_says: "inv c \<Longrightarrow> ready ts c \<Longrightarrow> start < end_of start ende \<Longrightarrow>
      \<exists>c'. add start ende ts txn c = Inr c' \<and> inv c' \<and>
        (\<forall>k. says c' k = (if start \<le> k \<and> k < end_of start ende then ratchet (says c k) (ts_key ts, txn) else says c k))"
    and get_max_says: "inv c \<Longrightarrow> start < end_of start ende \<Longrightarrow>
      beneath (vkey (get_max start ende c)) b \<longleftrightarrow> (\<forall>k. start \<le> k \<and> k < end_of start ende \<longrightarrow> beneath (says c k) b)"
begin

lemma add_all_says:
  assumes "inv c" "ready_all ready add rs c"
  shows "\<exists>c'. add_all add rs c = Inr c' \<and> inv c' \<and>
    (\<forall>k b. beneath (says c' k) b \<longleftrightarrow> beneath (says c k) b \<and> (\<forall>r \<in> set rs. read_at k r \<longrightarrow> beneath (read_mark r) b))"
  using assms
proof (induction rs arbitrary: c)
  case (Cons r rs)
  obtain start ende ts txn where r: "r = (start, ende, ts, txn)" by (cases r)
  obtain c1 where c1: "add start ende ts txn c = Inr c1" "inv c1"
      "\<And>k. says c1 k = (if start \<le> k \<and> k < end_of start ende then ratchet (says c k) (ts_key ts, txn) else says c k)"
    using add_says [of c ts start ende txn] Cons.prems r by auto
  have "ready_all ready add rs c1" using Cons.prems(2) r c1(1) by simp
  from Cons.IH [OF c1(2) this] obtain c2 where c2: "add_all add rs c1 = Inr c2" "inv c2"
      "\<And>k b. beneath (says c2 k) b \<longleftrightarrow> beneath (says c1 k) b \<and> (\<forall>r \<in> set rs. read_at k r \<longrightarrow> beneath (read_mark r) b)"
    by blast
  have "beneath (says c2 k) b \<longleftrightarrow> beneath (says c k) b \<and> (\<forall>r \<in> set (r # rs). read_at k r \<longrightarrow> beneath (read_mark r) b)" for k b
    unfolding c2(3) c1(3) by (auto simp: r read_at_def read_mark_def ratchet_beneath)
  then show ?case using c1(1) c2(1,2) r by simp
qed simp

lemma lookup_sees:
  assumes "inv c" "start \<le> k" "k < end_of start ende"
  shows "beneath (says c k) (vkey (get_max start ende c))"
proof -
  have "start < end_of start ende" using assms(2,3) by (rule le_less_trans)
  from get_max_says [OF assms(1) this, of "vkey (get_max start ende c)"] show ?thesis using assms(2,3) by simp
qed

text \<open>The value of a lookup is that of a read or of the cache before all reads.\<close>

lemma lookup_least:
  assumes "inv c" "start < end_of start ende" "ready_all ready add rs c" "add_all add rs c = Inr c'"
  shows "beneath (vkey (get_max start ende c')) b \<longleftrightarrow> (\<forall>m \<in> {says c k | k. start \<le> k \<and> k < end_of start ende} \<union>
    {read_mark r | r k. r \<in> set rs \<and> read_at k r \<and> start \<le> k \<and> k < end_of start ende}. beneath m b)"
proof -
  have c': "inv c'" "\<And>k b. beneath (says c' k) b \<longleftrightarrow> beneath (says c k) b \<and> (\<forall>r \<in> set rs. read_at k r \<longrightarrow> beneath (read_mark r) b)"
    using add_all_says [OF assms(1,3)] assms(4) by auto
  show ?thesis unfolding get_max_says [OF c'(1) assms(2)] c'(2) by blast
qed

end

section \<open>The interval cache is a timestamp cache\<close>

text \<open>
  The invariant of the interval cache, as long as no timestamp is synthetic. A timestamp can be added while \<open>add_ready\<close> holds.
\<close>

definition tree_inv :: "treeImpl \<Rightarrow> bool" where
  "tree_inv tc \<longleftrightarrow> tc_wf tc \<and> stamped {t. \<not> Synthetic t} tc"

definition tree_ready :: "Timestamp \<Rightarrow> treeImpl \<Rightarrow> bool" where
  "tree_ready ts tc \<longleftrightarrow> \<not> Synthetic ts \<and> add_ready ts tc"

lemma natural_inj: "inj_on ts_key {t. \<not> Synthetic t}"
proof (rule inj_onI)
  fix s t assume "s \<in> {t. \<not> Synthetic t}" "t \<in> {t. \<not> Synthetic t}" "ts_key s = ts_key t"
  then show "s = t" by (intro ts_eqI) simp_all
qed

interpretation tree: timestamp_cache tree_inv tree_ready treeImpl_Add getMax mark_at
proof
  fix c ts start ende txn
  assume c: "tree_inv c" "tree_ready ts c" "start < end_of start ende"
  obtain c' where c': "treeImpl_Add start ende ts txn c = Inr c'" "settled (c\<lparr>latest := ts_forward (latest c) ts\<rparr>) c'"
      "mark_at c' = pending ts (start, end_of start ende, txn, c)"
    using treeImpl_Add_ok [of ts c start ende txn] c by (auto simp: tree_ready_def)
  moreover have "tree_inv c'"
    using c' c treeImpl_Add_stamped [OF c'(1), of "{t. \<not> Synthetic t}"] by (simp add: tree_inv_def tree_ready_def settled_def)
  ultimately show "\<exists>c'. treeImpl_Add start ende ts txn c = Inr c' \<and> tree_inv c' \<and>
      (\<forall>k. mark_at c' k = (if start \<le> k \<and> k < end_of start ende then ratchet (mark_at c k) (ts_key ts, txn) else mark_at c k))"
    by (auto simp: pending_def)
next
  fix c start ende b
  assume c: "tree_inv c" "start < end_of start ende"
  have "inj_on ts_key (stamps c)"
    using c(1) inj_on_subset [OF natural_inj stamped_stamps] by (simp add: tree_inv_def)
  then show "beneath (vkey (getMax start ende c)) b \<longleftrightarrow> (\<forall>k. start \<le> k \<and> k < end_of start ende \<longrightarrow> beneath (mark_at c k) b)"
    using getMax_iff c by (simp add: tree_inv_def)
qed

definition newTreeImpl :: "(bytes \<Rightarrow> bytes \<Rightarrow> uint64) \<Rightarrow> Timestamp \<Rightarrow> treeImpl" where
  "newTreeImpl cacheEntrySize now =
     \<lparr>heap = (\<lambda>_. \<lparr>EStart = [], EEnd = [], EValue = \<lparr>CacheTs = Timestamp_zero, CacheTxn = uuid_Nil\<rparr>\<rparr>),
      tree = [], ll = [], intervalAlloc = 0, lowWater = now, latest = now, cbytes = 0, maxBytes = push_bit 20 64,
      entrySize = cacheEntrySize\<rparr>"

lemma newTreeImpl_inv: "\<not> Synthetic now \<Longrightarrow> tree_inv (newTreeImpl sz now)"
  by (simp add: tree_inv_def newTreeImpl_def tc_wf_def stamped_def)

lemma newTreeImpl_mark: "mark_at (newTreeImpl sz now) k = (ts_key now, uuid_Nil)"
  by (simp add: mark_at_def newTreeImpl_def low_mark_def)

section \<open>The timestamp of a write\<close>

text \<open>The requests that read or write keys at a timestamp, and the flags of \<open>roachpb/api.go\<close> that concern the cache.\<close>

datatype kv_method =
    GetMethod | PutMethod | ConditionalPutMethod | InitPutMethod | IncrementMethod | DeleteMethod
  | DeleteRangeMethod bool | ScanMethod | ReverseScanMethod | QueryIntentMethod Timestamp
  | ExportMethod | AddSSTableMethod Timestamp | RefreshMethod | RefreshRangeMethod

fun AppliesTimestampCache :: "kv_method \<Rightarrow> bool" where
  "AppliesTimestampCache (DeleteRangeMethod Inline) \<longleftrightarrow> \<not> Inline"
| "AppliesTimestampCache (AddSSTableMethod SSTTimestampToRequestTimestamp) \<longleftrightarrow> \<not> Timestamp_IsEmpty SSTTimestampToRequestTimestamp"
| "AppliesTimestampCache m \<longleftrightarrow> m \<in> {PutMethod, ConditionalPutMethod, InitPutMethod, IncrementMethod, DeleteMethod}"

fun UpdatesTimestampCache :: "kv_method \<Rightarrow> bool" where
  "UpdatesTimestampCache (DeleteRangeMethod Inline) \<longleftrightarrow> \<not> Inline"
| "UpdatesTimestampCache (QueryIntentMethod _) \<longleftrightarrow> True"
| "UpdatesTimestampCache m \<longleftrightarrow> m \<in> {GetMethod, ConditionalPutMethod, InitPutMethod, ScanMethod, ReverseScanMethod, ExportMethod,
     RefreshMethod, RefreshRangeMethod}"

fun UpdatesTimestampCacheOnError :: "kv_method \<Rightarrow> bool" where
  "UpdatesTimestampCacheOnError (QueryIntentMethod _) \<longleftrightarrow> True"
| "UpdatesTimestampCacheOnError m \<longleftrightarrow> m \<in> {ConditionalPutMethod, InitPutMethod}"

record kv_request =
  Method :: kv_method
  ReqKey :: bytes
  ReqEndKey :: bytes

record apply_state =
  ApplyHeader :: Header
  Bumped :: bool
  BumpedDueToMinReadTS :: bool
  ConflictingTxn :: uuid

definition bump :: "Header \<Rightarrow> uuid \<Rightarrow> Timestamp \<Rightarrow> Header \<times> bool" where
  "bump h rTxnID nextRTS = (case HTxn h of
      Some txn \<Rightarrow>
        if ID txn \<noteq> rTxnID \<and> Timestamp_Less (WriteTimestamp txn) nextRTS
        then let (ts, bumped) = Timestamp_Forward (WriteTimestamp txn) nextRTS in (h\<lparr>HTxn := Some (txn\<lparr>WriteTimestamp := ts\<rparr>)\<rparr>, bumped)
        else (h, False)
    | None \<Rightarrow> let (ts, bumped) = Timestamp_Forward (HTimestamp h) nextRTS in (h\<lparr>HTimestamp := ts\<rparr>, bumped))"

definition apply_request :: "(bytes \<Rightarrow> bytes \<Rightarrow> cacheValue) \<Rightarrow> Timestamp \<Rightarrow> kv_request \<Rightarrow> apply_state \<Rightarrow> go_error + apply_state" where
  "apply_request GetMax minReadTS req st =
     (if AppliesTimestampCache (Method req) then
        let v = GetMax (ReqKey req) (ReqEndKey req);
            (rTS, forwardedToMinReadTS) = Timestamp_Forward (CacheTs v) minReadTS;
            rTxnID = (if forwardedToMinReadTS then uuid_Nil else CacheTxn v)
        in res_bind (Timestamp_Next rTS) (\<lambda>nextRTS.
          let (h, bumpedCurReq) = bump (ApplyHeader st) rTxnID nextRTS in
          Inr \<lparr>ApplyHeader = h, Bumped = Bumped st \<or> bumpedCurReq,
               BumpedDueToMinReadTS = \<not> bumpedCurReq \<and> BumpedDueToMinReadTS st \<or> bumpedCurReq \<and> forwardedToMinReadTS,
               ConflictingTxn = if bumpedCurReq \<and> rTxnID \<noteq> uuid_Nil then rTxnID else ConflictingTxn st\<rparr>)
      else Inr st)"

fun apply_loop :: "(bytes \<Rightarrow> bytes \<Rightarrow> cacheValue) \<Rightarrow> Timestamp \<Rightarrow> kv_request list \<Rightarrow> apply_state \<Rightarrow> go_error + apply_state" where
  "apply_loop GetMax minReadTS [] st = Inr st"
| "apply_loop GetMax minReadTS (req # reqs) st = res_bind (apply_request GetMax minReadTS req st) (apply_loop GetMax minReadTS reqs)"

definition applyTimestampCache :: "(bytes \<Rightarrow> bytes \<Rightarrow> cacheValue) \<Rightarrow> Timestamp \<Rightarrow> kv_request list \<Rightarrow> Header \<Rightarrow> go_error + bool \<times> Header" where
  "applyTimestampCache GetMax minReadTS reqs h =
     res_bind (apply_loop GetMax minReadTS reqs \<lparr>ApplyHeader = h, Bumped = False, BumpedDueToMinReadTS = False, ConflictingTxn = uuid_Nil\<rparr>)
       (\<lambda>st. Inr (Bumped st, ApplyHeader st))"

text \<open>The timestamp at which a batch writes, and when it has been moved above a value of the cache.\<close>

definition write_ts :: "Header \<Rightarrow> Timestamp" where
  "write_ts h = (case HTxn h of Some txn \<Rightarrow> WriteTimestamp txn | None \<Rightarrow> HTimestamp h)"

definition same_batch :: "Header \<Rightarrow> Header \<Rightarrow> bool" where
  "same_batch h h' \<longleftrightarrow> (\<exists>ts. h' = (case HTxn h of
     Some txn \<Rightarrow> h\<lparr>HTxn := Some (txn\<lparr>WriteTimestamp := ts\<rparr>)\<rparr> | None \<Rightarrow> h\<lparr>HTimestamp := ts\<rparr>))"

definition above :: "cacheValue \<Rightarrow> Timestamp \<Rightarrow> Header \<Rightarrow> bool" where
  "above v minReadTS h \<longleftrightarrow> max (ts_key (CacheTs v)) (ts_key minReadTS) < ts_key (write_ts h) \<or>
     ts_key minReadTS \<le> ts_key (CacheTs v) \<and> (\<exists>txn. HTxn h = Some txn \<and> ID txn = CacheTxn v)"

lemma same_batch_refl [simp]: "same_batch h h"
  unfolding same_batch_def by (rule exI [of _ "write_ts h"]) (simp add: write_ts_def split: option.split)

lemma bump_ok:
  assumes "bump h owner nextRTS = (h', b)"
  shows "same_batch h h'" "ts_key (write_ts h) \<le> ts_key (write_ts h')" "b \<longleftrightarrow> ts_key (write_ts h) < ts_key (write_ts h')"
    "ts_key nextRTS \<le> ts_key (write_ts h') \<or> (\<exists>txn. HTxn h = Some txn \<and> ID txn = owner)"
proof -
  have "h' = h \<or> (\<exists>ts. h' = (case HTxn h of Some txn \<Rightarrow> h\<lparr>HTxn := Some (txn\<lparr>WriteTimestamp := ts\<rparr>)\<rparr> | None \<Rightarrow> h\<lparr>HTimestamp := ts\<rparr>))"
    using assms by (auto simp: bump_def split_beta split: option.splits if_splits)
  then show "same_batch h h'" using same_batch_refl [of h] by (metis same_batch_def)
qed (use assms in \<open>auto simp: bump_def write_ts_def split_beta ts_order split: option.splits if_splits\<close>)

lemma same_batch_trans: "same_batch h h' \<Longrightarrow> same_batch h' h'' \<Longrightarrow> same_batch h h''"
  by (auto simp: same_batch_def split: option.splits)

lemma same_batch_ID:
  "same_batch h h' \<Longrightarrow> (\<exists>txn. HTxn h' = Some txn \<and> ID txn = u) \<longleftrightarrow> (\<exists>txn. HTxn h = Some txn \<and> ID txn = u)"
  by (auto simp: same_batch_def split: option.splits)

lemma above_later:
  assumes "above v minReadTS h" "same_batch h h'" "ts_key (write_ts h) \<le> ts_key (write_ts h')"
  shows "above v minReadTS h'"
  using assms by (auto simp: above_def same_batch_ID [OF assms(2)])

definition has_id :: "Header \<Rightarrow> bool" where
  "has_id h \<longleftrightarrow> (case HTxn h of Some txn \<Rightarrow> ID txn \<noteq> uuid_Nil | None \<Rightarrow> True)"

lemma has_id_same: "same_batch h h' \<Longrightarrow> has_id h' = has_id h"
  by (auto simp: has_id_def same_batch_def split: option.splits)

lemma apply_request_ok:
  fixes GetMax req
  defines "v \<equiv> GetMax (ReqKey req) (ReqEndKey req)"
  assumes "has_id (ApplyHeader st)" "ts_key (CacheTs v) \<noteq> ts_key MaxTimestamp" "ts_key minReadTS \<noteq> ts_key MaxTimestamp"
  shows "\<exists>st'. apply_request GetMax minReadTS req st = Inr st' \<and> same_batch (ApplyHeader st) (ApplyHeader st') \<and>
    ts_key (write_ts (ApplyHeader st)) \<le> ts_key (write_ts (ApplyHeader st')) \<and>
    (Bumped st' \<longleftrightarrow> Bumped st \<or> ts_key (write_ts (ApplyHeader st)) < ts_key (write_ts (ApplyHeader st'))) \<and>
    (AppliesTimestampCache (Method req) \<longrightarrow> above v minReadTS (ApplyHeader st'))"
proof (cases "AppliesTimestampCache (Method req)")
  case True
  let ?rTS = "ts_forward (CacheTs v) minReadTS" and ?fwd = "snd (Timestamp_Forward (CacheTs v) minReadTS)"
  let ?owner = "if ?fwd then uuid_Nil else CacheTxn v" and ?h = "ApplyHeader st"
  have "ts_key ?rTS \<noteq> ts_key MaxTimestamp" using assms(3,4) by (simp add: max_def)
  then obtain nextRTS where n: "Timestamp_Next ?rTS = Inr nextRTS"
    using Timestamp_Next_panics [of ?rTS] by (cases "Timestamp_Next ?rTS") blast+
  have nx: "max (ts_key (CacheTs v)) (ts_key minReadTS) < ts_key nextRTS"
    using Timestamp_Next_greater [OF n] by (simp add: ts_order)
  obtain h' b where h': "bump ?h ?owner nextRTS = (h', b)" by fastforce
  note ok = bump_ok [OF h']
  have "above v minReadTS h'"
    using ok(4) nx assms(2) same_batch_ID [OF ok(1)] by (auto simp: above_def has_id_def split: if_splits)
  then show ?thesis using True n h' ok by (simp add: apply_request_def Let_def v_def [symmetric] split_beta)
qed (simp add: apply_request_def)

lemma apply_loop_ok:
  assumes "has_id (ApplyHeader st)" "ts_key minReadTS \<noteq> ts_key MaxTimestamp"
    and "\<And>req. req \<in> set reqs \<Longrightarrow> ts_key (CacheTs (GetMax (ReqKey req) (ReqEndKey req))) \<noteq> ts_key MaxTimestamp"
  shows "\<exists>st'. apply_loop GetMax minReadTS reqs st = Inr st' \<and> same_batch (ApplyHeader st) (ApplyHeader st') \<and>
    ts_key (write_ts (ApplyHeader st)) \<le> ts_key (write_ts (ApplyHeader st')) \<and>
    (Bumped st' \<longleftrightarrow> Bumped st \<or> ts_key (write_ts (ApplyHeader st)) < ts_key (write_ts (ApplyHeader st'))) \<and>
    (\<forall>req \<in> set reqs. AppliesTimestampCache (Method req) \<longrightarrow> above (GetMax (ReqKey req) (ReqEndKey req)) minReadTS (ApplyHeader st'))"
  using assms(1,3)
proof (induction reqs arbitrary: st)
  case (Cons req reqs)
  have "ts_key (CacheTs (GetMax (ReqKey req) (ReqEndKey req))) \<noteq> ts_key MaxTimestamp" using Cons.prems(2) by simp
  from apply_request_ok [of st GetMax, OF Cons.prems(1) this assms(2)] obtain st1 where
    st1: "apply_request GetMax minReadTS req st = Inr st1" "same_batch (ApplyHeader st) (ApplyHeader st1)"
      "ts_key (write_ts (ApplyHeader st)) \<le> ts_key (write_ts (ApplyHeader st1))"
      "Bumped st1 \<longleftrightarrow> Bumped st \<or> ts_key (write_ts (ApplyHeader st)) < ts_key (write_ts (ApplyHeader st1))"
      "AppliesTimestampCache (Method req) \<Longrightarrow> above (GetMax (ReqKey req) (ReqEndKey req)) minReadTS (ApplyHeader st1)" by blast
  have "has_id (ApplyHeader st1)" using Cons.prems(1) has_id_same [OF st1(2)] by simp
  from Cons.IH [OF this] Cons.prems(2) obtain st2 where
    st2: "apply_loop GetMax minReadTS reqs st1 = Inr st2" "same_batch (ApplyHeader st1) (ApplyHeader st2)"
      "ts_key (write_ts (ApplyHeader st1)) \<le> ts_key (write_ts (ApplyHeader st2))"
      "Bumped st2 \<longleftrightarrow> Bumped st1 \<or> ts_key (write_ts (ApplyHeader st1)) < ts_key (write_ts (ApplyHeader st2))"
      "\<And>req. req \<in> set reqs \<Longrightarrow> AppliesTimestampCache (Method req) \<Longrightarrow> above (GetMax (ReqKey req) (ReqEndKey req)) minReadTS (ApplyHeader st2)"
    by auto
  have "above (GetMax (ReqKey req) (ReqEndKey req)) minReadTS (ApplyHeader st2)" if "AppliesTimestampCache (Method req)"
    by (rule above_later [OF st1(5) [OF that] st2(2,3)])
  moreover have "Bumped st2 \<longleftrightarrow> Bumped st \<or> ts_key (write_ts (ApplyHeader st)) < ts_key (write_ts (ApplyHeader st2))"
    using st1(3,4) st2(3,4) by (auto intro: order.strict_trans1 order.strict_trans2 simp: le_less)
  ultimately show ?case using st1(1) st2 same_batch_trans [OF st1(2) st2(2)] order_trans [OF st1(3) st2(3)] by auto
qed simp

section \<open>No write beneath a read\<close>

lemma write_above_reads:
  assumes v: "\<And>b. beneath (vkey v) b \<longleftrightarrow> (\<forall>m \<in> M \<union> read_mark ` R. beneath m b)" and "\<And>m. m \<in> M \<Longrightarrow> snd m = uuid_Nil"
    and "above v minReadTS h" "has_id h" "HTxn h = Some txn"
    and own: "\<And>r. r \<in> R \<Longrightarrow> snd (read_mark r) = ID txn \<Longrightarrow> fst (read_mark r) \<le> ts_key (write_ts h)"
  shows "ts_key minReadTS \<le> ts_key (write_ts h)" "m \<in> M \<union> read_mark ` R \<Longrightarrow> snd m \<noteq> ID txn \<Longrightarrow> fst m < ts_key (write_ts h)"
proof -
  have le: "beneath m (vkey v)" if "m \<in> M \<union> read_mark ` R" for m using v [of "vkey v"] that by simp
  consider (up) "max (ts_key (CacheTs v)) (ts_key minReadTS) < ts_key (write_ts h)"
    | (own) "ts_key minReadTS \<le> ts_key (CacheTs v)" "CacheTxn v = ID txn"
    using assms(3,5) by (auto simp: above_def)
  then have "ts_key minReadTS \<le> ts_key (write_ts h) \<and> (m \<in> M \<union> read_mark ` R \<longrightarrow> snd m \<noteq> ID txn \<longrightarrow> fst m < ts_key (write_ts h))"
  proof cases
    case up
    then show ?thesis using le [of m] by (auto simp: beneath_iff vkey_def)
  next
    case own
    have id: "ID txn \<noteq> uuid_Nil" using assms(4,5) by (simp add: has_id_def)
    then have "vkey v \<in> M \<union> read_mark ` R" using lub_owner [OF v] own(2) by (simp add: vkey_def)
    then obtain r where "r \<in> R" "read_mark r = vkey v" using assms(2) [of "vkey v"] own(2) id by (auto simp: vkey_def)
    then have "ts_key (CacheTs v) \<le> ts_key (write_ts h)" using assms(6) [of r] own(2) by (simp add: vkey_def)
    then show ?thesis using own le [of m] id by (auto simp: beneath_iff vkey_def)
  qed
  then show "ts_key minReadTS \<le> ts_key (write_ts h)" "m \<in> M \<union> read_mark ` R \<Longrightarrow> snd m \<noteq> ID txn \<Longrightarrow> fst m < ts_key (write_ts h)"
    by auto
qed

definition seen :: "read list \<Rightarrow> kv_request \<Rightarrow> read set" where
  "seen reads req = {r \<in> set reads. \<exists>k. read_at k r \<and> ReqKey req \<le> k \<and> k < end_of (ReqKey req) (ReqEndKey req)}"

lemma new_lookup:
  assumes "\<not> Synthetic now" "ready_all tree_ready treeImpl_Add reads (newTreeImpl sz now)" "add_all treeImpl_Add reads (newTreeImpl sz now) = Inr tc"
    and "ReqKey req < end_of (ReqKey req) (ReqEndKey req)"
  shows "beneath (vkey (getMax (ReqKey req) (ReqEndKey req) tc)) b \<longleftrightarrow> (\<forall>m \<in> {(ts_key now, uuid_Nil)} \<union> read_mark ` seen reads req. beneath m b)"
proof -
  let ?s = "ReqKey req" and ?e = "end_of (ReqKey req) (ReqEndKey req)"
  have "{mark_at (newTreeImpl sz now) k | k. ?s \<le> k \<and> k < ?e} = {(ts_key now, uuid_Nil)}"
    using assms(4) by (auto simp: newTreeImpl_mark)
  moreover have "{read_mark r | r k. r \<in> set reads \<and> read_at k r \<and> ?s \<le> k \<and> k < ?e} = read_mark ` seen reads req"
    unfolding seen_def by blast
  ultimately show ?thesis using tree.lookup_least [OF newTreeImpl_inv [OF assms(1)] assms(4,2,3), of b] by simp
qed

definition serve_write :: "(bytes \<Rightarrow> bytes \<Rightarrow> uint64) \<Rightarrow> Timestamp \<Rightarrow> read list \<Rightarrow> Timestamp \<Rightarrow> kv_request list \<Rightarrow> Header \<Rightarrow> go_error + bool \<times> Header" where
  "serve_write sz now reads minReadTS reqs h =
     res_bind (add_all treeImpl_Add reads (newTreeImpl sz now)) (\<lambda>tc. applyTimestampCache (\<lambda>start ende. getMax start ende tc) minReadTS reqs h)"

lemma serve_write_above:
  assumes "\<not> Synthetic now" "ready_all tree_ready treeImpl_Add reads (newTreeImpl sz now)"
    and "HTxn h = Some txn" "ID txn \<noteq> uuid_Nil"
    and "\<forall>(start, ende, ts, u) \<in> set reads. Timestamp_Less ts MaxTimestamp \<and> (u = ID txn \<longrightarrow> Timestamp_LessEq ts (WriteTimestamp txn))"
    and "Timestamp_Less now MaxTimestamp" "Timestamp_Less minReadTS MaxTimestamp"
    and "\<forall>req \<in> set reqs. ReqKey req < end_of (ReqKey req) (ReqEndKey req)"
  shows "\<exists>bumped ts'. serve_write sz now reads minReadTS reqs h = Inr (bumped, h\<lparr>HTxn := Some (txn\<lparr>WriteTimestamp := ts'\<rparr>)\<rparr>) \<and>
    Timestamp_LessEq (WriteTimestamp txn) ts' \<and> bumped = Timestamp_Less (WriteTimestamp txn) ts' \<and>
    (\<forall>req \<in> set reqs. AppliesTimestampCache (Method req) \<longrightarrow> Timestamp_LessEq minReadTS ts' \<and>
      (\<forall>m \<in> {(ts_key now, uuid_Nil)} \<union> read_mark ` seen reads req. snd m \<noteq> ID txn \<longrightarrow> fst m < ts_key ts'))"
proof -
  let ?c = "newTreeImpl sz now"
  note inv = newTreeImpl_inv [OF assms(1), of sz]
  obtain tc where tc: "add_all treeImpl_Add reads ?c = Inr tc" using tree.add_all_says [OF inv assms(2)] by blast
  let ?get = "\<lambda>start ende. getMax start ende tc"
  have v: "beneath (vkey (?get (ReqKey req) (ReqEndKey req))) b \<longleftrightarrow> (\<forall>m \<in> {(ts_key now, uuid_Nil)} \<union> read_mark ` seen reads req. beneath m b)"
    if "req \<in> set reqs" for req b using new_lookup [OF assms(1,2) tc] assms(8) that by blast
  have top: "ts_key (CacheTs (?get (ReqKey req) (ReqEndKey req))) \<noteq> ts_key MaxTimestamp" if "req \<in> set reqs" for req
    using lub_level [OF v [OF that]] assms(5,6) by (fastforce simp: seen_def vkey_def read_mark_def ts_order)
  have id: "has_id h" using assms(3,4) by (simp add: has_id_def)
  let ?st = "\<lparr>ApplyHeader = h, Bumped = False, BumpedDueToMinReadTS = False, ConflictingTxn = uuid_Nil\<rparr>"
  have "ts_key minReadTS \<noteq> ts_key MaxTimestamp" using assms(7) by (simp add: ts_order)
  then obtain st where st: "apply_loop ?get minReadTS reqs ?st = Inr st" "same_batch h (ApplyHeader st)"
      "ts_key (write_ts h) \<le> ts_key (write_ts (ApplyHeader st))" "Bumped st \<longleftrightarrow> ts_key (write_ts h) < ts_key (write_ts (ApplyHeader st))"
      "\<And>req. req \<in> set reqs \<Longrightarrow> AppliesTimestampCache (Method req) \<Longrightarrow> above (?get (ReqKey req) (ReqEndKey req)) minReadTS (ApplyHeader st)"
    using apply_loop_ok [of ?st minReadTS reqs ?get] id top by auto
  obtain ts' where ts': "ApplyHeader st = h\<lparr>HTxn := Some (txn\<lparr>WriteTimestamp := ts'\<rparr>)\<rparr>" using st(2) assms(3) by (auto simp: same_batch_def)
  have w: "write_ts h = WriteTimestamp txn" "write_ts (ApplyHeader st) = ts'" by (simp_all add: write_ts_def ts' assms(3))
  have hh: "has_id (ApplyHeader st)" "HTxn (ApplyHeader st) = Some (txn\<lparr>WriteTimestamp := ts'\<rparr>)"
    using has_id_same [OF st(2)] id by (simp_all add: ts')
  have R: "Timestamp_LessEq minReadTS ts' \<and> (\<forall>m \<in> {(ts_key now, uuid_Nil)} \<union> read_mark ` seen reads req. snd m \<noteq> ID txn \<longrightarrow> fst m < ts_key ts')"
    if req: "req \<in> set reqs" "AppliesTimestampCache (Method req)" for req
  proof -
    have "fst (read_mark r) \<le> ts_key ts'" if "r \<in> seen reads req" "snd (read_mark r) = ID txn" for r
      using that assms(5) st(3) w by (fastforce simp: seen_def read_mark_def ts_order split: prod.splits)
    note W = write_above_reads [OF v [OF req(1)] _ st(5) [OF req] hh, unfolded w(2), simplified, OF this]
    show ?thesis using W by (auto simp: ts_order)
  qed
  show ?thesis
    by (rule exI [of _ "Bumped st"], rule exI [of _ ts'], intro conjI ballI impI)
      (use tc st(1,3,4) w ts' R in \<open>auto simp: serve_write_def applyTimestampCache_def ts_order\<close>)
qed


section \<open>Examples and properties\<close>

definition at_sec :: "int64 \<Rightarrow> Timestamp" where
  "at_sec n = \<lparr>WallTime = n * 1000000000, Logical = 0, Synthetic = False\<rparr>"

definition txn_id :: "8 word \<Rightarrow> uuid" where
  "txn_id b = replicate 16 b"

definition two_reads :: "uint64 \<Rightarrow> treeImpl" where
  "two_reads limit = (newTreeImpl (\<lambda>_ _. 100) (at_sec 1))\<lparr>
     heap := (\<lambda>i. if i = 1 then \<lparr>EStart = [2], EEnd = [4], EValue = \<lparr>CacheTs = at_sec 25, CacheTxn = txn_id 1\<rparr>\<rparr>
       else \<lparr>EStart = [4], EEnd = [6], EValue = \<lparr>CacheTs = at_sec (if limit < 1000 then 5 else 20), CacheTxn = txn_id 2\<rparr>\<rparr>),
     tree := [1, 2], ll := [1, 2], intervalAlloc := 2, latest := at_sec 25, cbytes := 200, maxBytes := limit\<rparr>"

lemma room_const: "entrySize tc = (\<lambda>_ _. c) \<Longrightarrow> n * unat c < 2 ^ 64 \<Longrightarrow> room tc n"
  by (auto simp: room_def)

lemma two_reads_wf: "tc_wf (two_reads limit)" "owed (two_reads limit) = 0"
  by (simp_all add: two_reads_def newTreeImpl_def tc_wf_def owed_def apart_def)

lemma two_reads_kept: "kept (two_reads limit)"
  using two_reads_wf [of limit] by (simp add: kept_def room_const two_reads_def newTreeImpl_def)

lemma two_reads_ready: "add_ready (at_sec 20) (two_reads 1000)"
proof -
  have "let tc = (two_reads 1000)\<lparr>latest := ts_forward (latest (two_reads 1000)) (at_sec 20)\<rparr> in
    all_fresh tc \<and> (Timestamp_Less (lowWater tc) (at_sec 20) \<longrightarrow> \<not> stale tc (at_sec 20))"
    by code_simp
  then show ?thesis using two_reads_wf [of 1000] by (simp add: add_ready_def room_const two_reads_def newTreeImpl_def)
qed

text \<open>
  C9. Adding a read to the interval cache, while nothing has left the retention window, succeeds, keeps the intervals well formed and
  their memory accounted for, and raises what the cache says of each key of the read to the least value that includes it;
  all other keys keep theirs.
\<close>

theorem treeImpl_Add_ratchets:
  assumes "add_ready ts tc" "start < end_of start ende"
  shows "\<exists>tc'. treeImpl_Add start ende ts txn tc = Inr tc' \<and> tc_wf tc' \<and> owed tc' = 0 \<and>
    lowWater tc' = lowWater tc \<and> latest tc' = ts_forward (latest tc) ts \<and>
    (\<forall>k. mark_at tc' k = (if start \<le> k \<and> k < end_of start ende then ratchet (mark_at tc k) (ts_key ts, txn) else mark_at tc k))"
proof -
  obtain tc' where "treeImpl_Add start ende ts txn tc = Inr tc'" "settled (tc\<lparr>latest := ts_forward (latest tc) ts\<rparr>) tc'"
      "mark_at tc' = pending ts (start, end_of start ende, txn, tc)"
    by (rule treeImpl_Add_ok [OF assms])
  then show ?thesis by (auto simp: settled_def same_frame_def pending_def)
qed

theorem treeImpl_Add_ratchets_witness:
  "\<exists>tc'. treeImpl_Add [3] [9] (at_sec 20) (txn_id 3) (two_reads 1000) = Inr tc' \<and>
    mark_at tc' [3] = (ts_key (at_sec 25), txn_id 1) \<and> mark_at tc' [5] = (ts_key (at_sec 20), uuid_Nil) \<and>
    mark_at tc' [8] = (ts_key (at_sec 20), txn_id 3) \<and> mark_at tc' [9] = (ts_key (at_sec 1), uuid_Nil)"
proof -
  have m: "mark_at (two_reads 1000) [3] = (ts_key (at_sec 25), txn_id 1)" "mark_at (two_reads 1000) [5] = (ts_key (at_sec 20), txn_id 2)"
    "mark_at (two_reads 1000) [8] = (ts_key (at_sec 1), uuid_Nil)" "mark_at (two_reads 1000) [9] = (ts_key (at_sec 1), uuid_Nil)"
    by code_simp+
  have r: "ratchet (ts_key (at_sec 25), txn_id 1) (ts_key (at_sec 20), txn_id 3) = (ts_key (at_sec 25), txn_id 1)"
    "ratchet (ts_key (at_sec 20), txn_id 2) (ts_key (at_sec 20), txn_id 3) = (ts_key (at_sec 20), uuid_Nil)"
    "ratchet (ts_key (at_sec 1), uuid_Nil) (ts_key (at_sec 20), txn_id 3) = (ts_key (at_sec 20), txn_id 3)"
    by code_simp+
  have e: "end_of [3] [9] = [9]" by (simp add: end_of_def)
  show ?thesis using treeImpl_Add_ratchets [OF two_reads_ready, of "[3]" "[9]" "txn_id 3"] unfolding e by (auto simp: m r)
qed

text \<open>
  C14. Evicting entries until the cache fits its limit ends without an error and never lowers what the cache says of a key: the
  low water mark rises to the timestamp of each entry that goes.
\<close>

theorem eviction_keeps_reads:
  assumes "kept tc"
  shows "\<exists>tc'. evict_loop tc = Inr tc' \<and> kept tc' \<and> (\<forall>k. beneath (mark_at tc k) (mark_at tc' k))"
  using assms by (rule evict_loop_beneath)

theorem eviction_keeps_reads_witness:
  "kept (two_reads 150) \<and> (\<exists>tc'. evict_loop (two_reads 150) = Inr tc' \<and> kept tc' \<and> beneath (ts_key (at_sec 5), txn_id 2) (mark_at tc' [4]))"
proof -
  have "mark_at (two_reads 150) [4] = (ts_key (at_sec 5), txn_id 2)" by code_simp
  then show ?thesis using eviction_keeps_reads [OF two_reads_kept [of 150]] two_reads_kept [of 150] by metis
qed

text \<open>
  C13. A lookup returns the least value that includes what the cache says of every key of its range, provided that timestamps of the
  cache that are equal in the order are the same.
\<close>

theorem getMax_least:
  assumes "tc_wf tc" "inj_on ts_key (stamps tc)" "start < end_of start ende"
  shows "beneath (vkey (getMax start ende tc)) b \<longleftrightarrow> (\<forall>k. start \<le> k \<and> k < end_of start ende \<longrightarrow> beneath (mark_at tc k) b)"
  using assms by (rule getMax_iff)

theorem getMax_least_witness:
  "beneath (mark_at (two_reads 1000) [3]) (vkey (getMax [1] [5] (two_reads 1000)))"
proof -
  have "\<forall>s \<in> stamps (two_reads 1000). \<forall>t \<in> stamps (two_reads 1000). ts_key s = ts_key t \<longrightarrow> s = t" by code_simp
  then have "inj_on ts_key (stamps (two_reads 1000))" by (auto simp: inj_on_def)
  then show ?thesis
    using getMax_least [OF two_reads_wf(1), of 1000 "[1]" "[5]" "vkey (getMax [1] [5] (two_reads 1000))"] by (simp add: end_of_def)
qed

definition read_then_write :: "go_error + bool \<times> Header" where
  "read_then_write = serve_write (\<lambda>_ _. 100) (at_sec 1) [([2], [5], at_sec 9, txn_id 2)] (at_sec 3)
     [\<lparr>Method = PutMethod, ReqKey = [4], ReqEndKey = []\<rparr>]
     \<lparr>HTimestamp = at_sec 7, HTxn = Some (MakeTransaction (txn_id 1) 1 ''writer'' [4] (at_sec 7) 0 1)\<rparr>"



text \<open>
  A lookup tells owners apart only where the timestamps have the same synthetic flag: two transactions read different keys at the
  same time, one at a synthetic timestamp, and the first of them passes for the only owner of the range.
\<close>

definition synthetic_reads :: "read list" where
  "synthetic_reads = [([1], [], at_sec 9, txn_id 1), ([2], [], (at_sec 9)\<lparr>Synthetic := True\<rparr>, txn_id 2)]"

theorem getMax_misses_owner:
  "case add_all treeImpl_Add synthetic_reads (newTreeImpl (\<lambda>_ _. 100) (at_sec 1)) of Inl e \<Rightarrow> False
   | Inr tc \<Rightarrow> mark_at tc [2] = (ts_key (at_sec 9), txn_id 2) \<and> getMax [1] [3] tc = \<lparr>CacheTs = at_sec 9, CacheTxn = txn_id 1\<rparr>"
  by code_simp

section \<open>The reads that a batch leaves behind\<close>

datatype kv_error_detail = ConditionFailedError | IntentMissingError | TransactionRetryError bool | OtherError

record kv_error =
  ErrIndex :: "int32 option"
  ErrDetail :: kv_error_detail

datatype kv_response = ScanResponse "Span option" | ReverseScanResponse "Span option" | QueryIntentResponse bool | OtherResponse

definition response :: "kv_response list \<Rightarrow> nat \<Rightarrow> go_error + kv_response" where
  "response resps i = (if i < length resps then Inr (resps ! i) else Inl (GoPanic ''index out of range''))"

definition condition_failed :: "kv_error option \<Rightarrow> bool" where
  "condition_failed pErr = (case pErr of Some e \<Rightarrow> ErrDetail e = ConditionFailedError | None \<Rightarrow> False)"

definition intent_missing :: "kv_error option \<Rightarrow> kv_response list \<Rightarrow> nat \<Rightarrow> go_error + bool" where
  "intent_missing pErr resps i = (case pErr of
      Some e \<Rightarrow> Inr (case ErrDetail e of IntentMissingError \<Rightarrow> True | TransactionRetryError serializable \<Rightarrow> serializable | _ \<Rightarrow> False)
    | None \<Rightarrow> res_bind (response resps i) (\<lambda>r. case r of QueryIntentResponse FoundIntent \<Rightarrow> Inr (\<not> FoundIntent)
        | _ \<Rightarrow> Inl (GoPanic ''interface conversion'')))"

definition skips_read :: "kv_error option \<Rightarrow> nat \<Rightarrow> kv_method \<Rightarrow> bool" where
  "skips_read pErr i m \<longleftrightarrow> \<not> UpdatesTimestampCache m \<or> (case pErr of None \<Rightarrow> False
     | Some e \<Rightarrow> \<not> UpdatesTimestampCacheOnError m \<or> (case ErrIndex e of None \<Rightarrow> True | Some j \<Rightarrow> of_nat i \<noteq> j))"

definition read_of :: "Timestamp \<Rightarrow> uuid \<Rightarrow> kv_error option \<Rightarrow> kv_response list \<Rightarrow> nat \<Rightarrow> kv_request \<Rightarrow> go_error + read option" where
  "read_of ts txnID pErr resps i req =
     (let start = ReqKey req; ende = ReqEndKey req in
      if skips_read pErr i (Method req) then Inr None
      else case Method req of
        ConditionalPutMethod \<Rightarrow> Inr (if condition_failed pErr then Some (start, ende, ts, txnID) else None)
      | InitPutMethod \<Rightarrow> Inr (if condition_failed pErr then Some (start, ende, ts, txnID) else None)
      | ScanMethod \<Rightarrow> res_bind (response resps i) (\<lambda>r. case r of
            ScanResponse resume \<Rightarrow> Inr (Some (start, case resume of Some span \<Rightarrow> Key span | None \<Rightarrow> ende, ts, txnID))
          | _ \<Rightarrow> Inl (GoPanic ''interface conversion''))
      | ReverseScanMethod \<Rightarrow> res_bind (response resps i) (\<lambda>r. case r of
            ReverseScanResponse resume \<Rightarrow> Inr (Some (case resume of Some span \<Rightarrow> nil_bytes (EndKey span) | None \<Rightarrow> start, ende, ts, txnID))
          | _ \<Rightarrow> Inl (GoPanic ''interface conversion''))
      | QueryIntentMethod intentTs \<Rightarrow> res_bind (intent_missing pErr resps i) (\<lambda>missing.
          Inr (if missing then Some (start, ende, intentTs, uuid_Nil) else None))
      | _ \<Rightarrow> Inr (Some (start, ende, ts, txnID)))"

definition add_checked ::
  "Timestamp \<Rightarrow> (bytes \<Rightarrow> bytes \<Rightarrow> Timestamp \<Rightarrow> uuid \<Rightarrow> 'c \<Rightarrow> go_error + 'c) \<Rightarrow> read \<Rightarrow> 'c \<Rightarrow> go_error + 'c" where
  "add_checked expiration add r c = (case r of (start, ende, ts, txnID) \<Rightarrow>
     if Timestamp_LessEq expiration ts then Inl (LogFatalf ''Unsafe timestamp cache update!'') else add start ende ts txnID c)"

fun record_reads ::
  "Timestamp \<Rightarrow> (bytes \<Rightarrow> bytes \<Rightarrow> Timestamp \<Rightarrow> uuid \<Rightarrow> 'c \<Rightarrow> go_error + 'c) \<Rightarrow> Timestamp \<Rightarrow> uuid \<Rightarrow> kv_error option \<Rightarrow> kv_response list \<Rightarrow>
     nat \<Rightarrow> kv_request list \<Rightarrow> 'c \<Rightarrow> go_error + 'c" where
  "record_reads expiration add ts txnID pErr resps i [] c = Inr c"
| "record_reads expiration add ts txnID pErr resps i (req # reqs) c =
     res_bind (read_of ts txnID pErr resps i req) (\<lambda>r.
     res_bind (case r of None \<Rightarrow> Inr c | Some r \<Rightarrow> add_checked expiration add r c)
       (record_reads expiration add ts txnID pErr resps (i + 1) reqs))"

text \<open>The batch of the requests, the timestamp and the responses of its reply, if there is one.\<close>

definition updateTimestampCache_batch ::
  "Timestamp \<Rightarrow> (bytes \<Rightarrow> bytes \<Rightarrow> Timestamp \<Rightarrow> uuid \<Rightarrow> 'c \<Rightarrow> go_error + 'c) \<Rightarrow> Header \<Rightarrow> kv_request list \<Rightarrow> (Timestamp \<times> kv_response list) option \<Rightarrow>
     kv_error option \<Rightarrow> 'c \<Rightarrow> go_error + 'c" where
  "updateTimestampCache_batch expiration add h reqs br pErr c =
     (let (ts, resps) = (case br of Some r \<Rightarrow> r | None \<Rightarrow> (HTimestamp h, []))
      in record_reads expiration add ts (header_txnID h) pErr resps 0 reqs c)"

text \<open>The reads of a batch, in order.\<close>

fun reads_of :: "Timestamp \<Rightarrow> uuid \<Rightarrow> kv_error option \<Rightarrow> kv_response list \<Rightarrow> nat \<Rightarrow> kv_request list \<Rightarrow> go_error + read list" where
  "reads_of ts txnID pErr resps i [] = Inr []"
| "reads_of ts txnID pErr resps i (req # reqs) =
     res_bind (read_of ts txnID pErr resps i req) (\<lambda>r.
     res_bind (reads_of ts txnID pErr resps (i + 1) reqs) (\<lambda>rs. Inr (case r of None \<Rightarrow> rs | Some r \<Rightarrow> r # rs)))"

definition before :: "Timestamp \<Rightarrow> read \<Rightarrow> bool" where
  "before expiration r = (case r of (start, ende, ts, txn) \<Rightarrow> Timestamp_Less ts expiration)"

lemma add_checked_Inr:
  "add_checked expiration add r c = Inr c' \<longleftrightarrow> before expiration r \<and> add_all add [r] c = Inr c'"
  by (cases r) (auto simp: add_checked_def before_def ts_order)

lemma record_reads_Inr:
  "record_reads expiration add ts txnID pErr resps i reqs c = Inr c' \<longleftrightarrow>
     (\<exists>reads. reads_of ts txnID pErr resps i reqs = Inr reads \<and> list_all (before expiration) reads \<and> add_all add reads c = Inr c')"
proof (induction reqs arbitrary: i c)
  case (Cons req reqs)
  show ?case
  proof (cases "read_of ts txnID pErr resps i req")
    case (Inr r)
    show ?thesis
    proof (cases r)
      case (Some r')
      obtain start ende t u where "r' = (start, ende, t, u)" by (cases r')
      then show ?thesis using Inr Some by (auto simp: Cons.IH add_checked_Inr)
    qed (simp add: Inr Cons.IH)
  qed simp
qed auto

text \<open>
  Serving a batch leaves exactly its reads in the timestamp cache, in order, and only when each of them lies before the
  expiration of the lease: the keys that a scan got to, the keys of a conditional write that failed, the intent that was not found.
\<close>

theorem batch_leaves_reads:
  "updateTimestampCache_batch expiration add h reqs br pErr c = Inr c' \<longleftrightarrow>
     (\<exists>reads. reads_of (case br of Some (ts, _) \<Rightarrow> ts | None \<Rightarrow> HTimestamp h) (header_txnID h) pErr (case br of Some (_, resps) \<Rightarrow> resps | None \<Rightarrow> []) 0 reqs
        = Inr reads \<and> list_all (before expiration) reads \<and> add_all add reads c = Inr c')"
  by (cases br) (auto simp: updateTimestampCache_batch_def record_reads_Inr)

end
